(* ===== verification/Chdb_Prelude.thy ===== *)
theory Chdb_Prelude
  imports Main "HOL-Library.Word" "HOL-Library.Char_ord" "HOL-Library.List_Lexorder"
    "HOL-Library.Product_Lexorder"
begin

text \<open>
  Shared vocabulary of the development: the error codes the modelled code throws, results as
  sums, byte strings, and the generic facts on strictly sorted association lists (the model of
  \<^verbatim>\<open>std::map\<close>) that the component theories use.
\<close>

section \<open>Error codes and results\<close>

text \<open>
  The error codes of \<^verbatim>\<open>src/src/Common/ErrorCodes\<close> that the modelled functions throw, and
  \<open>OutOfRange\<close> for an access that the C++ code performs unchecked or through
  \<^verbatim>\<open>std::out_of_range\<close>, \<open>STD_TERMINATE\<close> for a call of \<^verbatim>\<open>std::terminate\<close>, \<open>ASSERTION_FAILED\<close> for an
  \<^verbatim>\<open>assert\<close> or \<^verbatim>\<open>chassert\<close> that does not hold, and \<open>SIGNED_OVERFLOW\<close> for signed arithmetic that leaves its
  type, which is undefined.
\<close>

datatype error_code =
    ATTEMPT_TO_READ_AFTER_EOF
  | BAD_ARGUMENTS
  | BAD_DATA_PART_NAME
  | CANNOT_ALLOCATE_MEMORY
  | CANNOT_COMPRESS
  | CANNOT_DECOMPRESS
  | CANNOT_GET_SIZE_OF_FIELD
  | CANNOT_PARSE_INPUT_ASSERTION_FAILED
  | CANNOT_PARSE_NUMBER
  | CANNOT_READ_ALL_DATA
  | CORRUPTED_DATA
  | ILLEGAL_CODEC_PARAMETER
  | ILLEGAL_SYNTAX_FOR_CODEC_TYPE
  | INCORRECT_DATA
  | INVALID_PARTITION_VALUE
  | LOGICAL_ERROR
  | NO_AVAILABLE_DATA
  | NOT_IMPLEMENTED
  | PARAMETER_OUT_OF_BOUND
  | POSITION_OUT_OF_BOUND
  | QUERY_CACHE_USED_WITH_NONDETERMINISTIC_FUNCTIONS
  | QUERY_CACHE_USED_WITH_SYSTEM_TABLE
  | SET_SIZE_LIMIT_EXCEEDED
  | SIZES_OF_ARRAYS_DONT_MATCH
  | SIZES_OF_COLUMNS_DOESNT_MATCH
  | TOO_LARGE_ARRAY_SIZE
  | TOO_LARGE_STRING_SIZE
  | UNKNOWN_CODEC
  | UNKNOWN_FORMAT_VERSION
  | OutOfRange
  | STD_TERMINATE
  | ASSERTION_FAILED
  | SIGNED_OVERFLOW

type_synonym 'a result = "error_code + 'a"

definition res_bind :: "'a result \<Rightarrow> ('a \<Rightarrow> 'b result) \<Rightarrow> 'b result" where
  "res_bind r f = (case r of Inl e \<Rightarrow> Inl e | Inr x \<Rightarrow> f x)"

definition res_map :: "('a \<Rightarrow> 'b) \<Rightarrow> 'a result \<Rightarrow> 'b result" where
  "res_map f r = res_bind r (\<lambda>x. Inr (f x))"

definition is_ok :: "'a result \<Rightarrow> bool" where
  "is_ok r = (case r of Inl _ \<Rightarrow> False | Inr _ \<Rightarrow> True)"

lemma res_bind_simps [simp]:
  "res_bind (Inl e) f = Inl e"
  "res_bind (Inr x) f = f x"
  by (simp_all add: res_bind_def)

lemma res_map_simps [simp]:
  "res_map f (Inl e) = Inl e"
  "res_map f (Inr x) = Inr (f x)"
  by (simp_all add: res_map_def)

lemma is_ok_simps [simp]:
  "\<not> is_ok (Inl e)"
  "is_ok (Inr x)"
  by (simp_all add: is_ok_def)

lemma res_Inr_iff:
  "res_bind r f = Inr y \<longleftrightarrow> (\<exists>x. r = Inr x \<and> f x = Inr y)"
  "res_map g r = Inr z \<longleftrightarrow> (\<exists>x. r = Inr x \<and> z = g x)"
  by (cases r; auto simp: res_map_def)+

lemma res_bind_InrE:
  assumes "res_bind r f = Inr y"
  obtains x where "r = Inr x" and "f x = Inr y"
  using assms by (cases r) auto

section \<open>Bytes\<close>

type_synonym byte = "8 word"

definition byte_of_char :: "char \<Rightarrow> byte" where
  "byte_of_char c = word_of_nat (of_char c)"

definition char_of_byte :: "byte \<Rightarrow> char" where
  "char_of_byte b = char_of (unat b)"

lemma char_of_byte_of_char [simp]: "char_of_byte (byte_of_char c) = c"
proof -
  have "(of_char c :: nat) < 256"
    by (rule nat_of_char_less_256)
  then have "unat (word_of_nat (of_char c) :: byte) = of_char c"
    by (simp add: unat_of_nat take_bit_nat_eq_self)
  then show ?thesis
    by (simp add: byte_of_char_def char_of_byte_def)
qed

lemma map_char_of_byte_of_char [simp]: "map char_of_byte (map byte_of_char s) = s"
  by (induction s) simp_all

section \<open>Strictly sorted association lists\<close>

text \<open>
  A \<^verbatim>\<open>std::map\<close> is a list of entries in strictly increasing order of a key; \<open>key\<close> gives the
  value the comparison operator looks at.  An iterator is a position, kept as the entries before
  it and the entries from it on.
\<close>

definition sorted_by :: "('a \<Rightarrow> 'k::linorder) \<Rightarrow> 'a list \<Rightarrow> bool" where
  "sorted_by key xs \<longleftrightarrow> sorted_wrt (\<lambda>x y. key x < key y) xs"

definition before :: "('a \<Rightarrow> 'k::linorder) \<Rightarrow> 'k \<Rightarrow> 'a list \<Rightarrow> 'a list" where
  "before key k xs = takeWhile (\<lambda>x. key x < k) xs"

definition from_lower_bound :: "('a \<Rightarrow> 'k::linorder) \<Rightarrow> 'k \<Rightarrow> 'a list \<Rightarrow> 'a list" where
  "from_lower_bound key k xs = dropWhile (\<lambda>x. key x < k) xs"

named_theorems map_simps \<open>positions in a strictly sorted association list\<close>

lemma sorted_by_Nil [simp]: "sorted_by key []"
  by (simp add: sorted_by_def)

lemma sorted_by_Cons [simp]:
  "sorted_by key (x # xs) \<longleftrightarrow> (\<forall>y\<in>set xs. key x < key y) \<and> sorted_by key xs"
  by (simp add: sorted_by_def)

lemma sorted_by_append:
  "sorted_by key (xs @ ys) \<longleftrightarrow>
     sorted_by key xs \<and> sorted_by key ys \<and> (\<forall>x\<in>set xs. \<forall>y\<in>set ys. key x < key y)"
  by (simp add: sorted_by_def sorted_wrt_append)

lemma before_append_from: "before key k xs @ from_lower_bound key k xs = xs"
  by (simp add: before_def from_lower_bound_def)

lemma before_less [map_simps]: "x \<in> set (before key k xs) \<Longrightarrow> key x < k"
  by (auto simp: before_def dest: set_takeWhileD)

lemma from_lower_bound_ge [map_simps]:
  assumes "sorted_by key xs" and "x \<in> set (from_lower_bound key k xs)"
  shows "k \<le> key x"
  using assms
  by (induction xs) (auto simp: from_lower_bound_def split: if_splits)

lemma set_before:
  assumes "sorted_by key xs"
  shows "set (before key k xs) = {x \<in> set xs. key x < k}"
  using assms by (induction xs) (auto simp: before_def)

lemma set_from_lower_bound:
  assumes "sorted_by key xs"
  shows "set (from_lower_bound key k xs) = {x \<in> set xs. k \<le> key x}"
  using assms
  by (induction xs) (auto simp: from_lower_bound_def)

lemma sorted_by_before: "sorted_by key xs \<Longrightarrow> sorted_by key (before key k xs)"
  by (subst (asm) before_append_from [of key k xs, symmetric]) (simp add: sorted_by_append)

lemma sorted_by_from: "sorted_by key xs \<Longrightarrow> sorted_by key (from_lower_bound key k xs)"
  by (subst (asm) before_append_from [of key k xs, symmetric]) (simp add: sorted_by_append)

lemma sorted_by_distinct: "sorted_by key xs \<Longrightarrow> distinct xs"
  by (induction xs) auto

lemma sorted_by_key_inj:
  assumes "sorted_by key xs" and "x \<in> set xs" and "y \<in> set xs" and "key x = key y"
  shows "x = y"
  using assms
proof (induction xs)
  case Nil
  then show ?case by simp
next
  case (Cons z xs)
  then show ?case
    by (metis less_irrefl set_ConsD sorted_by_Cons)
qed

lemma sorted_by_filter: "sorted_by key xs \<Longrightarrow> sorted_by key (filter P xs)"
  by (induction xs) auto

lemma sorted_by_unique:
  assumes "sorted_by key xs" and "sorted_by key ys" and "set xs = set ys"
  shows "xs = ys"
  using assms
proof (induction xs arbitrary: ys)
  case Nil
  then show ?case by simp
next
  case (Cons x xs)
  then obtain y ys' where ys: "ys = y # ys'"
    by (cases ys) auto
  have xy: "x = y"
  proof (rule ccontr)
    assume "x \<noteq> y"
    with Cons.prems ys have "x \<in> set ys'" and "y \<in> set xs"
      by auto
    with Cons.prems(1,2) ys have "key x < key y" and "key y < key x"
      by simp_all
    then show False by simp
  qed
  with Cons.prems ys have "set xs = set ys'"
    by auto
  with Cons ys xy show ?case
    by simp
qed

section \<open>Prefix scans\<close>

lemma takeWhile_eq_filter:
  assumes "sorted_wrt R xs"
    and "\<forall>x\<in>set xs. \<forall>y\<in>set xs. R x y \<longrightarrow> P y \<longrightarrow> P x"
  shows "takeWhile P xs = filter P xs"
  using assms
proof (induction xs)
  case Nil
  then show ?case by simp
next
  case (Cons x xs)
  then have IH: "takeWhile P xs = filter P xs"
    by simp
  show ?case
  proof (cases "P x")
    case True
    with IH show ?thesis by simp
  next
    case False
    with Cons.prems have "\<forall>y\<in>set xs. \<not> P y"
      by auto
    with False show ?thesis by simp
  qed
qed

text \<open>
  \<^verbatim>\<open>std::map::emplace\<close> leaves the map alone when the key is present; \<^verbatim>\<open>erase\<close> by key tells whether
  something was erased.
\<close>

definition map_emplace :: "('a \<Rightarrow> 'k::linorder) \<Rightarrow> 'a \<Rightarrow> 'a list \<Rightarrow> 'a list" where
  "map_emplace key x xs =
     (case from_lower_bound key (key x) xs of
        [] \<Rightarrow> before key (key x) xs @ [x]
      | y # ys \<Rightarrow> if key y = key x then xs else before key (key x) xs @ x # y # ys)"

definition map_erase :: "('a \<Rightarrow> 'k::linorder) \<Rightarrow> 'k \<Rightarrow> 'a list \<Rightarrow> 'a list \<times> bool" where
  "map_erase key k xs =
     (case from_lower_bound key k xs of
        [] \<Rightarrow> (xs, False)
      | y # ys \<Rightarrow> if key y = k then (before key k xs @ ys, True) else (xs, False))"

lemma map_emplace_new:
  assumes "\<forall>y\<in>set xs. key y \<noteq> key x"
  shows "map_emplace key x xs = before key (key x) xs @ x # from_lower_bound key (key x) xs"
proof (cases "from_lower_bound key (key x) xs")
  case Nil
  then show ?thesis by (simp add: map_emplace_def)
next
  case (Cons y ys)
  then have "y \<in> set xs"
    by (metis from_lower_bound_def list.set_intros(1) set_dropWhileD)
  then show ?thesis
    using assms Cons by (simp add: map_emplace_def)
qed

lemma set_map_emplace_new:
  assumes "\<forall>y\<in>set xs. key y \<noteq> key x"
  shows "set (map_emplace key x xs) = insert x (set xs)"
proof -
  have "set (map_emplace key x xs) = insert x (set (before key (key x) xs @ from_lower_bound key (key x) xs))"
    by (simp add: map_emplace_new [OF assms])
  then show ?thesis
    by (simp only: before_append_from)
qed

lemma sorted_by_map_emplace:
  assumes "sorted_by key xs" and new: "\<forall>y\<in>set xs. key y \<noteq> key x"
  shows "sorted_by key (map_emplace key x xs)"
proof -
  have split: "sorted_by key (before key (key x) xs @ from_lower_bound key (key x) xs)"
    using assms(1) by (simp only: before_append_from)
  moreover have "\<forall>y\<in>set (from_lower_bound key (key x) xs). key x < key y"
    using new by (auto simp: set_from_lower_bound [OF assms(1)] order.not_eq_order_implies_strict)
  moreover have "\<forall>y\<in>set (before key (key x) xs). key y < key x"
    by (simp add: set_before [OF assms(1)])
  ultimately show ?thesis
    by (simp add: map_emplace_new [OF new] sorted_by_append)
qed

lemma map_erase_filter:
  assumes "sorted_by key xs"
  shows "map_erase key k xs = (filter (\<lambda>x. key x \<noteq> k) xs, \<exists>x\<in>set xs. key x = k)"
  using assms
proof (induction xs)
  case Nil
  then show ?case by (simp add: map_erase_def from_lower_bound_def before_def)
next
  case (Cons x xs)
  consider "key x < k" | "key x = k" | "k < key x"
    using linorder_less_linear by blast
  then show ?case
  proof cases
    case 1
    then have "from_lower_bound key k (x # xs) = from_lower_bound key k xs"
      and "before key k (x # xs) = x # before key k xs"
      by (simp_all add: from_lower_bound_def before_def)
    then have "map_erase key k (x # xs) = apfst ((#) x) (map_erase key k xs)"
      by (simp add: map_erase_def split: list.split)
    moreover have "key x \<noteq> k"
      using 1 by simp
    ultimately show ?thesis
      using Cons by simp
  next
    case 2
    then have "\<forall>y\<in>set xs. key y \<noteq> k"
      using Cons.prems by (metis less_irrefl sorted_by_Cons)
    then show ?thesis
      using 2 by (simp add: map_erase_def from_lower_bound_def before_def filter_id_conv)
  next
    case 3
    then have "\<forall>y\<in>set xs. key y \<noteq> k" "key x \<noteq> k"
      using Cons.prems 3 by (metis less_asym sorted_by_Cons, simp)
    moreover have "\<not> key x < k"
      using 3 by (rule less_not_sym)
    ultimately show ?thesis
      by (simp add: map_erase_def from_lower_bound_def before_def filter_id_conv)
  qed
qed

end
