(* ===== verification/IO_ReadInt.thy ===== *)
theory IO_ReadInt
  imports Chdb_Prelude
begin

text \<open>
  Parsing of integers in text form, \<^verbatim>\<open>src/src/IO/readIntText.h\<close>, with the overflow-checked
  arithmetic of \<^verbatim>\<open>src/base/base/arithmeticOverflow.h\<close>.  A read buffer is the list of the
  characters not yet consumed.  The main result is that the parser computes the exact value of
  the digits it consumes and fails precisely when that value does not fit the target type.
\<close>

section \<open>Machine integer types\<close>

record int_type =
  is_signed :: bool
  width :: nat

abbreviation UInt32 :: int_type where "UInt32 \<equiv> \<lparr>is_signed = False, width = 32\<rparr>"
abbreviation UInt64 :: int_type where "UInt64 \<equiv> \<lparr>is_signed = False, width = 64\<rparr>"
abbreviation Int64 :: int_type where "Int64 \<equiv> \<lparr>is_signed = True, width = 64\<rparr>"

definition int_lo :: "int_type \<Rightarrow> int" where
  "int_lo ty = (if is_signed ty then - (2 ^ (width ty - 1)) else 0)"

definition int_hi :: "int_type \<Rightarrow> int" where
  "int_hi ty = (if is_signed ty then 2 ^ (width ty - 1) - 1 else 2 ^ width ty - 1)"

definition in_range :: "int_type \<Rightarrow> int \<Rightarrow> bool" where
  "in_range ty x \<longleftrightarrow> int_lo ty \<le> x \<and> x \<le> int_hi ty"

text \<open>Conversion to the type and to its unsigned counterpart (\<^verbatim>\<open>make_unsigned_t\<close>).\<close>

definition cast :: "int_type \<Rightarrow> int \<Rightarrow> int" where
  "cast ty x =
     (if is_signed ty then (x + 2 ^ (width ty - 1)) mod 2 ^ width ty - 2 ^ (width ty - 1)
      else x mod 2 ^ width ty)"

definition cast_unsigned :: "int_type \<Rightarrow> int \<Rightarrow> int" where
  "cast_unsigned ty x = x mod 2 ^ width ty"

text \<open>
  \<^verbatim>\<open>common::mulOverflow\<close>, \<^verbatim>\<open>addOverflow\<close> and \<^verbatim>\<open>subOverflow\<close>: \<open>None\<close> is the overflow flag.
  Products of 128- and 256-bit integers wrap around without raising it.
\<close>

definition mulOverflow :: "int_type \<Rightarrow> int \<Rightarrow> int \<Rightarrow> int option" where
  "mulOverflow ty x y =
     (if 64 < width ty then Some (cast ty (x * y))
      else if in_range ty (x * y) then Some (x * y) else None)"

definition addOverflow :: "int_type \<Rightarrow> int \<Rightarrow> int \<Rightarrow> int option" where
  "addOverflow ty x y = (if in_range ty (x + y) then Some (x + y) else None)"

definition subOverflow :: "int_type \<Rightarrow> int \<Rightarrow> int \<Rightarrow> int option" where
  "subOverflow ty x y = (if in_range ty (x - y) then Some (x - y) else None)"

section \<open>The parser\<close>

text \<open>
  The digit a character stands for; \<open>None\<close> where the switch jumps to \<^verbatim>\<open>end\<close>: letters are digits
  only for a base above ten, and a digit has to be below the base.
\<close>

definition digit_of :: "nat \<Rightarrow> char \<Rightarrow> nat option" where
  "digit_of base c =
     (let n = (of_char c :: nat) in
      if 48 \<le> n \<and> n \<le> 57 then (if n - 48 < base then Some (n - 48) else None)
      else if 65 \<le> n \<and> n \<le> 70 then
        (if 10 < base \<and> n - 55 < base then Some (n - 55) else None)
      else if 97 \<le> n \<and> n \<le> 102 then
        (if 10 < base \<and> n - 87 < base then Some (n - 87) else None)
      else None)"

text \<open>
  \<^verbatim>\<open>max_digits\<close>.  For base ten it is \<^verbatim>\<open>std::numeric_limits<T>::max_digits10\<close>, which is 0 for
  every integer type; \<^verbatim>\<open>digits\<close> is the number of value bits.
\<close>

definition value_bits :: "int_type \<Rightarrow> nat" where
  "value_bits ty = (if is_signed ty then width ty - 1 else width ty)"

definition max_digits :: "int_type \<Rightarrow> nat \<Rightarrow> nat" where
  "max_digits ty base =
     (if base = 10 then 0
      else if base = 2 then value_bits ty
      else if base = 8 then (value_bits ty + 2) div 3
      else if base = 16 then (value_bits ty + 3) div 4
      else 0)"

text \<open>
  One digit (label \<^verbatim>\<open>handle_digit\<close>): \<open>pos\<close> is \<^verbatim>\<open>buf.count() - initial_pos\<close>, \<open>res\<close> the unsigned
  accumulator.  \<open>None\<close> is the overflow exit.
\<close>

definition handle_digit ::
  "int_type \<Rightarrow> nat \<Rightarrow> bool \<Rightarrow> nat \<Rightarrow> bool \<Rightarrow> int \<Rightarrow> nat \<Rightarrow> int option" where
  "handle_digit ty base chk pos negative res digit =
     (if chk \<and> width ty \<le> 64 \<and> max_digits ty base \<le> pos + 1 then
        (if negative then
           (case mulOverflow ty (cast ty (- res)) (int base) of
              None \<Rightarrow> None
            | Some s \<Rightarrow>
                (case subOverflow ty s (int digit) of
                   None \<Rightarrow> None
                 | Some s' \<Rightarrow> Some (cast_unsigned ty (- cast_unsigned ty s'))))
         else
           (case mulOverflow ty (cast ty res) (int base) of
              None \<Rightarrow> None
            | Some s \<Rightarrow>
                (case addOverflow ty s (int digit) of
                   None \<Rightarrow> None
                 | Some s' \<Rightarrow> Some (cast_unsigned ty s'))))
      else Some (cast_unsigned ty (cast_unsigned ty (res * int base) + int digit)))"

record read_state =
  rs_negative :: bool
  rs_has_sign :: bool
  rs_has_number :: bool
  rs_res :: int

text \<open>
  The scanning loop.  \<open>Inl\<close> is an early failure; \<open>Inr\<close> carries the state at label \<^verbatim>\<open>end\<close> and the
  characters left.
\<close>

fun read_loop ::
  "int_type \<Rightarrow> nat \<Rightarrow> bool \<Rightarrow> nat \<Rightarrow> read_state \<Rightarrow> string \<Rightarrow> (read_state \<times> string) result" where
  "read_loop ty base chk pos s [] = Inr (s, [])"
| "read_loop ty base chk pos s (c # cs) =
     (if c = CHR ''+'' then
        (if rs_has_number s then Inr (s, c # cs)
         else if rs_has_sign s then Inl CANNOT_PARSE_NUMBER
         else read_loop ty base chk (Suc pos) (s\<lparr>rs_has_sign := True\<rparr>) cs)
      else if c = CHR ''-'' then
        (if rs_has_number s then Inr (s, c # cs)
         else if rs_has_sign s then Inl CANNOT_PARSE_NUMBER
         else if is_signed ty then
           read_loop ty base chk (Suc pos) (s\<lparr>rs_negative := True, rs_has_sign := True\<rparr>) cs
         else Inl CANNOT_PARSE_NUMBER)
      else
        (case digit_of base c of
           None \<Rightarrow> Inr (s, c # cs)
         | Some d \<Rightarrow>
             (case handle_digit ty base chk pos (rs_negative s) (rs_res s) d of
                None \<Rightarrow> Inl CANNOT_PARSE_NUMBER
              | Some r \<Rightarrow>
                  read_loop ty base chk (Suc pos) (s\<lparr>rs_has_number := True, rs_res := r\<rparr>) cs)))"

definition finish_read :: "int_type \<Rightarrow> bool \<Rightarrow> read_state \<Rightarrow> int result" where
  "finish_read ty chk s =
     (if rs_has_sign s \<and> \<not> rs_has_number s then Inl CANNOT_PARSE_NUMBER
      else if is_signed ty \<and> rs_negative s then
        (if chk then
           (case mulOverflow ty (rs_res s) (- 1) of
              None \<Rightarrow> Inl CANNOT_PARSE_NUMBER
            | Some x \<Rightarrow> Inr x)
         else Inr (cast ty (- rs_res s)))
      else Inr (cast ty (rs_res s)))"

definition readIntTextInBaseImpl ::
  "int_type \<Rightarrow> nat \<Rightarrow> bool \<Rightarrow> string \<Rightarrow> (int \<times> string) result" where
  "readIntTextInBaseImpl ty base chk buf =
     (if buf = [] then Inl ATTEMPT_TO_READ_AFTER_EOF
      else res_bind
        (read_loop ty base chk 0
           \<lparr>rs_negative = False, rs_has_sign = False, rs_has_number = False, rs_res = 0\<rparr> buf)
        (\<lambda>(s, rest). res_map (\<lambda>x. (x, rest)) (finish_read ty chk s)))"

text \<open>
  \<^verbatim>\<open>tryReadIntText\<close>, the variant with a boolean result: base ten, overflow checked.
\<close>

definition tryReadIntText :: "int_type \<Rightarrow> string \<Rightarrow> (int \<times> string) option" where
  "tryReadIntText ty buf =
     (case readIntTextInBaseImpl ty 10 True buf of Inl _ \<Rightarrow> None | Inr r \<Rightarrow> Some r)"

text \<open>\<^verbatim>\<open>checkChar\<close> and \<^verbatim>\<open>readChar\<close> of \<^verbatim>\<open>src/src/IO/ReadHelpers.h\<close>.\<close>

definition checkChar :: "char \<Rightarrow> string \<Rightarrow> string option" where
  "checkChar c buf = (case buf of [] \<Rightarrow> None | a # rest \<Rightarrow> if a \<noteq> c then None else Some rest)"

definition readChar :: "string \<Rightarrow> (char \<times> string) result" where
  "readChar buf = (case buf of [] \<Rightarrow> Inl ATTEMPT_TO_READ_AFTER_EOF | a # rest \<Rightarrow> Inr (a, rest))"

section \<open>The parser is exact\<close>

text \<open>
  The types the overflow check covers, the magnitude a number of either sign may have, and the
  value of a digit string read after \<open>v\<close>.
\<close>

definition machine_type :: "int_type \<Rightarrow> bool" where
  "machine_type ty \<longleftrightarrow> 1 \<le> width ty \<and> width ty \<le> 64"

definition magnitude :: "int_type \<Rightarrow> bool \<Rightarrow> int" where
  "magnitude ty negative = (if negative then - int_lo ty else int_hi ty)"

definition is_digit :: "nat \<Rightarrow> char \<Rightarrow> bool" where
  "is_digit base c \<longleftrightarrow> digit_of base c \<noteq> None"

fun text_value :: "nat \<Rightarrow> int \<Rightarrow> string \<Rightarrow> int" where
  "text_value base v [] = v"
| "text_value base v (c # cs) = text_value base (v * int base + int (the (digit_of base c))) cs"

lemma digit_of_less: "digit_of base c = Some d \<Longrightarrow> d < base"
  by (auto simp: digit_of_def Let_def split: if_splits)

lemma digit_of_sign [simp]: "digit_of base CHR ''+'' = None" "digit_of base CHR ''-'' = None"
  by (simp_all add: digit_of_def)

lemma int_hi_nonneg: "machine_type ty \<Longrightarrow> 0 \<le> int_hi ty"
  by (simp add: int_hi_def)

lemma cast_in_range:
  assumes "machine_type ty" and "in_range ty x"
  shows "cast ty x = x"
proof -
  have w: "(2::int) ^ width ty = 2 * 2 ^ (width ty - 1)"
    using assms(1) by (simp add: machine_type_def flip: power_Suc)
  show ?thesis
  proof (cases "is_signed ty")
    case True
    with assms(2) have "0 \<le> x + 2 ^ (width ty - 1)" and "x + 2 ^ (width ty - 1) < 2 ^ width ty"
      by (auto simp: in_range_def int_lo_def int_hi_def w)
    with True show ?thesis by (simp add: cast_def)
  next
    case False
    with assms(2) show ?thesis by (simp add: cast_def in_range_def int_lo_def int_hi_def)
  qed
qed

lemma cast_unsigned_id: "0 \<le> x \<Longrightarrow> x < 2 ^ width ty \<Longrightarrow> cast_unsigned ty x = x"
  by (simp add: cast_unsigned_def)

lemma cast_unsigned_neg: "0 \<le> x \<Longrightarrow> x < 2 ^ width ty \<Longrightarrow> cast_unsigned ty (- cast_unsigned ty (- x)) = x"
  by (simp add: cast_unsigned_def mod_minus_eq)

lemma half_range:
  assumes "machine_type ty"
  obtains h :: int where "0 < h" and "2 ^ width ty = 2 * h" and "2 ^ (width ty - 1) = h"
proof
  show "(0::int) < 2 ^ (width ty - 1)"
    by simp
  show "(2::int) ^ width ty = 2 * 2 ^ (width ty - 1)"
    using assms by (simp add: machine_type_def flip: power_Suc)
qed simp

lemma magnitude_less:
  assumes "machine_type ty"
  shows "magnitude ty negative < 2 ^ width ty"
proof -
  obtain h :: int where "0 < h" "2 ^ width ty = 2 * h" "2 ^ (width ty - 1) = h"
    using half_range [OF assms] .
  then show ?thesis
    unfolding magnitude_def int_lo_def int_hi_def by auto
qed

lemma magnitude_in_range:
  assumes "machine_type ty" and "0 \<le> x" and "negative \<Longrightarrow> is_signed ty"
  shows "in_range ty (if negative then - x else x) \<longleftrightarrow> x \<le> magnitude ty negative"
proof -
  obtain h :: int where "0 < h" "2 ^ width ty = 2 * h" "2 ^ (width ty - 1) = h"
    using half_range [OF assms(1)] .
  then show ?thesis
    using assms unfolding in_range_def magnitude_def int_lo_def int_hi_def by auto
qed

lemma max_digits_bound:
  assumes "machine_type ty" and "pos + 1 < max_digits ty base"
  shows "int base ^ (pos + 1) \<le> 2 ^ (value_bits ty - 1)"
proof -
  have p: "(2::int) ^ k \<le> 2 ^ (value_bits ty - 1)" if "k \<le> value_bits ty - 1" for k
    using that by (intro power_increasing) auto
  consider "base = 2" | "base = 8" | "base = 16"
    using assms(2) by (auto simp: max_digits_def split: if_splits)
  then show ?thesis
  proof cases
    case 1
    with assms(2) have "pos + 1 \<le> value_bits ty - 1"
      by (simp add: max_digits_def)
    with 1 p [of "pos + 1"] show ?thesis by simp
  next
    case 2
    with assms(2) have "3 * (pos + 1) \<le> value_bits ty - 1"
      by (simp add: max_digits_def)
    moreover have "(8::int) ^ (pos + 1) = 2 ^ (3 * (pos + 1))"
      by (simp only: power_mult) simp
    ultimately show ?thesis using 2 p by simp
  next
    case 3
    with assms(2) have "4 * (pos + 1) \<le> value_bits ty - 1"
      by (simp add: max_digits_def)
    moreover have "(16::int) ^ (pos + 1) = 2 ^ (4 * (pos + 1))"
      by (simp only: power_mult) simp
    ultimately show ?thesis using 3 p by simp
  qed
qed

lemma handle_digit_exact:
  assumes ty: "machine_type ty" and neg: "negative \<Longrightarrow> is_signed ty"
    and res: "0 \<le> res" "res \<le> magnitude ty negative" "res < int base ^ pos"
    and d: "d < base"
  shows "handle_digit ty base True pos negative res d =
    (if res * int base + int d \<le> magnitude ty negative
     then Some (res * int base + int d) else None)"
proof (cases "max_digits ty base \<le> pos + 1")
  case True
  have le: "res * int base \<le> magnitude ty negative"
    if "res * int base + int d \<le> magnitude ty negative"
    using that by simp
  have nn: "0 \<le> res * int base" "0 \<le> res * int base + int d"
    using res(1) by simp_all
  note rng = magnitude_in_range [where negative = negative, OF ty _ neg]
  note lt = magnitude_less [OF ty, of negative]
  show ?thesis
  proof (cases negative)
    case neg': True
    have c: "cast ty (- res) = - res"
      using rng [OF res(1)] res(2) neg' by (intro cast_in_range [OF ty]) simp
    have m: "in_range ty (- (res * int base)) \<longleftrightarrow> res * int base \<le> magnitude ty True"
      and m': "in_range ty (- (res * int base + int d)) \<longleftrightarrow>
        res * int base + int d \<le> magnitude ty True"
      using rng [OF nn(1)] rng [OF nn(2)] neg' by simp_all
    have u: "cast_unsigned ty (- cast_unsigned ty (- (res * int base + int d))) = res * int base + int d"
      if "res * int base + int d \<le> magnitude ty True"
      using that lt neg' nn(2) by (intro cast_unsigned_neg) simp_all
    have e: "- (res * int base) - int d = - (res * int base + int d)"
      by simp
    show ?thesis
      using True ty neg' le m m' u
      by (simp add: handle_digit_def mulOverflow_def subOverflow_def c machine_type_def e
          del: minus_add_distrib)
  next
    case pos': False
    have c: "cast ty res = res"
      using rng [OF res(1)] res(2) pos' by (intro cast_in_range [OF ty]) simp
    have m: "in_range ty (res * int base) \<longleftrightarrow> res * int base \<le> magnitude ty False"
      and m': "in_range ty (res * int base + int d) \<longleftrightarrow>
        res * int base + int d \<le> magnitude ty False"
      using rng [OF nn(1)] rng [OF nn(2)] pos' by simp_all
    have u: "cast_unsigned ty (res * int base + int d) = res * int base + int d"
      if "res * int base + int d \<le> magnitude ty False"
      using that lt pos' nn(2) by (intro cast_unsigned_id) simp_all
    show ?thesis
      using True ty pos' le m m' u
      by (simp add: handle_digit_def mulOverflow_def addOverflow_def c machine_type_def)
  qed
next
  case False
  have "res * int base + int d < int base ^ (pos + 1)"
  proof -
    have "res * int base + int d < res * int base + int base"
      using d by simp
    also have "\<dots> = (res + 1) * int base"
      by (simp add: algebra_simps)
    also have "\<dots> \<le> int base ^ pos * int base"
      using res(3) by (intro mult_right_mono) simp_all
    finally show ?thesis by (simp add: mult.commute)
  qed
  also have "\<dots> \<le> 2 ^ (value_bits ty - 1)"
    using False by (intro max_digits_bound [OF ty]) simp
  finally have small: "res * int base + int d < 2 ^ (value_bits ty - 1)" .
  have "(2::int) ^ (value_bits ty - 1) \<le> magnitude ty negative + 1"
  proof -
    have "(2::int) ^ (value_bits ty - 1) \<le> 2 ^ value_bits ty"
      by (intro power_increasing) simp_all
    also have "\<dots> \<le> magnitude ty negative + 1"
      using neg by (auto simp: magnitude_def int_hi_def int_lo_def value_bits_def)
    finally show ?thesis .
  qed
  with small have le: "res * int base + int d \<le> magnitude ty negative"
    by simp
  moreover have "cast_unsigned ty (cast_unsigned ty (res * int base) + int d) = res * int base + int d"
  proof -
    have "res * int base \<le> magnitude ty negative"
      using le by simp
    with le magnitude_less [OF ty, of negative] res(1) show ?thesis
      by (simp add: cast_unsigned_def)
  qed
  ultimately show ?thesis
    using False by (simp add: handle_digit_def)
qed

lemma text_value_ge: "0 \<le> v \<Longrightarrow> 0 < base \<Longrightarrow> v \<le> text_value base v cs"
proof (induction cs arbitrary: v)
  case Nil
  then show ?case by simp
next
  case (Cons c cs)
  let ?v = "v * int base + int (the (digit_of base c))"
  have "v \<le> v * int base"
    using Cons.prems by (simp add: mult_le_cancel_left1)
  then have "v \<le> ?v" by simp
  also have "?v \<le> text_value base ?v cs"
    using Cons.prems by (intro Cons.IH) simp_all
  finally show ?case by simp
qed

text \<open>Where the loop stops: at the end of the input or at a character that is no digit.\<close>

definition stops :: "nat \<Rightarrow> string \<Rightarrow> bool" where
  "stops base rest \<longleftrightarrow> (case rest of [] \<Rightarrow> True | c # _ \<Rightarrow> \<not> is_digit base c)"

lemma read_loop_stops:
  assumes "stops base rest" and "rs_has_number s"
  shows "read_loop ty base chk pos s rest = Inr (s, rest)"
  using assms by (cases rest) (auto simp: stops_def is_digit_def)

lemma read_loop_digits:
  assumes ty: "machine_type ty" and base: "0 < base" and stop: "stops base rest"
    and "list_all (is_digit base) ds" and "ds \<noteq> [] \<or> rs_has_number s"
    and "rs_negative s \<Longrightarrow> is_signed ty"
    and "0 \<le> rs_res s" and "rs_res s \<le> magnitude ty (rs_negative s)"
    and "rs_res s < int base ^ pos"
  shows "read_loop ty base True pos s (ds @ rest) =
    (let v = text_value base (rs_res s) ds in
     if v \<le> magnitude ty (rs_negative s)
     then Inr (s\<lparr>rs_has_number := True, rs_res := v\<rparr>, rest)
     else Inl CANNOT_PARSE_NUMBER)"
  using assms(4-)
proof (induction ds arbitrary: s pos)
  case Nil
  then show ?case using read_loop_stops [OF stop, of s] by simp
next
  case (Cons c ds)
  from Cons.prems(1) obtain d where d: "digit_of base c = Some d"
    by (auto simp: is_digit_def)
  then have sign: "c \<noteq> CHR ''+''" "c \<noteq> CHR ''-''" and "d < base"
    by (auto dest: digit_of_less)
  let ?v = "rs_res s * int base + int d"
  note step = handle_digit_exact [OF ty, of "rs_negative s", OF Cons.prems(3-6) \<open>d < base\<close>]
  show ?case
  proof (cases "?v \<le> magnitude ty (rs_negative s)")
    case True
    let ?s = "s\<lparr>rs_has_number := True, rs_res := ?v\<rparr>"
    have "?v < int base ^ Suc pos"
    proof -
      have "?v < (rs_res s + 1) * int base"
        using \<open>d < base\<close> by (simp add: algebra_simps)
      also have "\<dots> \<le> int base ^ pos * int base"
        using Cons.prems(6) by (intro mult_right_mono) simp_all
      finally show ?thesis by (simp add: mult.commute)
    qed
    then have "read_loop ty base True (Suc pos) ?s (ds @ rest) =
        (let v = text_value base ?v ds in
         if v \<le> magnitude ty (rs_negative s)
         then Inr (?s\<lparr>rs_has_number := True, rs_res := v\<rparr>, rest)
         else Inl CANNOT_PARSE_NUMBER)"
      using Cons.IH [of ?s "Suc pos"] Cons.prems True by simp
    with d sign step True show ?thesis by (simp add: Let_def)
  next
    case False
    have "?v \<le> text_value base ?v ds"
      using Cons.prems(4) base by (intro text_value_ge) simp_all
    with False d sign step show ?thesis by simp
  qed
qed

text \<open>
  The number a sign and a digit string denote, and the characters that may precede it.
\<close>

definition signed_value :: "nat \<Rightarrow> string \<Rightarrow> string \<Rightarrow> int" where
  "signed_value base sg ds =
     (if sg = ''-'' then - text_value base 0 ds else text_value base 0 ds)"

lemma readIntTextInBaseImpl_exact:
  assumes ty: "machine_type ty" and base: "0 < base"
    and sg: "sg \<in> {[], ''+'', ''-''}" and sgd: "sg = ''-'' \<Longrightarrow> is_signed ty"
    and ds: "ds \<noteq> []" "list_all (is_digit base) ds" and stop: "stops base rest"
  shows "readIntTextInBaseImpl ty base True (sg @ ds @ rest) =
    (if in_range ty (signed_value base sg ds) then Inr (signed_value base sg ds, rest)
     else Inl CANNOT_PARSE_NUMBER)"
proof -
  define v where "v = text_value base 0 ds"
  have v: "0 \<le> v"
    unfolding v_def by (rule text_value_ge) (use base in simp_all)
  let ?neg = "sg = ''-''"
  define s where "s = \<lparr>rs_negative = ?neg, rs_has_sign = sg \<noteq> [], rs_has_number = False, rs_res = 0\<rparr>"
  have mag: "0 \<le> magnitude ty ?neg"
    using int_hi_nonneg [OF ty] by (simp add: magnitude_def int_lo_def)
  have rng: "in_range ty (signed_value base sg ds) \<longleftrightarrow> v \<le> magnitude ty ?neg"
    using magnitude_in_range [where negative = ?neg, OF ty v sgd]
    by (auto simp: signed_value_def v_def)
  have "read_loop ty base True 0
      \<lparr>rs_negative = False, rs_has_sign = False, rs_has_number = False, rs_res = 0\<rparr>
      (sg @ ds @ rest) = read_loop ty base True (length sg) s (ds @ rest)"
    using sg sgd by (auto simp: s_def)
  also have "\<dots> = (if v \<le> magnitude ty ?neg
      then Inr (s\<lparr>rs_has_number := True, rs_res := v\<rparr>, rest) else Inl CANNOT_PARSE_NUMBER)"
    using read_loop_digits [OF ty base stop ds(2), of s "length sg"] ds(1) sgd mag base
    by (simp add: s_def v_def Let_def)
  finally have loop: "read_loop ty base True 0
      \<lparr>rs_negative = False, rs_has_sign = False, rs_has_number = False, rs_res = 0\<rparr>
      (sg @ ds @ rest) = (if v \<le> magnitude ty ?neg
      then Inr (s\<lparr>rs_has_number := True, rs_res := v\<rparr>, rest) else Inl CANNOT_PARSE_NUMBER)" .
  have "finish_read ty True (s\<lparr>rs_has_number := True, rs_res := v\<rparr>) =
      Inr (signed_value base sg ds)" if "v \<le> magnitude ty ?neg"
    using ty that rng sgd cast_in_range [OF ty, of v]
    by (auto simp: finish_read_def s_def machine_type_def mulOverflow_def signed_value_def v_def)
  with loop rng ds(1) show ?thesis
    by (simp add: readIntTextInBaseImpl_def)
qed

text \<open>Whatever the text, the value returned is one of the type.\<close>

lemma in_range_cast:
  assumes "machine_type ty"
  shows "in_range ty (cast ty x)"
proof -
  have w: "(2::int) ^ width ty = 2 * 2 ^ (width ty - 1)"
    using assms by (simp add: machine_type_def flip: power_Suc)
  have "0 \<le> y mod 2 ^ width ty" and "y mod 2 ^ width ty < 2 ^ width ty" for y :: int
    by simp_all
  from this [of x] this [of "x + 2 ^ (width ty - 1)"] show ?thesis
    using w by (auto simp: in_range_def cast_def int_lo_def int_hi_def)
qed

lemma tryReadIntText_in_range:
  assumes "machine_type ty" and "tryReadIntText ty buf = Some (x, rest)"
  shows "in_range ty x"
proof -
  have "finish_read ty True s = Inr x \<Longrightarrow> in_range ty x" for s
    using assms(1)
    by (auto simp: finish_read_def mulOverflow_def in_range_cast split: if_splits option.splits)
  then show ?thesis
    using assms(2)
    by (auto simp: tryReadIntText_def readIntTextInBaseImpl_def res_bind_def res_map_def
        split: sum.splits if_splits)
qed

section \<open>Properties\<close>

text \<open>C16: On an optional sign followed by at least one digit of the base, the checked parser of every
  integer type of at most 64 bits returns exactly the value the digits denote and leaves the rest of
  the buffer, or, precisely when this value does not fit the type, fails with
  \<^verbatim>\<open>CANNOT_PARSE_NUMBER\<close>: it neither wraps around nor rejects a value that fits.\<close>

theorem readIntText_value_or_overflow:
  assumes "machine_type ty" and "0 < base"
    and "sg \<in> {[], ''+'', ''-''}" and "sg = ''-'' \<Longrightarrow> is_signed ty"
    and "ds \<noteq> []" "list_all (is_digit base) ds" and "stops base rest"
  shows "readIntTextInBaseImpl ty base True (sg @ ds @ rest) =
    (if in_range ty (signed_value base sg ds) then Inr (signed_value base sg ds, rest)
     else Inl CANNOT_PARSE_NUMBER)"
  using assms by (rule readIntTextInBaseImpl_exact)

theorem readIntText_value_or_overflow_witness:
  "readIntTextInBaseImpl \<lparr>is_signed = True, width = 8\<rparr> 10 True (''-'' @ ''128'' @ '','') = Inr (- 128, '','')
   \<and> readIntTextInBaseImpl \<lparr>is_signed = True, width = 8\<rparr> 10 True ([] @ ''128'' @ '','')
       = Inl CANNOT_PARSE_NUMBER"
  using readIntText_value_or_overflow [of "\<lparr>is_signed = True, width = 8\<rparr>" 10 "''-''" "''128''" "'',''"]
    readIntText_value_or_overflow [of "\<lparr>is_signed = True, width = 8\<rparr>" 10 "[]" "''128''" "'',''"]
  by (simp add: machine_type_def is_digit_def digit_of_def stops_def in_range_def int_lo_def
      int_hi_def signed_value_def)

end
