(* ===== verification/IO_Itoa.thy ===== *)
theory IO_Itoa
  imports IO_ReadInt
begin

text \<open>
  Conversion of integers to decimal text, \<^verbatim>\<open>src/base/base/itoa.cpp\<close>: the table-driven routine
  \<^verbatim>\<open>jeaiii::to_text_from_integer\<close> for the types of up to 64 bits, which multiplies by a rounded
  reciprocal and reads the decimal digits off a fixed-point fraction, and the routines for 128
  and 256 bits, which split off blocks of 18 digits, for 128 bits by a Barrett reduction.  All of
  them are shown to produce the ordinary decimal numeral.

  Values are natural numbers and every operation that the code performs in a fixed width is
  reduced modulo \<open>2 ^ 32\<close>, \<open>2 ^ 64\<close> or \<open>2 ^ 128\<close>.  The multiplier constants are the values of the
  source's floating-point constant expressions, for example \<open>UInt32(10 * (1 << 24) / 1e3 + 1)\<close>.
\<close>

section \<open>Digits\<close>

definition digit_char :: "nat \<Rightarrow> char" where
  "digit_char d = char_of (48 + d)"

text \<open>
  The tables \<^verbatim>\<open>digits.dd\<close> (always two digits) and \<^verbatim>\<open>digits.fd\<close> (a single digit is followed by a
  zero byte, which the next write overwrites).
\<close>

definition pair_dd :: "nat \<Rightarrow> string" where
  "pair_dd d = [digit_char (d div 10), digit_char (d mod 10)]"

definition pair_fd :: "nat \<Rightarrow> string" where
  "pair_fd d = (if d < 10 then [digit_char d, CHR 0x00] else pair_dd d)"

definition outOneDigit :: "nat \<Rightarrow> string" where
  "outOneDigit value = [digit_char value]"

definition outTwoDigits :: "nat \<Rightarrow> string" where
  "outTwoDigits value = pair_dd value"

text \<open>
  \<^verbatim>\<open>*(pair *)b = digits.fd[d]; b -= short;\<close> followed by writes from \<^verbatim>\<open>b + 2\<close>: with \<open>short\<close> only the
  first of the two characters survives.
\<close>

definition first_pair :: "bool \<Rightarrow> nat \<Rightarrow> string" where
  "first_pair short d = (if short then take 1 (pair_fd d) else pair_fd d)"

text \<open>
  The repeated step \<^verbatim>\<open>f = (f & mask) * 100; b = digits.dd[f >> k]\<close>, in 64-bit arithmetic.
\<close>

fun next_pairs :: "nat \<Rightarrow> nat \<Rightarrow> nat \<Rightarrow> string" where
  "next_pairs k 0 f = []"
| "next_pairs k (Suc m) f =
     (let f' = (f mod 2 ^ k * 100) mod 2 ^ 64 in pair_dd (f' div 2 ^ k) @ next_pairs k m f')"

section \<open>Types of up to 64 bits\<close>

text \<open>The branches by magnitude; \<open>w\<close> is the width of the unsigned type \<^verbatim>\<open>U\<close> of the value.\<close>

definition text_below_1e4 :: "nat \<Rightarrow> nat \<Rightarrow> string" where
  "text_below_1e4 w n =
     (let f0 = (167773 * n) mod 2 ^ max 32 w in
      first_pair (w = 8 \<or> n < 1000) (f0 div 2 ^ 24) @ next_pairs 24 1 f0)"

definition text_below_1e6 :: "nat \<Rightarrow> nat \<Rightarrow> string" where
  "text_below_1e6 w n =
     (let f0 = (429497 * n) mod 2 ^ 64 in
      first_pair (w = 16 \<or> n < 100000) (f0 div 2 ^ 32) @ next_pairs 32 2 f0)"

definition text_below_1e8 :: "nat \<Rightarrow> string" where
  "text_below_1e8 n =
     (let f0 = (281474977 * n) mod 2 ^ 64 div 2 ^ 16 in
      first_pair (n < 10000000) (f0 div 2 ^ 32) @ next_pairs 32 3 f0)"

definition text_below_2e32 :: "nat \<Rightarrow> string" where
  "text_below_2e32 n =
     (let f0 = (1441151881 * n) mod 2 ^ 64 in
      first_pair (n < 1000000000) (f0 div 2 ^ 57) @ next_pairs 57 4 f0)"

text \<open>\<^verbatim>\<open>do 8 digits\<close>\<close>

definition eight_digits :: "nat \<Rightarrow> string" where
  "eight_digits z =
     (let f0 = ((281474977 * z) mod 2 ^ 64 div 2 ^ 16 + 1) mod 2 ^ 64 in
      pair_dd (f0 div 2 ^ 32) @ next_pairs 32 3 f0)"

text \<open>Above 32 bits: the digits before the last eight.\<close>

definition text_of_upper :: "nat \<Rightarrow> string" where
  "text_of_upper u =
     (if u < 100 then pair_dd u
      else if u < 1000000 then
        (if u < 10000 then text_below_1e4 64 u else text_below_1e6 64 u)
      else if u < 100000000 then text_below_1e8 u
      else if u < 2 ^ 32 then text_below_2e32 u
      else
        (let y = u mod 100000000; u' = u div 100000000 in
         (if u' < 100 then pair_dd u' else text_below_1e4 64 u') @ eight_digits y))"

definition text_from_unsigned :: "nat \<Rightarrow> nat \<Rightarrow> string" where
  "text_from_unsigned w n =
     (if n < 100 then (if n < 10 then outOneDigit n else outTwoDigits n)
      else if n < 1000000 then
        (if w = 8 \<or> n < 10000 then text_below_1e4 w n else text_below_1e6 w n)
      else if w = 32 \<or> n < 2 ^ 32 then
        (if n < 100000000 then text_below_1e8 n else text_below_2e32 n)
      else
        (let z = n mod 100000000; u = n div 100000000 in text_of_upper u @ eight_digits z))"

text \<open>
  \<^verbatim>\<open>to_text_from_integer\<close>: the width of \<^verbatim>\<open>U\<close> is that of \<^verbatim>\<open>T\<close>; a negative value writes the sign and
  continues with \<^verbatim>\<open>U(0) - U(i)\<close>.
\<close>

definition to_text_from_integer :: "int_type \<Rightarrow> int \<Rightarrow> string" where
  "to_text_from_integer ty i =
     (let w = width ty in
      if i < 0 then CHR ''-'' # text_from_unsigned w (nat ((0 - i mod 2 ^ w) mod 2 ^ w))
      else text_from_unsigned w (nat (i mod 2 ^ w)))"

section \<open>128 and 256 bits\<close>

text \<open>
  \<^verbatim>\<open>divmod_1e18\<close>: Barrett reduction of a 128-bit value by \<open>10 ^ 18\<close>, with the schoolbook product
  by \<open>M = M_hi * 2 ^ 64 + M_lo\<close>.  The result is the quotient and the remainder.
\<close>

definition divmod_1e18 :: "nat \<Rightarrow> nat \<times> nat" where
  "divmod_1e18 n =
     (let M_lo = 0x725DD1D243ABA0E7;
          M_hi = 0x12;
          n_lo = n mod 2 ^ 64;
          n_hi = n div 2 ^ 64;
          c = n_lo * M_lo mod 2 ^ 128;
          c_hi = c div 2 ^ 64 mod 2 ^ 64;
          mid = (n_hi * M_lo + n_lo * M_hi + c_hi) mod 2 ^ 128;
          q = (n_hi * M_hi + mid div 2 ^ 64 mod 2 ^ 64) mod 2 ^ 128;
          r = nat ((int n - int (q * 10 ^ 18)) mod 2 ^ 128)
      in if 10 ^ 18 \<le> r
         then ((q + 1) mod 2 ^ 128, (r - 10 ^ 18) mod 2 ^ 64)
         else (q, r mod 2 ^ 64))"

text \<open>
  \<^verbatim>\<open>extractDigitPairs\<close> gives nine base-100 digits, the lowest first; \<^verbatim>\<open>writeDigitPairs\<close> prints
  them from the highest.
\<close>

fun base100_digits :: "nat \<Rightarrow> nat \<Rightarrow> nat list" where
  "base100_digits 0 r = []"
| "base100_digits (Suc m) r = r mod 100 # base100_digits m (r div 100)"

definition extractDigitPairs :: "nat \<Rightarrow> nat list" where
  "extractDigitPairs remainder = base100_digits 9 remainder"

definition writeDigitPairs :: "nat list \<Rightarrow> string" where
  "writeDigitPairs two_values = concat (map outTwoDigits (rev two_values))"

definition writeUIntText_128 :: "nat \<Rightarrow> string" where
  "writeUIntText_128 x =
     (if x div 2 ^ 64 = 0 then to_text_from_integer UInt64 (int (x mod 2 ^ 64))
      else
        (let (x1, r1) = divmod_1e18 x in
         if 2 ^ 64 - 1 < x1 then
           (let (x2, r2) = divmod_1e18 x1 in
            to_text_from_integer UInt64 (int (x2 mod 2 ^ 64)) @
            writeDigitPairs (extractDigitPairs r1 @ extractDigitPairs r2))
         else
           to_text_from_integer UInt64 (int (x1 mod 2 ^ 64)) @
           writeDigitPairs (extractDigitPairs r1)))"

text \<open>The loop of the 256-bit routine splits off blocks until 128 bits are enough.\<close>

function split_blocks :: "nat \<Rightarrow> nat list \<Rightarrow> nat \<times> nat list" where
  "split_blocks x two_values =
     (if 2 ^ 128 - 1 < x
      then split_blocks (x div 10 ^ 18) (two_values @ extractDigitPairs (x mod 10 ^ 18))
      else (x, two_values))"
  by pat_completeness auto
termination
  by (relation "measure fst") (auto intro!: div_less_dividend)

definition writeUIntText_256 :: "nat \<Rightarrow> string" where
  "writeUIntText_256 x =
     (if x div 2 ^ 128 = 0 then writeUIntText_128 (x mod 2 ^ 128)
      else (let (x', two_values) = split_blocks x [] in
            writeUIntText_128 (x' mod 2 ^ 128) @ writeDigitPairs two_values))"

definition writeSIntText :: "nat \<Rightarrow> int \<Rightarrow> string" where
  "writeSIntText w x =
     (if x = - (2 ^ (w - 1)) then
        (if w = 128 then ''-170141183460469231731687303715884105728''
         else ''-57896044618658097711785492504343953926634992332820282019728792003956564819968'')
      else
        (let print = (if w = 128 then writeUIntText_128 else writeUIntText_256) in
         if x < 0 then CHR ''-'' # print (nat (- x)) else print (nat x)))"

text \<open>\<^verbatim>\<open>itoa\<close>, overloaded on the type, and \<^verbatim>\<open>writeIntText\<close>, which appends its text to the buffer.\<close>

definition itoa :: "int_type \<Rightarrow> int \<Rightarrow> string" where
  "itoa ty i =
     (if width ty = 128 then
        (if is_signed ty then writeSIntText 128 i else writeUIntText_128 (nat i))
      else if width ty = 256 then
        (if is_signed ty then writeSIntText 256 i else writeUIntText_256 (nat i))
      else to_text_from_integer ty i)"

definition writeIntText :: "int_type \<Rightarrow> int \<Rightarrow> string \<Rightarrow> string" where
  "writeIntText ty x buf = buf @ itoa ty x"

section \<open>The decimal numeral\<close>

text \<open>The reference: repeated division by ten.\<close>

fun decimal :: "nat \<Rightarrow> string" where
  "decimal n = (if n < 10 then [digit_char n] else decimal (n div 10) @ [digit_char (n mod 10)])"

declare decimal.simps [simp del]

definition decimal_int :: "int \<Rightarrow> string" where
  "decimal_int i = (if i < 0 then CHR ''-'' # decimal (nat (- i)) else decimal (nat i))"

text \<open>The \<open>2 * m\<close> lowest digits, with leading zeros.\<close>

fun padded :: "nat \<Rightarrow> nat \<Rightarrow> string" where
  "padded 0 n = []"
| "padded (Suc m) n = pair_dd (n div 100 ^ m) @ padded m (n mod 100 ^ m)"

lemma decimal_below_10: "n < 10 \<Longrightarrow> decimal n = [digit_char n]"
  by (simp add: decimal.simps)

lemma decimal_pair:
  assumes "10 \<le> n" and "n < 100"
  shows "decimal n = pair_dd n"
proof -
  have "n div 10 < 10"
    using assms(2) by simp
  with assms(1) show ?thesis
    by (simp add: decimal.simps [of n] decimal_below_10 pair_dd_def)
qed

lemma decimal_append_pair:
  assumes "0 < q" and "r < 100"
  shows "decimal (q * 100 + r) = decimal q @ pair_dd r"
proof -
  have "(q * 100 + r) mod 10 = (r + 10 * (q * 10)) mod 10"
    by (simp add: algebra_simps)
  then have "(q * 100 + r) mod 10 = r mod 10"
    by (simp only: mod_mult_self2)
  moreover have "(q * 100 + r) div 10 = q * 10 + r div 10"
    "(q * 10 + r div 10) div 10 = q" "(q * 10 + r div 10) mod 10 = r div 10"
    using assms(2) by auto
  moreover have "\<not> q * 100 + r < 10" "\<not> q * 10 + r div 10 < 10"
    using assms(1) by auto
  ultimately show ?thesis
    by (simp add: decimal.simps [of "q * 100 + r"] decimal.simps [of "q * 10 + r div 10"]
        pair_dd_def)
qed

lemma decimal_append_padded:
  assumes "0 < q" and "r < 100 ^ m"
  shows "decimal (q * 100 ^ m + r) = decimal q @ padded m r"
  using assms
proof (induction m arbitrary: q r)
  case 0
  then show ?case by simp
next
  case (Suc m)
  define d where "d = r div 100 ^ m"
  define r' where "r' = r mod 100 ^ m"
  have d: "d < 100"
    unfolding d_def using Suc.prems(2) by (simp add: less_mult_imp_div_less)
  have r: "r = d * 100 ^ m + r'"
    unfolding d_def r'_def by (rule div_mult_mod_eq [symmetric])
  have "decimal (q * 100 ^ Suc m + r) = decimal ((q * 100 + d) * 100 ^ m + r')"
    unfolding r by (simp add: add_mult_distrib mult.assoc add.assoc)
  also have "\<dots> = decimal (q * 100 + d) @ padded m r'"
    using Suc.prems(1) by (intro Suc.IH) (simp_all add: r'_def)
  also have "decimal (q * 100 + d) = decimal q @ pair_dd d"
    using Suc.prems(1) d by (rule decimal_append_pair)
  finally show ?case by (simp add: d_def r'_def)
qed

lemma decimal_split:
  assumes "100 ^ m \<le> n"
  shows "decimal n = decimal (n div 100 ^ m) @ padded m (n mod 100 ^ m)"
proof -
  have "0 < n div 100 ^ m"
    using assms by (simp add: div_greater_zero_iff)
  then have "decimal (n div 100 ^ m * 100 ^ m + n mod 100 ^ m) =
      decimal (n div 100 ^ m) @ padded m (n mod 100 ^ m)"
    by (rule decimal_append_padded) simp
  then show ?thesis by (simp only: div_mult_mod_eq)
qed

section \<open>Fixed-point digit extraction\<close>

text \<open>
  \<open>f\<close> approximates \<open>n / D\<close> in units of \<open>2 ^ k\<close>, from above and by less than \<open>1 / D\<close>: its integer
  part is then the exact quotient, and multiplying the fraction by 100 keeps the relation for
  the remainder and \<open>D / 100\<close>.
\<close>

definition fixed_point :: "nat \<Rightarrow> nat \<Rightarrow> nat \<Rightarrow> nat \<Rightarrow> bool" where
  "fixed_point k D n f \<longleftrightarrow> 0 < D \<and> n * 2 ^ k \<le> f * D \<and> f * D < (n + 1) * 2 ^ k"

lemma fixed_point_div:
  assumes "fixed_point k D n f"
  shows "f div 2 ^ k = n div D"
proof (rule div_nat_eqI)
  have D: "0 < D"
    using assms by (simp add: fixed_point_def)
  have "n div D * 2 ^ k * D \<le> n * 2 ^ k"
    by (simp add: mult.assoc mult.commute [of "2 ^ k"])
  also have "\<dots> \<le> f * D"
    using assms by (simp add: fixed_point_def)
  finally show "2 ^ k * (n div D) \<le> f"
    using D by (simp add: mult.commute)
  have "f * D < (n + 1) * 2 ^ k"
    using assms by (simp add: fixed_point_def)
  also have "\<dots> \<le> (n div D + 1) * D * 2 ^ k"
    using D by (intro mult_right_mono) (simp_all add: Suc_leI dividend_less_div_times)
  also have "\<dots> = 2 ^ k * Suc (n div D) * D"
    by (simp add: algebra_simps)
  finally show "f < 2 ^ k * Suc (n div D)"
    using D by (simp only: mult_less_cancel2)
qed

lemma fixed_point_step:
  assumes "fixed_point k (D * 100) n f"
  shows "fixed_point k D (n mod (D * 100)) (f mod 2 ^ k * 100)"
proof -
  define q where "q = n div (D * 100)"
  define r where "r = n mod (D * 100)"
  define g where "g = f mod 2 ^ k"
  have "f div 2 ^ k = q"
    unfolding q_def by (rule fixed_point_div) (rule assms)
  then have f: "f = q * 2 ^ k + g"
    unfolding g_def by (metis div_mult_mod_eq)
  have n: "n = q * (D * 100) + r"
    unfolding q_def r_def by (rule div_mult_mod_eq [symmetric])
  have "n * 2 ^ k = q * 2 ^ k * (D * 100) + r * 2 ^ k"
    unfolding n by (simp add: algebra_simps)
  moreover have "f * (D * 100) = q * 2 ^ k * (D * 100) + g * 100 * D"
    unfolding f by (simp add: algebra_simps)
  ultimately have "fixed_point k D r (g * 100)"
    using assms by (simp add: fixed_point_def add_mult_distrib)
  then show ?thesis unfolding r_def g_def .
qed

lemma next_pairs_padded:
  assumes "fixed_point k (100 ^ m) n f" and "k \<le> 57"
  shows "next_pairs k m f = padded m (n mod 100 ^ m)"
  using assms(1)
proof (induction m arbitrary: n f)
  case 0
  then show ?case by simp
next
  case (Suc m)
  let ?f = "f mod 2 ^ k * 100" and ?n = "n mod 100 ^ Suc m"
  have fp: "fixed_point k (100 ^ m) ?n ?f"
    using fixed_point_step [of k "100 ^ m" n f] Suc.prems by (simp add: mult.commute)
  have "f mod 2 ^ k < 2 ^ 57"
    using mod_less_divisor [of "2 ^ k" f] power_increasing [OF assms(2), of "2::nat"]
    by (simp del: mod_less_divisor)
  then have "?f mod 2 ^ 64 = ?f"
    by simp
  with fixed_point_div [OF fp] Suc.IH [OF fp] show ?case
    by (simp add: Let_def)
qed

lemma first_pair_decimal:
  assumes "d < 100" and "0 < d" and "short \<longleftrightarrow> d < 10"
  shows "first_pair short d = decimal d"
  using assms by (auto simp: first_pair_def pair_fd_def decimal_below_10 decimal_pair)

lemma fixed_point_decimal:
  assumes fp: "fixed_point k (100 ^ m) n f" and "k \<le> 57"
    and "100 ^ m \<le> n" and "n < 100 ^ Suc m" and "short \<longleftrightarrow> n < 10 * 100 ^ m"
  shows "first_pair short (f div 2 ^ k) @ next_pairs k m f = decimal n"
proof -
  have "n div 100 ^ m < 100" and "0 < n div 100 ^ m"
    using assms(3,4) by (simp_all add: less_mult_imp_div_less div_greater_zero_iff)
  moreover have "short \<longleftrightarrow> n div 100 ^ m < 10"
    using assms(5) by (simp add: div_less_iff_less_mult)
  ultimately have "first_pair short (n div 100 ^ m) = decimal (n div 100 ^ m)"
    by (rule first_pair_decimal)
  then show ?thesis
    using fixed_point_div [OF fp] next_pairs_padded [OF fp assms(2)] decimal_split [OF assms(3)]
    by simp
qed

section \<open>The routines print the decimal numeral\<close>

lemma text_below_1e4_decimal:
  assumes "100 \<le> n" and "n < 10000" and "w = 8 \<Longrightarrow> n < 1000"
  shows "text_below_1e4 w n = decimal n"
proof -
  have "167773 * n < 2 ^ 32"
    using assms(2) by simp
  moreover have "(2::nat) ^ 32 \<le> 2 ^ max 32 w"
    by (intro power_increasing) simp_all
  ultimately have "167773 * n mod 2 ^ max 32 w = 167773 * n"
    by simp
  moreover have "fixed_point 24 (100 ^ 1) n (167773 * n)"
    using assms(2) by (simp add: fixed_point_def)
  moreover have short: "w = 8 \<or> n < 1000 \<longleftrightarrow> n < 1000"
    using assms(3) by auto
  ultimately show ?thesis
    using fixed_point_decimal [of 24 1 n "167773 * n" "n < 1000"] assms(1,2)
    unfolding text_below_1e4_def Let_def short by simp
qed

lemma text_below_1e6_decimal:
  assumes "10000 \<le> n" and "n < 1000000" and "w = 16 \<Longrightarrow> n < 100000"
  shows "text_below_1e6 w n = decimal n"
proof -
  have "429497 * n mod 2 ^ 64 = 429497 * n"
    using assms(2) by simp
  moreover have "fixed_point 32 (100 ^ 2) n (429497 * n)"
    using assms(2) by (simp add: fixed_point_def)
  moreover have short: "w = 16 \<or> n < 100000 \<longleftrightarrow> n < 100000"
    using assms(3) by auto
  ultimately show ?thesis
    using fixed_point_decimal [of 32 2 n "429497 * n" "n < 100000"] assms(1,2)
    unfolding text_below_1e6_def Let_def short by simp
qed

lemma div_bounds:
  fixes a :: nat
  assumes "0 < b"
  shows "b * (a div b) \<le> a" and "a < b * (a div b) + b"
  using assms by (simp_all add: dividend_less_times_div add.commute)

lemma text_below_1e8_decimal:
  assumes "1000000 \<le> n" and "n < 100000000"
  shows "text_below_1e8 n = decimal n"
proof -
  let ?f = "281474977 * n div 2 ^ 16"
  have "281474977 * n mod 2 ^ 64 = 281474977 * n"
    using assms(2) by simp
  moreover have "fixed_point 32 (100 ^ 3) n ?f"
    using assms div_bounds [of "2 ^ 16" "281474977 * n"] by (simp add: fixed_point_def)
  ultimately show ?thesis
    using fixed_point_decimal [of 32 3 n ?f "n < 10000000"] assms
    by (simp add: text_below_1e8_def Let_def)
qed

lemma text_below_2e32_decimal:
  assumes "100000000 \<le> n" and "n < 2 ^ 32"
  shows "text_below_2e32 n = decimal n"
proof -
  have "1441151881 * n mod 2 ^ 64 = 1441151881 * n"
    using assms(2) by simp
  moreover have "fixed_point 57 (100 ^ 4) n (1441151881 * n)"
    using assms(2) by (simp add: fixed_point_def)
  ultimately show ?thesis
    using fixed_point_decimal [of 57 4 n "1441151881 * n" "n < 1000000000"] assms
    by (simp add: text_below_2e32_def Let_def)
qed

lemma eight_digits_padded:
  assumes "z < 100000000"
  shows "eight_digits z = padded 4 z"
proof -
  let ?f = "281474977 * z div 2 ^ 16 + 1"
  have "281474977 * z mod 2 ^ 64 = 281474977 * z" "?f mod 2 ^ 64 = ?f"
    using assms by simp_all
  moreover have fp: "fixed_point 32 (100 ^ 3) z ?f"
    using assms div_bounds [of "2 ^ 16" "281474977 * z"] by (simp add: fixed_point_def)
  moreover have "padded 4 z = pair_dd (z div 100 ^ 3) @ padded 3 (z mod 100 ^ 3)"
    using padded.simps(2) [of 3 z] by simp
  ultimately show ?thesis
    using fixed_point_div [OF fp] next_pairs_padded [OF fp]
    by (simp add: eight_digits_def Let_def)
qed

lemma decimal_eight:
  assumes "100000000 \<le> n"
  shows "decimal n = decimal (n div 100000000) @ eight_digits (n mod 100000000)"
  using decimal_split [of 4 n] assms by (simp add: eight_digits_padded)

lemma text_of_upper_decimal:
  assumes u: "42 \<le> u" "u \<le> 184467440737"
  shows "text_of_upper u = decimal u"
proof (cases "u < 2 ^ 32")
  case True
  then show ?thesis
    using u by (simp add: text_of_upper_def decimal_pair text_below_1e4_decimal text_below_1e6_decimal
        text_below_1e8_decimal text_below_2e32_decimal)
next
  case False
  define u' where "u' = u div 100000000"
  have u': "42 \<le> u'" "u' < 10000"
    using False u by (simp_all add: u'_def div_le_mono [of "2 ^ 32" u 100000000, simplified])
  have "decimal u = decimal u' @ eight_digits (u mod 100000000)"
    unfolding u'_def using False by (intro decimal_eight) simp
  then show ?thesis
    using False u' by (simp add: text_of_upper_def Let_def u'_def [symmetric] decimal_pair text_below_1e4_decimal)
qed

lemma text_from_unsigned_decimal:
  assumes w: "w \<in> {8, 16, 32, 64}" and n: "n < 2 ^ w"
  shows "text_from_unsigned w n = decimal n"
proof -
  consider "n < 100" | "100 \<le> n" "n < 1000000" | "1000000 \<le> n" "n < 2 ^ 32" | "2 ^ 32 \<le> n"
    by linarith
  then show ?thesis
  proof cases
    case 1
    then show ?thesis
      by (auto simp: text_from_unsigned_def outOneDigit_def outTwoDigits_def
          decimal_below_10 decimal_pair)
  next
    case 2
    have "n < 1000" if "w = 8"
      using n that by simp
    moreover have "n < 100000" if "w = 16"
      using n that by simp
    ultimately show ?thesis
      using 2 by (auto simp: text_from_unsigned_def text_below_1e4_decimal text_below_1e6_decimal)
  next
    case 3
    then show ?thesis
      by (simp add: text_from_unsigned_def text_below_1e8_decimal text_below_2e32_decimal)
  next
    case 4
    with w n have w: "w = 64" by auto
    define u where "u = n div 100000000"
    have n64: "n < 2 ^ 64"
      using n w by simp
    have u: "42 \<le> u" "u \<le> 184467440737"
      using 4 n64 by (simp_all add: u_def div_le_mono [of "2 ^ 32" n 100000000, simplified])
    have dec: "decimal n = decimal u @ eight_digits (n mod 100000000)"
      unfolding u_def using 4 by (intro decimal_eight) simp
    have "text_of_upper u = decimal u"
      using u by (rule text_of_upper_decimal)
    with dec 4 w show ?thesis
      by (simp add: text_from_unsigned_def Let_def flip: u_def)
  qed
qed

lemma to_text_from_integer_decimal:
  assumes "width ty \<in> {8, 16, 32, 64}" and "in_range ty i"
  shows "to_text_from_integer ty i = decimal_int i"
proof -
  have ty: "machine_type ty"
    using assms(1) by (auto simp: machine_type_def)
  obtain h :: int where h: "0 < h" "2 ^ width ty = 2 * h" "2 ^ (width ty - 1) = h"
    using half_range [OF ty] .
  have lt: "- (2 ^ width ty) < i" "i < 2 ^ width ty"
    using assms(2) h by (auto simp: in_range_def int_lo_def int_hi_def split: if_splits)
  show ?thesis
  proof (cases "i < 0")
    case True
    have "(0 - i mod 2 ^ width ty) mod 2 ^ width ty = - i"
      using True lt by (simp add: mod_minus_eq)
    moreover have "nat (- i) < 2 ^ width ty"
      using lt(1) True by (simp add: nat_less_iff)
    ultimately show ?thesis
      using True text_from_unsigned_decimal [OF assms(1)]
      by (simp add: to_text_from_integer_def decimal_int_def Let_def)
  next
    case False
    then have "i mod 2 ^ width ty = i" "nat i < 2 ^ width ty"
      using lt(2) by (simp_all add: nat_less_iff)
    then show ?thesis
      using False text_from_unsigned_decimal [OF assms(1)]
      by (simp add: to_text_from_integer_def decimal_int_def Let_def)
  qed
qed


text \<open>
  The multiplier is the reciprocal rounded down, so the approximate quotient is at most one
  too small and the single correction step is enough.
\<close>

lemma divmod_1e18_correct:
  assumes "n < 2 ^ 128"
  shows "divmod_1e18 n = (n div 10 ^ 18, n mod 10 ^ 18)"
proof -
  define a where "a = n mod 2 ^ 64"
  define b where "b = n div 2 ^ 64"
  define M :: nat where "M = 0x725DD1D243ABA0E7"
  define c where "c = a * M div 2 ^ 64"
  define m where "m = b * M + a * 0x12 + c"
  define q where "q = b * 0x12 + m div 2 ^ 64"
  have a: "a < 2 ^ 64" and b: "b < 2 ^ 64"
    using assms by (simp_all add: a_def b_def less_mult_imp_div_less)
  have n: "n = b * 2 ^ 64 + a"
    by (simp add: a_def b_def)
  have "a * M < 2 ^ 128"
    using a by (simp add: M_def)
  then have c: "a * M mod 2 ^ 128 = a * M" "c < 2 ^ 64"
    by (simp_all add: c_def less_mult_imp_div_less)
  have m: "m < 2 ^ 128"
    using a b c(2) by (simp add: m_def M_def)
  then have m': "m div 2 ^ 64 < 2 ^ 64"
    by (simp add: less_mult_imp_div_less)
  have q: "q < 2 ^ 128"
    using b m' by (simp add: q_def)
  have q_eq: "q = n * (0x12 * 2 ^ 64 + M) div 2 ^ 128"
  proof -
    have "n * (0x12 * 2 ^ 64 + M) = (b * 0x12 * 2 ^ 64 + (b * M + a * 0x12)) * 2 ^ 64 + a * M"
      unfolding n by (simp add: algebra_simps)
    then have "n * (0x12 * 2 ^ 64 + M) div 2 ^ 64 = m + b * 0x12 * 2 ^ 64"
      by (simp add: m_def c_def)
    then have "n * (0x12 * 2 ^ 64 + M) div (2 ^ 64 * 2 ^ 64) = (m + b * 0x12 * 2 ^ 64) div 2 ^ 64"
      by (simp only: div_mult2_eq)
    then show ?thesis by (simp add: q_def)
  qed
  have lo: "q * 2 ^ 128 \<le> n * 340282366920938463463"
    and hi: "n * 340282366920938463463 < (q + 1) * 2 ^ 128"
    unfolding q_eq M_def using div_bounds [of "2 ^ 128" "n * 340282366920938463463"] by simp_all
  have le: "q * 10 ^ 18 \<le> n" and lt: "n < q * 10 ^ 18 + 2 * 10 ^ 18"
    using lo hi assms by simp_all
  have q1: "(q + 1) mod 2 ^ 128 = q + 1"
    using le assms by (intro mod_less) simp
  have r: "nat ((int n - int (q * 10 ^ 18)) mod 2 ^ 128) = n - q * 10 ^ 18"
  proof -
    define d where "d = n - q * 10 ^ 18"
    have "int n - int (q * 10 ^ 18) = int d"
      unfolding d_def using le by (rule of_nat_diff [symmetric])
    moreover have "d < 2 * 10 ^ 18"
      unfolding d_def using lt by simp
    then have "int d < 2 ^ 128"
      by simp
    ultimately show ?thesis
      unfolding d_def [symmetric] by simp
  qed
  have dm: "divmod_1e18 n =
    (if 10 ^ 18 \<le> n - q * 10 ^ 18
     then ((q + 1) mod 2 ^ 128, (n - q * 10 ^ 18 - 10 ^ 18) mod 2 ^ 64)
     else (q, (n - q * 10 ^ 18) mod 2 ^ 64))"
    unfolding divmod_1e18_def Let_def
    by (simp only: a_def [symmetric] b_def [symmetric] M_def [symmetric] c_def [symmetric]
        m_def [symmetric] q_def [symmetric] r c(1) mod_less [OF c(2)] mod_less [OF m]
        mod_less [OF m'] mod_less [OF q])
  show ?thesis
  proof (cases "10 ^ 18 \<le> n - q * 10 ^ 18")
    case True
    have "n div 10 ^ 18 = q + 1"
      using True lt by (intro div_nat_eqI) simp_all
    moreover have "n mod 10 ^ 18 = n - q * 10 ^ 18 - 10 ^ 18"
      using calculation by (simp add: modulo_nat_def)
    ultimately show ?thesis
      using True lt dm unfolding q1 by simp
  next
    case False
    have "n div 10 ^ 18 = q"
      using False le by (intro div_nat_eqI) simp_all
    moreover have "n mod 10 ^ 18 = n - q * 10 ^ 18"
      using calculation by (simp add: modulo_nat_def)
    ultimately show ?thesis
      using False dm by simp
  qed
qed

lemma padded_snoc: "padded (Suc m) r = padded m (r div 100) @ pair_dd (r mod 100)"
  if "r < 100 ^ Suc m"
  using that
proof (induction m arbitrary: r)
  case 0
  then show ?case by simp
next
  case (Suc m)
  have "padded (Suc (Suc m)) r = pair_dd (r div 100 ^ Suc m) @ padded (Suc m) (r mod 100 ^ Suc m)"
    by (rule padded.simps(2))
  also have "padded (Suc m) (r mod 100 ^ Suc m) =
      padded m (r mod 100 ^ Suc m div 100) @ pair_dd (r mod 100 ^ Suc m mod 100)"
    by (rule Suc.IH) simp
  also have "r mod 100 ^ Suc m div 100 = r div 100 mod 100 ^ m"
    by (simp add: mod_mult2_eq)
  also have "r mod 100 ^ Suc m mod 100 = r mod 100"
    by (simp add: mod_mult2_eq)
  also have "r div 100 ^ Suc m = r div 100 div 100 ^ m"
    by (simp add: div_mult2_eq)
  finally show ?case by simp
qed

lemma writeDigitPairs_append:
  "writeDigitPairs (xs @ ys) = writeDigitPairs ys @ writeDigitPairs xs"
  by (simp add: writeDigitPairs_def)

lemma writeDigitPairs_base100: "r < 100 ^ m \<Longrightarrow> writeDigitPairs (base100_digits m r) = padded m r"
proof (induction m arbitrary: r)
  case 0
  then show ?case by (simp add: writeDigitPairs_def)
next
  case (Suc m)
  then have "r div 100 < 100 ^ m"
    by (simp add: less_mult_imp_div_less mult.commute)
  then have "writeDigitPairs (base100_digits m (r div 100)) = padded m (r div 100)"
    by (rule Suc.IH)
  moreover have "writeDigitPairs (x # xs) = writeDigitPairs xs @ pair_dd x" for x xs
    by (simp add: writeDigitPairs_def outTwoDigits_def)
  ultimately show ?case
    using padded_snoc [OF Suc.prems] by simp
qed

lemma decimal_block:
  assumes "10 ^ 18 \<le> x"
  shows "decimal x = decimal (x div 10 ^ 18) @ writeDigitPairs (extractDigitPairs (x mod 10 ^ 18))"
  using decimal_split [of 9 x] writeDigitPairs_base100 [of "x mod 10 ^ 18" 9] assms
  by (simp add: extractDigitPairs_def)

lemma to_text_UInt64: "x < 2 ^ 64 \<Longrightarrow> to_text_from_integer UInt64 (int x) = decimal x"
  by (subst to_text_from_integer_decimal)
     (simp_all add: in_range_def int_lo_def int_hi_def decimal_int_def)

lemma writeUIntText_128_decimal:
  assumes "x < 2 ^ 128"
  shows "writeUIntText_128 x = decimal x"
proof (cases "x < 2 ^ 64")
  case True
  then show ?thesis by (simp add: writeUIntText_128_def to_text_UInt64)
next
  case False
  define y where "y = x div 10 ^ 18"
  have y': "y < 340282366920938463464"
    using assms by (simp add: y_def less_mult_imp_div_less)
  then have y: "y < 2 ^ 128"
    by simp
  have dx: "decimal x = decimal y @ writeDigitPairs (extractDigitPairs (x mod 10 ^ 18))"
    unfolding y_def using False by (intro decimal_block) simp
  have nz: "x div 2 ^ 64 \<noteq> 0"
    using False by (simp add: div_eq_0_iff)
  show ?thesis
  proof (cases "2 ^ 64 - 1 < y")
    case big: True
    define z where "z = y div 10 ^ 18"
    have z: "z < 2 ^ 64"
      using y' by (simp add: z_def less_mult_imp_div_less)
    have "decimal y = decimal z @ writeDigitPairs (extractDigitPairs (y mod 10 ^ 18))"
      unfolding z_def using big by (intro decimal_block) simp
    moreover have "writeUIntText_128 x = to_text_from_integer UInt64 (int (z mod 2 ^ 64)) @
        writeDigitPairs (extractDigitPairs (x mod 10 ^ 18) @ extractDigitPairs (y mod 10 ^ 18))"
      unfolding writeUIntText_128_def divmod_1e18_correct [OF assms] Let_def prod.case
        y_def [symmetric] divmod_1e18_correct [OF y] z_def [symmetric]
      using nz big by (simp only: if_True if_False)
    ultimately show ?thesis
      using dx z by (simp only: mod_less to_text_UInt64 writeDigitPairs_append append_assoc)
  next
    case small: False
    then have "y < 2 ^ 64"
      by simp
    moreover have "writeUIntText_128 x = to_text_from_integer UInt64 (int (y mod 2 ^ 64)) @
        writeDigitPairs (extractDigitPairs (x mod 10 ^ 18))"
      unfolding writeUIntText_128_def divmod_1e18_correct [OF assms] Let_def prod.case
        y_def [symmetric]
      using nz small by (simp only: if_True if_False)
    ultimately show ?thesis
      using dx by (simp only: mod_less to_text_UInt64)
  qed
qed

lemma split_blocks_decimal:
  assumes "split_blocks x ds = (x', ds')"
  shows "x' < 2 ^ 128 \<and> decimal x @ writeDigitPairs ds = decimal x' @ writeDigitPairs ds'"
  using assms
proof (induction x ds rule: split_blocks.induct)
  case (1 x ds)
  show ?case
  proof (cases "2 ^ 128 - 1 < x")
    case True
    then have "decimal x = decimal (x div 10 ^ 18) @
        writeDigitPairs (extractDigitPairs (x mod 10 ^ 18))"
      by (intro decimal_block) simp
    moreover have "split_blocks (x div 10 ^ 18) (ds @ extractDigitPairs (x mod 10 ^ 18)) = (x', ds')"
      using "1.prems" True by (subst (asm) split_blocks.simps) (simp only: if_True)
    then have "x' < 2 ^ 128 \<and>
      decimal (x div 10 ^ 18) @ writeDigitPairs (ds @ extractDigitPairs (x mod 10 ^ 18)) =
      decimal x' @ writeDigitPairs ds'"
      by (rule "1.IH" [OF True])
    ultimately show ?thesis
      by (simp only: writeDigitPairs_append append_assoc)
  next
    case False
    then have "split_blocks x ds = (x, ds)"
      by (subst split_blocks.simps) (simp only: if_False)
    with "1.prems" False show ?thesis by simp
  qed
qed

lemma writeUIntText_256_decimal: "writeUIntText_256 x = decimal x"
proof (cases "x < 2 ^ 128")
  case True
  then have "x div 2 ^ 128 = 0" "x mod 2 ^ 128 = x"
    by simp_all
  then show ?thesis
    using writeUIntText_128_decimal [OF True] unfolding writeUIntText_256_def
    by (simp only: if_True simp_thms)
next
  case False
  obtain x' ds where sp: "split_blocks x [] = (x', ds)"
    by fastforce
  have nz: "x div 2 ^ 128 \<noteq> 0"
    using False by (simp add: div_eq_0_iff)
  have "x' < 2 ^ 128" and "decimal x = decimal x' @ writeDigitPairs ds"
    using split_blocks_decimal [OF sp] by (simp_all add: writeDigitPairs_def)
  then show ?thesis
    using nz unfolding writeUIntText_256_def sp Let_def prod.case
    by (simp only: if_False mod_less writeUIntText_128_decimal)
qed

lemma digit_char_numeral:
  "digit_char 0 = CHR ''0''" "digit_char 1 = CHR ''1''" "digit_char 2 = CHR ''2''"
  "digit_char 3 = CHR ''3''" "digit_char 4 = CHR ''4''" "digit_char 5 = CHR ''5''"
  "digit_char 6 = CHR ''6''" "digit_char 7 = CHR ''7''" "digit_char 8 = CHR ''8''"
  "digit_char 9 = CHR ''9''"
  by (simp_all add: digit_char_def char_of_eq_iff take_bit_eq_mod)

lemma of_char_digit_char: "d < 10 \<Longrightarrow> of_char (digit_char d) = (48 + d :: nat)"
  by (simp add: digit_char_def)

lemma digit_of_digit_char: "d < 10 \<Longrightarrow> digit_of 10 (digit_char d) = Some d"
  by (simp add: digit_of_def of_char_digit_char)

lemma digit_char_digit_of:
  assumes "digit_of 10 c = Some d"
  shows "digit_char d = c"
proof -
  have "d = of_char c - 48" "48 \<le> (of_char c :: nat)"
    using assms by (auto simp: digit_of_def Let_def split: if_splits)
  then show ?thesis by (simp add: digit_char_def)
qed

lemma text_value_append: "text_value base v (xs @ ys) = text_value base (text_value base v xs) ys"
  by (induction xs arbitrary: v) simp_all

lemma text_value_nonneg: "0 \<le> v \<Longrightarrow> 0 \<le> text_value base v cs"
  by (induction cs arbitrary: v) simp_all

text \<open>A digit string without a leading zero is the decimal numeral of its value.\<close>

lemma decimal_text_value:
  assumes "list_all (is_digit 10) s" and "s \<noteq> []" and "hd s \<noteq> CHR ''0''"
  shows "0 < text_value 10 0 s \<and> decimal (nat (text_value 10 0 s)) = s"
  using assms
proof (induction s rule: rev_induct)
  case Nil
  then show ?case by simp
next
  case (snoc c s)
  obtain d where d: "digit_of 10 c = Some d" "d < 10"
    using snoc.prems(1) digit_of_less by (auto simp: is_digit_def)
  note c = digit_char_digit_of [OF d(1)]
  show ?case
  proof (cases "s = []")
    case True
    have "d \<noteq> 0"
      using snoc.prems(3) True c digit_char_numeral(1) by (cases d) auto
    with True d c show ?thesis by (simp add: decimal_below_10)
  next
    case False
    define v where "v = text_value 10 0 s"
    have IH: "0 < v" "decimal (nat v) = s"
      using snoc False by (simp_all add: v_def)
    have val: "text_value 10 0 (s @ [c]) = v * 10 + int d"
      by (simp add: text_value_append v_def d)
    have "nat (v * 10 + int d) = nat v * 10 + d"
      using IH(1) by simp
    moreover have "\<not> nat v * 10 + d < 10"
      using IH(1) by simp
    then have "decimal (nat v * 10 + d) = s @ [c]"
      using IH(2) d(2) by (simp add: decimal.simps [of "nat v * 10 + d"] c)
    ultimately show ?thesis
      using IH(1) by (simp add: val)
  qed
qed

lemma decimal_min_int:
  "decimal (2 ^ 127) = ''170141183460469231731687303715884105728''"
  "decimal (2 ^ 255) =
     ''57896044618658097711785492504343953926634992332820282019728792003956564819968''"
  using decimal_text_value [of "''170141183460469231731687303715884105728''"]
    decimal_text_value [of
      "''57896044618658097711785492504343953926634992332820282019728792003956564819968''"]
  by (simp_all add: is_digit_def digit_of_def)

lemma writeSIntText_decimal:
  assumes "w \<in> {128, 256}" and "- (2 ^ (w - 1)) \<le> x" and "x < 2 ^ (w - 1)"
  shows "writeSIntText w x = decimal_int x"
proof (cases "x = - (2 ^ (w - 1))")
  case True
  moreover have "nat (2 ^ k) = (2::nat) ^ k" for k
    by (simp add: nat_power_eq)
  moreover have "\<not> (2::int) ^ k < 0" for k
    by (simp add: not_less)
  ultimately show ?thesis
    using assms(1) decimal_min_int by (auto simp: writeSIntText_def decimal_int_def)
next
  case False
  have small: "nat y < 2 ^ 128" if "w = 128" "y < 2 ^ 127" for y
    using that by (simp add: nat_less_iff)
  show ?thesis
  proof (cases "w = 128")
    case True
    have "- x < 2 ^ 127"
      using assms(2) False True by simp
    with True assms(3) show ?thesis
      using False writeUIntText_128_decimal [OF small, of x]
        writeUIntText_128_decimal [OF small, of "- x"]
      by (simp add: writeSIntText_def decimal_int_def Let_def)
  next
    case w: False
    with False show ?thesis
      by (simp add: writeSIntText_def decimal_int_def Let_def writeUIntText_256_decimal)
  qed
qed

text \<open>
  Every overload of \<^verbatim>\<open>itoa\<close> prints the decimal numeral of its argument.
\<close>

lemma itoa_decimal:
  assumes "width ty \<in> {8, 16, 32, 64, 128, 256}" and "in_range ty i"
  shows "itoa ty i = decimal_int i"
proof -
  consider "width ty \<in> {8, 16, 32, 64}" | "width ty \<in> {128, 256}"
    using assms(1) by blast
  then show ?thesis
  proof cases
    case 1
    then show ?thesis
      using to_text_from_integer_decimal [OF 1 assms(2)] by (auto simp: itoa_def)
  next
    case 2
    show ?thesis
    proof (cases "is_signed ty")
      case True
      with assms(2) have "writeSIntText (width ty) i = decimal_int i"
        by (intro writeSIntText_decimal [OF 2]) (simp_all add: in_range_def int_lo_def int_hi_def)
      with 2 True show ?thesis by (auto simp: itoa_def)
    next
      case False
      with assms(2) have i: "0 \<le> i" "i < 2 ^ width ty"
        by (simp_all add: in_range_def int_lo_def int_hi_def)
      then have "nat i < 2 ^ 128" if "width ty = 128"
        using that by (simp add: nat_less_iff)
      with 2 False i(1) show ?thesis
        by (auto simp: itoa_def decimal_int_def writeUIntText_128_decimal writeUIntText_256_decimal)
    qed
  qed
qed

section \<open>Printing and parsing\<close>

lemma decimal_Nil [simp]: "decimal n \<noteq> []"
  by (subst decimal.simps) simp

lemma decimal_digits: "list_all (is_digit 10) (decimal n)"
proof (induction n rule: decimal.induct)
  case (1 n)
  have "is_digit 10 (digit_char d)" if "d < 10" for d
    using that by (simp add: is_digit_def digit_of_digit_char)
  with 1 show ?case
    by (subst decimal.simps) simp
qed

lemma text_value_decimal: "text_value 10 0 (decimal n) = int n"
proof (induction n rule: decimal.induct)
  case (1 n)
  show ?case
  proof (cases "n < 10")
    case True
    then show ?thesis by (simp add: decimal.simps [of n] digit_of_digit_char)
  next
    case False
    with 1 have "text_value 10 0 (decimal (n div 10)) = int (n div 10)"
      by simp
    then have "text_value 10 0 (decimal n) = int (n div 10) * 10 + int (n mod 10)"
      using False by (simp add: decimal.simps [of n] text_value_append digit_of_digit_char)
    also have "\<dots> = int (n div 10 * 10 + n mod 10)"
      by (simp only: of_nat_add of_nat_mult of_nat_numeral)
    finally show ?thesis by (simp only: div_mult_mod_eq)
  qed
qed

lemma tryReadIntText_decimal_int:
  assumes ty: "machine_type ty" and i: "in_range ty i" and rest: "stops 10 rest"
  shows "tryReadIntText ty (decimal_int i @ rest) = Some (i, rest)"
proof -
  define n where "n = nat \<bar>i\<bar>"
  define sg where "sg = (if i < 0 then ''-'' else [])"
  have dec: "decimal_int i = sg @ decimal n"
    by (simp add: decimal_int_def sg_def n_def)
  have val: "signed_value 10 sg (decimal n) = i"
    by (simp add: signed_value_def text_value_decimal sg_def n_def)
  have "sg \<in> {[], ''+'', ''-''}"
    by (simp add: sg_def)
  moreover have "is_signed ty" if "sg = ''-''"
    using i that by (auto simp: in_range_def int_lo_def sg_def split: if_splits)
  ultimately have "readIntTextInBaseImpl ty 10 True (sg @ decimal n @ rest) = Inr (i, rest)"
    using readIntTextInBaseImpl_exact [OF ty _ _ _ decimal_Nil decimal_digits rest, of sg n] i
    unfolding val by simp
  then show ?thesis
    by (simp add: tryReadIntText_def dec)
qed

section \<open>Properties\<close>

text \<open>C17: For each of the twelve integer types of 8 to 256 bits, the optimised printer (multiplication by
  reciprocals, digit pairs, splitting of wide integers by ten to the eighteenth) writes exactly the
  decimal notation that repeated division by ten defines, the minimum of a signed type included.\<close>

theorem itoa_correct:
  assumes "width ty \<in> {8, 16, 32, 64, 128, 256}" and "in_range ty i"
  shows "itoa ty i = decimal_int i"
  using assms by (rule itoa_decimal)

theorem itoa_correct_witness: "itoa Int64 (- 1024) = ''-1024''"
  using itoa_correct [of Int64 "- 1024"]
  by (simp add: in_range_def int_lo_def int_hi_def decimal_int_def decimal.simps digit_char_def
      char_of_eq_iff take_bit_eq_mod)

text \<open>Printing a 64-bit or narrower integer and parsing the text again gives the integer back, for
  any continuation of the buffer that does not start with a digit.\<close>

lemma tryReadIntText_itoa_roundtrip:
  assumes "width ty \<in> {8, 16, 32, 64}" and "in_range ty i" and "stops 10 rest"
  shows "tryReadIntText ty (itoa ty i @ rest) = Some (i, rest)"
proof -
  have "machine_type ty" and "width ty \<in> {8, 16, 32, 64, 128, 256}"
    using assms(1) by (auto simp: machine_type_def)
  then show ?thesis
    using assms(2,3) by (simp only: itoa_decimal tryReadIntText_decimal_int)
qed

end
