(* ===== verification/IO_VarInt.thy ===== *)
theory IO_VarInt
  imports Chdb_Prelude
begin

text \<open>
  Variable-length integers, \<^verbatim>\<open>src/src/IO/VarInt.h\<close>: seven bits per byte, the lowest first, with the
  high bit of a byte set when another byte follows; signed values go through the zigzag mapping.
  A buffer is the list of its bytes.  The encoder and the decoder are shown to be inverse, and
  the length function to give the size of the encoding.
\<close>

unbundle bit_operations_syntax

section \<open>Encoding\<close>

function writeVarUInt :: "64 word \<Rightarrow> byte list" where
  "writeVarUInt x =
     (if 0x7F < x then ucast (0x80 OR (x AND 0x7F)) # writeVarUInt (drop_bit 7 x)
      else [ucast x])"
  by pat_completeness auto
termination
proof (relation "measure unat")
  fix x :: "64 word"
  assume "0x7F < x"
  then have "0 < unat x"
    by (metis unat_gt_0 word_not_simps(1))
  then show "(drop_bit 7 x, x) \<in> measure unat"
    by (simp only: in_measure unat_drop_bit_eq) (simp add: drop_bit_eq_div)
qed simp

declare writeVarUInt.simps [simp del]

definition encodeZigZag :: "64 word \<Rightarrow> 64 word" where
  "encodeZigZag value = push_bit 1 value XOR signed_drop_bit 63 value"

definition writeVarInt :: "64 word \<Rightarrow> byte list" where
  "writeVarInt x = writeVarUInt (encodeZigZag x)"

section \<open>Decoding\<close>

text \<open>
  The loop over at most ten bytes; \<open>i\<close> is its counter.  After ten bytes it returns what it has,
  whatever the tenth byte says.
\<close>

function read_var_loop :: "nat \<Rightarrow> 64 word \<Rightarrow> byte list \<Rightarrow> (64 word \<times> byte list) result" where
  "read_var_loop i x buf =
     (if i < 10 then
        (case buf of
           [] \<Rightarrow> Inl ATTEMPT_TO_READ_AFTER_EOF
         | byte # rest \<Rightarrow>
             (let x' = x OR push_bit (7 * i) (ucast byte AND 0x7F) in
              if byte AND 0x80 = 0 then Inr (x', rest) else read_var_loop (Suc i) x' rest))
      else Inr (x, buf))"
  by pat_completeness auto
termination
  by (relation "measure (\<lambda>(i, x, buf). 10 - i)") auto

declare read_var_loop.simps [simp del]

definition readVarUInt :: "byte list \<Rightarrow> (64 word \<times> byte list) result" where
  "readVarUInt buf = read_var_loop 0 0 buf"

function ignore_var_loop :: "nat \<Rightarrow> byte list \<Rightarrow> byte list result" where
  "ignore_var_loop i buf =
     (if i < 10 then
        (case buf of
           [] \<Rightarrow> Inl ATTEMPT_TO_READ_AFTER_EOF
         | byte # rest \<Rightarrow> if byte AND 0x80 = 0 then Inr rest else ignore_var_loop (Suc i) rest)
      else Inr buf)"
  by pat_completeness auto
termination
  by (relation "measure (\<lambda>(i, buf). 10 - i)") auto

declare ignore_var_loop.simps [simp del]

definition ignoreVarUInt :: "byte list \<Rightarrow> byte list result" where
  "ignoreVarUInt buf = ignore_var_loop 0 buf"

definition decodeZigZag :: "64 word \<Rightarrow> 64 word" where
  "decodeZigZag n = drop_bit 1 n XOR - (n AND 1)"

definition readVarInt :: "byte list \<Rightarrow> (64 word \<times> byte list) result" where
  "readVarInt buf = res_map (\<lambda>(x, rest). (decodeZigZag x, rest)) (readVarUInt buf)"

text \<open>The overloads for narrower types read 64 bits and truncate.\<close>

definition readVarUInt_narrow :: "byte list \<Rightarrow> ('w::len word \<times> byte list) result" where
  "readVarUInt_narrow buf = res_map (\<lambda>(x, rest). (ucast x, rest)) (readVarUInt buf)"

definition readVarInt_narrow :: "byte list \<Rightarrow> ('w::len word \<times> byte list) result" where
  "readVarInt_narrow buf = res_map (\<lambda>(x, rest). (ucast x, rest)) (readVarInt buf)"

section \<open>Length\<close>

definition getLengthOfVarUInt :: "64 word \<Rightarrow> nat" where
  "getLengthOfVarUInt x =
     (if x < 2 ^ 7 then 1
      else if x < 2 ^ 14 then 2
      else if x < 2 ^ 21 then 3
      else if x < 2 ^ 28 then 4
      else if x < 2 ^ 35 then 5
      else if x < 2 ^ 42 then 6
      else if x < 2 ^ 49 then 7
      else if x < 2 ^ 56 then 8
      else if x < 2 ^ 63 then 9
      else 10)"

definition getLengthOfVarInt :: "64 word \<Rightarrow> nat" where
  "getLengthOfVarInt x = getLengthOfVarUInt (encodeZigZag x)"

section \<open>Round trips\<close>

lemma bit_0x7F: "bit (0x7F :: int) n \<longleftrightarrow> n < 7"
proof -
  have "(0x7F :: int) = mask 7"
    by (simp add: mask_eq_exp_minus_1)
  then show ?thesis by (simp only: bit_mask_iff) simp
qed

lemma bit_0x80: "bit (0x80 :: int) n \<longleftrightarrow> n = 7"
proof -
  have "(0x80 :: int) = 2 ^ 7"
    by simp
  then show ?thesis by (simp only: bit_exp_iff) auto
qed

lemma continuation_byte:
  fixes x :: "64 word"
  shows "(ucast (0x80 OR (x AND 0x7F)) :: byte) AND 0x80 \<noteq> 0"
    and "(ucast (ucast (0x80 OR (x AND 0x7F)) :: byte) :: 64 word) AND 0x7F = x AND 0x7F"
proof -
  have "bit ((ucast (0x80 OR (x AND 0x7F)) :: byte) AND 0x80) 7"
    by (simp add: bit_simps)
  then show "(ucast (0x80 OR (x AND 0x7F)) :: byte) AND 0x80 \<noteq> 0"
    by auto
  show "(ucast (ucast (0x80 OR (x AND 0x7F)) :: byte) :: 64 word) AND 0x7F = x AND 0x7F"
    by (rule bit_word_eqI) (auto simp: bit_simps bit_0x7F bit_0x80)
qed

lemma small_bits:
  fixes x :: "64 word"
  assumes "x < 2 ^ k" and "bit x n"
  shows "n < k"
proof (rule ccontr)
  assume "\<not> n < k"
  show False
  proof (cases "k < 64")
    case True
    then have "x AND mask k = x"
      using assms(1) by (intro less_mask_eq)
    then have "bit (x AND mask k) n"
      using assms(2) by simp
    with \<open>\<not> n < k\<close> show False by (simp add: bit_simps)
  next
    case False
    with \<open>\<not> n < k\<close> bit_imp_le_length [OF assms(2)] show False
      by simp
  qed
qed

lemma final_byte:
  fixes x :: "64 word"
  assumes "\<not> 0x7F < x"
  shows "(ucast x :: byte) AND 0x80 = 0" and "(ucast (ucast x :: byte) :: 64 word) AND 0x7F = x"
proof -
  have "x < 2 ^ 7"
    using assms by (simp add: not_less word_le_nat_alt word_less_nat_alt)
  then have bits: "n < 7" if "bit x n" for n
    using small_bits that by blast
  show "(ucast x :: byte) AND 0x80 = 0"
    by (rule bit_word_eqI) (auto simp: bit_simps bit_0x80 dest: bits)
  show "(ucast (ucast x :: byte) :: 64 word) AND 0x7F = x"
    by (rule bit_word_eqI) (auto simp: bit_simps bit_0x7F dest: bits)
qed

lemma split_low_bits:
  fixes x :: "64 word"
  shows "push_bit (7 * i) (x AND 0x7F) OR push_bit (7 * Suc i) (drop_bit 7 x) = push_bit (7 * i) x"
proof (rule bit_word_eqI)
  fix n
  assume "n < LENGTH(64)"
  have "7 + (n - (7 + 7 * i)) = n - 7 * i" if "7 + 7 * i \<le> n"
    using that by simp
  moreover have "n - 7 * i < 7 \<longleftrightarrow> n < 7 + 7 * i" if "7 * i \<le> n"
    using that by auto
  ultimately show "bit (push_bit (7 * i) (x AND 0x7F) OR push_bit (7 * Suc i) (drop_bit 7 x)) n =
      bit (push_bit (7 * i) x) n"
    using \<open>n < LENGTH(64)\<close> by (auto simp: bit_simps bit_0x7F possible_bit_def)
qed

lemma read_write_loop:
  assumes "i < 10" and "unat x < 2 ^ (64 - 7 * i)"
  shows "read_var_loop i acc (writeVarUInt x @ rest) = Inr (acc OR push_bit (7 * i) x, rest)"
  using assms
proof (induction x arbitrary: i acc rule: writeVarUInt.induct)
  case (1 x)
  show ?case
  proof (cases "0x7F < x")
    case True
    let ?b = "ucast (0x80 OR (x AND 0x7F)) :: byte"
    let ?acc = "acc OR push_bit (7 * i) (x AND 0x7F)"
    have ux: "127 < unat x"
      using True by (simp add: word_less_nat_alt)
    have i: "i < 9"
    proof (rule ccontr)
      assume "\<not> i < 9"
      with "1.prems"(1) have "i = 9" by simp
      with "1.prems"(2) ux show False by simp
    qed
    have "unat (drop_bit 7 x) < 2 ^ (64 - 7 * Suc i)"
    proof -
      have e: "64 - 7 * i = (64 - 7 * Suc i) + 7"
        using i by simp
      have "unat x < 2 ^ (64 - 7 * Suc i) * 2 ^ 7"
        using "1.prems"(2) e by (simp only: power_add)
      then have "unat x div 2 ^ 7 < 2 ^ (64 - 7 * Suc i)"
        by (rule less_mult_imp_div_less)
      then show ?thesis by (simp only: unat_drop_bit_eq) (simp add: drop_bit_eq_div)
    qed
    then have "read_var_loop (Suc i) ?acc (writeVarUInt (drop_bit 7 x) @ rest) =
        Inr (?acc OR push_bit (7 * Suc i) (drop_bit 7 x), rest)"
      using i by (intro "1.IH" [OF True]) simp_all
    moreover have "?acc OR push_bit (7 * Suc i) (drop_bit 7 x) = acc OR push_bit (7 * i) x"
      by (simp only: or.assoc split_low_bits)
    ultimately show ?thesis
      using True "1.prems"(1)
      by (simp add: writeVarUInt.simps [of x] read_var_loop.simps [of i] continuation_byte Let_def)
  next
    case False
    then show ?thesis
      using "1.prems"(1) final_byte [OF False]
      by (simp add: writeVarUInt.simps [of x] read_var_loop.simps [of i] Let_def)
  qed
qed

lemma readVarUInt_writeVarUInt [simp]: "readVarUInt (writeVarUInt x @ rest) = Inr (x, rest)"
proof -
  have "unat x < 2 ^ (64 - 7 * 0)"
    using unsigned_less [of x, where 'a = nat] by simp
  from read_write_loop [OF _ this, of 0 rest] show ?thesis
    by (simp add: readVarUInt_def)
qed

lemma signed_drop_bit_63:
  fixes v :: "64 word"
  shows "signed_drop_bit 63 v = (if bit v 63 then - 1 else 0)"
  by (rule bit_word_eqI) (auto simp: bit_simps not_le less_Suc_eq)

lemma bit_encodeZigZag:
  "n < 64 \<Longrightarrow> bit (encodeZigZag v) n \<longleftrightarrow>
    (if n = 0 then bit v 63 else bit v (n - 1) \<noteq> bit v 63)"
  unfolding encodeZigZag_def signed_drop_bit_63 bit_xor_iff bit_push_bit_iff
  by (cases "bit v 63") (auto simp: bit_simps)

lemma bit_decodeZigZag:
  "n < 64 \<Longrightarrow> bit (decodeZigZag v) n \<longleftrightarrow> ((n < 63 \<and> bit v (Suc n)) \<noteq> bit v 0)"
proof -
  assume n: "n < 64"
  have "v AND 1 = of_bool (bit v 0)"
    by (simp add: and_one_eq mod_2_eq_odd bit_0)
  moreover have "bit v (Suc n) \<Longrightarrow> Suc n < 64"
    using bit_imp_le_length [of v "Suc n"] by simp
  ultimately show ?thesis
    using n by (auto simp: decodeZigZag_def bit_simps)
qed

lemma decodeZigZag_encodeZigZag [simp]: "decodeZigZag (encodeZigZag v) = v"
proof (rule bit_word_eqI)
  fix n
  assume "n < LENGTH(64)"
  then have n: "n < 64" by simp
  show "bit (decodeZigZag (encodeZigZag v)) n = bit v n"
  proof (cases "n = 63")
    case True
    then show ?thesis by (simp add: bit_decodeZigZag bit_encodeZigZag)
  next
    case False
    with n show ?thesis
      by (cases "bit v 63") (simp_all add: bit_decodeZigZag bit_encodeZigZag)
  qed
qed

lemma encodeZigZag_decodeZigZag [simp]: "encodeZigZag (decodeZigZag v) = v"
proof (rule bit_word_eqI)
  fix n
  assume "n < LENGTH(64)"
  then have n: "n < 64" by simp
  then have "bit (encodeZigZag (decodeZigZag v)) n \<longleftrightarrow>
    (if n = 0 then bit (decodeZigZag v) 63 else bit (decodeZigZag v) (n - 1) \<noteq> bit (decodeZigZag v) 63)"
    by (rule bit_encodeZigZag)
  with n show "bit (encodeZigZag (decodeZigZag v)) n = bit v n"
    by (cases n) (auto simp: bit_decodeZigZag)
qed

lemma readVarInt_writeVarInt [simp]: "readVarInt (writeVarInt x @ rest) = Inr (x, rest)"
  by (simp add: readVarInt_def writeVarInt_def)

lemma ignore_var_loop_eq: "ignore_var_loop i buf = res_map snd (read_var_loop i x buf)"
proof (induction i buf arbitrary: x rule: ignore_var_loop.induct)
  case (1 i buf)
  show ?case
  proof (cases buf)
    case Nil
    then show ?thesis
      by (simp add: ignore_var_loop.simps [of i] read_var_loop.simps [of i])
  next
    case (Cons byte rest)
    then show ?thesis
      using "1.IH" [of byte rest]
      by (simp add: ignore_var_loop.simps [of i] read_var_loop.simps [of i] Let_def)
  qed
qed

section \<open>Size of an encoding\<close>

lemma length_writeVarUInt_le:
  assumes "0 < k" and "k < 10"
  shows "length (writeVarUInt x) \<le> k \<longleftrightarrow> unat x < 2 ^ (7 * k)"
  using assms
proof (induction x arbitrary: k rule: writeVarUInt.induct)
  case (1 x)
  show ?case
  proof (cases "0x7F < x")
    case True
    then have ux: "127 < unat x"
      by (simp add: word_less_nat_alt)
    have len: "length (writeVarUInt x) = Suc (length (writeVarUInt (drop_bit 7 x)))"
      using True by (simp add: writeVarUInt.simps [of x])
    have ud: "unat (drop_bit 7 x) = unat x div 2 ^ 7"
      by (simp only: unat_drop_bit_eq) (simp only: drop_bit_eq_div)
    show ?thesis
    proof (cases "k = 1")
      case True
      have "0 < length (writeVarUInt (drop_bit 7 x))"
        by (subst writeVarUInt.simps) simp
      with True ux len show ?thesis by simp
    next
      case False
      then obtain j where k: "k = Suc j" "0 < j"
        using "1.prems" by (cases k) auto
      have "length (writeVarUInt (drop_bit 7 x)) \<le> j \<longleftrightarrow> unat (drop_bit 7 x) < 2 ^ (7 * j)"
        using "1.prems" k by (intro "1.IH" [OF True]) simp_all
      also have "\<dots> \<longleftrightarrow> unat x < 2 ^ (7 * j) * 2 ^ 7"
        by (simp only: ud div_less_iff_less_mult zero_less_power zero_less_numeral)
      also have "\<dots> \<longleftrightarrow> unat x < 2 ^ (7 * k)"
        by (simp add: k power_add mult.commute)
      finally show ?thesis using len k by simp
    qed
  next
    case False
    then have "unat x < 2 ^ 7"
      by (simp add: not_less word_le_nat_alt)
    also have "(2::nat) ^ 7 \<le> 2 ^ (7 * k)"
      using "1.prems"(1) by (intro power_increasing) simp_all
    finally show ?thesis
      using False "1.prems"(1) by (simp add: writeVarUInt.simps [of x])
  qed
qed

lemma length_writeVarUInt_le_10: "length (writeVarUInt x) \<le> 10"
proof (cases "0x7F < x")
  case True
  have "unat (drop_bit 7 x) < 2 ^ (7 * 9)"
  proof -
    have "unat x < 2 ^ 64"
      using unsigned_less [of x, where 'a = nat] by simp
    then have "unat x div 2 ^ 7 < 2 ^ (7 * 9)"
      by (intro less_mult_imp_div_less) simp
    then show ?thesis
      by (simp only: unat_drop_bit_eq) (simp only: drop_bit_eq_div)
  qed
  then have "length (writeVarUInt (drop_bit 7 x)) \<le> 9"
    by (subst length_writeVarUInt_le) simp_all
  with True show ?thesis by (simp add: writeVarUInt.simps [of x])
next
  case False
  then show ?thesis by (simp add: writeVarUInt.simps [of x])
qed

lemma getLengthOfVarUInt_eq: "getLengthOfVarUInt x = length (writeVarUInt x)"
proof -
  have lt: "x < 2 ^ (7 * k) \<longleftrightarrow> length (writeVarUInt x) \<le> k" if "0 < k" "k < 10" for k
  proof -
    have "x < 2 ^ (7 * k) \<longleftrightarrow> uint x < 2 ^ (7 * k)"
      using that by (intro word_2p_lem) (simp add: word_size)
    also have "\<dots> \<longleftrightarrow> int (unat x) < int (2 ^ (7 * k))"
      by simp
    also have "\<dots> \<longleftrightarrow> unat x < 2 ^ (7 * k)"
      by (rule of_nat_less_iff)
    finally show ?thesis using length_writeVarUInt_le [OF that] by simp
  qed
  obtain m where m: "length (writeVarUInt x) = Suc m"
    using writeVarUInt.simps [of x] by (cases "0x7F < x") auto
  then show ?thesis
    using lt [of 1] lt [of 2] lt [of 3] lt [of 4] lt [of 5] lt [of 6] lt [of 7] lt [of 8] lt [of 9]
      length_writeVarUInt_le_10 [of x]
    unfolding getLengthOfVarUInt_def m by auto
qed

lemma read_var_loop_prefix:
  assumes "k < length (writeVarUInt x)" and "i + length (writeVarUInt x) \<le> 10"
  shows "read_var_loop i acc (take k (writeVarUInt x)) = Inl ATTEMPT_TO_READ_AFTER_EOF"
  using assms
proof (induction x arbitrary: i k acc rule: writeVarUInt.induct)
  case (1 x)
  have i: "i < 10"
    using "1.prems" by (cases "length (writeVarUInt x)") auto
  show ?case
  proof (cases k)
    case 0
    with i show ?thesis by (simp add: read_var_loop.simps [of i])
  next
    case (Suc j)
    show ?thesis
    proof (cases "0x7F < x")
      case True
      with "1.prems" Suc have "read_var_loop (Suc i) a (take j (writeVarUInt (drop_bit 7 x))) =
          Inl ATTEMPT_TO_READ_AFTER_EOF" for a
        by (intro "1.IH" [OF True]) (simp_all add: writeVarUInt.simps [of x])
      with True Suc i show ?thesis
        by (simp add: writeVarUInt.simps [of x] read_var_loop.simps [of i] continuation_byte Let_def)
    next
      case False
      with "1.prems" Suc show ?thesis by (simp add: writeVarUInt.simps [of x])
    qed
  qed
qed

section \<open>Properties\<close>

text \<open>C29: Variable-length integers: for every 64-bit value and every continuation of the buffer, reading
  gives the written value and leaves the continuation, ZigZag-encoded signed values included;
  skipping consumes the same bytes; and the length function predicts the number of bytes written,
  which is between one and ten.\<close>

theorem VarUInt_roundtrip:
  "readVarUInt (writeVarUInt x @ rest) = Inr (x, rest)
   \<and> readVarInt (writeVarInt y @ rest) = Inr (y, rest)
   \<and> ignoreVarUInt (writeVarUInt x @ rest) = Inr rest
   \<and> getLengthOfVarUInt x = length (writeVarUInt x)
   \<and> getLengthOfVarInt y = length (writeVarInt y)
   \<and> length (writeVarUInt x) \<in> {1..10}"
proof (intro conjI)
  show "ignoreVarUInt (writeVarUInt x @ rest) = Inr rest"
    using readVarUInt_writeVarUInt [of x rest]
    by (simp add: ignoreVarUInt_def readVarUInt_def ignore_var_loop_eq [where x = 0] res_map_def)
  show "length (writeVarUInt x) \<in> {1..10}"
    using length_writeVarUInt_le_10 [of x] writeVarUInt.simps [of x]
    by (cases "writeVarUInt x") (auto split: if_splits)
  show "getLengthOfVarInt y = length (writeVarInt y)"
    by (simp add: getLengthOfVarUInt_eq getLengthOfVarInt_def writeVarInt_def)
qed (simp_all add: getLengthOfVarUInt_eq)

end
