(* ===== verification/IO_Binary.thy ===== *)
theory IO_Binary
  imports IO_ReadInt IO_VarInt
begin

text \<open>
  Binary input and output, \<^verbatim>\<open>src/src/IO/ReadHelpers.h\<close> and \<^verbatim>\<open>src/src/IO/WriteHelpers.h\<close>: integers in
  little-endian byte order (\<^verbatim>\<open>writeBinaryLittleEndian\<close>, and \<^verbatim>\<open>writeIntBinary\<close> on the little-endian
  targets chDB is built for), length-prefixed strings and booleans as text.  A write buffer is
  the list of the bytes written so far, a read buffer the list of the bytes not yet consumed.
\<close>

section \<open>Integers\<close>

fun le_bytes :: "nat \<Rightarrow> int \<Rightarrow> byte list" where
  "le_bytes 0 x = []"
| "le_bytes (Suc k) x = word_of_int x # le_bytes k (x div 256)"

fun le_value :: "byte list \<Rightarrow> int" where
  "le_value [] = 0"
| "le_value (b # bs) = uint b + 256 * le_value bs"

definition writeIntBinary :: "int_type \<Rightarrow> int \<Rightarrow> byte list" where
  "writeIntBinary ty x = le_bytes (width ty div 8) x"

definition readStrict :: "nat \<Rightarrow> byte list \<Rightarrow> (byte list \<times> byte list) result" where
  "readStrict n buf =
     (if length buf < n then Inl CANNOT_READ_ALL_DATA else Inr (take n buf, drop n buf))"

definition readIntBinary :: "int_type \<Rightarrow> byte list \<Rightarrow> (int \<times> byte list) result" where
  "readIntBinary ty buf =
     res_map (\<lambda>(bs, rest). (cast ty (le_value bs), rest)) (readStrict (width ty div 8) buf)"

section \<open>Strings and booleans\<close>

definition DEFAULT_MAX_STRING_SIZE :: nat where
  "DEFAULT_MAX_STRING_SIZE = 1024 * 1024 * 1024"

definition writeStringBinary :: "string \<Rightarrow> byte list" where
  "writeStringBinary s = writeVarUInt (word_of_nat (length s)) @ map byte_of_char s"

definition readStringBinary :: "byte list \<Rightarrow> (string \<times> byte list) result" where
  "readStringBinary buf =
     res_bind (readVarUInt buf)
       (\<lambda>(size, buf1).
          if DEFAULT_MAX_STRING_SIZE < unat size then Inl TOO_LARGE_STRING_SIZE
          else res_map (\<lambda>(bs, rest). (map char_of_byte bs, rest)) (readStrict (unat size) buf1))"

definition writeBoolText :: "bool \<Rightarrow> byte list" where
  "writeBoolText x = [byte_of_char (if x then CHR ''1'' else CHR ''0'')]"

definition to_lower_ascii :: "char \<Rightarrow> char" where
  "to_lower_ascii c =
     (if 65 \<le> (of_char c :: nat) \<and> (of_char c :: nat) \<le> 90 then char_of (of_char c + 32 :: nat) else c)"

definition isAlphaASCII :: "char \<Rightarrow> bool" where
  "isAlphaASCII c \<longleftrightarrow>
     (let n = (of_char c :: nat) in 97 \<le> n \<and> n \<le> 122 \<or> 65 \<le> n \<and> n \<le> 90)"

fun assertStringCaseInsensitive :: "string \<Rightarrow> byte list \<Rightarrow> byte list result" where
  "assertStringCaseInsensitive [] buf = Inr buf"
| "assertStringCaseInsensitive (s # ss) [] = Inl CANNOT_PARSE_INPUT_ASSERTION_FAILED"
| "assertStringCaseInsensitive (s # ss) (b # buf) =
     (if to_lower_ascii s = to_lower_ascii (char_of_byte b) then assertStringCaseInsensitive ss buf
      else Inl CANNOT_PARSE_INPUT_ASSERTION_FAILED)"

definition readBoolText :: "byte list \<Rightarrow> (bool \<times> byte list) result" where
  "readBoolText buf =
     (case buf of
        [] \<Rightarrow> Inl ATTEMPT_TO_READ_AFTER_EOF
      | b # rest \<Rightarrow>
          (let tmp = char_of_byte b in
           if rest \<noteq> [] \<and> isAlphaASCII tmp then
             (if tmp = CHR ''t'' \<or> tmp = CHR ''T'' then
                res_map (\<lambda>r. (True, r)) (assertStringCaseInsensitive ''rue'' rest)
              else if tmp = CHR ''f'' \<or> tmp = CHR ''F'' then
                res_map (\<lambda>r. (False, r)) (assertStringCaseInsensitive ''alse'' rest)
              else Inr (tmp \<noteq> CHR ''0'', rest))
           else Inr (tmp \<noteq> CHR ''0'', rest)))"

section \<open>Round trips\<close>

named_theorems binary_io \<open>reading back what was written\<close>

lemma length_le_bytes [simp]: "length (le_bytes k x) = k"
  by (induction k arbitrary: x) simp_all

lemma le_value_le_bytes: "le_value (le_bytes k x) = x mod 256 ^ k"
proof (induction k arbitrary: x)
  case 0
  then show ?case by simp
next
  case (Suc k)
  have "uint (word_of_int x :: byte) = x mod 256"
    by (simp add: uint_word_of_int)
  then show ?case
    using Suc.IH [of "x div 256"] by (simp add: zmod_zmult2_eq mult.commute)
qed

lemma readStrict_append [simp]: "length bs = n \<Longrightarrow> readStrict n (bs @ rest) = Inr (bs, rest)"
  by (simp add: readStrict_def)

lemma readStrict_short [simp]: "length buf < n \<Longrightarrow> readStrict n buf = Inl CANNOT_READ_ALL_DATA"
  by (simp add: readStrict_def)

lemma cast_mod: "cast ty (x mod 2 ^ width ty) = cast ty x"
  by (simp add: cast_def mod_add_left_eq)

lemma readIntBinary_writeIntBinary [binary_io]:
  assumes "machine_type ty" and "width ty mod 8 = 0" and "in_range ty x"
  shows "readIntBinary ty (writeIntBinary ty x @ rest) = Inr (x, rest)"
proof -
  have "(256::int) ^ (width ty div 8) = 2 ^ (8 * (width ty div 8))"
    by (simp only: power_mult) simp
  also have "8 * (width ty div 8) = width ty"
    using assms(2) by auto
  finally have "le_value (le_bytes (width ty div 8) x) = x mod 2 ^ width ty"
    by (simp only: le_value_le_bytes)
  then show ?thesis
    using cast_in_range [OF assms(1,3)]
    by (simp add: readIntBinary_def writeIntBinary_def cast_mod)
qed

lemma readStringBinary_writeStringBinary [binary_io]:
  assumes "length s \<le> DEFAULT_MAX_STRING_SIZE"
  shows "readStringBinary (writeStringBinary s @ rest) = Inr (s, rest)"
proof -
  have "length s < 2 ^ 64"
    using assms by (simp add: DEFAULT_MAX_STRING_SIZE_def)
  then have "unat (word_of_nat (length s) :: 64 word) = length s"
    by (simp add: unat_of_nat take_bit_nat_eq_self)
  then show ?thesis
    using assms by (simp add: readStringBinary_def writeStringBinary_def o_def)
qed

lemma readBoolText_writeBoolText [binary_io]: "readBoolText (writeBoolText x @ rest) = Inr (x, rest)"
  by (simp add: readBoolText_def writeBoolText_def isAlphaASCII_def Let_def)

end
