(* ===== verification/MergeTree_PartInfo.thy ===== *)
theory MergeTree_PartInfo
  imports IO_Itoa IO_Binary
begin

text \<open>
  Descriptions of MergeTree data parts, \<^verbatim>\<open>src/src/Storages/MergeTree/MergeTreePartInfo.h\<close> and
  \<^verbatim>\<open>.cpp\<close>: the relations between parts (containment, disjointness, order), part names and their
  parser, binary serialization, coverage of a block range and names of detached parts.
\<close>

section \<open>The data\<close>

datatype part_kind = Regular | Patch

instantiation part_kind :: linorder
begin

definition less_eq_part_kind :: "part_kind \<Rightarrow> part_kind \<Rightarrow> bool" where
  "less_eq_part_kind a b \<longleftrightarrow> a = Regular \<or> b = Patch"

definition less_part_kind :: "part_kind \<Rightarrow> part_kind \<Rightarrow> bool" where
  "less_part_kind a b \<longleftrightarrow> a = Regular \<and> b = Patch"

instance
proof
  fix x y z :: part_kind
  show "x < y \<longleftrightarrow> x \<le> y \<and> \<not> y \<le> x"
    by (cases x; cases y) (simp_all add: less_eq_part_kind_def less_part_kind_def)
  show "x \<le> x"
    by (cases x) (simp_all add: less_eq_part_kind_def)
  show "x \<le> y \<Longrightarrow> y \<le> z \<Longrightarrow> x \<le> z"
    by (auto simp: less_eq_part_kind_def)
  show "x \<le> y \<Longrightarrow> y \<le> x \<Longrightarrow> x = y"
    by (auto simp: less_eq_part_kind_def)
  show "x \<le> y \<or> y \<le> x"
    by (cases x; cases y) (simp_all add: less_eq_part_kind_def)
qed

end

record part_info =
  kind :: part_kind
  partition_id :: string
  min_block :: int
  max_block :: int
  level :: int
  mutation :: int
  use_legacy_max_level :: bool

definition PATCH_PART_PREFIX :: string where
  "PATCH_PART_PREFIX = ''patch-''"

definition PATCH_PART_PREFIX_SIZE :: nat where
  "PATCH_PART_PREFIX_SIZE = length PATCH_PART_PREFIX + 32 + 1"

definition MAX_LEVEL :: int where
  "MAX_LEVEL = 999999999"

definition LEGACY_MAX_LEVEL :: int where
  "LEGACY_MAX_LEVEL = 2 ^ 32 - 1"

definition MAX_BLOCK_NUMBER :: int where
  "MAX_BLOCK_NUMBER = 2 ^ 31 - 1"

definition MIN_FORMAT_VERSION_WITH_CUSTOM_PARTITIONING :: nat where
  "MIN_FORMAT_VERSION_WITH_CUSTOM_PARTITIONING = 1"

definition starts_with :: "string \<Rightarrow> string \<Rightarrow> bool" where
  "starts_with s pre \<longleftrightarrow> take (length pre) s = pre"

definition getKind :: "string \<Rightarrow> part_kind" where
  "getKind pid = (if starts_with pid PATCH_PART_PREFIX then Patch else Regular)"

definition default_part_info :: part_info where
  "default_part_info =
     \<lparr>kind = Regular, partition_id = [], min_block = 0, max_block = 0, level = 0, mutation = 0,
      use_legacy_max_level = False\<rparr>"

definition make_part_info :: "string \<Rightarrow> int \<Rightarrow> int \<Rightarrow> int \<Rightarrow> int \<Rightarrow> part_info" where
  "make_part_info pid lo hi lv mut =
     \<lparr>kind = getKind pid, partition_id = pid, min_block = lo, max_block = hi, level = lv,
      mutation = mut, use_legacy_max_level = False\<rparr>"

definition isPatch :: "part_info \<Rightarrow> bool" where
  "isPatch p \<longleftrightarrow> kind p = Patch"

definition setPartitionId :: "part_info \<Rightarrow> string \<Rightarrow> part_info" where
  "setPartitionId p pid = p\<lparr>kind := getKind pid, partition_id := pid\<rparr>"

text \<open>\<^verbatim>\<open>toTuple\<close>; \<^verbatim>\<open>operator<=>\<close> and \<^verbatim>\<open>operator==\<close> compare these tuples, lexicographically.\<close>

type_synonym part_key = "part_kind \<times> string \<times> int \<times> int \<times> int \<times> int"

definition toTuple :: "part_info \<Rightarrow> part_key" where
  "toTuple p = (kind p, partition_id p, min_block p, max_block p, level p, mutation p)"

text \<open>\<^verbatim>\<open>getOriginalPartitionIdOfPatch\<close> strips the prefix of a patch partition after checking it.\<close>

definition isPatchPartitionId :: "string \<Rightarrow> bool" where
  "isPatchPartitionId pid \<longleftrightarrow>
     starts_with pid PATCH_PART_PREFIX \<and> length pid > PATCH_PART_PREFIX_SIZE"

definition getOriginalPartitionIdOfPatch :: "string \<Rightarrow> string result" where
  "getOriginalPartitionIdOfPatch pid =
     (if isPatchPartitionId pid then Inr (drop PATCH_PART_PREFIX_SIZE pid) else Inl LOGICAL_ERROR)"

definition isPatchForPartition :: "part_info \<Rightarrow> string \<Rightarrow> bool result" where
  "isPatchForPartition info pid =
     (if \<not> isPatch info then Inr False
      else if \<not> isPatchPartitionId (partition_id info) then Inl LOGICAL_ERROR
      else Inr (drop PATCH_PART_PREFIX_SIZE (partition_id info) = pid))"

definition getOriginalPartitionId :: "part_info \<Rightarrow> string result" where
  "getOriginalPartitionId p =
     (if isPatch p then getOriginalPartitionIdOfPatch (partition_id p) else Inr (partition_id p))"

section \<open>Relations between parts\<close>

definition getDataVersion :: "part_info \<Rightarrow> int" where
  "getDataVersion p = (if mutation p \<noteq> 0 then mutation p else min_block p)"

definition strictly_contains_block_range :: "part_info \<Rightarrow> part_info \<Rightarrow> bool" where
  "strictly_contains_block_range p rhs \<longleftrightarrow>
     (min_block p = min_block rhs \<and> max_block p = max_block rhs)
     \<or> level p > level rhs
     \<or> level p = MAX_LEVEL
     \<or> level p = LEGACY_MAX_LEVEL"

definition part_contains :: "part_info \<Rightarrow> part_info \<Rightarrow> bool" where
  "part_contains p rhs \<longleftrightarrow>
     partition_id p = partition_id rhs
     \<and> min_block p \<le> min_block rhs
     \<and> max_block p \<ge> max_block rhs
     \<and> level p \<ge> level rhs
     \<and> mutation p \<ge> mutation rhs
     \<and> strictly_contains_block_range p rhs"

definition isMutationChildOf :: "part_info \<Rightarrow> part_info \<Rightarrow> bool" where
  "isMutationChildOf p parent \<longleftrightarrow>
     partition_id p = partition_id parent
     \<and> min_block p = min_block parent
     \<and> max_block p = max_block parent
     \<and> level p = level parent
     \<and> mutation p \<ge> mutation parent"

definition getMutationVersion :: "part_info \<Rightarrow> int" where
  "getMutationVersion p = mutation p"

definition part_isDisjoint :: "part_info \<Rightarrow> part_info \<Rightarrow> bool" where
  "part_isDisjoint p rhs \<longleftrightarrow>
     partition_id p \<noteq> partition_id rhs
     \<or> min_block p > max_block rhs
     \<or> max_block p < min_block rhs"

definition isFakeDropRangePart :: "part_info \<Rightarrow> bool" where
  "isFakeDropRangePart p \<longleftrightarrow> level p = MAX_LEVEL \<or> level p = LEGACY_MAX_LEVEL"

definition getBlocksCount :: "part_info \<Rightarrow> int" where
  "getBlocksCount p = cast UInt64 (max_block p - min_block p + 1)"

section \<open>Part names\<close>

text \<open>The text written for the level: a part read with the legacy maximum keeps its spelling.\<close>

definition level_text :: "part_info \<Rightarrow> string" where
  "level_text p =
     (if use_legacy_max_level p then itoa UInt32 LEGACY_MAX_LEVEL else itoa UInt32 (level p))"

definition mutation_text :: "part_info \<Rightarrow> string" where
  "mutation_text p = (if mutation p \<noteq> 0 then CHR ''_'' # itoa Int64 (mutation p) else [])"

definition getPartNameV1 :: "part_info \<Rightarrow> string" where
  "getPartNameV1 p =
     partition_id p @ CHR ''_'' # itoa Int64 (min_block p) @ CHR ''_'' # itoa Int64 (max_block p) @
     CHR ''_'' # level_text p @ mutation_text p"

text \<open>The old format names the dates; \<open>toNumYYYYMMDD\<close> is the date table of the server time zone.\<close>

definition getPartNameV0 :: "(int \<Rightarrow> int) \<Rightarrow> part_info \<Rightarrow> int \<Rightarrow> int \<Rightarrow> string" where
  "getPartNameV0 toNumYYYYMMDD p left_date right_date =
     itoa UInt32 (toNumYYYYMMDD left_date) @ CHR ''_'' # itoa UInt32 (toNumYYYYMMDD right_date) @
     CHR ''_'' # itoa Int64 (min_block p) @ CHR ''_'' # itoa Int64 (max_block p) @
     CHR ''_'' # level_text p @ mutation_text p"

definition getPartNameAndCheckFormat :: "part_info \<Rightarrow> nat \<Rightarrow> string result" where
  "getPartNameAndCheckFormat p format_version =
     (if format_version = MIN_FORMAT_VERSION_WITH_CUSTOM_PARTITIONING then Inr (getPartNameV1 p)
      else Inl BAD_DATA_PART_NAME)"

section \<open>The parser of part names\<close>

text \<open>The loop that reads the partition up to the first underscore, which it consumes.\<close>

fun read_partition :: "string \<Rightarrow> string \<times> string" where
  "read_partition [] = ([], [])"
| "read_partition (c # cs) =
     (if c = CHR ''_'' then ([], cs)
      else (let (pid, rest) = read_partition cs in (c # pid, rest)))"

definition read_field :: "int_type \<Rightarrow> string \<Rightarrow> (int \<times> string) option" where
  "read_field ty buf =
     (case tryReadIntText ty buf of
        None \<Rightarrow> None
      | Some (x, rest) \<Rightarrow> map_option (Pair x) (checkChar CHR ''_'' rest))"

definition parse_partition :: "string \<Rightarrow> nat \<Rightarrow> (string \<times> string) option" where
  "parse_partition part_name format_version =
     (if format_version < MIN_FORMAT_VERSION_WITH_CUSTOM_PARTITIONING then
        (case read_field UInt32 part_name of
           None \<Rightarrow> None
         | Some (min_yyyymmdd, r1) \<Rightarrow>
             (case read_field UInt32 r1 of
                None \<Rightarrow> None
              | Some (max_yyyymmdd, r2) \<Rightarrow> Some (itoa UInt32 (min_yyyymmdd div 100), r2)))
      else Some (read_partition part_name))"

definition parse_mutation :: "string \<Rightarrow> int option" where
  "parse_mutation buf =
     (if buf = [] then Some 0
      else (case checkChar CHR ''_'' buf of
              None \<Rightarrow> None
            | Some r \<Rightarrow>
                (case tryReadIntText UInt32 r of
                   None \<Rightarrow> None
                 | Some (m, rest) \<Rightarrow> if rest = [] then Some m else None)))"

text \<open>The object built from the parsed fields; the legacy maximal level is replaced.\<close>

definition build_part_info :: "string \<Rightarrow> int \<Rightarrow> int \<Rightarrow> int \<Rightarrow> int \<Rightarrow> part_info" where
  "build_part_info pid lo hi lv mut =
     (setPartitionId default_part_info pid)
       \<lparr>min_block := lo, max_block := hi,
        use_legacy_max_level := lv = LEGACY_MAX_LEVEL,
        level := if lv = LEGACY_MAX_LEVEL then MAX_LEVEL else lv,
        mutation := mut\<rparr>"

definition tryParsePartName :: "string \<Rightarrow> nat \<Rightarrow> part_info option" where
  "tryParsePartName part_name format_version =
     (case parse_partition part_name format_version of
        None \<Rightarrow> None
      | Some (pid, r0) \<Rightarrow>
          if pid = [] then None
          else (case read_field Int64 r0 of
                  None \<Rightarrow> None
                | Some (lo, r1) \<Rightarrow>
                    (case read_field Int64 r1 of
                       None \<Rightarrow> None
                     | Some (hi, r2) \<Rightarrow>
                         (case tryReadIntText UInt32 r2 of
                            None \<Rightarrow> None
                          | Some (lv, r3) \<Rightarrow>
                              if hi < lo then None
                              else map_option (build_part_info pid lo hi lv) (parse_mutation r3)))))"

definition fromPartName :: "string \<Rightarrow> nat \<Rightarrow> part_info result" where
  "fromPartName part_name format_version =
     (case tryParsePartName part_name format_version of
        None \<Rightarrow> Inl BAD_DATA_PART_NAME
      | Some p \<Rightarrow> Inr p)"

text \<open>The static overload of \<^verbatim>\<open>contains\<close> on names.\<close>

definition contains_by_name :: "string \<Rightarrow> string \<Rightarrow> nat \<Rightarrow> bool result" where
  "contains_by_name outer_part_name inner_part_name format_version =
     res_bind (fromPartName outer_part_name format_version)
       (\<lambda>outer. res_bind (fromPartName inner_part_name format_version)
          (\<lambda>inner. Inr (part_contains outer inner)))"

text \<open>
  \<^verbatim>\<open>parseMinMaxDatesFromPartName\<close>, over the date table of the server time zone; a day number is
  an unsigned 16-bit integer.
\<close>

definition parseMinMaxDatesFromPartName ::
  "(int \<Rightarrow> int) \<Rightarrow> (int \<Rightarrow> int) \<Rightarrow> string \<Rightarrow> (int \<times> int) result" where
  "parseMinMaxDatesFromPartName YYYYMMDDToDayNum toNumYYYYMM part_name =
     (case read_field UInt32 part_name of
        None \<Rightarrow> Inl BAD_DATA_PART_NAME
      | Some (min_yyyymmdd, r) \<Rightarrow>
          (case tryReadIntText UInt32 r of
             None \<Rightarrow> Inl BAD_DATA_PART_NAME
           | Some (max_yyyymmdd, _) \<Rightarrow>
               (let min_date = YYYYMMDDToDayNum min_yyyymmdd mod 2 ^ 16;
                    max_date = YYYYMMDDToDayNum max_yyyymmdd mod 2 ^ 16
                in if toNumYYYYMM min_date \<noteq> toNumYYYYMM max_date then Inl BAD_DATA_PART_NAME
                   else Inr (min_date, max_date))))"

text \<open>
  \<^verbatim>\<open>validatePartitionID\<close>: \<open>Some s\<close> is a string literal, \<open>None\<close> any other syntax tree.
\<close>

definition isNumericASCII :: "char \<Rightarrow> bool" where
  "isNumericASCII c \<longleftrightarrow> (let n = (of_char c :: nat) in 48 \<le> n \<and> n \<le> 57)"

definition isAlphaNumericASCII :: "char \<Rightarrow> bool" where
  "isAlphaNumericASCII c \<longleftrightarrow> isAlphaASCII c \<or> isNumericASCII c"

definition validatePartitionID :: "string option \<Rightarrow> nat \<Rightarrow> unit result" where
  "validatePartitionID ast format_version =
     (case ast of
        None \<Rightarrow> Inl INVALID_PARTITION_VALUE
      | Some pid \<Rightarrow>
          if pid = [] then Inl INVALID_PARTITION_VALUE
          else if format_version < MIN_FORMAT_VERSION_WITH_CUSTOM_PARTITIONING then
            (if length pid \<noteq> 6 \<or> \<not> list_all isNumericASCII pid then Inl INVALID_PARTITION_VALUE
             else Inr ())
          else
            (if \<not> list_all (\<lambda>c. c = CHR ''-'' \<or> isAlphaNumericASCII c) pid
             then Inl INVALID_PARTITION_VALUE
             else Inr ()))"

section \<open>Serialization\<close>

definition DBMS_MERGE_TREE_PART_INFO_VERSION :: int where
  "DBMS_MERGE_TREE_PART_INFO_VERSION = 1"

definition part_serialize :: "part_info \<Rightarrow> byte list" where
  "part_serialize p =
     writeIntBinary UInt64 DBMS_MERGE_TREE_PART_INFO_VERSION @
     writeStringBinary (partition_id p) @
     writeIntBinary Int64 (min_block p) @
     writeIntBinary Int64 (max_block p) @
     writeIntBinary UInt32 (level p) @
     writeIntBinary Int64 (mutation p) @
     writeBoolText (use_legacy_max_level p)"

text \<open>\<^verbatim>\<open>deserialize\<close> assigns to the fields of the object it is called on, here \<open>p\<close>.\<close>

definition part_deserialize :: "part_info \<Rightarrow> byte list \<Rightarrow> (part_info \<times> byte list) result" where
  "part_deserialize p buf =
     res_bind (readIntBinary UInt64 buf) (\<lambda>(version, b0).
       if version \<noteq> DBMS_MERGE_TREE_PART_INFO_VERSION then Inl UNKNOWN_FORMAT_VERSION
       else
         res_bind (readStringBinary b0) (\<lambda>(pid, b1).
         res_bind (readIntBinary Int64 b1) (\<lambda>(lo, b2).
         res_bind (readIntBinary Int64 b2) (\<lambda>(hi, b3).
         res_bind (readIntBinary UInt32 b3) (\<lambda>(lv, b4).
         res_bind (readIntBinary Int64 b4) (\<lambda>(mut, b5).
         res_bind (readBoolText b5) (\<lambda>(legacy, b6).
           Inr (p\<lparr>partition_id := pid, min_block := lo, max_block := hi, level := lv,
                  mutation := mut, use_legacy_max_level := legacy\<rparr>, b6))))))))"

section \<open>Coverage of a block range\<close>

text \<open>Sums of \<^verbatim>\<open>int64_t\<close>; leaving the type is undefined.\<close>

definition int64_add :: "int \<Rightarrow> int \<Rightarrow> int result" where
  "int64_add a b = (if in_range Int64 (a + b) then Inr (a + b) else Inl SIGNED_OVERFLOW)"

fun covered_loop :: "int \<Rightarrow> part_info list \<Rightarrow> int option result" where
  "covered_loop current_right_block [] = Inr (Some current_right_block)"
| "covered_loop current_right_block (candidate # cs) =
     res_bind (int64_add current_right_block 1) (\<lambda>next_block.
       if next_block \<noteq> min_block candidate then Inr None
       else covered_loop (max_block candidate) cs)"

definition areAllBlockNumbersCovered :: "part_info \<Rightarrow> part_info list \<Rightarrow> bool result" where
  "areAllBlockNumbersCovered blocks_range candidates =
     (case sort_key toTuple candidates of
        [] \<Rightarrow> Inr False
      | c # cs \<Rightarrow>
          if min_block c \<noteq> min_block blocks_range then Inr False
          else res_bind (int64_add (min_block c) (- 1)) (\<lambda>current_right_block.
                 res_map (\<lambda>r. r = Some (max_block blocks_range)) (covered_loop current_right_block (c # cs))))"

section \<open>Detached parts\<close>

text \<open>\<open>'d\<close> is the type of disk handles, which are only carried along.\<close>

record 'd detached_part_info = part_info +
  dir_name :: string
  prefix :: string
  disk :: 'd
  valid_name :: bool

definition DETACH_REASONS :: "string list" where
  "DETACH_REASONS =
     [''broken'', ''unexpected'', ''noquorum'', ''ignored'', ''broken-on-start'', ''clone'',
      ''attaching'', ''deleting'', ''tmp-fetch'', ''covered-by-broken'',
      ''merge-not-byte-identical'', ''mutate-not-byte-identical'', ''broken-from-backup'']"

definition addParsedPartInfo :: "'d detached_part_info \<Rightarrow> part_info \<Rightarrow> 'd detached_part_info" where
  "addParsedPartInfo d part =
     d\<lparr>kind := kind part, partition_id := partition_id part, min_block := min_block part,
       max_block := max_block part, level := level part, mutation := mutation part,
       use_legacy_max_level := use_legacy_max_level part\<rparr>"

definition new_detached :: "'d \<Rightarrow> string \<Rightarrow> 'd detached_part_info" where
  "new_detached dk name =
     part_info.extend default_part_info
       (detached_part_info.fields name [] dk False)"

definition with_parsed ::
  "'d detached_part_info \<Rightarrow> part_info option \<Rightarrow> 'd detached_part_info" where
  "with_parsed d part_opt =
     (case part_opt of
        Some p \<Rightarrow> addParsedPartInfo (d\<lparr>valid_name := True\<rparr>) p
      | None \<Rightarrow> d\<lparr>valid_name := False\<rparr>)"

text \<open>The first known prefix that is followed by an underscore.\<close>

definition matches_prefix :: "string \<Rightarrow> string \<Rightarrow> bool" where
  "matches_prefix name known_prefix \<longleftrightarrow>
     starts_with name known_prefix \<and> length known_prefix < length name
     \<and> name ! length known_prefix = CHR ''_''"

definition parseDetachedPartName :: "'d \<Rightarrow> string \<Rightarrow> nat \<Rightarrow> 'd detached_part_info" where
  "parseDetachedPartName dk name format_version =
     (let part_info = new_detached dk name in
      case find (matches_prefix name) DETACH_REASONS of
        Some known_prefix \<Rightarrow>
          with_parsed (part_info\<lparr>prefix := known_prefix\<rparr>)
            (tryParsePartName (drop (length known_prefix + 1) name) format_version)
      | None \<Rightarrow>
          (case tryParsePartName name format_version of
             Some p \<Rightarrow> with_parsed part_info (Some p)
           | None \<Rightarrow>
               (let d = part_info\<lparr>prefix := name\<rparr> in
                if CHR ''_'' \<notin> set name then d\<lparr>valid_name := False\<rparr>
                else
                  (let first_separator = length (takeWhile (\<lambda>c. c \<noteq> CHR ''_'') name) in
                   case tryParsePartName (drop (first_separator + 1) name) format_version of
                     Some p \<Rightarrow> with_parsed (d\<lparr>prefix := take first_separator name\<rparr>) (Some p)
                   | None \<Rightarrow> d\<lparr>valid_name := False\<rparr>))))"

section \<open>Laws of the relations\<close>

text \<open>
  What every part of a table satisfies: the kind belongs to the partition, the block range is not
  empty and the level is a \<^verbatim>\<open>UInt32\<close>.
\<close>

definition wf_part :: "part_info \<Rightarrow> bool" where
  "wf_part p \<longleftrightarrow> kind p = getKind (partition_id p) \<and> min_block p \<le> max_block p
     \<and> 0 \<le> level p \<and> level p \<le> LEGACY_MAX_LEVEL"

lemmas part_rel_defs = part_contains_def part_isDisjoint_def strictly_contains_block_range_def

lemma toTuple_eq_iff:
  "toTuple p = toTuple q \<longleftrightarrow>
     kind p = kind q \<and> partition_id p = partition_id q \<and> min_block p = min_block q
     \<and> max_block p = max_block q \<and> level p = level q \<and> mutation p = mutation q"
  by (simp add: toTuple_def)

lemma toTuple_less_min_block:
  assumes "toTuple p \<le> toTuple q" and "partition_id p = partition_id q" and "kind p = kind q"
  shows "min_block p \<le> min_block q"
  using assms by (auto simp: toTuple_def less_eq_prod_def split: if_splits)

lemma toTuple_between:
  assumes "wf_part p" and "wf_part q" and "wf_part r"
    and "toTuple p \<le> toTuple q" and "toTuple q \<le> toTuple r" and "partition_id p = partition_id r"
  shows "partition_id q = partition_id p"
proof -
  have k: "kind p = kind r"
    using assms by (simp add: wf_part_def)
  have "kind p \<le> kind q" and "kind q \<le> kind r"
    using assms(4,5) by (auto simp: toTuple_def less_eq_prod_def)
  then have "kind p = kind q" and "kind q = kind r"
    using k by auto
  then have "partition_id p \<le> partition_id q" and "partition_id q \<le> partition_id r"
    using assms(4,5) by (auto simp: toTuple_def less_eq_prod_def)
  then show ?thesis
    using assms(6) by simp
qed

lemma part_contains_refl: "part_contains p p"
  by (simp add: part_rel_defs)

lemma part_contains_trans_aux:
  assumes "part_contains p q" and "part_contains q r" and "level p \<le> LEGACY_MAX_LEVEL"
  shows "part_contains p r"
  using assms unfolding part_rel_defs MAX_LEVEL_def LEGACY_MAX_LEVEL_def by auto

lemma part_isDisjoint_sym: "part_isDisjoint p q \<longleftrightarrow> part_isDisjoint q p"
  by (auto simp: part_rel_defs)

lemma part_contains_not_disjoint:
  "wf_part q \<Longrightarrow> part_contains p q \<Longrightarrow> \<not> part_isDisjoint p q"
  by (auto simp: part_rel_defs wf_part_def)

lemma part_contains_disjoint:
  "part_contains p q \<Longrightarrow> part_isDisjoint p r \<Longrightarrow> part_isDisjoint q r"
  by (auto simp: part_rel_defs)

lemma part_isDisjoint_upward:
  assumes "wf_part p" and "wf_part q" and "wf_part r"
    and "toTuple p \<le> toTuple q" and "toTuple q \<le> toTuple r" and "part_isDisjoint p q"
  shows "part_isDisjoint p r"
proof (cases "partition_id p = partition_id r")
  case True
  then have pid: "partition_id q = partition_id p" "partition_id r = partition_id q"
    using toTuple_between [OF assms(1-5)] by auto
  then have "kind p = kind q" "kind q = kind r"
    using assms(1-3) by (simp_all add: wf_part_def)
  then have "min_block p \<le> min_block q" "min_block q \<le> min_block r"
    using toTuple_less_min_block assms(4,5) pid by metis+
  then show ?thesis
    using assms(2,6) pid by (auto simp: part_isDisjoint_def wf_part_def)
next
  case False
  then show ?thesis by (simp add: part_isDisjoint_def)
qed

lemma part_contains_antisym_aux:
  assumes "wf_part p" and "wf_part q" and "part_contains p q" and "part_contains q p"
  shows "toTuple p = toTuple q"
  using assms by (auto simp: part_rel_defs wf_part_def toTuple_def)

section \<open>The parser inverts the printer\<close>

definition printable_part :: "part_info \<Rightarrow> bool" where
  "printable_part p \<longleftrightarrow> wf_part p
     \<and> partition_id p \<noteq> [] \<and> CHR ''_'' \<notin> set (partition_id p)
     \<and> in_range Int64 (min_block p) \<and> in_range Int64 (max_block p)
     \<and> level p < LEGACY_MAX_LEVEL \<and> (use_legacy_max_level p \<longrightarrow> level p = MAX_LEVEL)
     \<and> 0 \<le> mutation p \<and> mutation p < 2 ^ 32"

lemma machine_types [simp]: "machine_type UInt32" "machine_type Int64" "machine_type UInt64"
  by (simp_all add: machine_type_def)

lemma stops_simps [simp]: "stops 10 []" "stops 10 (CHR ''_'' # cs)"
  by (simp_all add: stops_def is_digit_def digit_of_def)

lemma itoa_UInt32: "in_range UInt32 i \<Longrightarrow> itoa UInt32 i = decimal_int i"
  by (rule itoa_decimal) simp_all

lemma itoa_Int64: "in_range Int64 i \<Longrightarrow> itoa Int64 i = decimal_int i"
  by (rule itoa_decimal) simp_all

lemma read_field_itoa:
  assumes "ty = UInt32 \<or> ty = Int64" and "in_range ty i"
  shows "read_field ty (itoa ty i @ CHR ''_'' # rest) = Some (i, rest)"
  using assms
  by (auto simp: read_field_def itoa_UInt32 itoa_Int64 tryReadIntText_decimal_int checkChar_def)

lemma read_partition_append:
  "CHR ''_'' \<notin> set pid \<Longrightarrow> read_partition (pid @ CHR ''_'' # rest) = (pid, rest)"
  by (induction pid) auto

lemma tryReadIntText_itoa:
  assumes "ty = UInt32 \<or> ty = Int64" and "in_range ty i" and "stops 10 rest"
  shows "tryReadIntText ty (itoa ty i @ rest) = Some (i, rest)"
  using assms by (auto simp: itoa_UInt32 itoa_Int64 tryReadIntText_decimal_int)

lemma parse_mutation_text:
  assumes "0 \<le> mutation p" and "mutation p < 2 ^ 32"
  shows "parse_mutation (mutation_text p) = Some (mutation p)"
proof (cases "mutation p = 0")
  case False
  have "in_range UInt32 (mutation p)" and "in_range Int64 (mutation p)"
    using assms by (auto simp: in_range_def int_lo_def int_hi_def)
  then have "mutation_text p = CHR ''_'' # itoa UInt32 (mutation p)"
    using False by (simp add: mutation_text_def itoa_UInt32 itoa_Int64)
  moreover have "tryReadIntText UInt32 (itoa UInt32 (mutation p) @ []) = Some (mutation p, [])"
    using \<open>in_range UInt32 (mutation p)\<close> by (intro tryReadIntText_itoa) auto
  ultimately show ?thesis
    by (simp add: parse_mutation_def checkChar_def)
qed (simp add: parse_mutation_def mutation_text_def)

lemma stops_mutation_text: "stops 10 (mutation_text p)"
  by (simp add: mutation_text_def)

lemma read_level_text:
  assumes "printable_part p"
  shows "tryReadIntText UInt32 (level_text p @ mutation_text p)
           = Some (if use_legacy_max_level p then LEGACY_MAX_LEVEL else level p, mutation_text p)"
proof -
  have "in_range UInt32 LEGACY_MAX_LEVEL" and "in_range UInt32 (level p)"
    using assms
    by (auto simp: printable_part_def wf_part_def in_range_def int_lo_def int_hi_def
        LEGACY_MAX_LEVEL_def)
  then show ?thesis
    by (simp add: level_text_def tryReadIntText_itoa stops_mutation_text)
qed

lemma build_part_info_printed:
  assumes "printable_part p"
  shows "build_part_info (partition_id p) (min_block p) (max_block p)
           (if use_legacy_max_level p then LEGACY_MAX_LEVEL else level p) (mutation p) = p"
  using assms
  by (cases p) (auto simp: build_part_info_def printable_part_def wf_part_def setPartitionId_def
      default_part_info_def)

lemma tryParsePartName_getPartNameV1:
  assumes "printable_part p"
  shows "tryParsePartName (getPartNameV1 p) 1 = Some p"
proof -
  have "parse_mutation (mutation_text p) = Some (mutation p)"
    using assms by (intro parse_mutation_text) (auto simp: printable_part_def)
  moreover have "\<not> max_block p < min_block p"
    using assms by (simp add: printable_part_def wf_part_def)
  moreover have "in_range Int64 (min_block p)" "in_range Int64 (max_block p)" "partition_id p \<noteq> []"
    "CHR ''_'' \<notin> set (partition_id p)"
    using assms by (auto simp: printable_part_def)
  ultimately show ?thesis
    using build_part_info_printed [OF assms]
    by (simp add: tryParsePartName_def getPartNameV1_def parse_partition_def
        MIN_FORMAT_VERSION_WITH_CUSTOM_PARTITIONING_def read_partition_append read_field_itoa
        read_level_text [OF assms])
qed

lemma tryParsePartName_wf:
  assumes "tryParsePartName name fv = Some p"
  shows "wf_part p"
proof -
  obtain pid lo hi lv mut r2 r3 where p: "p = build_part_info pid lo hi lv mut" and "\<not> hi < lo"
    and lv: "tryReadIntText UInt32 r2 = Some (lv, r3)"
    using assms by (auto simp: tryParsePartName_def split: option.splits if_splits)
  have "in_range UInt32 lv"
    using tryReadIntText_in_range [OF _ lv] by simp
  then show ?thesis
    using \<open>\<not> hi < lo\<close>
    by (auto simp: p wf_part_def build_part_info_def setPartitionId_def default_part_info_def
        in_range_def int_lo_def int_hi_def LEGACY_MAX_LEVEL_def MAX_LEVEL_def)
qed

lemma fromPartName_wf: "fromPartName name fv = Inr p \<Longrightarrow> wf_part p"
  using tryParsePartName_wf by (auto simp: fromPartName_def split: option.splits)

section \<open>Serialization round trip\<close>

lemma part_deserialize_serialize:
  assumes "in_range Int64 (min_block p)" and "in_range Int64 (max_block p)"
    and "in_range UInt32 (level p)" and "in_range Int64 (mutation p)"
    and "length (partition_id p) \<le> DEFAULT_MAX_STRING_SIZE"
  shows "part_deserialize q (part_serialize p @ rest) = Inr (p\<lparr>kind := kind q\<rparr>, rest)"
proof -
  have v: "in_range UInt64 DBMS_MERGE_TREE_PART_INFO_VERSION"
    by (simp add: in_range_def int_lo_def int_hi_def DBMS_MERGE_TREE_PART_INFO_VERSION_def)
  show ?thesis
    using assms v
    by (cases p; cases q)
      (simp add: part_deserialize_def part_serialize_def binary_io res_bind_def)
qed

section \<open>Coverage\<close>

text \<open>The chain of block ranges that the loop follows, over all integers.\<close>

fun covered_from :: "int \<Rightarrow> part_info list \<Rightarrow> int option" where
  "covered_from c [] = Some c"
| "covered_from c (p # ps) = (if c + 1 \<noteq> min_block p then None else covered_from (max_block p) ps)"

lemma covered_loop_from: "covered_loop c ps = Inr d \<Longrightarrow> covered_from c ps = d"
  by (induction ps arbitrary: c) (auto simp: int64_add_def res_Inr_iff split: if_splits)

lemma covered_loop_total:
  assumes "in_range Int64 (c + 1)" and "\<forall>p\<in>set ps. in_range Int64 (max_block p + 1)"
  shows "covered_loop c ps = Inr (covered_from c ps)"
  using assms by (induction ps arbitrary: c) (auto simp: int64_add_def)

lemma covered_from_span:
  assumes "covered_from c ps = Some d" and "\<forall>p\<in>set ps. min_block p \<le> max_block p"
  shows "(\<Union>p\<in>set ps. {min_block p..max_block p}) = {c + 1..d} \<and> c \<le> d"
  using assms
proof (induction ps arbitrary: c)
  case (Cons p ps)
  then have m: "c + 1 = min_block p" and rest: "covered_from (max_block p) ps = Some d"
    by (auto split: if_splits)
  have IH: "(\<Union>p\<in>set ps. {min_block p..max_block p}) = {max_block p + 1..d}" "max_block p \<le> d"
    using Cons.IH [OF rest] Cons.prems(2) by auto
  have "min_block p \<le> max_block p"
    using Cons.prems(2) by simp
  then show ?case
    using IH m by auto
qed simp

lemma covered_from_disjoint:
  assumes "covered_from c ps = Some d" and "\<forall>p\<in>set ps. min_block p \<le> max_block p"
  shows "sorted_wrt (\<lambda>p q. max_block p < min_block q) ps"
  using assms
proof (induction ps arbitrary: c)
  case (Cons p ps)
  then have rest: "covered_from (max_block p) ps = Some d"
    by (auto split: if_splits)
  have "(\<Union>p\<in>set ps. {min_block p..max_block p}) = {max_block p + 1..d}"
    using covered_from_span [OF rest] Cons.prems(2) by auto
  moreover have "\<forall>q\<in>set ps. min_block q \<in> (\<Union>p\<in>set ps. {min_block p..max_block p})"
    using Cons.prems(2) by fastforce
  ultimately have "\<forall>q\<in>set ps. max_block p < min_block q"
    by auto
  then show ?case
    using Cons.IH [OF rest] Cons.prems(2) by simp
qed simp

lemma interval_peel:
  fixes a b c d :: int
  assumes ab: "a \<le> b" and later: "\<forall>x\<in>U. b < x" and eq: "{a..b} \<union> U = {c + 1..d}"
  shows "a = c + 1 \<and> b \<le> d \<and> U = {b + 1..d}"
proof -
  have iff: "(a \<le> x \<and> x \<le> b) \<or> x \<in> U \<longleftrightarrow> c + 1 \<le> x \<and> x \<le> d" for x
    using eq by (metis Un_iff atLeastAtMost_iff)
  have "c + 1 \<le> a" "b \<le> d"
    using iff [of a] iff [of b] ab by auto
  moreover have "a \<le> c + 1"
  proof (rule ccontr)
    assume "\<not> a \<le> c + 1"
    then have "c + 1 \<in> U"
      using iff [of "c + 1"] \<open>b \<le> d\<close> ab by auto
    then have "b < c + 1"
      using later by blast
    then show False
      using \<open>\<not> a \<le> c + 1\<close> ab by simp
  qed
  moreover have "x \<in> U \<longleftrightarrow> b + 1 \<le> x \<and> x \<le> d" for x
    using iff [of x] later ab \<open>c + 1 \<le> a\<close> by force
  ultimately show ?thesis
    by (intro conjI set_eqI) auto
qed

lemma covered_from_complete:
  assumes "sorted_wrt (\<lambda>p q. max_block p < min_block q) ps"
    and "\<forall>p\<in>set ps. min_block p \<le> max_block p"
    and "(\<Union>p\<in>set ps. {min_block p..max_block p}) = {c + 1..d}" and "c \<le> d"
  shows "covered_from c ps = Some d"
  using assms
proof (induction ps arbitrary: c)
  case (Cons p ps)
  let ?U = "\<Union>p\<in>set ps. {min_block p..max_block p}"
  have later: "\<forall>x\<in>?U. max_block p < x"
    using Cons.prems(1) by fastforce
  have eq: "{min_block p..max_block p} \<union> ?U = {c + 1..d}"
    using Cons.prems(3) by simp
  have "min_block p \<le> max_block p"
    using Cons.prems(2) by simp
  note peel = interval_peel [OF this later eq]
  have "covered_from (max_block p) ps = Some d"
  proof (rule Cons.IH)
    show "sorted_wrt (\<lambda>p q. max_block p < min_block q) ps"
      and "\<forall>p\<in>set ps. min_block p \<le> max_block p"
      using Cons.prems(1,2) by simp_all
  qed (use peel in blast)+
  then show ?case
    using peel by simp
qed auto

lemma sorted_wrt_insort_key:
  assumes "\<And>x y. R x y \<longleftrightarrow> R y x"
  shows "sorted_wrt R (insort_key f x xs) \<longleftrightarrow> sorted_wrt R (x # xs)"
  using assms by (induction xs) (auto simp: set_insort_key)

lemma sorted_wrt_sort_key:
  assumes "\<And>x y. R x y \<longleftrightarrow> R y x"
  shows "sorted_wrt R (sort_key f xs) \<longleftrightarrow> sorted_wrt R xs"
  by (induction xs) (simp_all add: sorted_wrt_insort_key [of R, OF assms] del: sorted_wrt.simps,
      simp)

lemma sorted_disjoint_ordered:
  assumes "sorted (map toTuple ps)" and "sorted_wrt part_isDisjoint ps"
    and "\<forall>p\<in>set ps. wf_part p \<and> partition_id p = pid"
  shows "sorted_wrt (\<lambda>p q. max_block p < min_block q) ps"
  using assms
proof (induction ps)
  case (Cons p ps)
  have "max_block p < min_block q" if q: "q \<in> set ps" for q
  proof -
    have "toTuple p \<le> toTuple q"
      using Cons.prems(1) q by simp
    moreover have "kind p = kind q" "partition_id p = partition_id q" "wf_part q"
      using Cons.prems(3) q by (auto simp: wf_part_def)
    ultimately have "min_block p \<le> min_block q"
      using toTuple_less_min_block by metis
    then show ?thesis
      using Cons.prems(2) q \<open>wf_part q\<close> \<open>partition_id p = partition_id q\<close>
      by (auto simp: part_isDisjoint_def wf_part_def)
  qed
  then show ?case
    using Cons by simp
qed simp

lemma ordered_disjoint:
  "sorted_wrt (\<lambda>p q. max_block p < min_block q) ps \<Longrightarrow> sorted_wrt part_isDisjoint ps"
  by (induction ps) (auto simp: part_isDisjoint_def)

lemma covered_from_iff:
  assumes parts: "\<forall>p\<in>set candidates. wf_part p \<and> partition_id p = pid" and range: "min_block r \<le> max_block r"
  shows "covered_from (min_block r - 1) (sort_key toTuple candidates) = Some (max_block r) \<longleftrightarrow>
           sorted_wrt part_isDisjoint candidates
           \<and> (\<Union>p\<in>set candidates. {min_block p..max_block p}) = {min_block r..max_block r}"
    (is "?lhs \<longleftrightarrow> ?disj \<and> ?union")
proof -
  let ?ps = "sort_key toTuple candidates"
  have mm: "\<forall>p\<in>set candidates. min_block p \<le> max_block p"
    using parts by (simp add: wf_part_def)
  have "?disj \<longleftrightarrow> sorted_wrt (\<lambda>p q. max_block p < min_block q) ?ps"
    using sorted_disjoint_ordered [of ?ps pid] ordered_disjoint [of ?ps] parts
      sorted_wrt_sort_key [of part_isDisjoint toTuple candidates, OF part_isDisjoint_sym]
    by (auto simp: sorted_sort_key)
  then show ?thesis
    using covered_from_span [of "min_block r - 1" ?ps "max_block r"]
      covered_from_disjoint [of "min_block r - 1" ?ps "max_block r"]
      covered_from_complete [of ?ps "min_block r - 1" "max_block r"] mm range
    by auto
qed

lemma areAllBlockNumbersCovered_from:
  assumes "min_block r \<le> max_block r"
  shows "areAllBlockNumbersCovered r candidates = Inr b \<Longrightarrow>
      b \<longleftrightarrow> covered_from (min_block r - 1) (sort_key toTuple candidates) = Some (max_block r)"
    and "in_range Int64 (min_block r) \<Longrightarrow> in_range Int64 (min_block r - 1) \<Longrightarrow>
      \<forall>p\<in>set candidates. in_range Int64 (max_block p + 1) \<Longrightarrow> \<exists>b. areAllBlockNumbersCovered r candidates = Inr b"
proof -
  show "b \<longleftrightarrow> covered_from (min_block r - 1) (sort_key toTuple candidates) = Some (max_block r)"
    if "areAllBlockNumbersCovered r candidates = Inr b"
  proof (cases "sort_key toTuple candidates")
    case (Cons c cs)
    then show ?thesis
      using that covered_loop_from [of "min_block r - 1" "c # cs"]
      by (auto simp: areAllBlockNumbersCovered_def int64_add_def res_Inr_iff simp del: covered_loop.simps
          split: if_splits)
  qed (use that assms in \<open>simp add: areAllBlockNumbersCovered_def\<close>)
  show "\<exists>b. areAllBlockNumbersCovered r candidates = Inr b"
    if "in_range Int64 (min_block r)" "in_range Int64 (min_block r - 1)" "\<forall>p\<in>set candidates. in_range Int64 (max_block p + 1)"
  proof (cases "sort_key toTuple candidates")
    case (Cons c cs)
    then have "set (c # cs) = set candidates"
      by (metis set_sort)
    then show ?thesis
      using that Cons covered_loop_total [of "min_block r - 1" "c # cs"]
      by (auto simp: areAllBlockNumbersCovered_def int64_add_def simp del: covered_loop.simps)
  qed (auto simp: areAllBlockNumbersCovered_def)
qed

text \<open>The first candidate in the order of the code has the least first block.\<close>

lemma sort_key_first_block:
  assumes "\<forall>p\<in>set candidates. wf_part p \<and> partition_id p = pid" and "sort_key toTuple candidates = c # cs"
    and "q \<in> set candidates"
  shows "c \<in> set candidates \<and> min_block c \<le> min_block q"
proof -
  have c: "set (c # cs) = set candidates" "sorted (map toTuple (c # cs))"
    using assms(2) by (metis set_sort, metis sorted_sort_key)
  then have "toTuple c \<le> toTuple q"
    using assms(3) by (cases "q = c") auto
  moreover have "kind c = kind q" "partition_id c = partition_id q"
    using assms(1,3) c(1) by (auto simp: wf_part_def)
  ultimately show ?thesis
    using c(1) toTuple_less_min_block by auto
qed

lemma areAllBlockNumbersCovered_overflow:
  assumes "\<forall>p\<in>set candidates. wf_part p \<and> partition_id p = pid \<and> - (2 ^ 63) \<le> min_block p"
    and "min_block r = - (2 ^ 63)" and "q \<in> set candidates" and "min_block q = - (2 ^ 63)"
  shows "areAllBlockNumbersCovered r candidates = Inl SIGNED_OVERFLOW"
proof (cases "sort_key toTuple candidates")
  case Nil
  then show ?thesis
    using assms(3) by (metis empty_iff list.set(1) set_sort)
next
  case (Cons c cs)
  then have "min_block c = - (2 ^ 63)"
    using sort_key_first_block [of candidates pid c cs q] assms by fastforce
  then show ?thesis
    using Cons assms(2) by (simp add: areAllBlockNumbersCovered_def int64_add_def in_range_def int_lo_def)
qed

section \<open>Names of detached parts\<close>

lemma takeWhile_until:
  "x \<notin> set k \<Longrightarrow> takeWhile (\<lambda>c. c \<noteq> x) (k @ x # rest) = k"
  by (induction k) auto

lemma matches_prefix_iff:
  assumes "CHR ''_'' \<notin> set k" and "CHR ''_'' \<notin> set k'"
  shows "matches_prefix (k' @ CHR ''_'' # rest) k \<longleftrightarrow> k = k'"
proof
  let ?n = "k' @ CHR ''_'' # rest"
  assume "matches_prefix ?n k"
  then have "?n = k @ CHR ''_'' # drop (Suc (length k)) ?n"
    using id_take_nth_drop [of "length k" ?n] by (simp add: matches_prefix_def starts_with_def)
  then have "takeWhile (\<lambda>c. c \<noteq> CHR ''_'') ?n = k"
    using takeWhile_until [OF assms(1)] by metis
  then show "k = k'"
    using takeWhile_until [OF assms(2)] by metis
qed (simp add: matches_prefix_def starts_with_def)

lemma find_unique:
  assumes "r \<in> set xs" and "\<And>x. x \<in> set xs \<Longrightarrow> P x \<longleftrightarrow> x = r"
  shows "find P xs = Some r"
  using assms by (induction xs) auto

lemma find_none: "(\<And>x. x \<in> set xs \<Longrightarrow> \<not> P x) \<Longrightarrow> find P xs = None"
  by (simp add: find_None_iff)

lemma DETACH_REASONS_plain: "r \<in> set DETACH_REASONS \<Longrightarrow> CHR ''_'' \<notin> set r"
  by (auto simp: DETACH_REASONS_def)

lemma with_parsed_Some:
  "part_info.truncate (with_parsed d (Some p)) = p"
  "valid_name (with_parsed d (Some p))"
  "prefix (with_parsed d (Some p)) = prefix d"
  "dir_name (with_parsed d (Some p)) = dir_name d"
  "disk (with_parsed d (Some p)) = disk d"
  by (simp_all add: with_parsed_def addParsedPartInfo_def part_info.defs)

lemma new_detached_fields:
  "dir_name (new_detached dk name) = name" "prefix (new_detached dk name) = []"
  "disk (new_detached dk name) = dk"
  by (simp_all add: new_detached_def part_info.defs detached_part_info.defs)

lemma parseDetachedPartName_reason:
  assumes "r \<in> set DETACH_REASONS"
  shows "parseDetachedPartName dk (r @ CHR ''_'' # name) fv =
           with_parsed (new_detached dk (r @ CHR ''_'' # name)\<lparr>prefix := r\<rparr>)
             (tryParsePartName name fv)"
proof -
  have "find (matches_prefix (r @ CHR ''_'' # name)) DETACH_REASONS = Some r"
    using assms DETACH_REASONS_plain by (intro find_unique) (auto simp: matches_prefix_iff)
  then show ?thesis
    by (simp add: parseDetachedPartName_def Let_def)
qed

lemma parseDetachedPartName_plain:
  assumes "pid \<notin> set DETACH_REASONS" and "CHR ''_'' \<notin> set pid"
    and "tryParsePartName (pid @ CHR ''_'' # rest) fv = Some p"
  shows "parseDetachedPartName dk (pid @ CHR ''_'' # rest) fv =
           with_parsed (new_detached dk (pid @ CHR ''_'' # rest)) (Some p)"
proof -
  have "find (matches_prefix (pid @ CHR ''_'' # rest)) DETACH_REASONS = None"
    using assms(1,2) DETACH_REASONS_plain by (intro find_none) (auto simp: matches_prefix_iff)
  then show ?thesis
    using assms(3) by (simp add: parseDetachedPartName_def Let_def)
qed

section \<open>Properties\<close>

text \<open>C23: Containment of parts is a partial order on the parts of a table, up to the fields that identify
  a part, and it is compatible with disjointness: a part does not contain one it is disjoint from,
  and whatever is disjoint from a part is disjoint from every part it contains.\<close>

theorem part_contains_partial_order:
  assumes "wf_part p" and "wf_part q" and "wf_part r"
  shows "part_contains p p
    \<and> (part_contains p q \<and> part_contains q p \<longrightarrow> toTuple p = toTuple q)
    \<and> (part_contains p q \<and> part_contains q r \<longrightarrow> part_contains p r)
    \<and> (part_contains p q \<longrightarrow> \<not> part_isDisjoint p q)
    \<and> (part_contains p q \<and> part_isDisjoint p r \<longrightarrow> part_isDisjoint q r)"
  using part_contains_refl part_contains_antisym_aux [OF assms(1,2)]
    part_contains_trans_aux [of p q r] part_contains_not_disjoint [OF assms(2)]
    part_contains_disjoint [of p q r] assms(1)
  by (simp add: wf_part_def)

theorem part_contains_partial_order_witness:
  "part_contains (make_part_info ''all'' 0 5 3 0) (make_part_info ''all'' 1 1 0 0)
   \<and> part_isDisjoint (make_part_info ''all'' 1 1 0 0) (make_part_info ''all'' 6 6 0 0)"
  using part_contains_partial_order
    [of "make_part_info ''all'' 0 5 3 0" "make_part_info ''all'' 1 2 1 0"
      "make_part_info ''all'' 1 1 0 0"]
  by (simp add: make_part_info_def wf_part_def getKind_def starts_with_def LEGACY_MAX_LEVEL_def
      part_rel_defs)

text \<open>C24: Part names: parsing the name printed for a part gives the part back, field by field, the flag
  for the legacy maximal level included, for every part whose partition id is non-empty without
  underscores and whose mutation version is below two to the 32.\<close>

theorem part_name_roundtrip:
  assumes "printable_part p"
  shows "tryParsePartName (getPartNameV1 p) 1 = Some p"
  using assms by (rule tryParsePartName_getPartNameV1)

theorem part_name_roundtrip_witness:
  "tryParsePartName (getPartNameV1 (make_part_info ''202401'' 1 20 3 25)) 1
     = Some (make_part_info ''202401'' 1 20 3 25)"
  using part_name_roundtrip [of "make_part_info ''202401'' 1 20 3 25"]
  by (simp add: printable_part_def make_part_info_def wf_part_def getKind_def starts_with_def
      PATCH_PART_PREFIX_def LEGACY_MAX_LEVEL_def in_range_def int_lo_def int_hi_def)

text \<open>C36: The mutation version is printed as a 64-bit number and parsed as a 32-bit one: the name of a
  part with a larger mutation version is rejected by the parser.\<close>

theorem part_name_large_mutation:
  assumes "printable_part (p\<lparr>mutation := 0\<rparr>)" and "2 ^ 32 \<le> mutation p" and "in_range Int64 (mutation p)"
  shows "tryParsePartName (getPartNameV1 p) 1 = None"
proof -
  let ?q = "p\<lparr>mutation := 0\<rparr>" and ?m = "decimal (nat (mutation p))"
  have m: "0 \<le> mutation p" and n: "mutation p \<noteq> 0"
    using assms(2) by auto
  have mtext: "mutation_text p = CHR ''_'' # ?m"
    using n m assms(3) by (simp add: mutation_text_def itoa_Int64 decimal_int_def)
  have "readIntTextInBaseImpl UInt32 10 True ([] @ ?m @ []) = Inl CANNOT_PARSE_NUMBER"
    using readIntTextInBaseImpl_exact [of UInt32 10 "[]" ?m "[]"] decimal_Nil decimal_digits assms(2) m
    by (simp add: signed_value_def text_value_decimal in_range_def int_hi_def)
  then have "parse_mutation (mutation_text p) = None"
    by (simp add: mtext parse_mutation_def checkChar_def tryReadIntText_def)
  moreover have "tryReadIntText UInt32 (level_text p @ mutation_text p)
      = Some (if use_legacy_max_level p then LEGACY_MAX_LEVEL else level p, mutation_text p)"
  proof -
    have "in_range UInt32 LEGACY_MAX_LEVEL" and "in_range UInt32 (level p)"
      using assms(1)
      by (auto simp: printable_part_def wf_part_def in_range_def int_lo_def int_hi_def
          LEGACY_MAX_LEVEL_def)
    then show ?thesis
      by (simp add: level_text_def tryReadIntText_itoa stops_mutation_text)
  qed
  ultimately show ?thesis
    using assms(1)
    by (simp add: tryParsePartName_def getPartNameV1_def parse_partition_def printable_part_def
        MIN_FORMAT_VERSION_WITH_CUSTOM_PARTITIONING_def read_partition_append read_field_itoa)
qed

theorem part_name_large_mutation_witness:
  "tryParsePartName (getPartNameV1 (make_part_info ''all'' 1 1 0 4294967296)) 1 = None"
  using part_name_large_mutation [of "make_part_info ''all'' 1 1 0 4294967296"]
  by (simp add: printable_part_def make_part_info_def wf_part_def getKind_def starts_with_def
      PATCH_PART_PREFIX_def LEGACY_MAX_LEVEL_def in_range_def int_lo_def int_hi_def)

text \<open>C35: Reading a serialized part into an object gives back every field but the kind, which keeps the
  value it had in that object; the bytes after it are left unread.  So the round trip is the identity
  when the kinds agree, and a patch part read into a default-constructed object is not equal to the
  original.\<close>

theorem part_serialization_roundtrip:
  assumes "in_range Int64 (min_block p)" and "in_range Int64 (max_block p)"
    and "in_range UInt32 (level p)" and "in_range Int64 (mutation p)"
    and "length (partition_id p) \<le> DEFAULT_MAX_STRING_SIZE"
  shows "part_deserialize q (part_serialize p @ rest) = Inr (p\<lparr>kind := kind q\<rparr>, rest)
    \<and> (kind p = kind q \<longleftrightarrow> toTuple (p\<lparr>kind := kind q\<rparr>) = toTuple p)"
  using part_deserialize_serialize [OF assms] by (auto simp: toTuple_def)

theorem part_serialization_roundtrip_witness:
  "\<exists>p'. part_deserialize default_part_info
          (part_serialize (make_part_info ''patch-0-all'' 1 1 0 0) @ []) = Inr (p', [])
        \<and> toTuple p' \<noteq> toTuple (make_part_info ''patch-0-all'' 1 1 0 0)"
  using part_serialization_roundtrip
    [of "make_part_info ''patch-0-all'' 1 1 0 0" default_part_info "[]"]
  by (simp add: make_part_info_def default_part_info_def getKind_def starts_with_def
      PATCH_PART_PREFIX_def in_range_def int_lo_def int_hi_def DEFAULT_MAX_STRING_SIZE_def)

text \<open>C25: Let the candidates be well-formed parts of one partition with \<^verbatim>\<open>Int64\<close> block numbers.  Whenever
  \<^verbatim>\<open>areAllBlockNumbersCovered\<close> answers, it answers true exactly when the candidates are pairwise disjoint
  and their block ranges together are the requested range: no gap, no overlap, nothing outside.  It
  does answer unless \<^verbatim>\<open>min_block - 1\<close> or \<^verbatim>\<open>current_right_block + 1\<close> can overflow, that is, unless the range starts
  at the least or a candidate ends at the greatest \<^verbatim>\<open>Int64\<close>; and when the range and a candidate both start
  at the least \<^verbatim>\<open>Int64\<close>, it does overflow.\<close>

theorem areAllBlockNumbersCovered_correct:
  assumes "\<forall>p\<in>set candidates. wf_part p \<and> partition_id p = pid \<and> in_range Int64 (min_block p) \<and> in_range Int64 (max_block p)"
    and "min_block r \<le> max_block r" and "in_range Int64 (min_block r)" and "in_range Int64 (max_block r)"
  shows "(\<forall>b. areAllBlockNumbersCovered r candidates = Inr b \<longrightarrow>
      (b \<longleftrightarrow> sorted_wrt part_isDisjoint candidates
           \<and> (\<Union>p\<in>set candidates. {min_block p..max_block p}) = {min_block r..max_block r}))
    \<and> (- (2 ^ 63) < min_block r \<and> (\<forall>p\<in>set candidates. max_block p < 2 ^ 63 - 1) \<longrightarrow>
      (\<exists>b. areAllBlockNumbersCovered r candidates = Inr b))
    \<and> (min_block r = - (2 ^ 63) \<and> (\<exists>p\<in>set candidates. min_block p = - (2 ^ 63)) \<longrightarrow>
      areAllBlockNumbersCovered r candidates = Inl SIGNED_OVERFLOW)"
proof (intro conjI allI impI)
  have parts: "\<forall>p\<in>set candidates. wf_part p \<and> partition_id p = pid"
    using assms(1) by simp
  fix b assume "areAllBlockNumbersCovered r candidates = Inr b"
  then show "b \<longleftrightarrow> sorted_wrt part_isDisjoint candidates
      \<and> (\<Union>p\<in>set candidates. {min_block p..max_block p}) = {min_block r..max_block r}"
    using areAllBlockNumbersCovered_from(1) [OF assms(2)] covered_from_iff [OF parts assms(2)] by simp
next
  assume "- (2 ^ 63) < min_block r \<and> (\<forall>p\<in>set candidates. max_block p < 2 ^ 63 - 1)"
  then show "\<exists>b. areAllBlockNumbersCovered r candidates = Inr b"
    using assms by (intro areAllBlockNumbersCovered_from(2)) (auto simp: in_range_def int_lo_def int_hi_def)
next
  assume "min_block r = - (2 ^ 63) \<and> (\<exists>p\<in>set candidates. min_block p = - (2 ^ 63))"
  then show "areAllBlockNumbersCovered r candidates = Inl SIGNED_OVERFLOW"
    using assms(1) by (auto intro!: areAllBlockNumbersCovered_overflow [of candidates pid] simp: in_range_def int_lo_def)
qed

theorem areAllBlockNumbersCovered_correct_witness:
  "areAllBlockNumbersCovered (make_part_info ''all'' 1 3 9 0)
     [make_part_info ''all'' 3 3 0 0, make_part_info ''all'' 1 2 1 0] = Inr True"
proof -
  have "{3} \<union> {1..2} = {1..3::int}"
    by auto
  then show ?thesis
    using areAllBlockNumbersCovered_correct
      [of "[make_part_info ''all'' 3 3 0 0, make_part_info ''all'' 1 2 1 0]" "''all''"
        "make_part_info ''all'' 1 3 9 0"]
    by (auto simp: make_part_info_def wf_part_def LEGACY_MAX_LEVEL_def part_isDisjoint_def in_range_def
        int_lo_def int_hi_def)
qed

text \<open>Directories of detached parts: a name made of a known detach reason, an underscore and the
  name of a part is read back as that part with that reason, and the bare name of a part whose
  partition is not spelled like a reason is read back with an empty prefix.\<close>

lemma detached_part_name_roundtrip:
  assumes "printable_part p"
  shows "(reason \<in> set DETACH_REASONS \<longrightarrow>
      (let d = parseDetachedPartName dk (reason @ CHR ''_'' # getPartNameV1 p) 1
       in part_info.truncate d = p \<and> valid_name d \<and> prefix d = reason \<and> disk d = dk))
    \<and> (partition_id p \<notin> set DETACH_REASONS \<longrightarrow>
      (let d = parseDetachedPartName dk (getPartNameV1 p) 1
       in part_info.truncate d = p \<and> valid_name d \<and> prefix d = [] \<and> disk d = dk))"
proof -
  have name: "tryParsePartName (getPartNameV1 p) 1 = Some p"
    using assms by (rule tryParsePartName_getPartNameV1)
  obtain rest where rest: "getPartNameV1 p = partition_id p @ CHR ''_'' # rest"
    by (simp add: getPartNameV1_def)
  have "CHR ''_'' \<notin> set (partition_id p)"
    using assms by (simp add: printable_part_def)
  then show ?thesis
    using name parseDetachedPartName_plain [of "partition_id p" rest 1 p dk]
    by (simp add: parseDetachedPartName_reason with_parsed_Some new_detached_fields Let_def rest)
qed

end
