(* ===== verification/MergeTree_Covering.thy ===== *)
theory MergeTree_Covering
  imports MergeTree_PartInfo
begin

text \<open>
  The interface between part descriptions and the sets built over them: an order of keys, a
  containment and a disjointness relation, with the laws the search in sorted sets relies on.  The
  lemmas say where in a sorted list of pairwise disjoint elements the relatives of an element can
  be: everything that touches it is next to the place where it would be inserted.
\<close>

locale covering =
  fixes key :: "'p \<Rightarrow> 'k::linorder"
    and contains :: "'p \<Rightarrow> 'p \<Rightarrow> bool"
    and disjoint :: "'p \<Rightarrow> 'p \<Rightarrow> bool"
    and valid :: "'p \<Rightarrow> bool"
  assumes disjoint_sym: "disjoint p q \<Longrightarrow> disjoint q p"
    and key_contains: "key p = key q \<Longrightarrow> contains p q"
    and contains_trans: "valid p \<Longrightarrow> contains p q \<Longrightarrow> contains q r \<Longrightarrow> contains p r"
    and contains_antisym:
      "valid p \<Longrightarrow> valid q \<Longrightarrow> contains p q \<Longrightarrow> contains q p \<Longrightarrow> key p = key q"
    and contains_not_disjoint: "valid q \<Longrightarrow> contains p q \<Longrightarrow> \<not> disjoint p q"
    and contains_disjoint: "contains p q \<Longrightarrow> disjoint p r \<Longrightarrow> disjoint q r"
    and disjoint_upward:
      "valid p \<Longrightarrow> valid q \<Longrightarrow> valid r \<Longrightarrow> key p \<le> key q \<Longrightarrow> key q \<le> key r \<Longrightarrow> disjoint p q
        \<Longrightarrow> disjoint p r"
begin

definition active :: "('p \<times> 'n) list \<Rightarrow> bool" where
  "active xs \<longleftrightarrow> sorted_by (key \<circ> fst) xs
     \<and> (\<forall>a\<in>set xs. \<forall>b\<in>set xs. a = b \<or> disjoint (fst a) (fst b))
     \<and> (\<forall>a\<in>set xs. valid (fst a))"

lemma active_subset:
  "active xs \<Longrightarrow> sorted_by (key \<circ> fst) ys \<Longrightarrow> set ys \<subseteq> set xs \<Longrightarrow> active ys"
  unfolding active_def by blast

lemma active_filter: "active xs \<Longrightarrow> active (filter P xs)"
  by (rule active_subset [of xs]) (auto simp: active_def sorted_by_filter)

lemma active_valid: "active xs \<Longrightarrow> e \<in> set xs \<Longrightarrow> valid (fst e)"
  by (simp add: active_def)

lemma active_disjoint:
  "active xs \<Longrightarrow> e \<in> set xs \<Longrightarrow> f \<in> set xs \<Longrightarrow> e \<noteq> f \<Longrightarrow> disjoint (fst e) (fst f)"
  unfolding active_def by blast

lemma active_cover_unique:
  assumes "active xs" and "valid p" and "e \<in> set xs" and "f \<in> set xs"
    and "contains (fst e) p" and "\<not> disjoint p (fst f)"
  shows "e = f"
  using assms active_disjoint contains_disjoint by blast

text \<open>Only the last element before the insertion point can touch the new element.\<close>

lemma touching_before:
  assumes "active xs" and "valid p" and "xs = l @ z # r" and "key (fst z) < key p"
    and "e \<in> set l"
  shows "disjoint p (fst e)"
proof -
  have "key (fst e) < key (fst z)"
    using assms(1,3,5) by (auto simp: active_def sorted_by_append)
  moreover have "disjoint (fst e) (fst z)" and "valid (fst e)" and "valid (fst z)"
    using assms(1,3,5) \<open>key (fst e) < key (fst z)\<close>
      active_disjoint [OF assms(1), of e z] active_valid [OF assms(1)] by auto
  ultimately have "disjoint (fst e) p"
    using disjoint_upward [of "fst e" "fst z" p] assms(2,4) by simp
  then show ?thesis by (rule disjoint_sym)
qed

text \<open>Behind the insertion point, nothing touches the new element after a disjoint one.\<close>

lemma touching_after:
  assumes "active xs" and "valid p" and "xs = l @ z # r" and "key p \<le> key (fst z)"
    and "disjoint p (fst z)" and "e \<in> set r"
  shows "disjoint p (fst e)"
proof -
  have "key (fst z) \<le> key (fst e)"
    using assms(1,3,6) by (auto simp: active_def sorted_by_append)
  moreover have "valid (fst e)" and "valid (fst z)"
    using assms(1,3,6) active_valid [OF assms(1)] by auto
  ultimately show ?thesis
    using disjoint_upward [of p "fst z" "fst e"] assms(2,4,5) by simp
qed

text \<open>A covering element is the first one from the insertion point on or the one before it.\<close>

lemma cover_after:
  assumes "active xs" and "valid p" and "xs = l @ z # r" and "key p \<le> key (fst z)"
    and "e \<in> set r"
  shows "\<not> contains (fst e) p"
proof
  assume cov: "contains (fst e) p"
  have "e \<in> set xs" "z \<in> set xs" "e \<noteq> z"
    using assms(1,3,5) by (auto simp: active_def sorted_by_append)
  then have "disjoint (fst e) (fst z)"
    using active_disjoint [OF assms(1)] by blast
  then have "disjoint p (fst z)"
    using contains_disjoint cov by blast
  then have "disjoint p (fst e)"
    using touching_after [OF assms(1-4) _ assms(5)] by blast
  then show False
    using contains_not_disjoint [OF assms(2) cov] disjoint_sym by blast
qed

lemma cover_before:
  assumes "active xs" and "valid p" and "xs = l @ z # r" and "key (fst z) < key p"
    and "e \<in> set l"
  shows "\<not> contains (fst e) p"
  using touching_before [OF assms] contains_not_disjoint [OF assms(2)] disjoint_sym by blast

lemma contained_not_disjoint:
  "active xs \<Longrightarrow> e \<in> set xs \<Longrightarrow> contains p (fst e) \<Longrightarrow> \<not> disjoint p (fst e)"
  using active_valid contains_not_disjoint by blast

text \<open>Adding an element that is disjoint from what it does not contain keeps the set active.\<close>

lemma active_insert:
  assumes "active xs" and "valid p" and "\<forall>e\<in>set xs. disjoint p (fst e)"
    and "\<forall>e\<in>set xs. key (fst e) \<noteq> key p"
  shows "active (map_emplace (key \<circ> fst) (p, n) xs)"
proof -
  have new: "\<forall>y\<in>set xs. (key \<circ> fst) y \<noteq> (key \<circ> fst) (p, n)"
    using assms(4) by simp
  have "\<forall>e\<in>set xs. disjoint (fst e) p"
    using assms(3) disjoint_sym by blast
  moreover have "\<forall>a\<in>set xs. \<forall>b\<in>set xs. a = b \<or> disjoint (fst a) (fst b)"
    using assms(1) by (simp add: active_def)
  moreover have "sorted_by (key \<circ> fst) xs" and "\<forall>a\<in>set xs. valid (fst a)"
    using assms(1) by (simp_all add: active_def)
  ultimately show ?thesis
    using assms(2,3) sorted_by_map_emplace [OF _ new]
    by (simp add: active_def set_map_emplace_new [OF new] del: comp_apply)
qed

lemma uncovered_key:
  "active xs \<Longrightarrow> e \<in> set xs \<Longrightarrow> \<not> contains (fst e) p \<Longrightarrow> key (fst e) \<noteq> key p"
  using key_contains by blast

end

interpretation parts: covering toTuple part_contains part_isDisjoint wf_part
proof
  fix p q r :: part_info
  show "part_isDisjoint p q \<Longrightarrow> part_isDisjoint q p"
    by (simp add: part_isDisjoint_sym [of p])
  show "toTuple p = toTuple q \<Longrightarrow> part_contains p q"
    by (simp add: toTuple_eq_iff part_rel_defs)
  show "wf_part p \<Longrightarrow> part_contains p q \<Longrightarrow> part_contains q r \<Longrightarrow> part_contains p r"
    using part_contains_trans_aux by (simp add: wf_part_def)
  show "wf_part p \<Longrightarrow> wf_part q \<Longrightarrow> part_contains p q \<Longrightarrow> part_contains q p \<Longrightarrow> toTuple p = toTuple q"
    by (rule part_contains_antisym_aux)
  show "wf_part q \<Longrightarrow> part_contains p q \<Longrightarrow> \<not> part_isDisjoint p q"
    by (rule part_contains_not_disjoint)
  show "part_contains p q \<Longrightarrow> part_isDisjoint p r \<Longrightarrow> part_isDisjoint q r"
    by (rule part_contains_disjoint)
  show "wf_part p \<Longrightarrow> wf_part q \<Longrightarrow> wf_part r \<Longrightarrow> toTuple p \<le> toTuple q \<Longrightarrow> toTuple q \<le> toTuple r
      \<Longrightarrow> part_isDisjoint p q \<Longrightarrow> part_isDisjoint p r"
    by (rule part_isDisjoint_upward)
qed

end
