(* ===== verification/MergeTree_ActiveParts.thy ===== *)
theory MergeTree_ActiveParts
  imports MergeTree_Covering
begin

text \<open>
  The set of active parts, \<^verbatim>\<open>src/src/Storages/MergeTree/ActiveDataPartSet.cpp\<close> and \<^verbatim>\<open>.h\<close>.  The map
  from part descriptions to names is a list strictly sorted by the tuple of the description; an
  iterator is a split of the list, and moving left walks the reversed front part.
\<close>

section \<open>State and search\<close>

type_synonym part_entry = "part_info \<times> string"

record active_set =
  format_version :: nat
  part_info_to_name :: "part_entry list"

datatype add_outcome = Added | HasCovering | HasIntersectingPart

text \<open>The message in \<^verbatim>\<open>out_reason\<close> is represented by what it reports.\<close>

datatype add_reason = Intersects_previous part_info part_info | Intersects string part_info

abbreviation entry_key :: "part_entry \<Rightarrow> part_key" where
  "entry_key \<equiv> toTuple \<circ> fst"

abbreviation left_of :: "part_info \<Rightarrow> active_set \<Rightarrow> part_entry list" where
  "left_of p s \<equiv> before entry_key (toTuple p) (part_info_to_name s)"

abbreviation right_of :: "part_info \<Rightarrow> active_set \<Rightarrow> part_entry list" where
  "right_of p s \<equiv> from_lower_bound entry_key (toTuple p) (part_info_to_name s)"

definition new_active_set :: "nat \<Rightarrow> active_set" where
  "new_active_set fv = \<lparr>format_version = fv, part_info_to_name = []\<rparr>"

definition covers_if :: "part_info \<Rightarrow> part_entry list \<Rightarrow> part_entry option" where
  "covers_if p es =
     (case es of [] \<Rightarrow> None | e # _ \<Rightarrow> if part_contains (fst e) p then Some e else None)"

definition getContainingPartImpl :: "active_set \<Rightarrow> part_info \<Rightarrow> part_entry option" where
  "getContainingPartImpl s p =
     (case covers_if p (right_of p s) of
        Some e \<Rightarrow> Some e
      | None \<Rightarrow> covers_if p (rev (left_of p s)))"

definition getContainingPart :: "active_set \<Rightarrow> part_info \<Rightarrow> string" where
  "getContainingPart s p =
     (case getContainingPartImpl s p of Some e \<Rightarrow> snd e | None \<Rightarrow> [])"

definition getContainingPart_name :: "active_set \<Rightarrow> string \<Rightarrow> string result" where
  "getContainingPart_name s name =
     res_map (getContainingPart s) (fromPartName name (format_version s))"

section \<open>Adding a part\<close>

text \<open>
  The loop to the left, over the reversed front: an intersecting part if one stopped it, the
  entries that stay and the replaced names in the order they were pushed.
\<close>

fun add_left ::
  "part_info \<Rightarrow> part_entry list \<Rightarrow> string list \<Rightarrow> part_info option \<times> part_entry list \<times> string list" where
  "add_left p [] replaced = (None, [], replaced)"
| "add_left p (e # es) replaced =
     (if \<not> part_contains p (fst e) then
        (if \<not> part_isDisjoint p (fst e) then (Some (fst e), e # es, replaced)
         else (None, e # es, replaced))
      else add_left p es (replaced @ [snd e]))"

fun add_right :: "part_info \<Rightarrow> part_entry list \<Rightarrow> string list \<Rightarrow> part_entry list \<times> string list" where
  "add_right p [] replaced = ([], replaced)"
| "add_right p (e # es) replaced =
     (if part_contains p (fst e) then add_right p es (replaced @ [snd e]) else (e # es, replaced))"

text \<open>
  \<open>out\<close> is the vector behind \<^verbatim>\<open>out_replaced_parts\<close>, \<open>None\<close> for a null pointer.
\<close>

definition addImpl ::
  "active_set \<Rightarrow> part_info \<Rightarrow> string \<Rightarrow> string list option
     \<Rightarrow> add_outcome \<times> active_set \<times> string list option \<times> add_reason option" where
  "addImpl s p name out =
     (if getContainingPartImpl s p \<noteq> None then (HasCovering, s, out, None)
      else
        (case add_left p (rev (left_of p s)) [] of
           (Some q, l, replaced) \<Rightarrow>
             (HasIntersectingPart, s\<lparr>part_info_to_name := rev l @ right_of p s\<rparr>,
              map_option (\<lambda>_. replaced) out, Some (Intersects_previous p q))
         | (None, l, replaced) \<Rightarrow>
             (case add_right p (right_of p s) (rev replaced) of
                (r, replaced') \<Rightarrow>
                  (let rest = rev l @ r; out' = map_option (\<lambda>_. replaced') out in
                   if r \<noteq> [] \<and> \<not> part_isDisjoint p (fst (hd r)) then
                     (HasIntersectingPart, s\<lparr>part_info_to_name := rest\<rparr>, out',
                      Some (Intersects name (fst (hd r))))
                   else
                     (Added, s\<lparr>part_info_to_name := map_emplace entry_key (p, name) rest\<rparr>, out',
                      None)))))"

text \<open>
  The overloads of \<^verbatim>\<open>add\<close>; an exception leaves the set as \<^verbatim>\<open>addImpl\<close> left it.
\<close>

definition add_info_name ::
  "active_set \<Rightarrow> part_info \<Rightarrow> string \<Rightarrow> string list option
     \<Rightarrow> bool result \<times> active_set \<times> string list option" where
  "add_info_name s p name out =
     (case addImpl s p name out of
        (outcome, s', out', _) \<Rightarrow>
          (if outcome = HasIntersectingPart then Inl LOGICAL_ERROR else Inr (outcome = Added),
           s', out'))"

definition add_name ::
  "active_set \<Rightarrow> string \<Rightarrow> string list option \<Rightarrow> bool result \<times> active_set \<times> string list option" where
  "add_name s name out =
     (case fromPartName name (format_version s) of
        Inl e \<Rightarrow> (Inl e, s, out)
      | Inr p \<Rightarrow> add_info_name s p name out)"

definition add_info ::
  "active_set \<Rightarrow> part_info \<Rightarrow> string list option \<Rightarrow> bool result \<times> active_set \<times> string list option" where
  "add_info s p out =
     (case getPartNameAndCheckFormat p (format_version s) of
        Inl e \<Rightarrow> (Inl e, s, out)
      | Inr name \<Rightarrow> add_info_name s p name out)"

definition tryAddPart :: "active_set \<Rightarrow> part_info \<Rightarrow> add_outcome result \<times> active_set" where
  "tryAddPart s p =
     (case getPartNameAndCheckFormat p (format_version s) of
        Inl e \<Rightarrow> (Inl e, s)
      | Inr name \<Rightarrow> (case addImpl s p name None of (outcome, s', _) \<Rightarrow> (Inr outcome, s')))"

definition tryAdd :: "active_set \<Rightarrow> string \<Rightarrow> add_outcome result \<times> active_set" where
  "tryAdd s name =
     (case fromPartName name (format_version s) of
        Inl e \<Rightarrow> (Inl e, s)
      | Inr p \<Rightarrow> (case addImpl s p name None of (outcome, s', _) \<Rightarrow> (Inr outcome, s')))"

text \<open>The constructor from names; an exception leaves no object.\<close>

fun add_all :: "active_set \<Rightarrow> string list \<Rightarrow> active_set result" where
  "add_all s [] = Inr s"
| "add_all s (name # names) =
     (case add_name s name None of
        (Inl e, _, _) \<Rightarrow> Inl e
      | (Inr _, s', _) \<Rightarrow> add_all s' names)"

definition active_set_of_names :: "nat \<Rightarrow> string list \<Rightarrow> active_set result" where
  "active_set_of_names fv names = add_all (new_active_set fv) names"

section \<open>Checks and queries\<close>

text \<open>The left loop of \<^verbatim>\<open>checkIntersectingParts\<close>; the entries passed are seen again to the right.\<close>

fun check_left :: "part_info \<Rightarrow> part_entry list \<Rightarrow> part_entry list \<Rightarrow> part_entry list result" where
  "check_left p [] passed = Inr passed"
| "check_left p (e # es) passed =
     (if \<not> part_contains p (fst e) then
        (if \<not> part_isDisjoint p (fst e) then Inl LOGICAL_ERROR else Inr passed)
      else check_left p es (e # passed))"

text \<open>The right loop, with its assertion that the set does not hold the part itself.\<close>

fun check_right :: "part_info \<Rightarrow> part_entry list \<Rightarrow> part_entry list result" where
  "check_right p [] = Inr []"
| "check_right p (e # es) =
     (if part_contains p (fst e) then
        (if toTuple p = toTuple (fst e) then Inl ASSERTION_FAILED else check_right p es)
      else Inr (e # es))"

definition checkIntersectingParts :: "active_set \<Rightarrow> part_info \<Rightarrow> unit result" where
  "checkIntersectingParts s p =
     res_bind (check_left p (rev (left_of p s)) []) (\<lambda>passed.
     res_bind (check_right p (passed @ right_of p s)) (\<lambda>rest.
       (case rest of
          [] \<Rightarrow> Inr ()
        | e # _ \<Rightarrow> if \<not> part_isDisjoint p (fst e) then Inl LOGICAL_ERROR else Inr ())))"

definition checkIntersectingParts_name :: "active_set \<Rightarrow> string \<Rightarrow> unit result" where
  "checkIntersectingParts_name s name =
     res_bind (fromPartName name (format_version s)) (checkIntersectingParts s)"

text \<open>
  One direction of \<^verbatim>\<open>getPartsCoveredByImpl\<close>: the covered entries up to the first one that is not,
  \<open>None\<close> when that one covers the part.
\<close>

fun take_covered :: "part_info \<Rightarrow> part_entry list \<Rightarrow> part_entry list option" where
  "take_covered p [] = Some []"
| "take_covered p (e # es) =
     (if \<not> part_contains p (fst e) then
        (if part_contains (fst e) p then None else Some [])
      else map_option ((#) e) (take_covered p es))"

definition getPartsCoveredByImpl :: "active_set \<Rightarrow> part_info \<Rightarrow> part_entry list" where
  "getPartsCoveredByImpl s p =
     (case take_covered p (rev (left_of p s)) of
        None \<Rightarrow> []
      | Some l \<Rightarrow>
          (case take_covered p (right_of p s) of
             None \<Rightarrow> []
           | Some r \<Rightarrow> rev l @ r))"

definition getPartsCoveredBy :: "active_set \<Rightarrow> part_info \<Rightarrow> string list" where
  "getPartsCoveredBy s p = map snd (getPartsCoveredByImpl s p)"

definition getPartInfosCoveredBy :: "active_set \<Rightarrow> part_info \<Rightarrow> part_info list" where
  "getPartInfosCoveredBy s p = map fst (getPartsCoveredByImpl s p)"

text \<open>\<^verbatim>\<open>getPartsWithLimit\<close> pushes before it tests the limit.\<close>

definition getPartsWithLimit :: "active_set \<Rightarrow> nat \<Rightarrow> string list" where
  "getPartsWithLimit s limit = take (max 1 limit) (map snd (part_info_to_name s))"

definition getParts :: "active_set \<Rightarrow> string list" where
  "getParts s = map snd (part_info_to_name s)"

definition getPartInfos :: "active_set \<Rightarrow> part_info list" where
  "getPartInfos s = map fst (part_info_to_name s)"

definition getPatchPartInfos :: "active_set \<Rightarrow> part_info list" where
  "getPatchPartInfos s = filter isPatch (map fst (part_info_to_name s))"

definition active_isEmpty :: "active_set \<Rightarrow> bool" where
  "active_isEmpty s \<longleftrightarrow> part_info_to_name s = []"

definition active_hasSome :: "active_set \<Rightarrow> bool" where
  "active_hasSome s \<longleftrightarrow> \<not> active_isEmpty s"

definition active_size :: "active_set \<Rightarrow> nat" where
  "active_size s = length (part_info_to_name s)"

definition hasPartitionId :: "active_set \<Rightarrow> string \<Rightarrow> bool" where
  "hasPartitionId s pid =
     (case right_of (setPartitionId default_part_info pid) s of
        [] \<Rightarrow> False
      | e # _ \<Rightarrow> partition_id (fst e) = pid)"

section \<open>Removing parts\<close>

definition active_clear :: "active_set \<Rightarrow> active_set" where
  "active_clear s = s\<lparr>part_info_to_name := []\<rparr>"

definition active_remove :: "active_set \<Rightarrow> part_info \<Rightarrow> bool \<times> active_set" where
  "active_remove s p =
     (case map_erase entry_key (toTuple p) (part_info_to_name s) of
        (es, erased) \<Rightarrow> (erased, s\<lparr>part_info_to_name := es\<rparr>))"

definition remove_name :: "active_set \<Rightarrow> string \<Rightarrow> bool result \<times> active_set" where
  "remove_name s name =
     (case fromPartName name (format_version s) of
        Inl e \<Rightarrow> (Inl e, s)
      | Inr p \<Rightarrow> (case active_remove s p of (b, s') \<Rightarrow> (Inr b, s')))"

text \<open>The loops that remove a list of names; an exception keeps what was removed before it.\<close>

fun remove_names :: "active_set \<Rightarrow> bool \<Rightarrow> string list \<Rightarrow> bool result \<times> active_set" where
  "remove_names s acc [] = (Inr acc, s)"
| "remove_names s acc (name # names) =
     (case remove_name s name of
        (Inl e, s') \<Rightarrow> (Inl e, s')
      | (Inr b, s') \<Rightarrow> remove_names s' (acc \<and> b) names)"

definition removePartAndCoveredParts :: "active_set \<Rightarrow> part_info \<Rightarrow> bool result \<times> active_set" where
  "removePartAndCoveredParts s p =
     (let parts_covered_by = getPartsCoveredBy s p in
      case active_remove s p of (b, s') \<Rightarrow> remove_names s' b parts_covered_by)"

definition removePartAndCoveredParts_name ::
  "active_set \<Rightarrow> string \<Rightarrow> bool result \<times> active_set" where
  "removePartAndCoveredParts_name s name =
     (case fromPartName name (format_version s) of
        Inl e \<Rightarrow> (Inl e, s)
      | Inr p \<Rightarrow> removePartAndCoveredParts s p)"

definition removePartsCoveredBy :: "active_set \<Rightarrow> string \<Rightarrow> bool result \<times> active_set" where
  "removePartsCoveredBy s part_name =
     (case fromPartName part_name (format_version s) of
        Inl e \<Rightarrow> (Inl e, s)
      | Inr p \<Rightarrow> remove_names s True (filter (\<lambda>part. part \<noteq> part_name) (getPartsCoveredBy s p)))"

section \<open>The invariant\<close>

text \<open>
  Strictly sorted, pairwise disjoint, every description well formed.  \<open>names_ok\<close>: every stored name
  parses to the description it is stored under.
\<close>

abbreviation active_inv :: "active_set \<Rightarrow> bool" where
  "active_inv s \<equiv> parts.active (part_info_to_name s)"

definition names_ok :: "active_set \<Rightarrow> bool" where
  "names_ok s \<longleftrightarrow>
     (\<forall>e\<in>set (part_info_to_name s). \<exists>q. fromPartName (snd e) (format_version s) = Inr q
        \<and> toTuple q = toTuple (fst e))"

definition uncontained :: "part_info \<Rightarrow> part_entry list \<Rightarrow> part_entry list" where
  "uncontained p xs = filter (\<lambda>e. \<not> part_contains p (fst e)) xs"

lemma active_sorted: "active_inv s \<Longrightarrow> sorted_by entry_key (part_info_to_name s)"
  by (simp add: parts.active_def)

lemma split_entries: "part_info_to_name s = left_of p s @ right_of p s"
  by (simp add: before_append_from)

lemma left_less: "e \<in> set (left_of p s) \<Longrightarrow> toTuple (fst e) < toTuple p"
  using before_less by fastforce

lemma right_ge: "active_inv s \<Longrightarrow> e \<in> set (right_of p s) \<Longrightarrow> toTuple p \<le> toTuple (fst e)"
  by (simp add: set_from_lower_bound active_sorted)

section \<open>Search finds the covering part\<close>

lemma left_rev_tail_disjoint:
  assumes "active_inv s" and "wf_part p" and "rev (left_of p s) = z # es" and "e \<in> set es"
  shows "part_isDisjoint p (fst e)"
proof -
  have left: "left_of p s = rev es @ [z]"
    using assms(3) by (metis rev.simps(2) rev_rev_ident)
  then have "part_info_to_name s = rev es @ z # right_of p s"
    by (subst split_entries [of s p]) simp
  moreover have "toTuple (fst z) < toTuple p"
    by (rule left_less [of z p s]) (simp add: left)
  ultimately show ?thesis
    using parts.touching_before [OF assms(1,2)] assms(4) by simp
qed

lemma right_tail_cover:
  assumes "active_inv s" and "wf_part p" and "right_of p s = z # es" and "e \<in> set es"
  shows "\<not> part_contains (fst e) p"
  using parts.cover_after [OF assms(1,2), of "left_of p s" z es e] split_entries [of s p]
    right_ge [OF assms(1), of z p] assms(3,4) by simp

lemma right_tail_disjoint:
  assumes "active_inv s" and "wf_part p" and "right_of p s = l @ z # es" and "e \<in> set es"
    and "part_isDisjoint p (fst z)"
  shows "part_isDisjoint p (fst e)"
  using parts.touching_after [OF assms(1,2), of "left_of p s @ l" z es e] split_entries [of s p]
    right_ge [OF assms(1), of z p] assms(3-5) by simp

lemma disjoint_not_cover:
  "wf_part p \<Longrightarrow> part_isDisjoint p (fst e) \<Longrightarrow> \<not> part_contains (fst e) p"
  using parts.contains_not_disjoint parts.disjoint_sym by blast

lemma covers_if_Some:
  "covers_if p es = Some e \<Longrightarrow> e \<in> set es \<and> part_contains (fst e) p"
  by (auto simp: covers_if_def split: list.splits if_splits)

lemma covers_if_right_None:
  assumes "active_inv s" and "wf_part p" and "covers_if p (right_of p s) = None"
    and "e \<in> set (right_of p s)"
  shows "\<not> part_contains (fst e) p"
proof (cases "right_of p s")
  case (Cons z es)
  then show ?thesis
    using assms right_tail_cover [OF assms(1,2) Cons, of e]
    by (auto simp: covers_if_def split: if_splits)
qed (use assms in simp)

lemma covers_if_left_None:
  assumes "active_inv s" and "wf_part p" and "covers_if p (rev (left_of p s)) = None"
    and "e \<in> set (left_of p s)"
  shows "\<not> part_contains (fst e) p"
proof (cases "rev (left_of p s)")
  case (Cons z es)
  have "e \<in> set (z # es)"
    using assms(4) Cons by (metis set_rev)
  then show ?thesis
    using assms(2,3) Cons left_rev_tail_disjoint [OF assms(1,2) Cons, of e] disjoint_not_cover
    by (auto simp: covers_if_def split: if_splits)
qed (use assms in simp)

lemma getContainingPartImpl_Some:
  assumes "getContainingPartImpl s p = Some e"
  shows "e \<in> set (part_info_to_name s) \<and> part_contains (fst e) p"
proof -
  have "e \<in> set (left_of p s @ right_of p s) \<and> part_contains (fst e) p"
    using assms covers_if_Some [of p _ e]
    by (fastforce simp: getContainingPartImpl_def split: option.splits)
  then show ?thesis
    by (simp only: before_append_from)
qed

lemma getContainingPartImpl_None:
  assumes "active_inv s" and "wf_part p" and "getContainingPartImpl s p = None"
    and "e \<in> set (part_info_to_name s)"
  shows "\<not> part_contains (fst e) p"
proof -
  have "covers_if p (right_of p s) = None" "covers_if p (rev (left_of p s)) = None"
    using assms(3) by (auto simp: getContainingPartImpl_def split: option.splits)
  moreover have "e \<in> set (left_of p s @ right_of p s)"
    using assms(4) by (simp only: before_append_from)
  ultimately show ?thesis
    using covers_if_right_None [OF assms(1,2), of e] covers_if_left_None [OF assms(1,2), of e]
    by auto
qed

lemma getContainingPartImpl_iff:
  assumes "active_inv s" and "wf_part p"
  shows "getContainingPartImpl s p = Some e \<longleftrightarrow>
           e \<in> set (part_info_to_name s) \<and> part_contains (fst e) p"
proof
  assume e: "e \<in> set (part_info_to_name s) \<and> part_contains (fst e) p"
  then obtain f where f: "getContainingPartImpl s p = Some f"
    using getContainingPartImpl_None [OF assms] by (cases "getContainingPartImpl s p") blast+
  then have "f \<in> set (part_info_to_name s)" "part_contains (fst f) p"
    using getContainingPartImpl_Some by blast+
  moreover have "\<not> part_isDisjoint p (fst f)"
    using disjoint_not_cover [OF assms(2)] \<open>part_contains (fst f) p\<close> by blast
  ultimately have "e = f"
    using parts.active_cover_unique [OF assms] e by blast
  then show "getContainingPartImpl s p = Some e"
    using f by simp
qed (rule getContainingPartImpl_Some)

section \<open>Adding a part\<close>

text \<open>Every entry is contained in the new part or disjoint from it.\<close>

definition fits :: "part_info \<Rightarrow> part_entry list \<Rightarrow> bool" where
  "fits p xs \<longleftrightarrow> (\<forall>e\<in>set xs. part_contains p (fst e) \<or> part_isDisjoint p (fst e))"

lemma fits_split: "fits p (part_info_to_name s) \<longleftrightarrow> fits p (left_of p s) \<and> fits p (right_of p s)"
  by (subst split_entries [of s p]) (auto simp: fits_def simp del: before_append_from)

lemma entry_in_split:
  "e \<in> set (left_of p s) \<Longrightarrow> e \<in> set (part_info_to_name s)"
  "e \<in> set (right_of p s) \<Longrightarrow> e \<in> set (part_info_to_name s)"
  using split_entries [of s p] by (metis Un_iff set_append)+

lemma disjoint_not_contained:
  assumes "active_inv s" and "e \<in> set (part_info_to_name s)" and "part_isDisjoint p (fst e)"
  shows "\<not> part_contains p (fst e)"
  using assms parts.contained_not_disjoint by blast

lemma add_left_disjoint:
  "\<forall>e\<in>set es. part_isDisjoint p (fst e) \<and> \<not> part_contains p (fst e) \<Longrightarrow>
     add_left p es rep = (None, es, rep)"
  by (cases es) auto

lemma add_left_active:
  assumes "active_inv s" and "wf_part p"
  shows "if fits p (left_of p s)
    then add_left p (rev (left_of p s)) [] =
      (None, rev (uncontained p (left_of p s)),
       map snd (rev (filter (\<lambda>e. part_contains p (fst e)) (left_of p s))))
    else \<exists>e\<in>set (left_of p s). \<not> part_contains p (fst e) \<and> \<not> part_isDisjoint p (fst e)
       \<and> add_left p (rev (left_of p s)) [] = (Some (fst e), rev (left_of p s), [])"
proof (cases "rev (left_of p s)")
  case Nil
  then show ?thesis
    by (simp add: fits_def uncontained_def)
next
  case (Cons z es)
  have left: "left_of p s = rev es @ [z]"
    using Cons by (metis rev.simps(2) rev_rev_ident)
  have rest: "part_isDisjoint p (fst e) \<and> \<not> part_contains p (fst e)" if "e \<in> set es" for e
    using left_rev_tail_disjoint [OF assms Cons that] that left
      disjoint_not_contained [OF assms(1), of e p] entry_in_split(1) [of e p s] by simp
  then have "filter (\<lambda>e. part_contains p (fst e)) (rev es) = []"
    and "filter (\<lambda>e. \<not> part_contains p (fst e)) (rev es) = rev es"
    by (simp_all add: filter_empty_conv filter_id_conv)
  then show ?thesis
    using rest add_left_disjoint [of es p "[snd z]"]
    by (auto simp: left fits_def uncontained_def)
qed

lemma add_right_eq:
  "add_right p r rep = (dropWhile (\<lambda>e. part_contains p (fst e)) r,
     rep @ map snd (takeWhile (\<lambda>e. part_contains p (fst e)) r))"
  by (induction p r rep rule: add_right.induct) auto

lemma right_active:
  fixes p s
  defines "c \<equiv> \<lambda>e. part_contains p (fst e)"
  assumes "active_inv s" and "wf_part p"
  shows "fits p (right_of p s) \<longleftrightarrow>
      dropWhile c (right_of p s) = [] \<or> part_isDisjoint p (fst (hd (dropWhile c (right_of p s))))"
    and "fits p (right_of p s) \<Longrightarrow> dropWhile c (right_of p s) = uncontained p (right_of p s)
      \<and> takeWhile c (right_of p s) = filter c (right_of p s)"
proof -
  define t d where td: "t = takeWhile c (right_of p s)" "d = dropWhile c (right_of p s)"
  have r: "right_of p s = t @ d" and t: "\<forall>e\<in>set t. c e"
    by (auto simp: td dest: set_takeWhileD)
  have tail: "part_isDisjoint p (fst e)" if "d = z # es" "part_isDisjoint p (fst z)" "e \<in> set es" for z es e
    using right_tail_disjoint [OF assms(2,3), of t z es e] r that by simp
  have nc: "\<not> c (hd d)" if "d \<noteq> []"
    using hd_dropWhile that unfolding td by blast
  have "fits p (right_of p s) \<longleftrightarrow> fits p d"
    using r t by (auto simp: fits_def c_def)
  also have "\<dots> \<longleftrightarrow> d = [] \<or> part_isDisjoint p (fst (hd d))"
    using tail nc by (cases d) (auto simp: fits_def c_def)
  finally show iff: "fits p (right_of p s) \<longleftrightarrow> d = [] \<or> part_isDisjoint p (fst (hd d))" .
  assume "fits p (right_of p s)"
  then have "\<forall>e\<in>set d. part_isDisjoint p (fst e)"
    using iff tail by (cases d) auto
  then have "\<forall>e\<in>set d. \<not> c e"
    using disjoint_not_contained [OF assms(2)] entry_in_split(2) r unfolding c_def
    by (metis Un_iff set_append)
  then have "filter c d = []" and "filter (\<lambda>e. \<not> c e) d = d" and "filter (\<lambda>e. \<not> c e) t = []"
    and "filter c t = t"
    using t by (simp_all add: filter_empty_conv filter_id_conv)
  then show "d = uncontained p (right_of p s) \<and> t = filter c (right_of p s)"
    using r by (simp add: uncontained_def c_def)
qed

lemma uncontained_split:
  "uncontained p (left_of p s) @ uncontained p (right_of p s) = uncontained p (part_info_to_name s)"
  unfolding uncontained_def by (simp add: before_append_from flip: filter_append)

lemma addImpl_covering:
  assumes "active_inv s" and "wf_part p" and "e \<in> set (part_info_to_name s)"
    and "part_contains (fst e) p"
  shows "addImpl s p name out = (HasCovering, s, out, None)"
  using getContainingPartImpl_iff [OF assms(1,2), of e] assms(3,4) by (simp add: addImpl_def)

lemma addImpl_added:
  assumes "active_inv s" and "wf_part p"
    and "\<forall>e\<in>set (part_info_to_name s). \<not> part_contains (fst e) p"
    and "fits p (part_info_to_name s)"
  shows "addImpl s p name out =
    (Added,
     s\<lparr>part_info_to_name := map_emplace entry_key (p, name) (uncontained p (part_info_to_name s))\<rparr>,
     map_option (\<lambda>_. map snd (filter (\<lambda>e. part_contains p (fst e)) (part_info_to_name s))) out,
     None)"
proof -
  let ?c = "\<lambda>e. part_contains p (fst e)"
  have nocover: "getContainingPartImpl s p = None"
    using getContainingPartImpl_Some assms(3) by (metis option.exhaust)
  have fit: "fits p (left_of p s)" "fits p (right_of p s)"
    using assms(4) fits_split by blast+
  have left: "add_left p (rev (left_of p s)) [] =
      (None, rev (uncontained p (left_of p s)), map snd (rev (filter ?c (left_of p s))))"
    using add_left_active [OF assms(1,2)] fit(1) by simp
  have right: "add_right p (right_of p s) (map snd (filter ?c (left_of p s))) =
      (uncontained p (right_of p s),
       map snd (filter ?c (left_of p s)) @ map snd (filter ?c (right_of p s)))"
    using right_active(2) [OF assms(1,2) fit(2)] by (simp add: add_right_eq)
  have hd: "\<not> (uncontained p (right_of p s) \<noteq> []
      \<and> \<not> part_isDisjoint p (fst (hd (uncontained p (right_of p s)))))"
    using right_active(1) [OF assms(1,2)] right_active(2) [OF assms(1,2) fit(2)] fit(2) by auto
  have replaced: "map snd (filter ?c (left_of p s)) @ map snd (filter ?c (right_of p s))
      = map snd (filter ?c (part_info_to_name s))"
    by (simp add: before_append_from flip: filter_append map_append)
  show ?thesis
    unfolding addImpl_def nocover left prod.case option.case rev_map [symmetric] rev_rev_ident right
      Let_def uncontained_split replaced
    using hd by simp
qed

lemma active_thin:
  "parts.active (l @ t @ d) \<Longrightarrow> parts.active (filter P l @ d)"
  by (rule parts.active_subset [of "l @ t @ d"])
    (auto simp: parts.active_def sorted_by_append sorted_by_filter)

lemma addImpl_intersecting:
  assumes "active_inv s" and "wf_part p"
    and "\<forall>e\<in>set (part_info_to_name s). \<not> part_contains (fst e) p"
    and "\<not> fits p (part_info_to_name s)"
  shows "\<exists>s' out' reason. addImpl s p name out = (HasIntersectingPart, s', out', Some reason)
     \<and> active_inv s' \<and> set (part_info_to_name s') \<subseteq> set (part_info_to_name s)
     \<and> set (uncontained p (part_info_to_name s)) \<subseteq> set (part_info_to_name s')
     \<and> format_version s' = format_version s"
proof (cases "fits p (left_of p s)")
  case False
  have "getContainingPartImpl s p = None"
    using getContainingPartImpl_Some assms(3) by (metis option.exhaust)
  then show ?thesis
    using add_left_active [OF assms(1,2)] False assms(1)
    by (auto simp: addImpl_def before_append_from uncontained_def)
next
  case True
  let ?c = "\<lambda>e. part_contains p (fst e)"
  let ?d = "dropWhile ?c (right_of p s)" and ?t = "takeWhile ?c (right_of p s)"
  have nocover: "getContainingPartImpl s p = None"
    using getContainingPartImpl_Some assms(3) by (metis option.exhaust)
  have nofit: "\<not> fits p (right_of p s)"
    using assms(4) fits_split True by blast
  then have hd: "?d \<noteq> []" "\<not> part_isDisjoint p (fst (hd ?d))"
    using right_active(1) [OF assms(1,2)] by auto
  have left: "add_left p (rev (left_of p s)) [] =
      (None, rev (uncontained p (left_of p s)), map snd (rev (filter ?c (left_of p s))))"
    using add_left_active [OF assms(1,2)] True by simp
  have xs: "part_info_to_name s = left_of p s @ ?t @ ?d"
    using split_entries [of s p] by simp
  let ?ys = "uncontained p (left_of p s) @ ?d"
  have "parts.active ?ys"
    using assms(1) active_thin [of "left_of p s" ?t ?d] xs by (simp add: uncontained_def)
  moreover have "set ?ys \<subseteq> set (left_of p s @ ?t @ ?d)"
    by (auto simp: uncontained_def dest: set_dropWhileD)
  moreover have "set (uncontained p (left_of p s @ ?t @ ?d)) \<subseteq> set ?ys"
    by (auto simp: uncontained_def simp del: takeWhile_dropWhile_id dest: set_takeWhileD)
  ultimately have ys: "parts.active ?ys" "set ?ys \<subseteq> set (part_info_to_name s)"
    "set (uncontained p (part_info_to_name s)) \<subseteq> set ?ys"
    by (simp_all only: xs [symmetric])
  show ?thesis
    unfolding addImpl_def nocover left prod.case option.case add_right_eq Let_def
    using hd ys by simp
qed

lemma addImpl_added_inv:
  fixes s p name
  assumes "active_inv s" and "wf_part p"
    and "\<forall>e\<in>set (part_info_to_name s). \<not> part_contains (fst e) p"
    and "fits p (part_info_to_name s)"
  defines "ys \<equiv> map_emplace entry_key (p, name) (uncontained p (part_info_to_name s))"
  shows "parts.active ys" and "set ys = insert (p, name) (set (uncontained p (part_info_to_name s)))"
proof -
  have act: "parts.active (uncontained p (part_info_to_name s))"
    using assms(1) unfolding uncontained_def by (rule parts.active_filter)
  have disj: "\<forall>e\<in>set (uncontained p (part_info_to_name s)). part_isDisjoint p (fst e)"
    using assms(4) by (auto simp: fits_def uncontained_def)
  have new: "\<forall>e\<in>set (uncontained p (part_info_to_name s)). toTuple (fst e) \<noteq> toTuple p"
    using assms(3) parts.key_contains by (fastforce simp: uncontained_def)
  show "parts.active ys"
    unfolding ys_def by (rule parts.active_insert [OF act assms(2) disj new])
  show "set ys = insert (p, name) (set (uncontained p (part_info_to_name s)))"
    unfolding ys_def by (rule set_map_emplace_new) (use new in simp)
qed

text \<open>All outcomes at once: what \<^verbatim>\<open>addImpl\<close> returns is decided by the relations to the entries.\<close>

lemma addImpl_cases:
  assumes "active_inv s" and "wf_part p"
  obtains (covered) e where "e \<in> set (part_info_to_name s)" "part_contains (fst e) p"
      "addImpl s p name out = (HasCovering, s, out, None)"
  | (intersecting) s' out' reason where
      "\<forall>e\<in>set (part_info_to_name s). \<not> part_contains (fst e) p"
      "\<not> fits p (part_info_to_name s)"
      "addImpl s p name out = (HasIntersectingPart, s', out', Some reason)"
      "active_inv s'" "format_version s' = format_version s"
      "set (part_info_to_name s') \<subseteq> set (part_info_to_name s)"
      "set (uncontained p (part_info_to_name s)) \<subseteq> set (part_info_to_name s')"
  | (added) s' out' where
      "\<forall>e\<in>set (part_info_to_name s). \<not> part_contains (fst e) p"
      "fits p (part_info_to_name s)"
      "addImpl s p name out = (Added, s', out', None)"
      "active_inv s'" "format_version s' = format_version s"
      "set (part_info_to_name s') = insert (p, name) (set (uncontained p (part_info_to_name s)))"
      "out' = map_option (\<lambda>_. map snd (filter (\<lambda>e. part_contains p (fst e)) (part_info_to_name s))) out"
proof (cases "\<exists>e\<in>set (part_info_to_name s). part_contains (fst e) p")
  case True
  then show thesis
    using covered addImpl_covering [OF assms] by blast
next
  case False
  then have nocover: "\<forall>e\<in>set (part_info_to_name s). \<not> part_contains (fst e) p"
    by blast
  show thesis
  proof (cases "fits p (part_info_to_name s)")
    case True
    show thesis
      using added [OF nocover True addImpl_added [OF assms nocover True]]
        addImpl_added_inv [OF assms nocover True] by simp
  next
    case no_fit: False
    show thesis
      using addImpl_intersecting [OF assms nocover no_fit, of name out] intersecting [OF nocover no_fit]
      by blast
  qed
qed

section \<open>Queries on an active set\<close>

lemma check_left_active:
  assumes "active_inv s" and "wf_part p"
  shows "check_left p (rev (left_of p s)) [] =
    (if fits p (left_of p s) then Inr (filter (\<lambda>e. part_contains p (fst e)) (left_of p s))
     else Inl LOGICAL_ERROR)"
proof (cases "rev (left_of p s)")
  case Nil
  then show ?thesis
    by (simp add: fits_def)
next
  case (Cons z es)
  have left: "left_of p s = rev es @ [z]"
    using Cons by (metis rev.simps(2) rev_rev_ident)
  have rest: "part_isDisjoint p (fst e) \<and> \<not> part_contains p (fst e)" if "e \<in> set es" for e
    using left_rev_tail_disjoint [OF assms Cons that] that left
      disjoint_not_contained [OF assms(1), of e p] entry_in_split(1) [of e p s] by simp
  then have "filter (\<lambda>e. part_contains p (fst e)) (rev es) = []"
    and "check_left p es [z] = Inr [z]"
    by (simp_all add: filter_empty_conv) (cases es; simp)
  then show ?thesis
    using rest by (auto simp: left fits_def)
qed

lemma dropWhile_append_all: "\<forall>x\<in>set xs. P x \<Longrightarrow> dropWhile P (xs @ ys) = dropWhile P ys"
  by (induction xs) auto

lemma check_right_eq:
  "check_right p es =
     (if \<exists>e\<in>set (takeWhile (\<lambda>e. part_contains p (fst e)) es). toTuple (fst e) = toTuple p then Inl ASSERTION_FAILED
      else Inr (dropWhile (\<lambda>e. part_contains p (fst e)) es))"
  by (induction es) auto

text \<open>A part that the set holds is at the lower bound and disjoint from all the others.\<close>

lemma member_at_lower_bound:
  assumes "active_inv s" and "e \<in> set (part_info_to_name s)" and "toTuple (fst e) = toTuple p"
  obtains es where "right_of p s = e # es" and "part_contains p (fst e)" and "fits p (left_of p s)"
proof -
  have "e \<in> set (right_of p s)"
    using assms by (simp add: set_from_lower_bound active_sorted)
  then obtain z es where z: "right_of p s = z # es"
    by (cases "right_of p s") auto
  have "\<not> e \<in> set es"
  proof
    assume "e \<in> set es"
    then have "toTuple (fst z) < toTuple (fst e)"
      using sorted_by_from [OF active_sorted [OF assms(1)], of "toTuple p"] z by (simp add: sorted_by_def)
    then show False
      using right_ge [OF assms(1), of z p] z assms(3) by simp
  qed
  then have ez: "right_of p s = e # es"
    using \<open>e \<in> set (right_of p s)\<close> z by simp
  have "part_isDisjoint p (fst f)" if f: "f \<in> set (left_of p s)" for f
  proof -
    have "f \<noteq> e"
      using left_less [OF f] assms(3) by auto
    then have "part_isDisjoint (fst e) (fst f)"
      using parts.active_disjoint [OF assms(1,2) entry_in_split(1) [OF f]] by simp
    then show ?thesis
      using assms(3) by (simp add: part_isDisjoint_def toTuple_eq_iff)
  qed
  then show thesis
    using that [OF ez] parts.key_contains [of p "fst e"] assms(3) by (simp add: fits_def)
qed

lemma checkIntersectingParts_iff:
  assumes "active_inv s" and "wf_part p"
  shows "checkIntersectingParts s p =
    (if \<exists>e\<in>set (part_info_to_name s). toTuple (fst e) = toTuple p then Inl ASSERTION_FAILED
     else if fits p (part_info_to_name s) then Inr () else Inl LOGICAL_ERROR)"
proof (cases "\<exists>e\<in>set (part_info_to_name s). toTuple (fst e) = toTuple p")
  case True
  then obtain e es where "right_of p s = e # es" "part_contains p (fst e)" "fits p (left_of p s)" "toTuple (fst e) = toTuple p"
    using member_at_lower_bound [OF assms(1)] by metis
  then have "check_right p (filter (\<lambda>e. part_contains p (fst e)) (left_of p s) @ right_of p s) = Inl ASSERTION_FAILED"
    by (simp add: check_right_eq takeWhile_append)
  then show ?thesis
    using True \<open>fits p (left_of p s)\<close> by (simp add: checkIntersectingParts_def check_left_active [OF assms])
next
  case False
  let ?c = "\<lambda>e. part_contains p (fst e)"
  have "set (takeWhile ?c (filter ?c (left_of p s) @ right_of p s)) \<subseteq> set (part_info_to_name s)"
    using entry_in_split [of _ p s] set_takeWhileD by fastforce
  then have right: "check_right p (filter ?c (left_of p s) @ right_of p s) = Inr (dropWhile ?c (right_of p s))"
    using False dropWhile_append_all [of "filter ?c (left_of p s)" ?c "right_of p s"]
    unfolding check_right_eq by auto
  show ?thesis
    using False right_active(1) [OF assms] fits_split [of p s]
    by (cases "dropWhile ?c (right_of p s)")
      (auto simp: checkIntersectingParts_def check_left_active [OF assms] right res_bind_def
        simp del: dropWhile_eq_Nil_conv)
qed

text \<open>The same assertion in the right loop of \<^verbatim>\<open>addImpl\<close> always holds there: a set that does not cover the
  part does not hold it.\<close>

lemma addImpl_assertion:
  assumes "active_inv s" and "wf_part p" and "getContainingPartImpl s p = None" and "e \<in> set (part_info_to_name s)"
  shows "toTuple p \<noteq> toTuple (fst e)"
  using assms getContainingPartImpl_iff [OF assms(1,2), of e] parts.key_contains [of "fst e" p] by auto

lemma take_covered_prefix:
  "take_covered p es =
     (case dropWhile (\<lambda>e. part_contains p (fst e)) es of
        [] \<Rightarrow> Some (takeWhile (\<lambda>e. part_contains p (fst e)) es)
      | e # _ \<Rightarrow> if part_contains (fst e) p then None
               else Some (takeWhile (\<lambda>e. part_contains p (fst e)) es))"
  by (induction es) (auto simp del: dropWhile_eq_Nil_conv split: list.splits)

lemma take_covered_left:
  assumes "active_inv s" and "wf_part p" and "fits p (left_of p s)"
  shows "take_covered p (rev (left_of p s)) =
    Some (rev (filter (\<lambda>e. part_contains p (fst e)) (left_of p s)))"
proof (cases "rev (left_of p s)")
  case Nil
  then show ?thesis by simp
next
  case (Cons z es)
  have left: "left_of p s = rev es @ [z]"
    using Cons by (metis rev.simps(2) rev_rev_ident)
  have rest: "\<not> part_contains (fst e) p \<and> \<not> part_contains p (fst e)" if "e \<in> set es" for e
    using left_rev_tail_disjoint [OF assms(1,2) Cons that] that left disjoint_not_cover [OF assms(2)]
      disjoint_not_contained [OF assms(1), of e p] entry_in_split(1) [of e p s] by simp
  then have "filter (\<lambda>e. part_contains p (fst e)) (rev es) = []" and "take_covered p es = Some []"
    by (simp_all add: filter_empty_conv) (cases es; simp)
  moreover have "part_contains p (fst z) \<or> \<not> part_contains (fst z) p"
    using assms(3) disjoint_not_cover [OF assms(2)] by (auto simp: left fits_def)
  ultimately show ?thesis
    by (auto simp: left)
qed

lemma getPartsCoveredByImpl_fits:
  assumes "active_inv s" and "wf_part p" and "fits p (part_info_to_name s)"
  shows "getPartsCoveredByImpl s p = filter (\<lambda>e. part_contains p (fst e)) (part_info_to_name s)"
proof -
  let ?c = "\<lambda>e. part_contains p (fst e)"
  have fit: "fits p (left_of p s)" "fits p (right_of p s)"
    using assms(3) fits_split by blast+
  note right = right_active(2) [OF assms(1,2) fit(2)]
  have "\<not> part_contains (fst e) p" if "uncontained p (right_of p s) = e # es" for e es
  proof -
    have "e \<in> set (uncontained p (right_of p s))"
      using that by simp
    then show ?thesis
      using fit(2) disjoint_not_cover [OF assms(2)] by (auto simp: fits_def uncontained_def)
  qed
  then have "take_covered p (right_of p s) = Some (filter ?c (right_of p s))"
    using right by (auto simp: take_covered_prefix split: list.splits)
  then show ?thesis
    using take_covered_left [OF assms(1,2) fit(1)]
    by (simp add: getPartsCoveredByImpl_def before_append_from flip: filter_append)
qed

lemma getPartsCoveredByImpl_covered:
  assumes "active_inv s" and "wf_part p" and "e \<in> set (part_info_to_name s)"
    and "part_contains (fst e) p" and "\<not> part_contains p (fst e)"
  shows "getPartsCoveredByImpl s p = []"
proof -
  have "e \<in> set (left_of p s @ right_of p s)"
    using assms(3) by (simp only: before_append_from)
  then consider "e \<in> set (rev (left_of p s))" | "e \<in> set (right_of p s)"
    by auto
  then show ?thesis
  proof cases
    case 1
    then obtain z es where z: "rev (left_of p s) = z # es"
      by (cases "rev (left_of p s)") auto
    have "e = z"
      using 1 left_rev_tail_disjoint [OF assms(1,2) z, of e] disjoint_not_cover [OF assms(2)] assms(4)
      by (auto simp: z)
    then show ?thesis
      using assms(4,5) by (simp add: getPartsCoveredByImpl_def z)
  next
    case 2
    then obtain z es where z: "right_of p s = z # es"
      by (cases "right_of p s") auto
    have "e = z"
      using 2 right_tail_cover [OF assms(1,2) z, of e] assms(4) by (auto simp: z)
    then show ?thesis
      using assms(4,5) by (simp add: getPartsCoveredByImpl_def z split: option.split)
  qed
qed

section \<open>Removing parts\<close>

lemma active_remove_eq:
  assumes "active_inv s"
  shows "active_remove s p =
    (\<exists>e\<in>set (part_info_to_name s). toTuple (fst e) = toTuple p,
     s\<lparr>part_info_to_name := filter (\<lambda>e. toTuple (fst e) \<noteq> toTuple p) (part_info_to_name s)\<rparr>)"
  by (simp add: active_remove_def map_erase_filter [OF active_sorted [OF assms]])

lemma image_filter_neq: "f ` set (filter (\<lambda>x. f x \<noteq> k) xs) = f ` set xs - {k}"
  by auto

lemma bex_image: "(\<exists>x\<in>A. f x = k) \<longleftrightarrow> k \<in> f ` A"
  by auto

lemma filter_filter_neq:
  "filter (\<lambda>x. f x \<notin> A) (filter (\<lambda>x. f x \<noteq> k) xs) = filter (\<lambda>x. f x \<notin> insert k A) xs"
  by (induction xs) auto

lemma remove_names_eq:
  assumes "active_inv s" and "distinct (map entry_key es)"
    and "\<forall>e\<in>set es. \<exists>q. fromPartName (snd e) (format_version s) = Inr q \<and> toTuple q = entry_key e"
  shows "remove_names s acc (map snd es) =
    (Inr (acc \<and> entry_key ` set es \<subseteq> entry_key ` set (part_info_to_name s)),
     s\<lparr>part_info_to_name := filter (\<lambda>x. entry_key x \<notin> entry_key ` set es) (part_info_to_name s)\<rparr>)"
  using assms
proof (induction es arbitrary: s acc)
  case Nil
  then show ?case by simp
next
  case (Cons e es)
  obtain q where q: "fromPartName (snd e) (format_version s) = Inr q" "toTuple q = entry_key e"
    using Cons.prems(3) by auto
  define t where "t = s\<lparr>part_info_to_name := filter (\<lambda>x. entry_key x \<noteq> entry_key e) (part_info_to_name s)\<rparr>"
  have te: "part_info_to_name t = filter (\<lambda>x. entry_key x \<noteq> entry_key e) (part_info_to_name s)"
    by (simp add: t_def)
  have tu: "t\<lparr>part_info_to_name := ys\<rparr> = s\<lparr>part_info_to_name := ys\<rparr>" for ys
    by (simp add: t_def)
  have rm: "remove_name s (snd e) = (Inr (\<exists>x\<in>set (part_info_to_name s). entry_key x = entry_key e), t)"
    using q active_remove_eq [OF Cons.prems(1), of q] by (simp add: remove_name_def t_def)
  have "active_inv t"
    using parts.active_filter [OF Cons.prems(1)] by (simp add: t_def)
  then have IH: "remove_names t b (map snd es) =
    (Inr (b \<and> entry_key ` set es \<subseteq> entry_key ` set (part_info_to_name t)),
     t\<lparr>part_info_to_name := filter (\<lambda>x. entry_key x \<notin> entry_key ` set es) (part_info_to_name t)\<rparr>)" for b
    using Cons.prems(2,3) by (intro Cons.IH) (auto simp: t_def)
  have new: "entry_key e \<notin> entry_key ` set es"
    using Cons.prems(2) by simp
  have "entry_key ` set (part_info_to_name t) = entry_key ` set (part_info_to_name s) - {entry_key e}"
    unfolding te by (rule image_filter_neq)
  with new have flag: "entry_key ` set es \<subseteq> entry_key ` set (part_info_to_name t) \<longleftrightarrow>
      entry_key ` set es \<subseteq> entry_key ` set (part_info_to_name s)"
    by (simp only: subset_Diff_insert Diff_empty simp_thms)
  have mem: "(\<exists>x\<in>set (part_info_to_name s). entry_key x = entry_key e) \<longleftrightarrow>
      entry_key e \<in> entry_key ` set (part_info_to_name s)"
    by (rule bex_image)
  have rest: "filter (\<lambda>x. entry_key x \<notin> entry_key ` set es) (part_info_to_name t) =
      filter (\<lambda>x. entry_key x \<notin> entry_key ` set (e # es)) (part_info_to_name s)"
    unfolding te by (simp only: filter_filter_neq list.set image_insert)
  show ?case
    unfolding list.map remove_names.simps rm prod.case sum.case IH flag mem rest tu list.set
      image_insert insert_subset conj_assoc ..
qed

lemma sorted_by_distinct_keys: "sorted_by key xs \<Longrightarrow> distinct (map key xs)"
  unfolding sorted_by_def sorted_wrt_map [of "(<)" key, symmetric] strict_sorted_iff by blast

lemma distinct_keys: "active_inv s \<Longrightarrow> distinct (map entry_key (filter P (part_info_to_name s)))"
  using active_sorted [THEN sorted_by_filter] by (rule sorted_by_distinct_keys)

lemma removePartAndCoveredParts_eq:
  assumes "active_inv s" and "names_ok s" and "wf_part p" and "fits p (part_info_to_name s)"
  shows "removePartAndCoveredParts s p =
    (Inr False, s\<lparr>part_info_to_name := uncontained p (part_info_to_name s)\<rparr>)"
proof -
  let ?c = "\<lambda>e. part_contains p (fst e)" and ?xs = "part_info_to_name s"
  define t where "t = s\<lparr>part_info_to_name := filter (\<lambda>e. toTuple (fst e) \<noteq> toTuple p) ?xs\<rparr>"
  have t: "active_inv t"
    using parts.active_filter [OF assms(1)] by (simp add: t_def)
  have names: "\<forall>e\<in>set (filter ?c ?xs). \<exists>q. fromPartName (snd e) (format_version t) = Inr q
      \<and> toTuple q = entry_key e"
    using assms(2) by (auto simp: names_ok_def t_def)
  have keyc: "toTuple (fst e) = toTuple p \<Longrightarrow> ?c e" for e :: part_entry
    using parts.key_contains [of p "fst e"] by simp
  have inj: "x \<in> set ?xs \<Longrightarrow> entry_key x \<in> entry_key ` set (filter ?c ?xs) \<longleftrightarrow> ?c x" for x
    using sorted_by_key_inj [OF active_sorted [OF assms(1)]] by fastforce
  have "\<not> ((\<exists>e\<in>set ?xs. toTuple (fst e) = toTuple p)
      \<and> entry_key ` set (filter ?c ?xs) \<subseteq> entry_key ` set (part_info_to_name t))"
  proof
    assume a: "(\<exists>e\<in>set ?xs. toTuple (fst e) = toTuple p)
      \<and> entry_key ` set (filter ?c ?xs) \<subseteq> entry_key ` set (part_info_to_name t)"
    then obtain e where "e \<in> set ?xs" "toTuple (fst e) = toTuple p"
      by blast
    then have "entry_key e \<in> entry_key ` set (filter ?c ?xs)"
      using keyc [of e] by (intro imageI) simp
    then have "entry_key e \<in> entry_key ` set (part_info_to_name t)"
      using a by (rule subsetD [OF conjunct2, rotated])
    then show False
      using \<open>toTuple (fst e) = toTuple p\<close> by (auto simp: t_def)
  qed
  moreover have "filter (\<lambda>x. entry_key x \<notin> entry_key ` set (filter ?c ?xs)) (part_info_to_name t)
      = uncontained p ?xs"
    unfolding uncontained_def t_def using inj keyc by (auto intro!: filter_cong)
  ultimately show ?thesis
    using remove_names_eq [OF t distinct_keys [OF assms(1)] names]
      getPartsCoveredByImpl_fits [OF assms(1,3,4)]
    unfolding removePartAndCoveredParts_def getPartsCoveredBy_def active_remove_eq [OF assms(1)]
      t_def [symmetric]
    by (simp add: t_def)
qed

section \<open>Sets built from names\<close>

definition names_exact :: "active_set \<Rightarrow> bool" where
  "names_exact s \<longleftrightarrow>
     (\<forall>e\<in>set (part_info_to_name s). fromPartName (snd e) (format_version s) = Inr (fst e))"

lemma names_exact_ok: "names_exact s \<Longrightarrow> names_ok s"
  by (auto simp: names_exact_def names_ok_def)

lemma add_name_step:
  assumes "active_inv s" and "names_exact s" and "add_name s name None = (Inr b, s', out')"
  shows "active_inv s' \<and> names_exact s' \<and> format_version s' = format_version s
    \<and> set (part_info_to_name s') \<subseteq> set (part_info_to_name s) \<union> {e. snd e = name}
    \<and> (\<exists>p. fromPartName name (format_version s) = Inr p
         \<and> (\<exists>e\<in>set (part_info_to_name s'). part_contains (fst e) p))
    \<and> (\<forall>q. (\<exists>e\<in>set (part_info_to_name s). part_contains (fst e) q)
         \<longrightarrow> (\<exists>e\<in>set (part_info_to_name s'). part_contains (fst e) q))"
proof -
  obtain p where p: "fromPartName name (format_version s) = Inr p"
    using assms(3) by (auto simp: add_name_def split: sum.splits)
  then have wf: "wf_part p" and add: "add_info_name s p name None = (Inr b, s', out')"
    using assms(3) fromPartName_wf by (auto simp: add_name_def)
  show ?thesis
    using assms(1) wf
  proof (cases rule: addImpl_cases [of s p name None])
    case (covered e)
    then have "s' = s"
      using add by (simp add: add_info_name_def)
    then show ?thesis
      using assms(1,2) covered p by blast
  next
    case (intersecting t out'' reason)
    then show ?thesis
      using add by (simp add: add_info_name_def)
  next
    case (added t out'')
    then have t: "t = s'"
      using add by (simp add: add_info_name_def)
    have keep: "\<exists>e\<in>set (part_info_to_name s'). part_contains (fst e) q"
      if e: "e \<in> set (part_info_to_name s)" "part_contains (fst e) q" for e q
    proof (cases "part_contains p (fst e)")
      case True
      then have "part_contains p q"
        using parts.contains_trans [OF wf] e(2) by blast
      then show ?thesis
        using added(6) t by force
    next
      case False
      then have "e \<in> set (part_info_to_name s')"
        using e(1) added(6) t by (simp add: uncontained_def)
      then show ?thesis
        using e(2) by blast
    qed
    have "(p, name) \<in> set (part_info_to_name s')"
      using added(6) t by simp
    then have "\<exists>e\<in>set (part_info_to_name s'). part_contains (fst e) p"
      using part_contains_refl by force
    then show ?thesis
      using added(4-6) t p keep assms(2)
      by (auto simp: names_exact_def uncontained_def)
  qed
qed

lemma add_all_spec:
  assumes "add_all s names = Inr s'" and "active_inv s" and "names_exact s"
  shows "active_inv s' \<and> names_exact s' \<and> format_version s' = format_version s
    \<and> set (part_info_to_name s') \<subseteq> set (part_info_to_name s) \<union> {e. snd e \<in> set names}
    \<and> (\<forall>name\<in>set names. \<exists>p. fromPartName name (format_version s) = Inr p
         \<and> (\<exists>e\<in>set (part_info_to_name s'). part_contains (fst e) p))
    \<and> (\<forall>q. (\<exists>e\<in>set (part_info_to_name s). part_contains (fst e) q)
         \<longrightarrow> (\<exists>e\<in>set (part_info_to_name s'). part_contains (fst e) q))"
  using assms
proof (induction names arbitrary: s)
  case Nil
  then show ?case by auto
next
  case (Cons name names)
  obtain b t out where step: "add_name s name None = (Inr b, t, out)"
    and rest: "add_all t names = Inr s'"
    using Cons.prems(1) by (auto split: prod.splits sum.splits)
  note one = add_name_step [OF Cons.prems(2,3) step]
  have inv: "active_inv t" "names_exact t"
    using one by blast+
  note IH = Cons.IH [OF rest inv]
  obtain p where p: "fromPartName name (format_version s) = Inr p"
    "\<exists>e\<in>set (part_info_to_name t). part_contains (fst e) p"
    using one by blast
  then have "\<exists>e\<in>set (part_info_to_name s'). part_contains (fst e) p"
    using IH by blast
  moreover have fv: "format_version t = format_version s"
    using one by blast
  ultimately show ?case
    using IH one p(1) by auto
qed

lemma new_active_set_inv: "active_inv (new_active_set fv)" "names_exact (new_active_set fv)"
  by (simp_all add: new_active_set_def parts.active_def names_exact_def)

lemma add_all_laminar:
  assumes "\<forall>name\<in>set names. \<exists>p. fromPartName name fv = Inr p"
    and "\<forall>n\<in>N. \<forall>m\<in>N. \<forall>p q. fromPartName n fv = Inr p \<and> fromPartName m fv = Inr q \<longrightarrow>
           part_contains p q \<or> part_contains q p \<or> part_isDisjoint p q"
    and "set names \<subseteq> N" and "snd ` set (part_info_to_name s) \<subseteq> N"
    and "active_inv s" and "names_exact s" and "format_version s = fv"
  shows "\<exists>s'. add_all s names = Inr s'"
  using assms
proof (induction names arbitrary: s)
  case Nil
  then show ?case by simp
next
  case (Cons name names)
  obtain p where p: "fromPartName name (format_version s) = Inr p"
    using Cons.prems(1,7) by auto
  have wf: "wf_part p"
    using p by (rule fromPartName_wf)
  have lam: "part_contains (fst e) p \<or> part_contains p (fst e) \<or> part_isDisjoint p (fst e)"
    if e: "e \<in> set (part_info_to_name s)" for e
  proof -
    have "snd e \<in> N" "name \<in> N" "fromPartName (snd e) fv = Inr (fst e)"
      using Cons.prems(3,4,6,7) e by (auto simp: names_exact_def)
    then show ?thesis
      using Cons.prems(2,7) p part_isDisjoint_sym by blast
  qed
  obtain b t out where step: "add_name s name None = (Inr b, t, out)"
    using Cons.prems(5) wf
  proof (cases rule: addImpl_cases [of s p name None])
    case (intersecting s' out' reason)
    then show ?thesis
      using lam unfolding fits_def by blast
  qed (use that p in \<open>auto simp: add_name_def add_info_name_def\<close>)
  note one = add_name_step [OF Cons.prems(5,6) step]
  have "snd ` set (part_info_to_name t) \<subseteq> N"
    using one Cons.prems(3,4) by auto
  then have "\<exists>s'. add_all t names = Inr s'"
    using one Cons.prems(1-3,7) by (intro Cons.IH) auto
  then show ?case
    using step by simp
qed

lemma removePartsCoveredBy_eq:
  assumes "active_inv s" and "names_ok s" and "fromPartName part_name (format_version s) = Inr p"
    and "fits p (part_info_to_name s)"
  shows "removePartsCoveredBy s part_name =
    (Inr True, s\<lparr>part_info_to_name :=
       filter (\<lambda>e. part_contains p (fst e) \<longrightarrow> snd e = part_name) (part_info_to_name s)\<rparr>)"
proof -
  let ?xs = "part_info_to_name s" and ?c = "\<lambda>e. part_contains p (fst e) \<and> snd e \<noteq> part_name"
  have es: "filter (\<lambda>part. part \<noteq> part_name) (getPartsCoveredBy s p) = map snd (filter ?c ?xs)"
    using getPartsCoveredByImpl_fits [OF assms(1) fromPartName_wf [OF assms(3)] assms(4)]
    by (simp add: getPartsCoveredBy_def filter_map comp_def)
  have inj: "entry_key x \<in> entry_key ` set (filter ?c ?xs) \<longleftrightarrow> ?c x" if "x \<in> set ?xs" for x
  proof
    assume "entry_key x \<in> entry_key ` set (filter ?c ?xs)"
    then obtain y where "entry_key x = entry_key y" and y: "y \<in> set (filter ?c ?xs)"
      by (rule imageE)
    then have "x = y"
      using sorted_by_key_inj [OF active_sorted [OF assms(1)] that] by simp
    then show "?c x" using y by simp
  next
    assume "?c x"
    then show "entry_key x \<in> entry_key ` set (filter ?c ?xs)"
      using that by (intro imageI) simp
  qed
  have sub: "entry_key ` set (filter ?c ?xs) \<subseteq> entry_key ` set ?xs"
    by (rule image_mono) auto
  have rest: "filter (\<lambda>x. entry_key x \<notin> entry_key ` set (filter ?c ?xs)) ?xs =
      filter (\<lambda>e. part_contains p (fst e) \<longrightarrow> snd e = part_name) ?xs"
    by (rule filter_cong [OF refl], subst inj) auto
  have names: "\<forall>e\<in>set (filter ?c ?xs). \<exists>q. fromPartName (snd e) (format_version s) = Inr q
      \<and> toTuple q = entry_key e"
    using assms(2) by (auto simp: names_ok_def)
  have "remove_names s True (map snd (filter ?c ?xs)) =
      (Inr True, s\<lparr>part_info_to_name :=
         filter (\<lambda>e. part_contains p (fst e) \<longrightarrow> snd e = part_name) ?xs\<rparr>)"
    unfolding remove_names_eq [OF assms(1) distinct_keys [OF assms(1)] names] rest
    using sub by blast
  then show ?thesis
    unfolding removePartsCoveredBy_def assms(3) sum.case es .
qed

lemma toTuple_default_le:
  assumes "wf_part q" and "0 \<le> min_block q" and "0 \<le> mutation q" and "partition_id q = pid"
  shows "toTuple (setPartitionId default_part_info pid) \<le> toTuple q"
  using assms by (auto simp: toTuple_def setPartitionId_def default_part_info_def wf_part_def less_eq_prod_def)

lemma hasPartitionId_iff:
  assumes "active_inv s"
    and "\<forall>e\<in>set (part_info_to_name s). 0 \<le> min_block (fst e) \<and> 0 \<le> mutation (fst e)"
  shows "hasPartitionId s pid \<longleftrightarrow> (\<exists>e\<in>set (part_info_to_name s). partition_id (fst e) = pid)"
proof -
  let ?d = "setPartitionId default_part_info pid"
  have wfd: "wf_part ?d"
    by (simp add: wf_part_def setPartitionId_def default_part_info_def LEGACY_MAX_LEVEL_def)
  show ?thesis
  proof
    assume "hasPartitionId s pid"
    then obtain e es where "right_of ?d s = e # es" "partition_id (fst e) = pid"
      by (auto simp: hasPartitionId_def split: list.splits)
    then show "\<exists>e\<in>set (part_info_to_name s). partition_id (fst e) = pid"
      using entry_in_split(2) [of e ?d s] by auto
  next
    assume "\<exists>e\<in>set (part_info_to_name s). partition_id (fst e) = pid"
    then obtain e where e: "e \<in> set (part_info_to_name s)" "partition_id (fst e) = pid"
      by blast
    have wfe: "wf_part (fst e)"
      using parts.active_valid [OF assms(1) e(1)] .
    have "toTuple ?d \<le> toTuple (fst e)"
      using toTuple_default_le [OF wfe _ _ e(2)] assms(2) e(1) by blast
    then have er: "e \<in> set (right_of ?d s)"
      using e(1) by (simp add: set_from_lower_bound [OF active_sorted [OF assms(1)]])
    then obtain z es where z: "right_of ?d s = z # es"
      by (cases "right_of ?d s") auto
    have zs: "z \<in> set (part_info_to_name s)"
      using entry_in_split(2) [of z ?d s] z by simp
    have "sorted_by entry_key (z # es)"
      using sorted_by_from [OF active_sorted [OF assms(1)]] z by metis
    then have "toTuple (fst z) \<le> toTuple (fst e)"
      using er z by (auto simp: less_imp_le)
    moreover have "toTuple ?d \<le> toTuple (fst z)"
      using right_ge [OF assms(1), of z ?d] z by simp
    moreover have "partition_id ?d = pid"
      by (simp add: setPartitionId_def)
    ultimately have "partition_id (fst z) = pid"
      using toTuple_between [OF wfd parts.active_valid [OF assms(1) zs] wfe] e(2) by simp
    then show "hasPartitionId s pid"
      using z by (simp add: hasPartitionId_def)
  qed
qed

section \<open>Properties\<close>

text \<open>A concrete set for the witnesses: two adjacent parts of one partition.\<close>

definition sample_set :: active_set where
  "sample_set = \<lparr>format_version = 1, part_info_to_name =
     map (\<lambda>q. (q, getPartNameV1 q)) [make_part_info ''all'' 1 1 0 0, make_part_info ''all'' 2 2 0 0]\<rparr>"

lemma wf_make_part_info:
  "wf_part (make_part_info pid lo hi lv mut) \<longleftrightarrow> lo \<le> hi \<and> 0 \<le> lv \<and> lv \<le> LEGACY_MAX_LEVEL"
  by (simp add: wf_part_def make_part_info_def)

lemma sample_set_inv: "active_inv sample_set"
  by (simp add: sample_set_def parts.active_def wf_make_part_info LEGACY_MAX_LEVEL_def)
    (simp add: make_part_info_def toTuple_def less_prod_def part_isDisjoint_def)

lemma fromPartName_printed: "printable_part p \<Longrightarrow> fromPartName (getPartNameV1 p) 1 = Inr p"
  using tryParsePartName_getPartNameV1 [of p] by (simp add: fromPartName_def)

lemma sample_name:
  "n \<in> {1, 2} \<Longrightarrow> fromPartName (getPartNameV1 (make_part_info ''all'' n n 0 0)) 1
     = Inr (make_part_info ''all'' n n 0 0)"
  by (rule fromPartName_printed)
    (auto simp: printable_part_def wf_make_part_info LEGACY_MAX_LEVEL_def,
      simp_all add: make_part_info_def in_range_def int_lo_def int_hi_def)

lemma sample_set_names: "names_ok sample_set"
  using sample_name [of 1] sample_name [of 2] by (simp add: names_ok_def sample_set_def)

text \<open>On an active set (strictly sorted, pairwise disjoint, well-formed parts), the search that
  inspects only the two neighbours of the insertion point finds a part covering the given one
  exactly when the set has one, and finds that one.\<close>

lemma getContainingPart_complete:
  assumes "active_inv s" and "wf_part p"
  shows "getContainingPartImpl s p = Some e \<longleftrightarrow>
    e \<in> set (part_info_to_name s) \<and> part_contains (fst e) p"
  using assms by (rule getContainingPartImpl_iff)

text \<open>C4: Adding a part to an active set: the outcome is HasCovering exactly when some part of the set
  contains the new one, and then nothing changes; otherwise it is Added exactly when every part of the
  set is contained in the new one or disjoint from it, the set then holds the new part and the parts
  it does not contain, and the replaced names are those of the contained parts in order; otherwise it
  is HasIntersectingPart.  In every case the set stays active.\<close>

theorem addImpl_correct:
  assumes "active_inv s" and "wf_part p" and "addImpl s p name (Some out) = (outcome, s', out', reason)"
  shows "active_inv s'
    \<and> (outcome = HasCovering \<longleftrightarrow> (\<exists>e\<in>set (part_info_to_name s). part_contains (fst e) p))
    \<and> (outcome = HasCovering \<longrightarrow> s' = s)
    \<and> (outcome = HasIntersectingPart \<longleftrightarrow>
         \<not> (\<exists>e\<in>set (part_info_to_name s). part_contains (fst e) p)
         \<and> (\<exists>e\<in>set (part_info_to_name s). \<not> part_contains p (fst e) \<and> \<not> part_isDisjoint p (fst e)))
    \<and> (outcome = Added \<longrightarrow>
         set (part_info_to_name s')
           = insert (p, name) {e \<in> set (part_info_to_name s). \<not> part_contains p (fst e)}
         \<and> out' = Some (map snd (filter (\<lambda>e. part_contains p (fst e)) (part_info_to_name s))))"
  using assms(1,2)
proof (cases rule: addImpl_cases [of s p name "Some out"])
  case (covered e)
  then show ?thesis using assms(1,3) by auto
next
  case (intersecting t out'' reason')
  then have "\<exists>e\<in>set (part_info_to_name s). \<not> part_contains p (fst e) \<and> \<not> part_isDisjoint p (fst e)"
    unfolding fits_def by blast
  then show ?thesis using intersecting(1,3,4) assms(3) by simp
next
  case (added t out'')
  have "\<not> (\<exists>e\<in>set (part_info_to_name s). \<not> part_contains p (fst e) \<and> \<not> part_isDisjoint p (fst e))"
    using added(2) unfolding fits_def by blast
  then show ?thesis using added assms(3) by (simp add: uncontained_def)
qed

theorem addImpl_correct_witness:
  "\<exists>s' out'. addImpl sample_set (make_part_info ''all'' 1 2 1 0) ''all_1_2_1'' (Some [])
       = (Added, s', out', None) \<and> active_inv s' \<and> out' = Some [getPartNameV1 (make_part_info ''all'' 1 1 0 0), getPartNameV1 (make_part_info ''all'' 2 2 0 0)]"
proof -
  obtain outcome s' out' reason where add:
    "addImpl sample_set (make_part_info ''all'' 1 2 1 0) ''all_1_2_1'' (Some []) = (outcome, s', out', reason)"
    by (metis prod_cases4)
  have "wf_part (make_part_info ''all'' 1 2 1 0)"
    by (simp add: wf_make_part_info LEGACY_MAX_LEVEL_def)
  note claim = addImpl_correct [OF sample_set_inv this add]
  have "outcome \<noteq> HasCovering" and "outcome \<noteq> HasIntersectingPart"
    using claim by (simp_all add: sample_set_def make_part_info_def part_rel_defs MAX_LEVEL_def
        LEGACY_MAX_LEVEL_def)
  then have "outcome = Added"
    by (cases outcome) simp_all
  moreover have "reason = None"
    using add \<open>outcome = Added\<close> by (auto simp: addImpl_def Let_def split: if_splits prod.splits option.splits)
  ultimately show ?thesis
    using claim add by (simp add: sample_set_def make_part_info_def part_rel_defs)
qed

text \<open>C12: A set built from a list of names, whenever the construction does not throw, is active, holds only
  parts from the list, and for every name of the list exactly one part of the set covers it: the set
  is the set of the maximal parts, whatever the order of the names.\<close>

theorem active_set_of_names_maximal:
  assumes "active_set_of_names fv names = Inr s"
  shows "active_inv s
    \<and> (\<forall>e\<in>set (part_info_to_name s). snd e \<in> set names \<and> fromPartName (snd e) fv = Inr (fst e))
    \<and> (\<forall>name\<in>set names. \<exists>p. fromPartName name fv = Inr p
         \<and> (\<exists>!e. e \<in> set (part_info_to_name s) \<and> part_contains (fst e) p))"
proof -
  have fv0: "format_version (new_active_set fv) = fv" "part_info_to_name (new_active_set fv) = []"
    by (simp_all add: new_active_set_def)
  have all: "add_all (new_active_set fv) names = Inr s"
    using assms by (simp add: active_set_of_names_def)
  note spec = add_all_spec [OF all new_active_set_inv]
  have inv: "active_inv s"
    using spec by blast
  have "\<exists>!e. e \<in> set (part_info_to_name s) \<and> part_contains (fst e) p"
    if e: "e \<in> set (part_info_to_name s)" "part_contains (fst e) p" and p: "wf_part p" for e p
    using e getContainingPartImpl_iff [OF inv p] by (metis option.inject)
  then show ?thesis
    using spec fromPartName_wf unfolding names_exact_def fv0 by fastforce
qed

theorem active_set_of_names_maximal_witness:
  "\<exists>s. active_set_of_names 1 [getPartNameV1 (make_part_info ''all'' 1 1 0 0)] = Inr s \<and> active_inv s"
proof -
  let ?n = "getPartNameV1 (make_part_info ''all'' 1 1 0 0)"
  have name: "fromPartName ?n 1 = Inr (make_part_info ''all'' 1 1 0 0)"
    by (rule sample_name) simp
  have "\<exists>s. active_set_of_names 1 [?n] = Inr s"
    unfolding active_set_of_names_def
    by (rule add_all_laminar [where N = "{?n}" and fv = 1])
      (use name in \<open>auto simp: part_contains_refl new_active_set_inv, simp_all add: new_active_set_def\<close>)
  then show ?thesis
    using active_set_of_names_maximal by blast
qed

text \<open>Building a set from names that all parse succeeds whenever any two of the parts are disjoint or
  one contains the other.\<close>

lemma active_set_of_names_laminar:
  assumes "\<forall>name\<in>set names. \<exists>p. fromPartName name fv = Inr p"
    and "\<forall>n\<in>set names. \<forall>m\<in>set names. \<forall>p q. fromPartName n fv = Inr p \<and> fromPartName m fv = Inr q \<longrightarrow>
           part_contains p q \<or> part_contains q p \<or> part_isDisjoint p q"
  shows "\<exists>s. active_set_of_names fv names = Inr s"
  unfolding active_set_of_names_def
  by (rule add_all_laminar [OF assms]) (simp_all add: new_active_set_inv, simp_all add: new_active_set_def)

text \<open>C26: On an active set and for a well-formed part, \<^verbatim>\<open>checkIntersectingParts\<close> fails its assertion exactly
  when the set holds the part itself; otherwise it returns when every part of the set is contained in
  the given one or disjoint from it, and throws when some part is neither, be it that the two overlap
  or that the part of the set properly covers the given one.  When every part is contained or disjoint,
  the covered parts are all the contained ones, in order; when a part of the set properly covers the
  given one, there are none.\<close>

theorem covered_parts_correct:
  assumes "active_inv s" and "wf_part p"
  shows "checkIntersectingParts s p =
      (if \<exists>e\<in>set (part_info_to_name s). toTuple (fst e) = toTuple p then Inl ASSERTION_FAILED
       else if \<forall>e\<in>set (part_info_to_name s). part_contains p (fst e) \<or> part_isDisjoint p (fst e) then Inr ()
       else Inl LOGICAL_ERROR)
    \<and> ((\<forall>e\<in>set (part_info_to_name s). part_contains p (fst e) \<or> part_isDisjoint p (fst e)) \<longrightarrow>
       getPartsCoveredBy s p
         = map snd (filter (\<lambda>e. part_contains p (fst e)) (part_info_to_name s)))
    \<and> ((\<exists>e\<in>set (part_info_to_name s). part_contains (fst e) p \<and> \<not> part_contains p (fst e)) \<longrightarrow>
       getPartsCoveredBy s p = [])"
  using checkIntersectingParts_iff [OF assms] getPartsCoveredByImpl_fits [OF assms]
    getPartsCoveredByImpl_covered [OF assms]
  by (auto simp: getPartsCoveredBy_def fits_def)

theorem covered_parts_correct_witness:
  "checkIntersectingParts sample_set (make_part_info ''all'' 1 2 1 0) = Inr ()
   \<and> getPartsCoveredBy sample_set (make_part_info ''all'' 1 2 1 0) = [getPartNameV1 (make_part_info ''all'' 1 1 0 0), getPartNameV1 (make_part_info ''all'' 2 2 0 0)]"
proof -
  let ?p = "make_part_info ''all'' 1 2 1 0"
  have "\<forall>e\<in>set (part_info_to_name sample_set). part_contains ?p (fst e) \<and> toTuple (fst e) \<noteq> toTuple ?p"
    and "wf_part ?p"
    by (simp_all add: sample_set_def make_part_info_def part_rel_defs toTuple_def wf_part_def LEGACY_MAX_LEVEL_def)
  then show ?thesis
    using covered_parts_correct [OF sample_set_inv, of ?p] by (simp add: sample_set_def)
qed

text \<open>C37: Removing a part with everything it covers, on an active set whose names parse to their parts and
  that has no part intersecting the given one, removes exactly the contained parts, but the result is
  false even when parts were removed: the covered parts include the part itself, which is then
  erased twice.\<close>

theorem removePartAndCoveredParts_correct:
  assumes "active_inv s" and "names_ok s" and "wf_part p"
    and "\<forall>e\<in>set (part_info_to_name s). part_contains p (fst e) \<or> part_isDisjoint p (fst e)"
  shows "removePartAndCoveredParts s p =
    (Inr False, s\<lparr>part_info_to_name := filter (\<lambda>e. \<not> part_contains p (fst e)) (part_info_to_name s)\<rparr>)"
  using removePartAndCoveredParts_eq [OF assms(1-3)] assms(4) by (simp add: fits_def uncontained_def)

theorem removePartAndCoveredParts_correct_witness:
  "removePartAndCoveredParts sample_set (make_part_info ''all'' 1 2 1 0)
     = (Inr False, sample_set\<lparr>part_info_to_name := []\<rparr>)"
  using removePartAndCoveredParts_correct [OF sample_set_inv sample_set_names,
      of "make_part_info ''all'' 1 2 1 0"]
  by (simp add: wf_make_part_info LEGACY_MAX_LEVEL_def)
    (simp add: sample_set_def make_part_info_def part_rel_defs)

text \<open>When all block numbers and mutation versions are non-negative, a partition is reported present
  exactly when a part of the set belongs to it.\<close>

lemma hasPartitionId_correct:
  assumes "active_inv s"
    and "\<forall>e\<in>set (part_info_to_name s). 0 \<le> min_block (fst e) \<and> 0 \<le> mutation (fst e)"
  shows "hasPartitionId s pid \<longleftrightarrow> (\<exists>e\<in>set (part_info_to_name s). partition_id (fst e) = pid)"
  using assms by (rule hasPartitionId_iff)

end
