(* ===== verification/MergeTree_DropRanges.thy ===== *)
theory MergeTree_DropRanges
  imports MergeTree_ActiveParts
begin

text \<open>
  Entries of the replication log, as far as they name parts
  (\<^verbatim>\<open>src/src/Storages/MergeTree/ReplicatedMergeTreeLogEntry.cpp\<close>), and the table of pending
  \<^verbatim>\<open>DROP_PART\<close> entries that postpones others (\<^verbatim>\<open>DropPartsRanges.cpp\<close>).
\<close>

section \<open>Log entries\<close>

datatype entry_type =
    EMPTY | GET_PART | ATTACH_PART | MERGE_PARTS | DROP_RANGE | CLEAR_COLUMN | CLEAR_INDEX
  | REPLACE_RANGE | MUTATE_PART | ALTER_METADATA | SYNC_PINNED_PART_UUIDS | CLONE_PART_FROM_SHARD
  | DROP_PART

fun typeToString :: "entry_type \<Rightarrow> string result" where
  "typeToString GET_PART = Inr ''GET_PART''"
| "typeToString ATTACH_PART = Inr ''ATTACH_PART''"
| "typeToString MERGE_PARTS = Inr ''MERGE_PARTS''"
| "typeToString DROP_RANGE = Inr ''DROP_RANGE''"
| "typeToString CLEAR_COLUMN = Inr ''CLEAR_COLUMN''"
| "typeToString CLEAR_INDEX = Inr ''CLEAR_INDEX''"
| "typeToString REPLACE_RANGE = Inr ''REPLACE_RANGE''"
| "typeToString MUTATE_PART = Inr ''MUTATE_PART''"
| "typeToString ALTER_METADATA = Inr ''ALTER_METADATA''"
| "typeToString SYNC_PINNED_PART_UUIDS = Inr ''SYNC_PINNED_PART_UUIDS''"
| "typeToString CLONE_PART_FROM_SHARD = Inr ''CLONE_PART_FROM_SHARD''"
| "typeToString DROP_PART = Inr ''DROP_PART''"
| "typeToString EMPTY = Inl LOGICAL_ERROR"

text \<open>The fields that name parts; the last two belong to \<^verbatim>\<open>replace_range_entry\<close>.\<close>

record log_entry =
  znode_name :: string
  entry_type :: entry_type
  new_part_name :: string
  drop_range_part_name :: string
  new_part_names :: "string list"

definition isMovePartitionOrAttachFrom :: "part_info \<Rightarrow> bool" where
  "isMovePartitionOrAttachFrom drop_range_info \<longleftrightarrow> getBlocksCount drop_range_info = 1"

definition getDropRange :: "log_entry \<Rightarrow> nat \<Rightarrow> string option result" where
  "getDropRange e fv =
     (if entry_type e = DROP_RANGE then Inr (Some (new_part_name e))
      else if entry_type e = DROP_PART then Inr (Some (new_part_name e))
      else if entry_type e = REPLACE_RANGE then
        res_map (\<lambda>info. if \<not> isMovePartitionOrAttachFrom info then Some (drop_range_part_name e) else None)
          (fromPartName (drop_range_part_name e) fv)
      else Inr None)"

definition isDropPart :: "log_entry \<Rightarrow> bool" where
  "isDropPart e \<longleftrightarrow> entry_type e = DROP_PART"

definition getVirtualPartNames :: "log_entry \<Rightarrow> nat \<Rightarrow> string list result" where
  "getVirtualPartNames e fv =
     (if entry_type e = ALTER_METADATA then Inr []
      else if entry_type e = DROP_RANGE then Inr [new_part_name e]
      else if entry_type e = REPLACE_RANGE then
        res_bind (fromPartName (drop_range_part_name e) fv) (\<lambda>_.
          res_map (\<lambda>r. new_part_names e @ (case r of Some d \<Rightarrow> [d] | None \<Rightarrow> [])) (getDropRange e fv))
      else if entry_type e \<in> {DROP_PART, SYNC_PINNED_PART_UUIDS, CLONE_PART_FROM_SHARD} then Inr []
      else Inr [new_part_name e])"

section \<open>Pending drops\<close>

text \<open>
  The hash table from node names to parts, as the list of its entries in iteration order; the keys
  are distinct, and new keys may come anywhere, here in front.
\<close>

record drop_parts_ranges =
  dr_format_version :: nat
  drop_ranges :: "(string \<times> part_info) list"

definition isAffectedByDropPart :: "drop_parts_ranges \<Rightarrow> string \<Rightarrow> bool result" where
  "isAffectedByDropPart d new_part =
     (if new_part = [] then Inr False
      else res_map (\<lambda>entry_info. \<exists>r\<in>set (drop_ranges d). \<not> part_isDisjoint (snd r) entry_info)
        (fromPartName new_part (dr_format_version d)))"

definition isAffectedByDropPart_entry :: "drop_parts_ranges \<Rightarrow> log_entry \<Rightarrow> bool result" where
  "isAffectedByDropPart_entry d e = isAffectedByDropPart d (new_part_name e)"

definition addDropPart :: "drop_parts_ranges \<Rightarrow> log_entry \<Rightarrow> drop_parts_ranges result" where
  "addDropPart d e =
     (if entry_type e \<noteq> DROP_PART then Inl LOGICAL_ERROR
      else
        res_bind (getDropRange e (dr_format_version d)) (\<lambda>r.
          case r of
            None \<Rightarrow> Inl LOGICAL_ERROR
          | Some name \<Rightarrow>
              res_map (\<lambda>entry_info.
                  if znode_name e \<in> fst ` set (drop_ranges d) then d
                  else d\<lparr>drop_ranges := (znode_name e, entry_info) # drop_ranges d\<rparr>)
                (fromPartName name (dr_format_version d))))"

text \<open>Removing an entry that is not there is excluded by an assertion of the source.\<close>

definition removeDropPart :: "drop_parts_ranges \<Rightarrow> log_entry \<Rightarrow> drop_parts_ranges result" where
  "removeDropPart d e =
     (if entry_type e \<noteq> DROP_PART then Inl LOGICAL_ERROR
      else Inr (d\<lparr>drop_ranges := filter (\<lambda>r. fst r \<noteq> znode_name e) (drop_ranges d)\<rparr>))"

definition hasDropPart :: "drop_parts_ranges \<Rightarrow> part_info \<Rightarrow> part_info option" where
  "hasDropPart d new_drop_range_info =
     map_option snd (find (\<lambda>r. part_contains (snd r) new_drop_range_info) (drop_ranges d))"

section \<open>What a pending drop does\<close>

text \<open>
  The entries whose execution must wait: those whose new part touches a part that a pending entry
  drops.
\<close>

lemma addDropPart_eq:
  assumes "entry_type e = DROP_PART" and "fromPartName (new_part_name e) (dr_format_version d) = Inr p"
    and "znode_name e \<notin> fst ` set (drop_ranges d)"
  shows "addDropPart d e = Inr (d\<lparr>drop_ranges := (znode_name e, p) # drop_ranges d\<rparr>)"
  using assms by (simp add: addDropPart_def getDropRange_def res_bind_def res_map_def)

lemma addDropPart_distinct:
  assumes "addDropPart d e = Inr d'" and "distinct (map fst (drop_ranges d))"
  shows "distinct (map fst (drop_ranges d')) \<and> dr_format_version d' = dr_format_version d"
  using assms
  by (auto simp: addDropPart_def res_bind_def res_map_def split: if_splits sum.splits option.splits)

lemma filter_fresh: "k \<notin> fst ` set xs \<Longrightarrow> filter (\<lambda>r. fst r \<noteq> k) xs = xs"
  by (induction xs) auto

section \<open>Properties\<close>

text \<open>While the drop of a part is pending, an entry producing a part is postponed exactly when its part
  touches the dropped part or it was postponed before; a range the dropped part contains is known to
  be dropped; and removing the pending entry restores the table.\<close>

lemma pending_drop_postpones:
  assumes "entry_type e = DROP_PART" and "fromPartName (new_part_name e) (dr_format_version d) = Inr p"
    and "znode_name e \<notin> fst ` set (drop_ranges d)" and "addDropPart d e = Inr d'"
  shows "(n \<noteq> [] \<and> fromPartName n (dr_format_version d) = Inr q \<longrightarrow>
       (isAffectedByDropPart d' n = Inr True \<longleftrightarrow>
          \<not> part_isDisjoint p q \<or> isAffectedByDropPart d n = Inr True))
    \<and> (part_contains p q \<longrightarrow> hasDropPart d' q = Some p)
    \<and> removeDropPart d' e = Inr d"
proof -
  have d': "d' = d\<lparr>drop_ranges := (znode_name e, p) # drop_ranges d\<rparr>"
    using addDropPart_eq [OF assms(1-3)] assms(4) by simp
  show ?thesis
    using assms(1) filter_fresh [OF assms(3)]
    by (auto simp: d' isAffectedByDropPart_def res_map_def hasDropPart_def removeDropPart_def)
qed

end
