(* ===== verification/MergeTree_MarkRanges.thy ===== *)
theory MergeTree_MarkRanges
  imports IO_Binary IO_Itoa
begin

text \<open>
  Ranges of marks inside a part, \<^verbatim>\<open>src/src/Storages/MergeTree/MarkRange.cpp\<close> and \<^verbatim>\<open>.h\<close>.  Marks are
  \<^verbatim>\<open>size_t\<close> numbers.
\<close>

section \<open>Definitions\<close>

record mark_range =
  begin_mark :: int
  end_mark :: int

abbreviation mk_range :: "int \<Rightarrow> int \<Rightarrow> mark_range" where
  "mk_range b e \<equiv> \<lparr>begin_mark = b, end_mark = e\<rparr>"

definition range_getNumberOfMarks :: "mark_range \<Rightarrow> int" where
  "range_getNumberOfMarks r = cast UInt64 (end_mark r - begin_mark r)"

text \<open>\<^verbatim>\<open>operator<\<close> throws on different ranges that intersect.\<close>

definition is_intersection :: "mark_range \<Rightarrow> mark_range \<Rightarrow> bool" where
  "is_intersection a b \<longleftrightarrow>
     (begin_mark a \<le> begin_mark b \<and> begin_mark b < end_mark a)
     \<or> (begin_mark b \<le> begin_mark a \<and> begin_mark a < end_mark b)"

definition mark_range_less :: "mark_range \<Rightarrow> mark_range \<Rightarrow> bool result" where
  "mark_range_less a b =
     (if a \<noteq> b \<and> is_intersection a b then Inl LOGICAL_ERROR
      else Inr (begin_mark a < begin_mark b \<and> end_mark a \<le> begin_mark b))"

fun last_mark_loop :: "int \<Rightarrow> mark_range list \<Rightarrow> int" where
  "last_mark_loop m [] = m"
| "last_mark_loop m (r # rs) = last_mark_loop (max m (end_mark r)) rs"

definition getLastMark :: "mark_range list \<Rightarrow> int" where
  "getLastMark ranges = last_mark_loop 0 ranges"

fun ranges_text_loop :: "string \<Rightarrow> mark_range list \<Rightarrow> string" where
  "ranges_text_loop acc [] = acc"
| "ranges_text_loop acc (r # rs) =
     ranges_text_loop
       ((if acc \<noteq> [] then acc @ '', '' else acc)
        @ ''('' @ itoa UInt64 (begin_mark r) @ '', '' @ itoa UInt64 (end_mark r) @ '')'') rs"

definition ranges_toString :: "mark_range list \<Rightarrow> string" where
  "ranges_toString ranges = ranges_text_loop [] ranges"

text \<open>
  \<open>sort\<close> is \<^verbatim>\<open>std::sort\<close> with \<^verbatim>\<open>operator<\<close>, which may throw out of the sort.
\<close>

definition assertSortedAndNonIntersecting ::
  "(mark_range list \<Rightarrow> mark_range list result) \<Rightarrow> mark_range list \<Rightarrow> unit result" where
  "assertSortedAndNonIntersecting sort_ranges ranges =
     res_bind (sort_ranges ranges)
       (\<lambda>ranges_copy. if ranges_copy \<noteq> ranges then Inl LOGICAL_ERROR else Inr ())"

fun number_of_marks_loop :: "int \<Rightarrow> mark_range list \<Rightarrow> int" where
  "number_of_marks_loop acc [] = acc"
| "number_of_marks_loop acc (r # rs) =
     number_of_marks_loop (cast UInt64 (acc + range_getNumberOfMarks r)) rs"

definition ranges_getNumberOfMarks :: "mark_range list \<Rightarrow> int" where
  "ranges_getNumberOfMarks ranges = number_of_marks_loop 0 ranges"

definition isOneRangeForWholePart :: "mark_range list \<Rightarrow> int \<Rightarrow> bool" where
  "isOneRangeForWholePart ranges num_marks_in_part \<longleftrightarrow>
     (case ranges of [r] \<Rightarrow> begin_mark r = 0 \<and> end_mark r = num_marks_in_part | _ \<Rightarrow> False)"

definition range_serialize :: "mark_range \<Rightarrow> byte list" where
  "range_serialize r = writeIntBinary UInt64 (begin_mark r) @ writeIntBinary UInt64 (end_mark r)"

definition ranges_serialize :: "mark_range list \<Rightarrow> byte list" where
  "ranges_serialize ranges =
     writeIntBinary UInt64 (int (length ranges)) @ concat (map range_serialize ranges)"

fun ranges_read_loop :: "nat \<Rightarrow> byte list \<Rightarrow> (mark_range list \<times> byte list) result" where
  "ranges_read_loop 0 buf = Inr ([], buf)"
| "ranges_read_loop (Suc n) buf =
     res_bind (readIntBinary UInt64 buf) (\<lambda>(b, buf1).
     res_bind (readIntBinary UInt64 buf1) (\<lambda>(e, buf2).
     res_bind (ranges_read_loop n buf2) (\<lambda>(rs, buf3). Inr (mk_range b e # rs, buf3))))"

definition ranges_deserialize :: "byte list \<Rightarrow> (mark_range list \<times> byte list) result" where
  "ranges_deserialize buf =
     res_bind (readIntBinary UInt64 buf) (\<lambda>(size, buf1). ranges_read_loop (nat size) buf1)"

record mark_ranges_info =
  mri_table_uuid :: "128 word"
  mri_part_name :: string
  mri_marks_count :: int
  mri_has_final_mark :: bool
  mri_mark_ranges :: "mark_range list"

definition appendMarkRanges :: "mark_ranges_info \<Rightarrow> mark_range list \<Rightarrow> mark_ranges_info" where
  "appendMarkRanges i ranges = i\<lparr>mri_mark_ranges := mri_mark_ranges i @ ranges\<rparr>"

section \<open>Lemmas\<close>

definition wf_range :: "mark_range \<Rightarrow> bool" where
  "wf_range r \<longleftrightarrow> 0 \<le> begin_mark r \<and> begin_mark r \<le> end_mark r \<and> end_mark r < 2 ^ 64"

lemma wf_range_in_range:
  "wf_range r \<Longrightarrow> in_range UInt64 (begin_mark r) \<and> in_range UInt64 (end_mark r)"
  by (simp add: wf_range_def in_range_def int_lo_def int_hi_def)

lemma machine_type_UInt64: "machine_type UInt64"
  by (simp add: machine_type_def)

lemma ranges_read_loop_serialized:
  "\<forall>r\<in>set rs. wf_range r \<Longrightarrow>
     ranges_read_loop (length rs) (concat (map range_serialize rs) @ rest) = Inr (rs, rest)"
  by (induction rs)
    (simp_all add: range_serialize_def readIntBinary_writeIntBinary machine_type_UInt64
      wf_range_in_range res_bind_def)

lemma number_of_marks_loop_sum:
  assumes "\<forall>r\<in>set rs. wf_range r" and "0 \<le> acc"
    and "acc + (\<Sum>r\<leftarrow>rs. end_mark r - begin_mark r) < 2 ^ 64"
  shows "number_of_marks_loop acc rs = acc + (\<Sum>r\<leftarrow>rs. end_mark r - begin_mark r)"
  using assms
proof (induction rs arbitrary: acc)
  case (Cons r rs)
  have nonneg: "0 \<le> (\<Sum>r\<leftarrow>rs. end_mark r - begin_mark r)"
    by (rule sum_list_nonneg) (use Cons.prems(1) in \<open>auto simp: wf_range_def\<close>)
  have "range_getNumberOfMarks r = end_mark r - begin_mark r"
    using Cons.prems(1) by (simp add: range_getNumberOfMarks_def cast_def wf_range_def)
  moreover have "cast UInt64 (acc + (end_mark r - begin_mark r)) = acc + (end_mark r - begin_mark r)"
    using Cons.prems nonneg by (simp add: cast_def wf_range_def)
  moreover have "number_of_marks_loop (acc + (end_mark r - begin_mark r)) rs
      = acc + (end_mark r - begin_mark r) + (\<Sum>r\<leftarrow>rs. end_mark r - begin_mark r)"
    using Cons.prems by (intro Cons.IH) (auto simp: wf_range_def)
  ultimately show ?case
    by simp
qed simp

lemma ordered_sum:
  assumes "sorted_wrt (\<lambda>a b. end_mark a \<le> begin_mark b) rs" and "\<forall>r\<in>set rs. lo \<le> begin_mark r \<and> wf_range r"
    and "\<forall>r\<in>set rs. end_mark r \<le> hi" and "lo \<le> hi"
  shows "(\<Sum>r\<leftarrow>rs. end_mark r - begin_mark r) \<le> hi - lo"
  using assms
proof (induction rs arbitrary: lo)
  case (Cons r rs)
  have "(\<Sum>r\<leftarrow>rs. end_mark r - begin_mark r) \<le> hi - end_mark r"
    using Cons.prems by (intro Cons.IH) auto
  then show ?case
    using Cons.prems(2) by auto
qed simp

lemma last_mark_loop_max:
  "last_mark_loop m rs = Max (insert m (end_mark ` set rs))"
proof (induction rs arbitrary: m)
  case (Cons r rs)
  have "Max (insert (max m (end_mark r)) (end_mark ` set rs)) = Max (insert m (insert (end_mark r) (end_mark ` set rs)))"
    by (simp add: Max_insert2 max.assoc) (cases "set rs = {}"; simp add: max.assoc)
  then show ?case
    using Cons by simp
qed simp

section \<open>Properties\<close>

text \<open>C38: Mark ranges: deserializing the serialized list gives it back and leaves the bytes after it; for
  ranges in increasing order without overlap, the number of marks is the sum of the lengths, computed
  without wrap-around.\<close>

theorem mark_ranges_roundtrip:
  assumes "\<forall>r\<in>set rs. wf_range r" and "length rs < 2 ^ 64"
    and "sorted_wrt (\<lambda>a b. end_mark a \<le> begin_mark b) rs"
  shows "ranges_deserialize (ranges_serialize rs @ rest) = Inr (rs, rest)
    \<and> ranges_getNumberOfMarks rs = (\<Sum>r\<leftarrow>rs. end_mark r - begin_mark r)
    \<and> ranges_getNumberOfMarks rs \<le> getLastMark rs"
proof (intro conjI)
  have len: "in_range UInt64 (int (length rs))"
    using assms(2) by (simp add: in_range_def int_lo_def int_hi_def)
  show "ranges_deserialize (ranges_serialize rs @ rest) = Inr (rs, rest)"
    using ranges_read_loop_serialized [OF assms(1)]
    by (simp add: ranges_deserialize_def ranges_serialize_def readIntBinary_writeIntBinary
        machine_type_UInt64 len res_bind_def)
  have hi: "\<forall>r\<in>set rs. end_mark r \<le> getLastMark rs" "0 \<le> getLastMark rs"
    by (simp_all add: getLastMark_def last_mark_loop_max)
  have "getLastMark rs < 2 ^ 64"
    using assms(1) by (simp add: getLastMark_def last_mark_loop_max wf_range_def)
  moreover have le: "(\<Sum>r\<leftarrow>rs. end_mark r - begin_mark r) \<le> getLastMark rs - 0"
    by (rule ordered_sum) (use assms(1,3) hi in \<open>auto simp: wf_range_def\<close>)
  ultimately show sum: "ranges_getNumberOfMarks rs = (\<Sum>r\<leftarrow>rs. end_mark r - begin_mark r)"
    using number_of_marks_loop_sum [OF assms(1), of 0] by (simp add: ranges_getNumberOfMarks_def)
  show "ranges_getNumberOfMarks rs \<le> getLastMark rs"
    using sum le by simp
qed

theorem mark_ranges_roundtrip_witness:
  "ranges_deserialize (ranges_serialize [mk_range 0 3, mk_range 5 9] @ []) = Inr ([mk_range 0 3, mk_range 5 9], [])
   \<and> ranges_getNumberOfMarks [mk_range 0 3, mk_range 5 9] = 7"
  using mark_ranges_roundtrip [of "[mk_range 0 3, mk_range 5 9]" "[]"]
  by (simp add: wf_range_def)

end
