(* ===== verification/Compression_Codec.thy ===== *)
theory Compression_Codec
  imports IO_Binary
begin

text \<open>
  The block format of compression codecs, \<^verbatim>\<open>src/src/Compression/ICompressionCodec.cpp\<close>, and the codec
  that stores its input, \<^verbatim>\<open>CompressionCodecNone.cpp\<close>.  A codec is the record of its virtual
  functions.  The locale \<open>lossless_codec\<close> is the contract of a codec; what follows from it for
  blocks is proved once.
\<close>

section \<open>Codecs and blocks\<close>

record codec =
  getMethodByte :: byte
  doCompressData :: "byte list \<Rightarrow> byte list result"
  doDecompressData :: "byte list \<Rightarrow> nat \<Rightarrow> byte list result"
  getMaxCompressedDataSize :: "nat \<Rightarrow> nat"
  getAdditionalSizeAtTheEndOfBuffer :: nat
  decompression_error_code :: error_code

definition COMPRESSED_BLOCK_HEADER_SIZE :: nat where
  "COMPRESSED_BLOCK_HEADER_SIZE = 9"

definition getCompressedReserveSize :: "codec \<Rightarrow> nat \<Rightarrow> nat" where
  "getCompressedReserveSize c uncompressed_size =
     (COMPRESSED_BLOCK_HEADER_SIZE + getMaxCompressedDataSize c uncompressed_size) mod 2 ^ 32"

definition setExternalDataFlag :: "codec \<Rightarrow> codec" where
  "setExternalDataFlag c = c\<lparr>decompression_error_code := CANNOT_DECOMPRESS\<rparr>"

definition block_of :: "byte \<Rightarrow> nat \<Rightarrow> byte list \<Rightarrow> byte list" where
  "block_of method raw_size data =
     method # le_bytes 4 (int (length data + COMPRESSED_BLOCK_HEADER_SIZE)) @
     le_bytes 4 (int raw_size) @ data"

definition codec_compress :: "codec \<Rightarrow> byte list \<Rightarrow> byte list result" where
  "codec_compress c source =
     res_map (block_of (getMethodByte c) (length source)) (doCompressData c source)"

text \<open>The two size fields; zero is refused with the error code of the codec that reads them.\<close>

definition readCompressedBlockSize :: "error_code \<Rightarrow> byte list \<Rightarrow> nat result" where
  "readCompressedBlockSize err source =
     (let n = nat (le_value (take 4 (drop 1 source))) in
      if n = 0 then Inl err else Inr n)"

definition readDecompressedBlockSize :: "error_code \<Rightarrow> byte list \<Rightarrow> nat result" where
  "readDecompressedBlockSize err source =
     (let n = nat (le_value (take 4 (drop 5 source))) in
      if n = 0 then Inl err else Inr n)"

definition readMethod :: "byte list \<Rightarrow> byte" where
  "readMethod source = hd source"

definition codec_decompress :: "codec \<Rightarrow> byte list \<Rightarrow> byte list result" where
  "codec_decompress c source =
     (if length source < COMPRESSED_BLOCK_HEADER_SIZE then Inl (decompression_error_code c)
      else if readMethod source \<noteq> getMethodByte c then Inl (decompression_error_code c)
      else
        res_bind (readDecompressedBlockSize (decompression_error_code c) source) (\<lambda>decompressed_size.
        res_bind (doDecompressData c (drop COMPRESSED_BLOCK_HEADER_SIZE source) decompressed_size)
          (\<lambda>dest. if length dest \<noteq> decompressed_size then Inl (decompression_error_code c)
                   else Inr dest)))"

section \<open>Words in byte sequences\<close>

text \<open>
  The loops of the codecs walk over their input in steps of \<^verbatim>\<open>sizeof(T)\<close>, loading and storing
  unaligned little-endian words.
\<close>

function load_words :: "nat \<Rightarrow> byte list \<Rightarrow> int list" where
  "load_words k bs =
     (if k = 0 \<or> bs = [] then [] else le_value (take k bs) # load_words k (drop k bs))"
  by pat_completeness auto
termination
  by (relation "measure (length \<circ> snd)") auto

declare load_words.simps [simp del]

definition store_words :: "nat \<Rightarrow> int list \<Rightarrow> byte list" where
  "store_words k ws = concat (map (le_bytes k) ws)"

lemma store_words_simps [simp]:
  "store_words k [] = []"
  "store_words k (w # ws) = le_bytes k w @ store_words k ws"
  by (simp_all add: store_words_def)

lemma length_store_words [simp]: "length (store_words k ws) = k * length ws"
  by (induction ws) simp_all

lemma load_words_Nil [simp]: "load_words k [] = []"
  by (simp add: load_words.simps)

lemma load_store_words:
  assumes "0 < k"
  shows "load_words k (store_words k ws) = map (\<lambda>w. w mod 256 ^ k) ws"
proof (induction ws)
  case (Cons w ws)
  have "le_bytes k w \<noteq> []"
    using assms by (metis length_le_bytes less_numeral_extra(3) list.size(3))
  then show ?case
    using Cons assms by (simp add: load_words.simps [of k "le_bytes k w @ _"] le_value_le_bytes)
qed simp

lemma le_bytes_le_value: "le_bytes (length bs) (le_value bs) = bs"
proof (induction bs)
  case (Cons b bs)
  have "(uint b + 256 * le_value bs) div 256 = le_value bs"
    using uint_lt2p [of b] by simp
  moreover have "(word_of_int (uint b + 256 * le_value bs) :: byte) = word_of_int (uint b)"
    unfolding word_of_int_eq_iff by (simp add: take_bit_eq_mod)
  ultimately show ?case
    using Cons by simp
qed simp

lemma aligned_ge: "n mod k = 0 \<Longrightarrow> n \<noteq> 0 \<Longrightarrow> k \<le> n" for n k :: nat
  using mod_less [of n k] by (cases "k \<le> n") auto

lemma store_load_words:
  assumes "0 < k" and "length bs mod k = 0"
  shows "store_words k (load_words k bs) = bs"
  using assms
proof (induction k bs rule: load_words.induct)
  case (1 k bs)
  show ?case
  proof (cases "bs = []")
    case False
    then have len: "k \<le> length bs"
      using "1.prems" by (intro aligned_ge) simp_all
    have "length (drop k bs) mod k = 0"
      using "1.prems" len by (simp add: le_mod_geq)
    then have "store_words k (load_words k (drop k bs)) = drop k bs"
      using "1.IH" "1.prems"(1) False by simp
    moreover have "le_bytes k (le_value (take k bs)) = take k bs"
      using le_bytes_le_value [of "take k bs"] len by simp
    ultimately show ?thesis
      using False "1.prems"(1) by (simp add: load_words.simps [of k bs])
  qed simp
qed

lemma le_value_nonneg: "0 \<le> le_value bs"
  by (induction bs) simp_all

lemma le_value_less: "le_value bs < 256 ^ length bs"
proof (induction bs)
  case (Cons b bs)
  have "uint b < 256"
    using uint_lt2p [of b] by simp
  moreover have "le_value bs + 1 \<le> 256 ^ length bs"
    using Cons by simp
  ultimately have "uint b + 256 * le_value bs < 256 * 256 ^ length bs"
    by linarith
  then show ?case by simp
qed simp

lemma load_words_bounds:
  "w \<in> set (load_words k bs) \<Longrightarrow> length bs mod k = 0 \<Longrightarrow> 0 \<le> w \<and> w < 256 ^ k"
proof (induction k bs rule: load_words.induct)
  case (1 k bs)
  have k: "k \<noteq> 0" "bs \<noteq> []"
    using "1.prems"(1) by (auto simp: load_words.simps [of k bs] split: if_splits)
  then have len: "k \<le> length bs"
    using "1.prems"(2) by (intro aligned_ge) simp_all
  have "length (drop k bs) mod k = 0"
    using "1.prems"(2) len by (simp add: le_mod_geq)
  moreover have "w = le_value (take k bs) \<or> w \<in> set (load_words k (drop k bs))"
    using "1.prems"(1) k by (simp add: load_words.simps [of k bs])
  moreover have "0 \<le> le_value (take k bs) \<and> le_value (take k bs) < 256 ^ k"
    using le_value_nonneg [of "take k bs"] le_value_less [of "take k bs"] len by (simp add: min.absorb2)
  ultimately show ?case
    using "1.IH" k by auto
qed

lemma length_load_words:
  assumes "0 < k" and "length bs mod k = 0"
  shows "k * length (load_words k bs) = length bs"
  using store_load_words [OF assms] length_store_words by metis

text \<open>The parts of a block.\<close>

lemma drop_prefix: "length xs = n \<Longrightarrow> drop n (xs @ ys) = ys"
  by simp

lemma drop_block:
  "drop 5 (block_of m n data) = le_bytes 4 (int n) @ data"
  "drop COMPRESSED_BLOCK_HEADER_SIZE (block_of m n data) = data"
  using drop_prefix [of "m # le_bytes 4 (int (length data + COMPRESSED_BLOCK_HEADER_SIZE))" 5
      "le_bytes 4 (int n) @ data"]
    drop_prefix [of "m # le_bytes 4 (int (length data + COMPRESSED_BLOCK_HEADER_SIZE)) @ le_bytes 4 (int n)"
      COMPRESSED_BLOCK_HEADER_SIZE data]
  by (simp_all add: block_of_def COMPRESSED_BLOCK_HEADER_SIZE_def del: drop_append)

lemma length_block [simp]: "length (block_of m n data) = COMPRESSED_BLOCK_HEADER_SIZE + length data"
  by (simp add: block_of_def COMPRESSED_BLOCK_HEADER_SIZE_def)

lemma readMethod_block [simp]: "readMethod (block_of m n data) = m"
  by (simp add: readMethod_def block_of_def)

lemma readDecompressedBlockSize_block:
  assumes "0 < n" and "n < 2 ^ 32"
  shows "readDecompressedBlockSize err (block_of m n data) = Inr n"
proof -
  have "le_value (take 4 (le_bytes 4 (int n) @ data)) = int n mod 256 ^ 4"
    by (simp add: le_value_le_bytes)
  also have "\<dots> = int n"
    using assms(2) by simp
  finally show ?thesis
    using assms(1) by (simp add: readDecompressedBlockSize_def drop_block)
qed

lemma codec_block_roundtrip:
  assumes "doCompressData c src = Inr z" and "doDecompressData d z (length src) = Inr src"
    and "getMethodByte d = getMethodByte c" and "src \<noteq> []" and "length src < 2 ^ 32"
  shows "codec_compress c src = Inr (block_of (getMethodByte c) (length src) z)"
    and "codec_decompress d (block_of (getMethodByte c) (length src) z) = Inr src"
proof -
  show "codec_compress c src = Inr (block_of (getMethodByte c) (length src) z)"
    using assms(1) by (simp add: codec_compress_def)
  have "readDecompressedBlockSize e (block_of (getMethodByte c) (length src) z) = Inr (length src)" for e
    using assms(4,5) by (simp add: readDecompressedBlockSize_block)
  then show "codec_decompress d (block_of (getMethodByte c) (length src) z) = Inr src"
    using assms(2,3) by (simp add: codec_decompress_def drop_block)
qed

section \<open>The contract of a codec\<close>

text \<open>
  On usable input the codec compresses, within the size it announces, and gives the input back
  when told its length.
\<close>

locale lossless_codec =
  fixes compress_data :: "byte list \<Rightarrow> byte list result"
    and decompress_data :: "byte list \<Rightarrow> nat \<Rightarrow> byte list result"
    and max_size :: "nat \<Rightarrow> nat"
    and usable :: "byte list \<Rightarrow> bool"
  assumes lossless: "usable src \<Longrightarrow>
      \<exists>data. compress_data src = Inr data \<and> decompress_data data (length src) = Inr src
        \<and> length data \<le> max_size (length src)"
begin

lemma compresses:
  assumes "usable src"
  obtains data where "compress_data src = Inr data" "decompress_data data (length src) = Inr src"
    "length data \<le> max_size (length src)"
  using lossless [OF assms] by blast

text \<open>A block written by one codec is read by any codec with the same method and decoder.\<close>

lemma block_roundtrip:
  assumes "usable src" and "doCompressData c = compress_data" and "doDecompressData d = decompress_data"
    and "getMethodByte d = getMethodByte c" and "src \<noteq> []" and "length src < 2 ^ 32"
  obtains blk where "codec_compress c src = Inr blk" "codec_decompress d blk = Inr src"
    "length blk \<le> COMPRESSED_BLOCK_HEADER_SIZE + max_size (length src)"
    "\<And>e. readDecompressedBlockSize e blk = Inr (length src)"
proof -
  obtain data where data: "compress_data src = Inr data"
    "decompress_data data (length src) = Inr src" "length data \<le> max_size (length src)"
    using compresses [OF assms(1)] by blast
  let ?blk = "block_of (getMethodByte c) (length src) data"
  show ?thesis
  proof (rule that)
    show "codec_compress c src = Inr ?blk" and "codec_decompress d ?blk = Inr src"
      using codec_block_roundtrip [of c src data d] data assms by simp_all
    show "length ?blk \<le> COMPRESSED_BLOCK_HEADER_SIZE + max_size (length src)"
      using data(3) by simp
    show "readDecompressedBlockSize e ?blk = Inr (length src)" for e
      using assms(5,6) by (simp add: readDecompressedBlockSize_block)
  qed
qed

end

section \<open>The codec that stores its input\<close>

definition METHOD_NONE :: byte where
  "METHOD_NONE = 0x02"

definition None_doCompressData :: "byte list \<Rightarrow> byte list result" where
  "None_doCompressData source = Inr source"

definition None_doDecompressData :: "error_code \<Rightarrow> byte list \<Rightarrow> nat \<Rightarrow> byte list result" where
  "None_doDecompressData err source uncompressed_size =
     (if length source \<noteq> uncompressed_size then Inl err else Inr (take uncompressed_size source))"

definition CompressionCodecNone :: codec where
  "CompressionCodecNone =
     \<lparr>getMethodByte = METHOD_NONE,
      doCompressData = None_doCompressData,
      doDecompressData = None_doDecompressData CORRUPTED_DATA,
      getMaxCompressedDataSize = (\<lambda>n. n),
      getAdditionalSizeAtTheEndOfBuffer = 0,
      decompression_error_code = CORRUPTED_DATA\<rparr>"

interpretation none: lossless_codec None_doCompressData "None_doDecompressData err" "\<lambda>n. n" "\<lambda>_. True"
  for err
  by unfold_locales (simp add: None_doCompressData_def None_doDecompressData_def)

end
