(* ===== verification/Compression_Delta.thy ===== *)
theory Compression_Delta
  imports Compression_Codec
begin

text \<open>
  The codec that stores the differences of neighbouring words,
  \<^verbatim>\<open>src/src/Compression/CompressionCodecDelta.cpp\<close>.
\<close>

section \<open>Definitions\<close>

definition METHOD_DELTA :: byte where
  "METHOD_DELTA = 0x92"

text \<open>The differences; storing a word keeps its low bytes, which is the wrap-around of \<open>T\<close>.\<close>

fun delta_differences :: "int \<Rightarrow> int list \<Rightarrow> int list" where
  "delta_differences prev_src [] = []"
| "delta_differences prev_src (curr_src # ws) = (curr_src - prev_src) # delta_differences curr_src ws"

definition delta_compressDataForType :: "nat \<Rightarrow> byte list \<Rightarrow> byte list result" where
  "delta_compressDataForType k source =
     (if length source mod k \<noteq> 0 then Inl CANNOT_COMPRESS
      else Inr (store_words k (delta_differences 0 (load_words k source))))"

text \<open>The running sums; \<open>room\<close> is the number of bytes left in the output.\<close>

fun delta_sums :: "nat \<Rightarrow> int \<Rightarrow> nat \<Rightarrow> int list \<Rightarrow> int list result" where
  "delta_sums k accumulator room [] = Inr []"
| "delta_sums k accumulator room (w # ws) =
     (let acc = (accumulator + w) mod 256 ^ k in
      if room < k then Inl CANNOT_DECOMPRESS
      else res_map ((#) acc) (delta_sums k acc (room - k) ws))"

definition delta_decompressDataForType :: "nat \<Rightarrow> byte list \<Rightarrow> nat \<Rightarrow> byte list result" where
  "delta_decompressDataForType k source output_size =
     (if length source mod k \<noteq> 0 then Inl CANNOT_DECOMPRESS
      else res_map (store_words k) (delta_sums k 0 output_size (load_words k source)))"

definition delta_sizes :: "nat set" where
  "delta_sizes = {1, 2, 4, 8}"

definition Delta_doCompressData :: "nat \<Rightarrow> byte list \<Rightarrow> byte list result" where
  "Delta_doCompressData delta_bytes_size source =
     (let bytes_to_skip = length source mod delta_bytes_size in
      if delta_bytes_size \<in> delta_sizes then
        res_map (\<lambda>d. word_of_nat delta_bytes_size # word_of_nat bytes_to_skip # take bytes_to_skip source @ d)
          (delta_compressDataForType delta_bytes_size (drop bytes_to_skip source))
      else Inl LOGICAL_ERROR)"

definition Delta_doDecompressData :: "byte list \<Rightarrow> nat \<Rightarrow> byte list result" where
  "Delta_doDecompressData source uncompressed_size =
     (if length source < 2 then Inl CANNOT_DECOMPRESS
      else if uncompressed_size = 0 then Inr []
      else
        (let bytes_size = unat (source ! 0) in
         if bytes_size \<notin> delta_sizes then Inl CANNOT_DECOMPRESS
         else
           (let bytes_to_skip = uncompressed_size mod bytes_size;
                output_size = uncompressed_size - bytes_to_skip
            in if length source < 2 + bytes_to_skip then Inl CANNOT_DECOMPRESS
               else res_map ((@) (take bytes_to_skip (drop 2 source)))
                 (delta_decompressDataForType bytes_size (drop (2 + bytes_to_skip) source) output_size))))"

definition CompressionCodecDelta :: "nat \<Rightarrow> codec" where
  "CompressionCodecDelta delta_bytes_size =
     \<lparr>getMethodByte = METHOD_DELTA,
      doCompressData = Delta_doCompressData delta_bytes_size,
      doDecompressData = Delta_doDecompressData,
      getMaxCompressedDataSize = (\<lambda>n. (n + 2) mod 2 ^ 32),
      getAdditionalSizeAtTheEndOfBuffer = 0,
      decompression_error_code = CORRUPTED_DATA\<rparr>"

text \<open>
  The builder: the arguments are literals (\<open>Some n\<close> an unsigned integer, \<open>None\<close> anything else), the
  column type is given by whether its values have a fixed size and by that size.
\<close>

definition getDeltaBytesSize :: "bool \<times> nat \<Rightarrow> nat result" where
  "getDeltaBytesSize column_type =
     (if \<not> fst column_type then Inl BAD_ARGUMENTS
      else if snd column_type \<in> delta_sizes then Inr (snd column_type)
      else Inl BAD_ARGUMENTS)"

definition delta_codec_builder :: "nat option list \<Rightarrow> (bool \<times> nat) option \<Rightarrow> codec result" where
  "delta_codec_builder arguments column_type =
     res_map CompressionCodecDelta
       (case arguments of
          [] \<Rightarrow> (case column_type of None \<Rightarrow> Inr 1 | Some t \<Rightarrow> getDeltaBytesSize t)
        | [Some n] \<Rightarrow> if n \<in> delta_sizes then Inr n else Inl ILLEGAL_CODEC_PARAMETER
        | [None] \<Rightarrow> Inl ILLEGAL_CODEC_PARAMETER
        | _ \<Rightarrow> Inl ILLEGAL_SYNTAX_FOR_CODEC_TYPE)"

section \<open>The codec is lossless\<close>

lemma delta_sizes_pos: "k \<in> delta_sizes \<Longrightarrow> 0 < k \<and> k < 256"
  by (auto simp: delta_sizes_def)

lemma length_delta_differences [simp]: "length (delta_differences p ws) = length ws"
  by (induction p ws rule: delta_differences.induct) simp_all

lemma delta_sums_differences:
  assumes "\<forall>w\<in>set ws. 0 \<le> w \<and> w < 256 ^ k" and "k * length ws \<le> room"
  shows "delta_sums k (p mod 256 ^ k) room (map (\<lambda>w. w mod 256 ^ k) (delta_differences p ws)) = Inr ws"
  using assms
proof (induction ws arbitrary: p room)
  case (Cons w ws)
  have "(p mod 256 ^ k + (w - p) mod 256 ^ k) mod 256 ^ k = (p + (w - p)) mod 256 ^ k"
    by (rule mod_add_eq)
  then have acc: "(p mod 256 ^ k + (w - p) mod 256 ^ k) mod 256 ^ k = w mod 256 ^ k"
    by simp
  have room: "\<not> room < k" "k * length ws \<le> room - k"
    using Cons.prems(2) by simp_all
  have w: "w mod 256 ^ k = w"
    using Cons.prems(1) by simp
  show ?case
    using Cons.IH [of "room - k" w] Cons.prems(1) room
    by (simp add: acc w Let_def res_map_def)
qed simp

lemma delta_type_roundtrip:
  assumes "0 < k" and "length src mod k = 0"
  obtains data where "delta_compressDataForType k src = Inr data" "length data = length src"
    "delta_decompressDataForType k data (length src) = Inr src"
proof
  let ?ws = "load_words k src"
  let ?data = "store_words k (delta_differences 0 ?ws)"
  show "delta_compressDataForType k src = Inr ?data"
    using assms(2) by (simp add: delta_compressDataForType_def)
  show len: "length ?data = length src"
    using length_load_words [OF assms] by simp
  have "delta_sums k (0 mod 256 ^ k) (length src)
      (map (\<lambda>w. w mod 256 ^ k) (delta_differences 0 ?ws)) = Inr ?ws"
    using load_words_bounds [OF _ assms(2)] length_load_words [OF assms]
    by (intro delta_sums_differences) auto
  then show "delta_decompressDataForType k ?data (length src) = Inr src"
    using assms len
    by (simp add: delta_decompressDataForType_def load_store_words store_load_words res_map_def)
qed

text \<open>Both directions on the layout of the data: two header bytes, skipped bytes, words.\<close>

lemma Delta_doCompressData_layout:
  assumes "k \<in> delta_sizes" and "length src mod k = skip"
    and "delta_compressDataForType k (drop skip src) = Inr d"
  shows "Delta_doCompressData k src = Inr (word_of_nat k # word_of_nat skip # take skip src @ d)"
  using assms by (simp add: Delta_doCompressData_def res_map_def Let_def)

lemma Delta_doDecompressData_layout:
  assumes "k \<in> delta_sizes" and "n mod k = skip" and "n \<noteq> 0" and "length prefix = skip"
    and "delta_decompressDataForType k d (n - skip) = Inr out"
  shows "Delta_doDecompressData (word_of_nat k # b # prefix @ d) n = Inr (prefix @ out)"
proof -
  have size: "unat (word_of_nat k :: byte) = k"
    using delta_sizes_pos [OF assms(1)] by (simp add: unat_of_nat take_bit_nat_eq_self)
  have "take skip (drop 2 (word_of_nat k # b # prefix @ d)) = prefix"
    and "drop (2 + skip) (word_of_nat k # b # prefix @ d) = d"
    using assms(4) by simp_all
  then show ?thesis
    using assms(1,3-5)
    by (simp add: Delta_doDecompressData_def Let_def size assms(2) res_map_def)
qed

lemma Delta_roundtrip:
  assumes "k \<in> delta_sizes" and "src \<noteq> []"
  obtains data where "Delta_doCompressData k src = Inr data"
    "Delta_doDecompressData data (length src) = Inr src" "length data = length src + 2"
proof -
  define skip where "skip = length src mod k"
  have k: "0 < k"
    using delta_sizes_pos [OF assms(1)] by simp
  have skip: "skip \<le> length src" and len: "length (drop skip src) = length src - skip"
    by (simp_all add: skip_def)
  have "length (drop skip src) mod k = 0"
    by (simp add: skip_def minus_mod_eq_mult_div)
  then obtain d where d: "delta_compressDataForType k (drop skip src) = Inr d"
    "length d = length (drop skip src)"
    "delta_decompressDataForType k d (length (drop skip src)) = Inr (drop skip src)"
    by (rule delta_type_roundtrip [OF k])
  let ?data = "word_of_nat k # word_of_nat skip # take skip src @ d"
  have "Delta_doDecompressData ?data (length src) = Inr (take skip src @ drop skip src)"
    using assms d(3) skip unfolding len
    by (intro Delta_doDecompressData_layout) (simp_all add: skip_def)
  then have "Delta_doDecompressData ?data (length src) = Inr src"
    by simp
  moreover have "length ?data = length src + 2"
    using d(2) skip by simp
  ultimately show ?thesis
    using that Delta_doCompressData_layout [OF assms(1) skip_def [symmetric] d(1)] by blast
qed

interpretation delta: lossless_codec "Delta_doCompressData k" Delta_doDecompressData
    "\<lambda>n. (n + 2) mod 2 ^ 32" "\<lambda>src. k \<in> delta_sizes \<and> src \<noteq> [] \<and> length src + 2 < 2 ^ 32"
  for k
proof
  fix src :: "byte list"
  assume "k \<in> delta_sizes \<and> src \<noteq> [] \<and> length src + 2 < 2 ^ 32"
  then show "\<exists>data. Delta_doCompressData k src = Inr data
      \<and> Delta_doDecompressData data (length src) = Inr src
      \<and> length data \<le> (length src + 2) mod 2 ^ 32"
    using Delta_roundtrip [of k src] by (metis le_refl mod_less)
qed

section \<open>Memory safety of the decoder\<close>

lemma delta_sums_bound: "delta_sums k acc room ws = Inr out \<Longrightarrow> k * length out \<le> room"
proof (induction ws arbitrary: acc room out)
  case (Cons w ws)
  obtain out' where rec: "delta_sums k ((acc + w) mod 256 ^ k) (room - k) ws = Inr out'"
    and "\<not> room < k" and "out = ((acc + w) mod 256 ^ k) # out'"
    using Cons.prems by (auto simp: Let_def res_Inr_iff split: if_splits)
  then show ?case
    using Cons.IH [OF rec] by simp
qed simp

lemma Delta_doDecompressData_bound:
  assumes "Delta_doDecompressData source n = Inr out"
  shows "length out \<le> n"
proof (cases "n = 0")
  case True
  then show ?thesis
    using assms by (simp add: Delta_doDecompressData_def split: if_splits)
next
  case False
  define k where "k = unat (source ! 0)"
  define skip where "skip = n mod k"
  obtain rest where "delta_decompressDataForType k (drop (2 + skip) source) (n - skip) = Inr rest"
    and out: "out = take skip (drop 2 source) @ rest"
    using assms False unfolding Delta_doDecompressData_def Let_def k_def [symmetric] skip_def [symmetric]
    by (auto simp: res_Inr_iff split: if_splits)
  then have "length rest \<le> n - skip"
    by (auto simp: delta_decompressDataForType_def res_Inr_iff split: if_splits
        dest: delta_sums_bound)
  moreover have "skip \<le> n"
    by (simp add: skip_def)
  ultimately show ?thesis
    by (simp add: out)
qed

end
