(* ===== verification/Compression_GCD.thy ===== *)
theory Compression_GCD
  imports Compression_Codec
begin

text \<open>
  The codec that divides all words by their greatest common divisor,
  \<^verbatim>\<open>src/src/Compression/CompressionCodecGCD.cpp\<close>.  \<^verbatim>\<open>boost::integer::gcd\<close> and the division by a
  \<^verbatim>\<open>libdivide::divider\<close> are parameters: \<open>gcd_fn a b\<close> and \<open>div_fn x d\<close>.
\<close>

section \<open>Definitions\<close>

definition METHOD_GCD :: byte where
  "METHOD_GCD = 0x9a"

fun gcd_loop :: "(int \<Rightarrow> int \<Rightarrow> int) \<Rightarrow> int \<Rightarrow> int list \<Rightarrow> int" where
  "gcd_loop gcd_fn g [] = g"
| "gcd_loop gcd_fn g (w # ws) = (if g = 1 then g else gcd_loop gcd_fn (gcd_fn g w) ws)"

definition gcd_of_words :: "(int \<Rightarrow> int \<Rightarrow> int) \<Rightarrow> int list \<Rightarrow> int" where
  "gcd_of_words gcd_fn ws = (case ws of [] \<Rightarrow> 0 | w # ws' \<Rightarrow> gcd_loop gcd_fn w ws')"

definition gcd_compressDataForType ::
  "(int \<Rightarrow> int \<Rightarrow> int) \<Rightarrow> (int \<Rightarrow> int \<Rightarrow> int) \<Rightarrow> nat \<Rightarrow> byte list \<Rightarrow> byte list result" where
  "gcd_compressDataForType gcd_fn div_fn k source =
     (if length source mod k \<noteq> 0 then Inl CANNOT_COMPRESS
      else
        (let ws = load_words k source; g = gcd_of_words gcd_fn ws in
         if g = 0 \<or> g = 1 then Inr (le_bytes k g @ source)
         else if k \<le> 8 then Inr (le_bytes k g @ store_words k (map (\<lambda>w. div_fn w g) ws))
         else Inr (le_bytes k g @ store_words k (map (\<lambda>w. w div g) ws))))"

fun gcd_products :: "nat \<Rightarrow> int \<Rightarrow> nat \<Rightarrow> int list \<Rightarrow> int list result" where
  "gcd_products k gcd_multiplier room [] = Inr []"
| "gcd_products k gcd_multiplier room (w # ws) =
     (if room < k then Inl CANNOT_DECOMPRESS
      else res_map ((#) (w * gcd_multiplier)) (gcd_products k gcd_multiplier (room - k) ws))"

definition gcd_decompressDataForType :: "nat \<Rightarrow> byte list \<Rightarrow> nat \<Rightarrow> byte list result" where
  "gcd_decompressDataForType k source output_size =
     (if length source mod k \<noteq> 0 then Inl CANNOT_DECOMPRESS
      else if length source < k then Inl CANNOT_DECOMPRESS
      else
        (let gcd_multiplier = le_value (take k source) in
         if gcd_multiplier = 0 \<or> gcd_multiplier = 1 then
           (if length source - k \<noteq> output_size then Inl CANNOT_DECOMPRESS
            else Inr (take (length source - k) (drop k source)))
         else res_map (store_words k)
           (gcd_products k gcd_multiplier output_size (load_words k (drop k source)))))"

definition gcd_sizes :: "nat set" where
  "gcd_sizes = {1, 2, 4, 8, 16, 32}"

definition GCD_doCompressData ::
  "(int \<Rightarrow> int \<Rightarrow> int) \<Rightarrow> (int \<Rightarrow> int \<Rightarrow> int) \<Rightarrow> nat \<Rightarrow> byte list \<Rightarrow> byte list result" where
  "GCD_doCompressData gcd_fn div_fn gcd_bytes_size source =
     (let bytes_to_skip = length source mod gcd_bytes_size in
      if gcd_bytes_size \<in> gcd_sizes then
        res_map (\<lambda>d. word_of_nat gcd_bytes_size # word_of_nat bytes_to_skip # take bytes_to_skip source @ d)
          (gcd_compressDataForType gcd_fn div_fn gcd_bytes_size (drop bytes_to_skip source))
      else Inl LOGICAL_ERROR)"

definition GCD_doDecompressData :: "byte list \<Rightarrow> nat \<Rightarrow> byte list result" where
  "GCD_doDecompressData source uncompressed_size =
     (if length source < 2 then Inl CANNOT_DECOMPRESS
      else if uncompressed_size = 0 then Inr []
      else
        (let bytes_size = unat (source ! 0) in
         if bytes_size \<notin> gcd_sizes then Inl CANNOT_DECOMPRESS
         else
           (let bytes_to_skip = uncompressed_size mod bytes_size;
                output_size = uncompressed_size - bytes_to_skip
            in if word_of_nat bytes_to_skip \<noteq> source ! 1 then Inl CANNOT_DECOMPRESS
               else if length source < 2 + bytes_to_skip then Inl CANNOT_DECOMPRESS
               else res_map ((@) (take bytes_to_skip (drop 2 source)))
                 (gcd_decompressDataForType bytes_size (drop (2 + bytes_to_skip) source) output_size))))"

definition gcd_max_size :: "nat \<Rightarrow> nat \<Rightarrow> nat" where
  "gcd_max_size gcd_bytes_size uncompressed_size = (uncompressed_size + gcd_bytes_size + 2) mod 2 ^ 32"

definition CompressionCodecGCD ::
  "(int \<Rightarrow> int \<Rightarrow> int) \<Rightarrow> (int \<Rightarrow> int \<Rightarrow> int) \<Rightarrow> nat \<Rightarrow> codec" where
  "CompressionCodecGCD gcd_fn div_fn gcd_bytes_size =
     \<lparr>getMethodByte = METHOD_GCD,
      doCompressData = GCD_doCompressData gcd_fn div_fn gcd_bytes_size,
      doDecompressData = GCD_doDecompressData,
      getMaxCompressedDataSize = gcd_max_size gcd_bytes_size,
      getAdditionalSizeAtTheEndOfBuffer = 0,
      decompression_error_code = CORRUPTED_DATA\<rparr>"

text \<open>
  The builder: \<open>n_arguments\<close> is the number of arguments; a column type is given by whether it is one
  of the integer-like types and by the size of its values.
\<close>

definition getGCDBytesSize :: "bool \<times> nat \<Rightarrow> nat result" where
  "getGCDBytesSize column_type =
     (if \<not> fst column_type then Inl BAD_ARGUMENTS
      else if snd column_type \<in> gcd_sizes then Inr (snd column_type)
      else Inl BAD_ARGUMENTS)"

definition gcd_codec_builder ::
  "(int \<Rightarrow> int \<Rightarrow> int) \<Rightarrow> (int \<Rightarrow> int \<Rightarrow> int) \<Rightarrow> nat \<Rightarrow> (bool \<times> nat) option \<Rightarrow> codec result" where
  "gcd_codec_builder gcd_fn div_fn n_arguments column_type =
     (if n_arguments \<noteq> 0 then Inl ILLEGAL_SYNTAX_FOR_CODEC_TYPE
      else res_map (CompressionCodecGCD gcd_fn div_fn)
        (case column_type of None \<Rightarrow> Inr 1 | Some t \<Rightarrow> getGCDBytesSize t))"

section \<open>The divisor\<close>

text \<open>What the codec relies on of the two library functions.\<close>

definition is_gcd_fn :: "(int \<Rightarrow> int \<Rightarrow> int) \<Rightarrow> bool" where
  "is_gcd_fn gcd_fn \<longleftrightarrow> (\<forall>a b. 0 \<le> a \<longrightarrow> 0 \<le> b \<longrightarrow> gcd_fn a b = gcd a b)"

definition is_divide_fn :: "(int \<Rightarrow> int \<Rightarrow> int) \<Rightarrow> bool" where
  "is_divide_fn div_fn \<longleftrightarrow> (\<forall>x d. 0 \<le> x \<longrightarrow> 2 \<le> d \<longrightarrow> div_fn x d = x div d)"

lemma gcd_loop_spec:
  assumes fn: "is_gcd_fn gcd_fn" and "0 \<le> g" and "\<forall>w\<in>set ws. 0 \<le> w"
  shows "0 \<le> gcd_loop gcd_fn g ws
    \<and> (gcd_loop gcd_fn g ws \<noteq> 1 \<longrightarrow>
         gcd_loop gcd_fn g ws dvd g \<and> (\<forall>w\<in>set ws. gcd_loop gcd_fn g ws dvd w))
    \<and> (gcd_loop gcd_fn g ws \<noteq> 0 \<longrightarrow> g \<noteq> 0 \<or> (\<exists>w\<in>set ws. w \<noteq> 0))"
  using assms(2,3)
proof (induction ws arbitrary: g)
  case (Cons w ws)
  show ?case
  proof (cases "g = 1")
    case False
    have gw: "gcd_fn g w = gcd g w"
      using fn Cons.prems unfolding is_gcd_fn_def by simp
    have "0 \<le> gcd g w" "gcd g w dvd g" "gcd g w dvd w" "gcd g w \<noteq> 0 \<longrightarrow> g \<noteq> 0 \<or> w \<noteq> 0"
      by auto
    then show ?thesis
      using Cons.IH [of "gcd g w"] Cons.prems(2) False gw by (auto intro: dvd_trans)
  qed (use Cons.prems in auto)
qed simp

lemma gcd_of_words_spec:
  assumes "is_gcd_fn gcd_fn" and "\<forall>w\<in>set ws. 0 \<le> w \<and> w < B"
  defines "h \<equiv> gcd_of_words gcd_fn ws"
  shows "0 \<le> h" and "h \<noteq> 1 \<Longrightarrow> w \<in> set ws \<Longrightarrow> h dvd w" and "h \<notin> {0, 1} \<Longrightarrow> 2 \<le> h \<and> h < B"
proof -
  have spec: "0 \<le> h \<and> (h \<noteq> 1 \<longrightarrow> (\<forall>w\<in>set ws. h dvd w)) \<and> (h \<noteq> 0 \<longrightarrow> (\<exists>w\<in>set ws. w \<noteq> 0))"
  proof (cases ws)
    case (Cons w ws')
    then show ?thesis
      using gcd_loop_spec [OF assms(1), of w ws'] assms(2) by (auto simp: h_def gcd_of_words_def)
  qed (simp add: h_def gcd_of_words_def)
  then show "0 \<le> h" and "h \<noteq> 1 \<Longrightarrow> w \<in> set ws \<Longrightarrow> h dvd w"
    by auto
  show "2 \<le> h \<and> h < B" if nz: "h \<notin> {0, 1}"
  proof -
    obtain w where w: "w \<in> set ws" "w \<noteq> 0" "h dvd w"
      using spec nz by auto
    then have "h \<le> w"
      using assms(2) by (intro zdvd_imp_le) force+
    then show ?thesis
      using spec nz assms(2) w(1) by force
  qed
qed

section \<open>The codec is lossless\<close>

lemma gcd_sizes_pos: "k \<in> gcd_sizes \<Longrightarrow> 0 < k \<and> k < 256"
  by (auto simp: gcd_sizes_def)

lemma gcd_products_quotients:
  assumes "\<forall>w\<in>set ws. g dvd w" and "k * length ws \<le> room"
  shows "gcd_products k g room (map (\<lambda>w. w div g) ws) = Inr ws"
  using assms by (induction ws arbitrary: room) (auto simp: res_map_def)

lemma gcd_type_roundtrip:
  assumes "0 < k" and aligned: "length src mod k = 0" and fns: "is_gcd_fn gcd_fn" "is_divide_fn div_fn"
  obtains data where "gcd_compressDataForType gcd_fn div_fn k src = Inr data"
    "length data = length src + k" "gcd_decompressDataForType k data (length src) = Inr src"
proof -
  define ws where "ws = load_words k src"
  define g where "g = gcd_of_words gcd_fn ws"
  have B: "\<forall>w\<in>set ws. 0 \<le> w \<and> w < 256 ^ k"
    using load_words_bounds [OF _ aligned] by (simp add: ws_def)
  note spec = gcd_of_words_spec [OF fns(1) B, folded g_def]
  have "(1::int) < 256 ^ k"
    using assms(1) by (simp add: one_less_power)
  then have gv: "le_value (le_bytes k g) = g"
    using spec(1,3) by (cases "g \<in> {0, 1}") (auto simp: le_value_le_bytes)
  have al: "(length src + k) mod k = 0"
    using aligned by simp
  show ?thesis
  proof (cases "g = 0 \<or> g = 1")
    case True
    show ?thesis
    proof (rule that)
      show "gcd_compressDataForType gcd_fn div_fn k src = Inr (le_bytes k g @ src)"
        using aligned True by (simp add: gcd_compressDataForType_def Let_def flip: ws_def g_def)
      show "gcd_decompressDataForType k (le_bytes k g @ src) (length src) = Inr src"
        using al True gv by (simp add: gcd_decompressDataForType_def Let_def add.commute)
    qed simp
  next
    case False
    let ?qs = "map (\<lambda>w. w div g) ws"
    have g: "2 \<le> g" "\<forall>w\<in>set ws. g dvd w"
      using spec False by auto
    have div_fn: "map (\<lambda>w. div_fn w g) ws = ?qs"
      using fns(2) B g(1) by (simp add: is_divide_fn_def)
    have "w div g < 256 ^ k" "0 \<le> w div g" if "w \<in> set ws" for w
    proof -
      have w: "0 \<le> w" "w < 256 ^ k"
        using B that by auto
      show "0 \<le> w div g"
        using w g(1) by (simp add: pos_imp_zdiv_nonneg_iff)
      have "w div g \<le> w"
        using zdiv_mono2 [OF w(1), of 1 g] g(1) by simp
      then show "w div g < 256 ^ k"
        using w(2) by simp
    qed
    then have small: "map (\<lambda>w. w mod 256 ^ k) ?qs = ?qs"
      by simp
    have len: "k * length ws = length src"
      using length_load_words [OF assms(1) aligned] by (simp add: ws_def)
    show ?thesis
    proof (rule that)
      show "gcd_compressDataForType gcd_fn div_fn k src = Inr (le_bytes k g @ store_words k ?qs)"
        unfolding gcd_compressDataForType_def Let_def ws_def [symmetric] g_def [symmetric] div_fn
        using aligned False by simp
      show "length (le_bytes k g @ store_words k ?qs) = length src + k"
        using len by simp
      have "load_words k (store_words k ?qs) = ?qs"
        using small load_store_words [OF assms(1), of ?qs] by simp
      moreover have "store_words k ws = src"
        using store_load_words [OF assms(1) aligned] by (simp add: ws_def)
      moreover have "gcd_products k g (length src) ?qs = Inr ws"
        using gcd_products_quotients [OF g(2)] len by simp
      ultimately show "gcd_decompressDataForType k (le_bytes k g @ store_words k ?qs) (length src) = Inr src"
        using al False gv len
        by (simp add: gcd_decompressDataForType_def Let_def add.commute)
    qed
  qed
qed

lemma GCD_doDecompressData_layout:
  assumes "k \<in> gcd_sizes" and "n mod k = skip" and "n \<noteq> 0" and "length prefix = skip"
    and "gcd_decompressDataForType k d (n - skip) = Inr out"
  shows "GCD_doDecompressData (word_of_nat k # word_of_nat skip # prefix @ d) n = Inr (prefix @ out)"
proof -
  have size: "unat (word_of_nat k :: byte) = k"
    using gcd_sizes_pos [OF assms(1)] by (simp add: unat_of_nat take_bit_nat_eq_self)
  have "take skip (drop 2 (word_of_nat k # word_of_nat skip # prefix @ d)) = prefix"
    and "drop (2 + skip) (word_of_nat k # word_of_nat skip # prefix @ d) = d"
    using assms(4) by simp_all
  then show ?thesis
    using assms(1,3-5)
    by (simp add: GCD_doDecompressData_def Let_def size assms(2) res_map_def)
qed

lemma GCD_roundtrip:
  assumes "k \<in> gcd_sizes" and "src \<noteq> []" and "is_gcd_fn gcd_fn" and "is_divide_fn div_fn"
  obtains data where "GCD_doCompressData gcd_fn div_fn k src = Inr data"
    "GCD_doDecompressData data (length src) = Inr src" "length data = length src + k + 2"
proof -
  define skip where "skip = length src mod k"
  have k: "0 < k"
    using gcd_sizes_pos [OF assms(1)] by simp
  have skip: "skip \<le> length src" and len: "length (drop skip src) = length src - skip"
    by (simp_all add: skip_def)
  have "length (drop skip src) mod k = 0"
    by (simp add: skip_def minus_mod_eq_mult_div)
  then obtain d where d: "gcd_compressDataForType gcd_fn div_fn k (drop skip src) = Inr d"
    "length d = length (drop skip src) + k"
    "gcd_decompressDataForType k d (length (drop skip src)) = Inr (drop skip src)"
    by (rule gcd_type_roundtrip [OF k _ assms(3,4)])
  let ?data = "word_of_nat k # word_of_nat skip # take skip src @ d"
  have "GCD_doDecompressData ?data (length src) = Inr (take skip src @ drop skip src)"
    using assms(1,2) d(3) skip unfolding len
    by (intro GCD_doDecompressData_layout) (simp_all add: skip_def)
  then have "GCD_doDecompressData ?data (length src) = Inr src"
    by simp
  moreover have "length ?data = length src + k + 2"
    using d(2) skip by simp
  moreover have "GCD_doCompressData gcd_fn div_fn k src = Inr ?data"
    using assms(1) d(1) by (simp add: GCD_doCompressData_def Let_def res_map_def flip: skip_def)
  ultimately show ?thesis
    using that by blast
qed

interpretation gcd: lossless_codec "GCD_doCompressData gcd_fn div_fn k" GCD_doDecompressData
    "gcd_max_size k"
    "\<lambda>src. k \<in> gcd_sizes \<and> src \<noteq> [] \<and> length src + 34 < 2 ^ 32 \<and> is_gcd_fn gcd_fn \<and> is_divide_fn div_fn"
  for gcd_fn div_fn k
proof
  fix src :: "byte list"
  assume a: "k \<in> gcd_sizes \<and> src \<noteq> [] \<and> length src + 34 < 2 ^ 32 \<and> is_gcd_fn gcd_fn \<and> is_divide_fn div_fn"
  then obtain data where "GCD_doCompressData gcd_fn div_fn k src = Inr data"
    "GCD_doDecompressData data (length src) = Inr src" "length data = length src + k + 2"
    using GCD_roundtrip [of k src gcd_fn div_fn] by blast
  moreover have "k \<le> 32"
    using a by (auto simp: gcd_sizes_def)
  ultimately show "\<exists>data. GCD_doCompressData gcd_fn div_fn k src = Inr data
      \<and> GCD_doDecompressData data (length src) = Inr src
      \<and> length data \<le> gcd_max_size k (length src)"
    using a by (intro exI [of _ data]) (simp add: gcd_max_size_def)
qed

section \<open>Memory safety of the decoder\<close>

lemma gcd_products_bound: "gcd_products k g room ws = Inr out \<Longrightarrow> k * length out \<le> room"
proof (induction ws arbitrary: room out)
  case (Cons w ws)
  obtain out' where rec: "gcd_products k g (room - k) ws = Inr out'"
    and "\<not> room < k" and "out = w * g # out'"
    using Cons.prems by (auto simp: res_Inr_iff split: if_splits)
  then show ?case
    using Cons.IH [OF rec] by simp
qed simp

lemma gcd_decompressDataForType_bound:
  "gcd_decompressDataForType k source n = Inr out \<Longrightarrow> length out \<le> n"
  by (auto simp: gcd_decompressDataForType_def Let_def res_Inr_iff split: if_splits
      dest: gcd_products_bound)

lemma GCD_doDecompressData_bound:
  assumes "GCD_doDecompressData source n = Inr out"
  shows "length out \<le> n"
proof (cases "n = 0")
  case True
  then show ?thesis
    using assms by (simp add: GCD_doDecompressData_def split: if_splits)
next
  case False
  define k where "k = unat (source ! 0)"
  define skip where "skip = n mod k"
  obtain rest where "gcd_decompressDataForType k (drop (2 + skip) source) (n - skip) = Inr rest"
    and out: "out = take skip (drop 2 source) @ rest"
    using assms False unfolding GCD_doDecompressData_def Let_def k_def [symmetric] skip_def [symmetric]
    by (auto simp: res_Inr_iff split: if_splits)
  then have "length rest \<le> n - skip"
    using gcd_decompressDataForType_bound by blast
  moreover have "skip \<le> n"
    by (simp add: skip_def)
  ultimately show ?thesis
    by (simp add: out)
qed

end
