(* ===== verification/Compression_Multiple.thy ===== *)
theory Compression_Multiple
  imports Compression_Delta Compression_GCD
begin

text \<open>
  Chains of codecs, \<^verbatim>\<open>src/src/Compression/CompressionCodecMultiple.cpp\<close>, and the lookup of codecs by
  method byte in \<^verbatim>\<open>CompressionFactory.cpp\<close>.  A chain is decoded by codecs that the factory makes from
  the method bytes in the data, not by the codecs that encoded it.
\<close>

section \<open>Definitions\<close>

definition METHOD_MULTIPLE :: byte where
  "METHOD_MULTIPLE = 0x91"

definition ONE_GIB :: nat where
  "ONE_GIB = 2 ^ 30"

text \<open>
  \<^verbatim>\<open>CompressionCodecFactory::get(byte_code)\<close>: the registered creators are called without arguments
  and column type.  \<open>other\<close> stands for the remaining registrations.
\<close>

definition factory_get ::
  "(int \<Rightarrow> int \<Rightarrow> int) \<Rightarrow> (int \<Rightarrow> int \<Rightarrow> int) \<Rightarrow> (byte \<Rightarrow> codec option) \<Rightarrow> byte \<Rightarrow> codec result" where
  "factory_get gcd_fn div_fn other byte_code =
     (if byte_code = METHOD_NONE then Inr CompressionCodecNone
      else if byte_code = METHOD_DELTA then delta_codec_builder [] None
      else if byte_code = METHOD_GCD then gcd_codec_builder gcd_fn div_fn 0 None
      else (case other byte_code of None \<Rightarrow> Inl UNKNOWN_CODEC | Some c \<Rightarrow> Inr c))"

text \<open>The encoding loop: every codec compresses the block of the one before it.\<close>

fun chain_compress :: "codec list \<Rightarrow> byte list \<Rightarrow> byte list result" where
  "chain_compress [] buf = Inr buf"
| "chain_compress (c # cs) buf = res_bind (codec_compress c buf) (chain_compress cs)"

definition Multiple_doCompressData :: "codec list \<Rightarrow> byte list \<Rightarrow> byte list result" where
  "Multiple_doCompressData codecs source =
     res_map (\<lambda>buf. word_of_nat (length codecs) # map getMethodByte codecs @ buf)
       (chain_compress codecs source)"

text \<open>
  The decoding loop over the method bytes, last first.  \<open>buf\<close> holds the \<^verbatim>\<open>source_size\<close> bytes to
  decode and \<open>bsize\<close> is \<^verbatim>\<open>compressed_buf.size()\<close>, which also counts the padding codecs ask for.
\<close>

fun chain_decompress ::
  "(byte \<Rightarrow> codec result) \<Rightarrow> error_code \<Rightarrow> nat \<Rightarrow> byte list \<Rightarrow> byte list \<Rightarrow> nat \<Rightarrow> byte list result" where
  "chain_decompress get err decompressed_size [] buf bsize = Inr buf"
| "chain_decompress get err decompressed_size (m # ms) buf bsize =
     res_bind (get m) (\<lambda>c.
       let extra = getAdditionalSizeAtTheEndOfBuffer c in
       if ONE_GIB \<le> bsize then Inl err
       else if length buf < COMPRESSED_BLOCK_HEADER_SIZE then Inl err
       else if 2 ^ 32 \<le> bsize mod 2 ^ 32 + extra then Inl err
       else
         res_bind (readDecompressedBlockSize err buf) (\<lambda>uncompressed_size.
           if ONE_GIB \<le> uncompressed_size then Inl err
           else if ms = [] \<and> uncompressed_size \<noteq> decompressed_size then Inl err
           else if 2 ^ 32 \<le> uncompressed_size + extra then Inl err
           else
             res_bind (codec_decompress c buf) (\<lambda>out.
               chain_decompress get err decompressed_size ms out (uncompressed_size + extra))))"

definition Multiple_doDecompressData ::
  "(byte \<Rightarrow> codec result) \<Rightarrow> error_code \<Rightarrow> byte list \<Rightarrow> nat \<Rightarrow> byte list result" where
  "Multiple_doDecompressData get err source decompressed_size =
     (if source = [] \<or> hd source = 0 then Inl err
      else
        (let compression_methods_size = unat (hd source) in
         if length source < compression_methods_size + 1 then Inl err
         else
           res_map (take decompressed_size)
             (chain_decompress get err decompressed_size
                (rev (take compression_methods_size (drop 1 source)))
                (drop (compression_methods_size + 1) source)
                (length source - (compression_methods_size + 1)))))"

fun chain_reserve :: "codec list \<Rightarrow> nat \<Rightarrow> nat" where
  "chain_reserve [] bsize = bsize"
| "chain_reserve (c # cs) bsize = chain_reserve cs (getCompressedReserveSize c bsize)"

definition Multiple_max_size :: "codec list \<Rightarrow> nat \<Rightarrow> nat" where
  "Multiple_max_size codecs uncompressed_size =
     (1 + length codecs + chain_reserve codecs uncompressed_size) mod 2 ^ 32"

definition CompressionCodecMultiple :: "(byte \<Rightarrow> codec result) \<Rightarrow> codec list \<Rightarrow> codec" where
  "CompressionCodecMultiple get codecs =
     \<lparr>getMethodByte = METHOD_MULTIPLE,
      doCompressData = Multiple_doCompressData codecs,
      doDecompressData = Multiple_doDecompressData get CORRUPTED_DATA,
      getMaxCompressedDataSize = Multiple_max_size codecs,
      getAdditionalSizeAtTheEndOfBuffer = 0,
      decompression_error_code = CORRUPTED_DATA\<rparr>"

definition getCodecsBytesFromData :: "byte list \<Rightarrow> byte list" where
  "getCodecsBytesFromData source = map (\<lambda>i. source ! (1 + i)) [0..<unat (hd source)]"

section \<open>Decoding inverts encoding\<close>

text \<open>
  What a chain needs at each link: the factory has a codec with the same method whose decoder
  inverts the encoder on the data at this point, and the sizes stay below the limit.
\<close>

fun chain_ok :: "(byte \<Rightarrow> codec result) \<Rightarrow> codec list \<Rightarrow> byte list \<Rightarrow> bool" where
  "chain_ok get [] buf \<longleftrightarrow> length buf < ONE_GIB"
| "chain_ok get (c # cs) buf \<longleftrightarrow>
     (\<exists>d z. get (getMethodByte c) = Inr d \<and> getMethodByte d = getMethodByte c
        \<and> doCompressData c buf = Inr z \<and> doDecompressData d z (length buf) = Inr buf
        \<and> buf \<noteq> [] \<and> length buf + getAdditionalSizeAtTheEndOfBuffer d < ONE_GIB
        \<and> chain_ok get cs (block_of (getMethodByte c) (length buf) z))"

lemma chain_step:
  assumes "get m = Inr d" and "getMethodByte d = m" and "doDecompressData d z (length src) = Inr src"
    and "src \<noteq> []" and "length src + getAdditionalSizeAtTheEndOfBuffer d < ONE_GIB"
    and "bsize < ONE_GIB" and "ms \<noteq> [] \<or> length src = final"
  shows "chain_decompress get err final (m # ms) (block_of m (length src) z) bsize =
    chain_decompress get err final ms src (length src + getAdditionalSizeAtTheEndOfBuffer d)"
proof -
  have small: "length src < 2 ^ 32" "length src + getAdditionalSizeAtTheEndOfBuffer d < 2 ^ 32"
    "bsize mod 2 ^ 32 + getAdditionalSizeAtTheEndOfBuffer d < 2 ^ 32" "length src < ONE_GIB"
    using assms(5,6) by (simp_all add: ONE_GIB_def)
  have "readDecompressedBlockSize err (block_of m (length src) z) = Inr (length src)"
    using assms(4) small(1) by (simp add: readDecompressedBlockSize_block)
  moreover have "codec_decompress d (block_of m (length src) z) = Inr src"
    using codec_block_roundtrip(2) [where c = "d\<lparr>doCompressData := \<lambda>_. Inr z\<rparr>" and d = d and src = src
        and z = z] assms(2-4) small(1) by simp
  moreover have "\<not> (ms = [] \<and> length src \<noteq> final)"
    using assms(7) by blast
  ultimately show ?thesis
    using assms(1,6) small by (simp add: Let_def not_le [symmetric])
qed

lemma chain_roundtrip:
  assumes "chain_ok get cs src"
  shows "\<exists>z. chain_compress cs src = Inr z \<and> length z < ONE_GIB
    \<and> (\<forall>ms bsize. (ms \<noteq> [] \<or> length src = final) \<and> bsize < ONE_GIB \<longrightarrow>
        (\<exists>bsize' < ONE_GIB. chain_decompress get err final (rev (map getMethodByte cs) @ ms) z bsize
            = chain_decompress get err final ms src bsize'))"
  using assms
proof (induction cs arbitrary: src)
  case Nil
  then show ?case by auto
next
  case (Cons c cs)
  obtain d y where link: "get (getMethodByte c) = Inr d" "getMethodByte d = getMethodByte c"
    "doCompressData c src = Inr y" "doDecompressData d y (length src) = Inr src" "src \<noteq> []"
    "length src + getAdditionalSizeAtTheEndOfBuffer d < ONE_GIB"
    and ok: "chain_ok get cs (block_of (getMethodByte c) (length src) y)"
    using Cons.prems by auto
  let ?blk = "block_of (getMethodByte c) (length src) y"
  have big: "length src < 2 ^ 32"
    using link(6) by (simp add: ONE_GIB_def)
  obtain z where z: "chain_compress cs ?blk = Inr z" "length z < ONE_GIB"
    and undo: "\<And>ms bsize. ms \<noteq> [] \<Longrightarrow> bsize < ONE_GIB \<Longrightarrow>
      \<exists>bsize' < ONE_GIB. chain_decompress get err final (rev (map getMethodByte cs) @ ms) z bsize
        = chain_decompress get err final ms ?blk bsize'"
    using Cons.IH [OF ok] by blast
  have "codec_compress c src = Inr ?blk"
    by (rule codec_block_roundtrip(1) [OF link(3,4,2,5) big])
  then have "chain_compress (c # cs) src = Inr z"
    using z(1) by simp
  moreover have "\<exists>bsize' < ONE_GIB. chain_decompress get err final (rev (map getMethodByte (c # cs)) @ ms) z bsize
      = chain_decompress get err final ms src bsize'"
    if ms: "ms \<noteq> [] \<or> length src = final" and bsize: "bsize < ONE_GIB" for ms bsize
  proof -
    obtain size1 where s1: "size1 < ONE_GIB"
      "chain_decompress get err final (rev (map getMethodByte cs) @ getMethodByte c # ms) z bsize
        = chain_decompress get err final (getMethodByte c # ms) ?blk size1"
      using undo [of "getMethodByte c # ms" bsize] bsize by blast
    moreover have "chain_decompress get err final (getMethodByte c # ms) ?blk size1
        = chain_decompress get err final ms src (length src + getAdditionalSizeAtTheEndOfBuffer d)"
      by (rule chain_step [where get = get]) (use link s1(1) ms in simp_all)
    ultimately show ?thesis
      using link(6) by (intro exI [of _ "length src + getAdditionalSizeAtTheEndOfBuffer d"]) simp
  qed
  ultimately show ?case
    using z(2) by blast
qed

lemma Multiple_roundtrip:
  assumes "chain_ok get cs src" and "cs \<noteq> []" and "length cs \<le> 255"
  obtains data where "Multiple_doCompressData cs src = Inr data"
    "Multiple_doDecompressData get err data (length src) = Inr src"
proof -
  obtain z where z: "chain_compress cs src = Inr z" "length z < ONE_GIB"
    and "\<forall>ms bsize. (ms \<noteq> [] \<or> length src = length src) \<and> bsize < ONE_GIB \<longrightarrow>
        (\<exists>bsize' < ONE_GIB. chain_decompress get err (length src) (rev (map getMethodByte cs) @ ms) z bsize
            = chain_decompress get err (length src) ms src bsize')"
    using chain_roundtrip [OF assms(1), of "length src" err] by blast
  then have undo: "chain_decompress get err (length src) (rev (map getMethodByte cs)) z (length z) = Inr src"
    by (metis append_Nil2 chain_decompress.simps(1))
  let ?data = "word_of_nat (length cs) # map getMethodByte cs @ z"
  have n: "unat (word_of_nat (length cs) :: byte) = length cs"
    using assms(3) by (simp add: unat_of_nat take_bit_nat_eq_self)
  then have nz: "(word_of_nat (length cs) :: byte) \<noteq> 0"
    using assms(2) by (metis length_0_conv unat_0)
  have "Multiple_doCompressData cs src = Inr ?data"
    using z(1) by (simp add: Multiple_doCompressData_def)
  moreover have "Multiple_doDecompressData get err ?data (length src) = Inr src"
    using undo n nz by (simp add: Multiple_doDecompressData_def Let_def)
  ultimately show ?thesis
    using that by blast
qed

section \<open>Chains of the modelled codecs\<close>

definition simple_codecs :: "(int \<Rightarrow> int \<Rightarrow> int) \<Rightarrow> (int \<Rightarrow> int \<Rightarrow> int) \<Rightarrow> codec set" where
  "simple_codecs gcd_fn div_fn =
     {CompressionCodecNone} \<union> CompressionCodecDelta ` delta_sizes
     \<union> CompressionCodecGCD gcd_fn div_fn ` gcd_sizes"

lemma methods_distinct [simp]:
  "METHOD_NONE \<noteq> METHOD_DELTA" "METHOD_NONE \<noteq> METHOD_GCD" "METHOD_DELTA \<noteq> METHOD_GCD"
  "METHOD_DELTA \<noteq> METHOD_NONE" "METHOD_GCD \<noteq> METHOD_NONE" "METHOD_GCD \<noteq> METHOD_DELTA"
  by (simp_all add: METHOD_NONE_def METHOD_DELTA_def METHOD_GCD_def)

lemma simple_codec_link:
  assumes c: "c \<in> simple_codecs gcd_fn div_fn" and fns: "is_gcd_fn gcd_fn" "is_divide_fn div_fn"
    and src: "src \<noteq> []" "length src + 34 < 2 ^ 32"
  obtains d z where "factory_get gcd_fn div_fn other (getMethodByte c) = Inr d"
    "getMethodByte d = getMethodByte c" "doCompressData c src = Inr z"
    "doDecompressData d z (length src) = Inr src" "length z \<le> length src + 34"
    "getAdditionalSizeAtTheEndOfBuffer d = 0"
proof -
  consider "c = CompressionCodecNone" | k where "k \<in> delta_sizes" "c = CompressionCodecDelta k"
    | k where "k \<in> gcd_sizes" "c = CompressionCodecGCD gcd_fn div_fn k"
    using c by (auto simp: simple_codecs_def)
  then show thesis
  proof cases
    case 1
    then show thesis
      by (intro that [of CompressionCodecNone src])
        (simp_all add: CompressionCodecNone_def factory_get_def None_doCompressData_def
          None_doDecompressData_def)
  next
    case (2 k)
    obtain z where "Delta_doCompressData k src = Inr z" "Delta_doDecompressData z (length src) = Inr src"
      "length z \<le> (length src + 2) mod 2 ^ 32"
      using delta.compresses [of k src] 2(1) src by auto
    then show thesis
      using src(2)
      by (intro that [of "CompressionCodecDelta 1" z])
        (simp_all add: 2 factory_get_def delta_codec_builder_def CompressionCodecDelta_def)
  next
    case (3 k)
    obtain z where "GCD_doCompressData gcd_fn div_fn k src = Inr z"
      "GCD_doDecompressData z (length src) = Inr src" "length z \<le> gcd_max_size k (length src)"
      using gcd.compresses [of k src gcd_fn div_fn] 3(1) src fns by auto
    moreover have "k \<le> 32"
      using 3(1) by (auto simp: gcd_sizes_def)
    ultimately show thesis
      using src(2)
      by (intro that [of "CompressionCodecGCD gcd_fn div_fn 1" z])
        (simp_all add: 3 gcd_max_size_def factory_get_def gcd_codec_builder_def CompressionCodecGCD_def)
  qed
qed

lemma simple_chain_ok:
  assumes "set cs \<subseteq> simple_codecs gcd_fn div_fn" and fns: "is_gcd_fn gcd_fn" "is_divide_fn div_fn"
    and "src \<noteq> []" and "length src + 43 * length cs < ONE_GIB"
  shows "chain_ok (factory_get gcd_fn div_fn other) cs src"
  using assms(1,4,5)
proof (induction cs arbitrary: src)
  case (Cons c cs)
  have c: "c \<in> simple_codecs gcd_fn div_fn"
    using Cons.prems(1) by simp
  have "length src + 34 < 2 ^ 32"
    using Cons.prems(3) by (simp add: ONE_GIB_def)
  then obtain d z where link: "factory_get gcd_fn div_fn other (getMethodByte c) = Inr d"
    "getMethodByte d = getMethodByte c" "doCompressData c src = Inr z"
    "doDecompressData d z (length src) = Inr src" "length z \<le> length src + 34"
    "getAdditionalSizeAtTheEndOfBuffer d = 0"
    by (rule simple_codec_link [OF c fns Cons.prems(2)])
  let ?blk = "block_of (getMethodByte c) (length src) z"
  have "chain_ok (factory_get gcd_fn div_fn other) cs ?blk"
  proof (rule Cons.IH)
    show "?blk \<noteq> []"
      by (simp add: block_of_def)
    show "length ?blk + 43 * length cs < ONE_GIB"
      using Cons.prems(3) link(5) by (simp add: COMPRESSED_BLOCK_HEADER_SIZE_def)
  qed (use Cons.prems(1) in simp)
  then show ?case
    using link Cons.prems(2,3) by auto
qed simp

section \<open>Properties\<close>

text \<open>C5: Chains of codecs are lossless: for any chain of one to 255 of the codecs NONE, Delta (with any
  word size) and GCD (with any word size) and any non-empty input that stays below one gibibyte with
  the headers, the block that the chain writes is decoded to the input by a Multiple codec that knows
  nothing but the method bytes in the data, given that the library computes greatest common divisors
  and quotients.\<close>

theorem codec_chain_lossless:
  assumes "is_gcd_fn gcd_fn" and "is_divide_fn div_fn"
    and "set cs \<subseteq> simple_codecs gcd_fn div_fn" and "cs \<noteq> []" and "length cs \<le> 255"
    and "src \<noteq> []" and "length src + 43 * length cs < ONE_GIB"
  shows "\<exists>blk. codec_compress (CompressionCodecMultiple get cs) src = Inr blk
    \<and> codec_decompress (CompressionCodecMultiple (factory_get gcd_fn div_fn other) []) blk = Inr src"
proof -
  obtain data where "Multiple_doCompressData cs src = Inr data"
    "Multiple_doDecompressData (factory_get gcd_fn div_fn other) CORRUPTED_DATA data (length src) = Inr src"
    using Multiple_roundtrip [OF simple_chain_ok [OF assms(3,1,2,6,7)] assms(4,5)] by blast
  moreover have "length src < 2 ^ 32"
    using assms(7) by (simp add: ONE_GIB_def)
  ultimately show ?thesis
    using codec_block_roundtrip [of "CompressionCodecMultiple get cs" src data
        "CompressionCodecMultiple (factory_get gcd_fn div_fn other) []"] assms(6)
    by (auto simp: CompressionCodecMultiple_def)
qed

theorem codec_chain_lossless_witness:
  "\<exists>blk. codec_compress (CompressionCodecMultiple (\<lambda>_. Inl UNKNOWN_CODEC) [CompressionCodecDelta 2, CompressionCodecGCD gcd (div) 4])
       [1, 2, 3] = Inr blk
    \<and> codec_decompress (CompressionCodecMultiple (factory_get gcd (div) (\<lambda>_. None)) []) blk = Inr [1, 2, 3]"
  by (rule codec_chain_lossless)
    (simp_all add: is_gcd_fn_def is_divide_fn_def simple_codecs_def delta_sizes_def gcd_sizes_def
      ONE_GIB_def)

text \<open>C27: Decoders are safe on arbitrary bytes: the Delta and GCD decoders never produce more bytes than the
  announced size, and a block is decoded successfully only to exactly the size in its header.\<close>

theorem decoders_respect_size:
  "(Delta_doDecompressData source n = Inr out \<longrightarrow> length out \<le> n)
   \<and> (GCD_doDecompressData source n = Inr out \<longrightarrow> length out \<le> n)
   \<and> (codec_decompress c source = Inr out \<longrightarrow>
        readDecompressedBlockSize (decompression_error_code c) source = Inr (length out)
        \<and> readMethod source = getMethodByte c)"
  using Delta_doDecompressData_bound GCD_doDecompressData_bound
  by (auto simp: codec_decompress_def res_Inr_iff split: if_splits)

theorem decoders_respect_size_witness:
  "Delta_doDecompressData [1, 0, 5, 1] 2 = Inr [5, 6] \<and> length [5, 6 :: byte] \<le> 2"
proof -
  have "Delta_doDecompressData [1, 0, 5, 1] 2 = Inr [5, 6]"
    by (simp add: Delta_doDecompressData_def delta_sizes_def delta_decompressDataForType_def
        load_words.simps Let_def)
  then show ?thesis
    using decoders_respect_size [of "[1, 0, 5, 1]" 2 "[5, 6]"] by blast
qed

end
