(* ===== verification/Cache_Policy.thy ===== *)
theory Cache_Policy
  imports Chdb_Prelude "HOL-Library.AList"
begin

text \<open>
  The interface of the cache eviction policies, \<^verbatim>\<open>src/src/Common/ICachePolicy.h\<close>: the operations as a
  record, the laws a client relies on as locales, and what follows for a sequence of operations.
  A \<^verbatim>\<open>std::shared_ptr\<close> to a value is an option (the null pointer is \<open>None\<close>), a \<^verbatim>\<open>size_t\<close> that counts bytes a
  64-bit word, a \<^verbatim>\<open>std::unordered_map\<close> an association list with distinct keys, whose order stands for
  the unspecified order of iteration.
\<close>

section \<open>Cells by key\<close>

definition EqualWeightFunction :: "'v \<Rightarrow> 64 word" where
  "EqualWeightFunction mapped = 1"

definition value_weight :: "('v \<Rightarrow> 64 word) \<Rightarrow> 'v option \<Rightarrow> 64 word" where
  "value_weight weight mapped = (case mapped of None \<Rightarrow> 0 | Some v \<Rightarrow> weight v)"

definition cells_sum :: "('c \<Rightarrow> 'n::comm_monoid_add) \<Rightarrow> ('k \<times> 'c) list \<Rightarrow> 'n" where
  "cells_sum f cs = sum_list (map (\<lambda>(k, c). f c) cs)"

named_theorems cell_simps \<open>cells of a hash map after an update\<close>

lemma cells_sum_simps [simp]:
  "cells_sum f [] = 0"
  "cells_sum f ((k, c) # cs) = f c + cells_sum f cs"
  "cells_sum f (cs @ ds) = cells_sum f cs + cells_sum f ds"
  by (simp_all add: cells_sum_def)

lemma cells_sum_delete:
  assumes "distinct (map fst cs)" and "map_of cs k = Some c"
  shows "cells_sum f (AList.delete k cs) + f c = cells_sum f cs"
  using assms
proof (induction cs)
  case (Cons e cs)
  obtain k' c' where e: "e = (k', c')"
    by fastforce
  show ?case
  proof (cases "k' = k")
    case True
    then have "AList.delete k cs = cs"
      using Cons.prems(1) e by (simp add: delete_id)
    then show ?thesis
      using True Cons.prems(2) e by (simp add: add.commute)
  next
    case False
    then show ?thesis
      using Cons e by (simp add: add.assoc)
  qed
qed simp

lemma cells_sum_update:
  assumes "distinct (map fst cs)" and "map_of cs k = Some c"
  shows "cells_sum f (AList.update k d cs) + f c = cells_sum f cs + f d"
  using assms
proof (induction cs)
  case (Cons e cs)
  obtain k' c' where e: "e = (k', c')"
    by fastforce
  show ?case
  proof (cases "k' = k")
    case True
    then show ?thesis
      using Cons.prems(2) e by (simp add: ac_simps)
  next
    case False
    then show ?thesis
      using Cons e by (simp add: add.assoc)
  qed
qed simp

lemma cells_sum_update_new:
  "map_of cs k = None \<Longrightarrow> cells_sum f (AList.update k d cs) = cells_sum f cs + f d"
  by (induction cs) (auto simp: ac_simps split: if_splits)

lemma cells_map_of [cell_simps]:
  "map_of (AList.delete k cs) = (map_of cs)(k := None)"
  "map_of (AList.update k c cs) = (map_of cs)(k \<mapsto> c)"
  by (simp_all add: delete_conv' update_conv')

lemma cells_distinct [cell_simps]:
  "distinct (map fst cs) \<Longrightarrow> distinct (map fst (AList.delete k cs))"
  "distinct (map fst cs) \<Longrightarrow> distinct (map fst (AList.update k c cs))"
  by (simp_all add: distinct_delete distinct_update)

lemma cells_keys [cell_simps]:
  "fst ` set (AList.delete k cs) = fst ` set cs - {k}"
  "fst ` set (AList.update k c cs) = insert k (fst ` set cs)"
  by (simp_all add: delete_keys flip: dom_map_of_conv_image_fst)
     (simp_all add: cells_map_of dom_map_of_conv_image_fst)

lemma length_cells_delete:
  assumes "distinct (map fst cs)" and "k \<in> fst ` set cs"
  shows "Suc (length (AList.delete k cs)) = length cs"
proof -
  have "length (AList.delete k cs) = card (fst ` set (AList.delete k cs))"
    using assms(1) by (metis cells_distinct(1) distinct_card length_map set_map)
  also have "\<dots> = card (fst ` set cs) - 1"
    using assms(2) by (simp add: cells_keys)
  also have "card (fst ` set cs) = length cs"
    using assms(1) by (metis distinct_card length_map set_map)
  finally show ?thesis
    using assms(2) by (cases cs) auto
qed

lemma length_cells_update:
  "distinct (map fst cs) \<Longrightarrow>
   length (AList.update k c cs) = (if k \<in> fst ` set cs then length cs else Suc (length cs))"
  by (induction cs) auto

lemma unat_cells_sum:
  fixes f :: "'c \<Rightarrow> 64 word" and cs :: "('k \<times> 'c) list"
  assumes "cells_sum (\<lambda>c. unat (f c)) cs < 2 ^ 64"
  shows "unat (cells_sum f cs) = cells_sum (\<lambda>c. unat (f c)) cs"
proof -
  have "cells_sum f cs = word_of_nat (cells_sum (\<lambda>c. unat (f c)) cs)" for cs :: "('k \<times> 'c) list"
    by (induction cs) auto
  then show ?thesis
    using assms by (simp add: unat_of_nat take_bit_nat_eq_self)
qed


text \<open>The cells in the order of a queue of their keys.\<close>

definition queue_view :: "('k \<times> 'c) list \<Rightarrow> 'k list \<Rightarrow> ('k \<times> 'c) list" where
  "queue_view cs q = map (\<lambda>k. (k, the (map_of cs k))) q"

definition queue_ok :: "('k \<times> 'c) list \<Rightarrow> 'k list \<Rightarrow> bool" where
  "queue_ok cs q \<longleftrightarrow> distinct (map fst cs) \<and> distinct q \<and> set q = fst ` set cs"

lemma queue_view_simps [simp]:
  "queue_view cs [] = []"
  "queue_view cs (k # q) = (k, the (map_of cs k)) # queue_view cs q"
  "queue_view cs (q @ r) = queue_view cs q @ queue_view cs r"
  "length (queue_view cs q) = length q"
  "map fst (queue_view cs q) = q"
  by (simp_all add: queue_view_def comp_def)

lemma queue_view_cong:
  "(\<And>k. k \<in> set q \<Longrightarrow> map_of cs k = map_of ds k) \<Longrightarrow> queue_view cs q = queue_view ds q"
  by (simp add: queue_view_def)

lemma filter_queue_view:
  "filter (\<lambda>e. P (fst e)) (queue_view cs q) = queue_view cs (filter P q)"
  by (simp add: queue_view_def filter_map comp_def)

lemma queue_view_set: "queue_ok cs q \<Longrightarrow> set (queue_view cs q) = set cs"
  by (force simp: queue_ok_def queue_view_def)

lemma cells_sum_as_sum:
  assumes "distinct (map fst cs)"
  shows "cells_sum f cs = (\<Sum>(k, c) \<in> set cs. f c)"
proof -
  have "distinct cs"
    using assms by (simp add: distinct_map)
  then show ?thesis
    by (simp add: cells_sum_def sum_list_distinct_conv_sum_set)
qed

lemma queue_view_sum:
  assumes "queue_ok cs q"
  shows "cells_sum f (queue_view cs q) = cells_sum f cs"
proof -
  have "distinct (map fst (queue_view cs q))" "distinct (map fst cs)"
    using assms by (simp_all add: queue_ok_def)
  then show ?thesis
    using queue_view_set [OF assms] by (simp add: cells_sum_as_sum)
qed

lemma queue_view_map_of:
  assumes "queue_ok cs q"
  shows "map_of (queue_view cs q) = map_of cs"
proof (rule map_of_inject_set [THEN iffD2])
  show "distinct (map fst (queue_view cs q))" "distinct (map fst cs)"
    using assms by (simp_all add: queue_ok_def)
qed (rule queue_view_set [OF assms])

lemma queue_ok_length:
  assumes "queue_ok cs q"
  shows "length q = length cs"
  using assms by (metis distinct_card length_map queue_ok_def set_map)

lemma queue_ok_drop:
  assumes "queue_ok cs q"
  shows "queue_ok (AList.delete k cs) (remove1 k q)"
    and "queue_view (AList.delete k cs) (remove1 k q) = filter (\<lambda>e. fst e \<noteq> k) (queue_view cs q)"
proof -
  have q: "remove1 k q = filter (\<lambda>x. x \<noteq> k) q"
    using assms by (simp add: queue_ok_def distinct_remove1_removeAll removeAll_filter_not_eq)
      (rule filter_cong; auto)
  show "queue_ok (AList.delete k cs) (remove1 k q)"
    using assms by (auto simp: queue_ok_def q cell_simps)
  show "queue_view (AList.delete k cs) (remove1 k q) = filter (\<lambda>e. fst e \<noteq> k) (queue_view cs q)"
    unfolding q filter_queue_view [of "\<lambda>x. x \<noteq> k"] by (rule queue_view_cong) (auto simp: cell_simps)
qed

definition use_entry :: "'k \<Rightarrow> ('k \<times> 'c) list \<Rightarrow> ('k \<times> 'c) list" where
  "use_entry k l = filter (\<lambda>e. fst e \<noteq> k) l @ filter (\<lambda>e. fst e = k) l"

lemma filter_one: "distinct q \<Longrightarrow> k \<in> set q \<Longrightarrow> filter (\<lambda>x. x = k) q = [k]"
  by (induction q) (auto simp: filter_empty_conv)

lemma use_entry_absent: "map_of l k = None \<Longrightarrow> use_entry k l = l"
  by (induction l) (auto simp: use_entry_def split: if_splits)

lemma queue_ok_use:
  assumes "queue_ok cs q" and "map_of cs k = Some c"
  shows "queue_ok cs (remove1 k q @ [k])"
    and "queue_view cs (remove1 k q @ [k]) = use_entry k (queue_view cs q)"
proof -
  have q: "remove1 k q = filter (\<lambda>x. x \<noteq> k) q"
    using assms(1) by (simp add: queue_ok_def distinct_remove1_removeAll removeAll_filter_not_eq)
      (rule filter_cong; auto)
  have k: "k \<in> fst ` set cs"
    using assms(2) by (metis map_of_eq_None_iff option.distinct(1))
  then show "queue_ok cs (remove1 k q @ [k])"
    using assms(1) by (auto simp: queue_ok_def q)
  have "filter (\<lambda>x. x = k) q = [k]"
    using assms(1) k by (intro filter_one) (auto simp: queue_ok_def)
  then show "queue_view cs (remove1 k q @ [k]) = use_entry k (queue_view cs q)"
    by (simp add: use_entry_def q filter_queue_view [of "\<lambda>x. x \<noteq> k"] filter_queue_view [of "\<lambda>x. x = k"])
qed

lemma queue_ok_insert:
  assumes "queue_ok cs q"
  shows "queue_ok (AList.update k c cs) (remove1 k q @ [k])"
    and "queue_view (AList.update k c cs) (remove1 k q @ [k]) = filter (\<lambda>e. fst e \<noteq> k) (queue_view cs q) @ [(k, c)]"
proof -
  have q: "remove1 k q = filter (\<lambda>x. x \<noteq> k) q"
    using assms by (simp add: queue_ok_def distinct_remove1_removeAll removeAll_filter_not_eq)
      (rule filter_cong; auto)
  show "queue_ok (AList.update k c cs) (remove1 k q @ [k])"
    using assms by (auto simp: queue_ok_def q cell_simps)
  have "queue_view (AList.update k c cs) (filter (\<lambda>x. x \<noteq> k) q) = queue_view cs (filter (\<lambda>x. x \<noteq> k) q)"
    by (rule queue_view_cong) (simp add: cell_simps)
  then show "queue_view (AList.update k c cs) (remove1 k q @ [k]) = filter (\<lambda>e. fst e \<noteq> k) (queue_view cs q) @ [(k, c)]"
    by (simp add: q filter_queue_view [of "\<lambda>x. x \<noteq> k"] cell_simps)
qed

lemma set_update_subset: "set (AList.update k c cs) \<subseteq> insert (k, c) (set cs)"
  by (induction cs) auto

lemma map_eqI: "(\<And>k v. m k = Some v \<longleftrightarrow> m' k = Some v) \<Longrightarrow> m = m'"
  by (rule ext) (metis not_None_eq)

lemma map_le_iff_Some: "m \<subseteq>\<^sub>m m' \<longleftrightarrow> (\<forall>k v. m k = Some v \<longrightarrow> m' k = Some v)"
  by (auto simp: map_le_def dom_def)

lemma set_use_entry: "set (use_entry k l) = set l"
  by (auto simp: use_entry_def)

section \<open>The policy interface\<close>

text \<open>
  The virtual functions of \<^verbatim>\<open>ICachePolicy\<close>.  An operation that can reach \<^verbatim>\<open>std::terminate\<close> returns a
  result.
\<close>

record ('s, 'k, 'v) policy =
  policy_sizeInBytes :: "'s \<Rightarrow> 64 word"
  policy_count :: "'s \<Rightarrow> nat"
  policy_maxSizeInBytes :: "'s \<Rightarrow> 64 word"
  policy_maxCount :: "'s \<Rightarrow> nat"
  policy_setMaxCount :: "nat \<Rightarrow> 's \<Rightarrow> 's result"
  policy_setMaxSizeInBytes :: "64 word \<Rightarrow> 's \<Rightarrow> 's result"
  policy_get :: "'k \<Rightarrow> 's \<Rightarrow> ('v option \<times> 's) result"
  policy_getWithKey :: "'k \<Rightarrow> 's \<Rightarrow> (('k \<times> 'v option) option \<times> 's) result"
  policy_contains :: "'k \<Rightarrow> 's \<Rightarrow> bool"
  policy_set :: "'k \<Rightarrow> 'v option \<Rightarrow> 's \<Rightarrow> 's result"
  policy_remove :: "'k \<Rightarrow> 's \<Rightarrow> 's"
  policy_remove_if :: "('k \<Rightarrow> 'v option \<Rightarrow> bool) \<Rightarrow> 's \<Rightarrow> 's"
  policy_clear :: "'s \<Rightarrow> 's"
  policy_dump :: "'s \<Rightarrow> ('k \<times> 'v option) list"

text \<open>What a policy promises: \<open>entries s\<close> is the finite map a state stands for.\<close>

definition without_if :: "('k \<Rightarrow> 'v \<Rightarrow> bool) \<Rightarrow> ('k \<rightharpoonup> 'v) \<Rightarrow> ('k \<rightharpoonup> 'v)" where
  "without_if p m = (\<lambda>k. case m k of None \<Rightarrow> None | Some v \<Rightarrow> if p k v then None else Some v)"

lemma without_if_Some: "without_if p m k = Some v \<longleftrightarrow> m k = Some v \<and> \<not> p k v"
  by (auto simp: without_if_def split: option.split)

locale cache_policy =
  fixes pol :: "('s, 'k, 'v) policy"
    and valid :: "'s \<Rightarrow> bool"
    and entries :: "'s \<Rightarrow> 'k \<rightharpoonup> 'v option"
    and value_ok :: "'v option \<Rightarrow> bool"
    and size_ok :: "64 word \<Rightarrow> bool"
  assumes finite_entries: "valid s \<Longrightarrow> finite (dom (entries s))"
    and get_law: "valid s \<Longrightarrow> \<exists>s'. policy_get pol k s = Inr (Option.bind (entries s k) id, s')
        \<and> valid s' \<and> entries s' = entries s"
    and getWithKey_law: "valid s \<Longrightarrow> \<exists>s'. policy_getWithKey pol k s = Inr (map_option (Pair k) (entries s k), s')
        \<and> valid s' \<and> entries s' = entries s"
    and contains_law: "valid s \<Longrightarrow> policy_contains pol k s \<longleftrightarrow> k \<in> dom (entries s)"
    and set_law: "valid s \<Longrightarrow> value_ok v \<Longrightarrow> \<exists>s'. policy_set pol k v s = Inr s'
        \<and> valid s' \<and> (entries s' \<subseteq>\<^sub>m (entries s)(k \<mapsto> v) \<or> entries s' \<subseteq>\<^sub>m entries s)"
    and remove_law: "valid s \<Longrightarrow> valid (policy_remove pol k s)
        \<and> entries (policy_remove pol k s) = (entries s)(k := None)"
    and remove_if_law: "valid s \<Longrightarrow> valid (policy_remove_if pol p s)
        \<and> entries (policy_remove_if pol p s) = without_if p (entries s)"
    and clear_law: "valid s \<Longrightarrow> valid (policy_clear pol s) \<and> entries (policy_clear pol s) = Map.empty"
    and dump_law: "valid s \<Longrightarrow> set (policy_dump pol s) = {(k, v). entries s k = Some v}
        \<and> length (policy_dump pol s) = policy_count pol s"
    and setMaxCount_law: "valid s \<Longrightarrow> \<exists>s'. policy_setMaxCount pol n s = Inr s'
        \<and> valid s' \<and> entries s' \<subseteq>\<^sub>m entries s"
    and setMaxSizeInBytes_law: "valid s \<Longrightarrow> size_ok w \<Longrightarrow> \<exists>s'. policy_setMaxSizeInBytes pol w s = Inr s'
        \<and> valid s' \<and> entries s' \<subseteq>\<^sub>m entries s"

text \<open>A policy that always replaces the old value of a key, or forgets it.\<close>

locale replacing_policy = cache_policy +
  assumes set_replaces: "valid s \<Longrightarrow> value_ok v \<Longrightarrow> policy_set pol k v s = Inr s' \<Longrightarrow>
        entries s' \<subseteq>\<^sub>m (entries s)(k \<mapsto> v)"

section \<open>Sequences of operations\<close>

datatype ('k, 'v) cache_op =
    Get 'k
  | GetWithKey 'k
  | Contains 'k
  | Put 'k "'v option"
  | Remove 'k
  | RemoveIf "'k \<Rightarrow> 'v option \<Rightarrow> bool"
  | Clear
  | SetMaxCount nat
  | SetMaxSizeInBytes "64 word"
  | Count
  | SizeInBytes

datatype ('k, 'v) cache_out =
    Value "'v option"
  | KeyMapped "('k \<times> 'v option) option"
  | Found bool
  | Number nat
  | Done

definition policy_step :: "('s, 'k, 'v) policy \<Rightarrow> ('k, 'v) cache_op \<Rightarrow> 's \<Rightarrow> (('k, 'v) cache_out \<times> 's) result" where
  "policy_step pol oper s =
     (case oper of
        Get k \<Rightarrow> res_map (map_prod Value id) (policy_get pol k s)
      | GetWithKey k \<Rightarrow> res_map (map_prod KeyMapped id) (policy_getWithKey pol k s)
      | Contains k \<Rightarrow> Inr (Found (policy_contains pol k s), s)
      | Put k v \<Rightarrow> res_map (Pair Done) (policy_set pol k v s)
      | Remove k \<Rightarrow> Inr (Done, policy_remove pol k s)
      | RemoveIf p \<Rightarrow> Inr (Done, policy_remove_if pol p s)
      | Clear \<Rightarrow> Inr (Done, policy_clear pol s)
      | SetMaxCount n \<Rightarrow> res_map (Pair Done) (policy_setMaxCount pol n s)
      | SetMaxSizeInBytes n \<Rightarrow> res_map (Pair Done) (policy_setMaxSizeInBytes pol n s)
      | Count \<Rightarrow> Inr (Number (policy_count pol s), s)
      | SizeInBytes \<Rightarrow> Inr (Number (unat (policy_sizeInBytes pol s)), s))"

fun policy_run :: "('s, 'k, 'v) policy \<Rightarrow> ('k, 'v) cache_op list \<Rightarrow> 's \<Rightarrow> (('k, 'v) cache_out list \<times> 's) result" where
  "policy_run pol [] s = Inr ([], s)"
| "policy_run pol (oper # ops) s =
     res_bind (policy_step pol oper s) (\<lambda>(out, s').
       res_map (map_prod (Cons out) id) (policy_run pol ops s'))"

text \<open>The operations a client may use: values and limits that the policy accepts.\<close>

definition op_ok :: "('v option \<Rightarrow> bool) \<Rightarrow> (64 word \<Rightarrow> bool) \<Rightarrow> ('k, 'v) cache_op \<Rightarrow> bool" where
  "op_ok value_ok size_ok oper =
     (case oper of Put k v \<Rightarrow> value_ok v | SetMaxSizeInBytes n \<Rightarrow> size_ok n | _ \<Rightarrow> True)"

text \<open>The value a map of last writes has for each key after an operation.\<close>

fun last_write :: "('k, 'v) cache_op \<Rightarrow> ('k \<rightharpoonup> 'v option) \<Rightarrow> ('k \<rightharpoonup> 'v option)" where
  "last_write (Put k v) m = m(k \<mapsto> v)"
| "last_write (Remove k) m = m(k := None)"
| "last_write (RemoveIf p) m = without_if p m"
| "last_write Clear m = Map.empty"
| "last_write _ m = m"

end
