(* ===== verification/Cache_LRU.thy ===== *)
theory Cache_LRU
  imports Cache_Policy
begin

text \<open>
  The least-recently-used policy, \<^verbatim>\<open>src/src/Common/LRUCachePolicy.h\<close>.  The queue is a list of keys,
  oldest first; the iterator that a cell keeps into the queue is the position of its key, so a splice
  to the end removes the key and appends it.  The two metrics are the share of this cache in the global
  counters, and \<open>lru_removed\<close> lists the calls of the removal callback.
\<close>

section \<open>State and operations\<close>

record 'v lru_cell =
  lru_value :: "'v option"
  lru_cell_size :: "64 word"

record ('k, 'v) lru =
  lru_queue :: "'k list"
  lru_cells :: "('k \<times> 'v lru_cell) list"
  lru_size_in_bytes :: "64 word"
  lru_max_size_in_bytes :: "64 word"
  lru_max_count :: nat
  lru_size_metric :: "64 word"
  lru_count_metric :: "64 word"
  lru_removed :: "(64 word \<times> 'v option) list"

definition new_LRUCachePolicy :: "64 word \<Rightarrow> nat \<Rightarrow> ('k, 'v) lru" where
  "new_LRUCachePolicy max_size_in_bytes max_count =
     \<lparr>lru_queue = [], lru_cells = [], lru_size_in_bytes = 0, lru_max_size_in_bytes = max_size_in_bytes,
      lru_max_count = max_count, lru_size_metric = 0, lru_count_metric = 0, lru_removed = []\<rparr>"

definition lru_count :: "('k, 'v) lru \<Rightarrow> nat" where
  "lru_count s = length (lru_cells s)"

text \<open>The loop of \<^verbatim>\<open>removeOverflow\<close>; the first argument is \<^verbatim>\<open>queue_size\<close>.\<close>

fun lru_evict :: "nat \<Rightarrow> ('k, 'v) lru \<Rightarrow> ('k, 'v) lru result" where
  "lru_evict 0 s = Inr s"
| "lru_evict (Suc queue_size) s =
     (if lru_size_in_bytes s > lru_max_size_in_bytes s
         \<or> (lru_max_count s \<noteq> 0 \<and> Suc queue_size > lru_max_count s)
      then (case lru_queue s of
              [] \<Rightarrow> Inl OutOfRange
            | key # rest \<Rightarrow>
                (case map_of (lru_cells s) key of
                   None \<Rightarrow> Inl STD_TERMINATE
                 | Some cell \<Rightarrow>
                     lru_evict queue_size
                       (s\<lparr>lru_size_in_bytes := lru_size_in_bytes s - lru_cell_size cell,
                          lru_removed := lru_removed s @ [(lru_cell_size cell, lru_value cell)],
                          lru_cells := AList.delete key (lru_cells s),
                          lru_queue := rest\<rparr>)))
      else Inr s)"

definition lru_removeOverflow :: "('k, 'v) lru \<Rightarrow> ('k, 'v) lru result" where
  "lru_removeOverflow s =
     res_bind (lru_evict (length (lru_cells s)) s) (\<lambda>s'.
       if lru_size_in_bytes s' > 2 ^ 63 then Inl STD_TERMINATE
       else Inr (s'\<lparr>lru_size_metric := lru_size_metric s' - (lru_size_in_bytes s - lru_size_in_bytes s'),
                    lru_count_metric := lru_count_metric s'
                      - (word_of_nat (length (lru_cells s)) - word_of_nat (length (lru_cells s')))\<rparr>))"

definition lru_setMaxCount :: "nat \<Rightarrow> ('k, 'v) lru \<Rightarrow> ('k, 'v) lru result" where
  "lru_setMaxCount max_count s = lru_removeOverflow (s\<lparr>lru_max_count := max_count\<rparr>)"

definition lru_setMaxSizeInBytes :: "64 word \<Rightarrow> ('k, 'v) lru \<Rightarrow> ('k, 'v) lru result" where
  "lru_setMaxSizeInBytes max_size_in_bytes s =
     lru_removeOverflow (s\<lparr>lru_max_size_in_bytes := max_size_in_bytes\<rparr>)"

definition lru_clear :: "('k, 'v) lru \<Rightarrow> ('k, 'v) lru" where
  "lru_clear s = s\<lparr>lru_count_metric := lru_count_metric s - word_of_nat (length (lru_cells s)),
                   lru_size_metric := lru_size_metric s - lru_size_in_bytes s,
                   lru_queue := [], lru_cells := [], lru_size_in_bytes := 0\<rparr>"

definition lru_remove :: "'k \<Rightarrow> ('k, 'v) lru \<Rightarrow> ('k, 'v) lru" where
  "lru_remove key s =
     (case map_of (lru_cells s) key of
        None \<Rightarrow> s
      | Some cell \<Rightarrow>
          s\<lparr>lru_size_in_bytes := lru_size_in_bytes s - lru_cell_size cell,
            lru_size_metric := lru_size_metric s - lru_cell_size cell,
            lru_queue := remove1 key (lru_queue s),
            lru_cells := AList.delete key (lru_cells s),
            lru_count_metric := lru_count_metric s - 1\<rparr>)"

text \<open>The loop over the cells of the removal by predicate; the second argument is what is left to visit.\<close>

fun lru_remove_loop :: "('k \<Rightarrow> 'v option \<Rightarrow> bool) \<Rightarrow> ('k \<times> 'v lru_cell) list \<Rightarrow> ('k, 'v) lru \<Rightarrow> ('k, 'v) lru" where
  "lru_remove_loop p [] s = s"
| "lru_remove_loop p ((key, cell) # rest) s =
     (if p key (lru_value cell)
      then lru_remove_loop p rest
             (s\<lparr>lru_size_in_bytes := lru_size_in_bytes s - lru_cell_size cell,
                lru_queue := remove1 key (lru_queue s),
                lru_cells := AList.delete key (lru_cells s)\<rparr>)
      else lru_remove_loop p rest s)"

definition lru_remove_if :: "('k \<Rightarrow> 'v option \<Rightarrow> bool) \<Rightarrow> ('k, 'v) lru \<Rightarrow> ('k, 'v) lru" where
  "lru_remove_if p s =
     (let s' = lru_remove_loop p (lru_cells s) s
      in s'\<lparr>lru_size_metric := lru_size_metric s' - (lru_size_in_bytes s - lru_size_in_bytes s'),
            lru_count_metric := lru_count_metric s'
              - (word_of_nat (length (lru_cells s)) - word_of_nat (length (lru_cells s')))\<rparr>)"

definition lru_get :: "'k \<Rightarrow> ('k, 'v) lru \<Rightarrow> 'v option \<times> ('k, 'v) lru" where
  "lru_get key s =
     (case map_of (lru_cells s) key of
        None \<Rightarrow> (None, s)
      | Some cell \<Rightarrow> (lru_value cell, s\<lparr>lru_queue := remove1 key (lru_queue s) @ [key]\<rparr>))"

text \<open>Keys that the hash map takes for equal are equal here, so the stored key that \<^verbatim>\<open>getWithKey\<close> returns is
  the given one.\<close>

definition lru_getWithKey :: "'k \<Rightarrow> ('k, 'v) lru \<Rightarrow> ('k \<times> 'v option) option \<times> ('k, 'v) lru" where
  "lru_getWithKey key s =
     (case map_of (lru_cells s) key of
        None \<Rightarrow> (None, s)
      | Some cell \<Rightarrow> (Some (key, lru_value cell), s\<lparr>lru_queue := remove1 key (lru_queue s) @ [key]\<rparr>))"

definition lru_contains :: "'k \<Rightarrow> ('k, 'v) lru \<Rightarrow> bool" where
  "lru_contains key s \<longleftrightarrow> map_of (lru_cells s) key \<noteq> None"

definition lru_set :: "('v \<Rightarrow> 64 word) \<Rightarrow> 'k \<Rightarrow> 'v option \<Rightarrow> ('k, 'v) lru \<Rightarrow> ('k, 'v) lru result" where
  "lru_set weight_function key mapped s =
     (let s1 = (case map_of (lru_cells s) key of
                  None \<Rightarrow> s\<lparr>lru_queue := lru_queue s @ [key]\<rparr>
                | Some cell \<Rightarrow> s\<lparr>lru_size_in_bytes := lru_size_in_bytes s - lru_cell_size cell,
                                 lru_queue := remove1 key (lru_queue s) @ [key]\<rparr>);
          cell_size = value_weight weight_function mapped;
          s2 = s1\<lparr>lru_cells := AList.update key \<lparr>lru_value = mapped, lru_cell_size = cell_size\<rparr> (lru_cells s),
                  lru_size_in_bytes := lru_size_in_bytes s1 + cell_size\<rparr>
      in lru_removeOverflow
           (s2\<lparr>lru_size_metric := lru_size_metric s2 + (lru_size_in_bytes s2 - lru_size_in_bytes s),
               lru_count_metric := lru_count_metric s2
                 + (word_of_nat (length (lru_cells s2)) - word_of_nat (length (lru_cells s)))\<rparr>))"

definition lru_dump :: "('k, 'v) lru \<Rightarrow> ('k \<times> 'v option) list" where
  "lru_dump s = map (\<lambda>(key, cell). (key, lru_value cell)) (lru_cells s)"

definition LRUCachePolicy :: "('v \<Rightarrow> 64 word) \<Rightarrow> (('k, 'v) lru, 'k, 'v) policy" where
  "LRUCachePolicy weight_function =
     \<lparr>policy_sizeInBytes = lru_size_in_bytes, policy_count = lru_count,
      policy_maxSizeInBytes = lru_max_size_in_bytes, policy_maxCount = lru_max_count,
      policy_setMaxCount = lru_setMaxCount, policy_setMaxSizeInBytes = lru_setMaxSizeInBytes,
      policy_get = (\<lambda>key s. Inr (lru_get key s)), policy_getWithKey = (\<lambda>key s. Inr (lru_getWithKey key s)),
      policy_contains = lru_contains, policy_set = lru_set weight_function,
      policy_remove = lru_remove, policy_remove_if = lru_remove_if, policy_clear = lru_clear,
      policy_dump = lru_dump\<rparr>"

section \<open>Recency lists\<close>

text \<open>
  The contract of the policy: a list of entries, oldest use first; every use moves an entry to the end,
  and the oldest entries are dropped until the rest respects the limits.
\<close>

definition fits :: "nat \<Rightarrow> nat \<Rightarrow> ('k \<times> 'v lru_cell) list \<Rightarrow> bool" where
  "fits max_size max_count l \<longleftrightarrow>
     cells_sum (\<lambda>c. unat (lru_cell_size c)) l \<le> max_size \<and> (max_count = 0 \<or> length l \<le> max_count)"

fun keep_recent :: "nat \<Rightarrow> nat \<Rightarrow> ('k \<times> 'v lru_cell) list \<Rightarrow> ('k \<times> 'v lru_cell) list" where
  "keep_recent max_size max_count [] = []"
| "keep_recent max_size max_count (e # l) =
     (if fits max_size max_count (e # l) then e # l else keep_recent max_size max_count l)"

record ('k, 'v) recency =
  r_max_size :: "64 word"
  r_max_count :: nat
  r_list :: "('k \<times> 'v lru_cell) list"

definition r_shrink :: "('k, 'v) recency \<Rightarrow> ('k, 'v) recency" where
  "r_shrink r = r\<lparr>r_list := keep_recent (unat (r_max_size r)) (r_max_count r) (r_list r)\<rparr>"

definition recency_step :: "('v \<Rightarrow> 64 word) \<Rightarrow> ('k, 'v) cache_op \<Rightarrow> ('k, 'v) recency \<Rightarrow> ('k, 'v) cache_out \<times> ('k, 'v) recency" where
  "recency_step weight oper r =
     (case oper of
        Get k \<Rightarrow> (Value (Option.bind (map_of (r_list r) k) lru_value), r\<lparr>r_list := use_entry k (r_list r)\<rparr>)
      | GetWithKey k \<Rightarrow> (KeyMapped (map_option (\<lambda>c. (k, lru_value c)) (map_of (r_list r) k)),
          r\<lparr>r_list := use_entry k (r_list r)\<rparr>)
      | Contains k \<Rightarrow> (Found (k \<in> fst ` set (r_list r)), r)
      | Put k v \<Rightarrow> (Done, r_shrink (r\<lparr>r_list := filter (\<lambda>e. fst e \<noteq> k) (r_list r)
          @ [(k, \<lparr>lru_value = v, lru_cell_size = value_weight weight v\<rparr>)]\<rparr>))
      | Remove k \<Rightarrow> (Done, r\<lparr>r_list := filter (\<lambda>e. fst e \<noteq> k) (r_list r)\<rparr>)
      | RemoveIf p \<Rightarrow> (Done, r\<lparr>r_list := filter (\<lambda>(k, c). \<not> p k (lru_value c)) (r_list r)\<rparr>)
      | Clear \<Rightarrow> (Done, r\<lparr>r_list := []\<rparr>)
      | SetMaxCount n \<Rightarrow> (Done, r_shrink (r\<lparr>r_max_count := n\<rparr>))
      | SetMaxSizeInBytes n \<Rightarrow> (Done, r_shrink (r\<lparr>r_max_size := n\<rparr>))
      | Count \<Rightarrow> (Number (length (r_list r)), r)
      | SizeInBytes \<Rightarrow> (Number (cells_sum (\<lambda>c. unat (lru_cell_size c)) (r_list r)), r))"

fun recency_run :: "('v \<Rightarrow> 64 word) \<Rightarrow> ('k, 'v) cache_op list \<Rightarrow> ('k, 'v) recency \<Rightarrow> ('k, 'v) cache_out list \<times> ('k, 'v) recency" where
  "recency_run weight [] r = ([], r)"
| "recency_run weight (oper # ops) r =
     (let (out, r') = recency_step weight oper r in map_prod (Cons out) id (recency_run weight ops r'))"

lemma keep_recent_suffix: "\<exists>d. l = d @ keep_recent m n l"
proof (induction l)
  case (Cons e l)
  then obtain d where "l = d @ keep_recent m n l" ..
  then have "e # l = (e # d) @ keep_recent m n l"
    by simp
  then show ?case
    by (cases "fits m n (e # l)") (auto intro: exI [of _ "[]"] exI [of _ "e # d"])
qed simp

lemma keep_recent_fits: "fits m n (keep_recent m n l)"
  by (induction l) (auto simp: fits_def)

lemma keep_recent_all: "fits m n l \<Longrightarrow> keep_recent m n l = l"
  by (cases l) simp_all

section \<open>Consistent states\<close>

text \<open>\<open>lru_core\<close> is what holds also inside the eviction loop, \<open>lru_valid\<close> what holds between calls.\<close>

definition lru_core :: "('v \<Rightarrow> 64 word) \<Rightarrow> ('k, 'v) lru \<Rightarrow> bool" where
  "lru_core weight s \<longleftrightarrow> queue_ok (lru_cells s) (lru_queue s)
     \<and> lru_size_in_bytes s = cells_sum lru_cell_size (lru_cells s)
     \<and> cells_sum (\<lambda>c. unat (lru_cell_size c)) (lru_cells s) < 2 ^ 64
     \<and> (\<forall>(k, c) \<in> set (lru_cells s). lru_cell_size c = value_weight weight (lru_value c))"

definition lru_metrics :: "('k, 'v) lru \<Rightarrow> bool" where
  "lru_metrics s \<longleftrightarrow> lru_size_metric s = lru_size_in_bytes s
     \<and> lru_count_metric s = word_of_nat (length (lru_cells s))"

abbreviation lru_view :: "('k, 'v) lru \<Rightarrow> ('k \<times> 'v lru_cell) list" where
  "lru_view s \<equiv> queue_view (lru_cells s) (lru_queue s)"

definition lru_abs :: "('k, 'v) lru \<Rightarrow> ('k, 'v) recency" where
  "lru_abs s = \<lparr>r_max_size = lru_max_size_in_bytes s, r_max_count = lru_max_count s, r_list = lru_view s\<rparr>"

definition lru_valid :: "('v \<Rightarrow> 64 word) \<Rightarrow> ('k, 'v) lru \<Rightarrow> bool" where
  "lru_valid weight s \<longleftrightarrow> lru_core weight s \<and> lru_metrics s \<and> lru_max_size_in_bytes s \<le> 2 ^ 63
     \<and> fits (unat (lru_max_size_in_bytes s)) (lru_max_count s) (lru_view s)"

lemma lru_core_view:
  assumes "lru_core weight s"
  shows "length (lru_queue s) = length (lru_cells s)"
    and "unat (lru_size_in_bytes s) = cells_sum (\<lambda>c. unat (lru_cell_size c)) (lru_view s)"
    and "set (lru_view s) = set (lru_cells s)"
    and "map_of (lru_view s) = map_of (lru_cells s)"
  using assms queue_view_sum [of "lru_cells s" "lru_queue s" "\<lambda>c. unat (lru_cell_size c)"]
  by (simp_all add: lru_core_def queue_ok_length queue_view_set queue_view_map_of unat_cells_sum)

text \<open>Dropping the entry of one key.\<close>

definition lru_drop :: "'k \<Rightarrow> 'v lru_cell \<Rightarrow> ('k, 'v) lru \<Rightarrow> ('k, 'v) lru" where
  "lru_drop key cell s =
     s\<lparr>lru_size_in_bytes := lru_size_in_bytes s - lru_cell_size cell,
       lru_queue := remove1 key (lru_queue s), lru_cells := AList.delete key (lru_cells s)\<rparr>"

lemma lru_drop_core:
  assumes "lru_core weight s" and "map_of (lru_cells s) key = Some cell"
  shows "lru_core weight (lru_drop key cell s)"
    and "lru_view (lru_drop key cell s) = filter (\<lambda>e. fst e \<noteq> key) (lru_view s)"
proof -
  have d: "distinct (map fst (lru_cells s))" and ok: "queue_ok (lru_cells s) (lru_queue s)"
    using assms(1) by (simp_all add: lru_core_def queue_ok_def)
  have "cells_sum lru_cell_size (AList.delete key (lru_cells s)) = cells_sum lru_cell_size (lru_cells s) - lru_cell_size cell"
    using cells_sum_delete [OF d assms(2), of lru_cell_size] by (simp add: eq_diff_eq)
  moreover have "cells_sum (\<lambda>c. unat (lru_cell_size c)) (AList.delete key (lru_cells s))
      \<le> cells_sum (\<lambda>c. unat (lru_cell_size c)) (lru_cells s)"
    using cells_sum_delete [OF d assms(2), of "\<lambda>c. unat (lru_cell_size c)"] by simp
  moreover have "set (AList.delete key (lru_cells s)) \<subseteq> set (lru_cells s)"
    by (auto simp: AList.delete_eq)
  ultimately show "lru_core weight (lru_drop key cell s)"
    using assms(1) queue_ok_drop(1) [OF ok, of key] by (auto simp: lru_core_def lru_drop_def)
  show "lru_view (lru_drop key cell s) = filter (\<lambda>e. fst e \<noteq> key) (lru_view s)"
    using queue_ok_drop(2) [OF ok, of key] by (simp add: lru_drop_def)
qed

section \<open>Eviction\<close>

lemma lru_evict_keeps:
  assumes "lru_core weight s" and "n = length (lru_cells s)"
  shows "\<exists>s' out. lru_evict n s = Inr s' \<and> lru_core weight s'
    \<and> lru_view s = out @ lru_view s'
    \<and> lru_view s' = keep_recent (unat (lru_max_size_in_bytes s)) (lru_max_count s) (lru_view s)
    \<and> lru_removed s' = lru_removed s @ map (\<lambda>(k, c). (lru_cell_size c, lru_value c)) out
    \<and> lru_max_size_in_bytes s' = lru_max_size_in_bytes s \<and> lru_max_count s' = lru_max_count s
    \<and> lru_size_metric s' = lru_size_metric s \<and> lru_count_metric s' = lru_count_metric s"
  using assms
proof (induction n arbitrary: s)
  case 0
  then have "lru_queue s = []"
    using lru_core_view(1) [of weight s] by simp
  then show ?case
    using 0 by simp
next
  case (Suc n)
  then obtain key rest where q: "lru_queue s = key # rest"
    using lru_core_view(1) [of weight s] by (cases "lru_queue s") auto
  have ok: "queue_ok (lru_cells s) (lru_queue s)"
    using Suc.prems by (simp add: lru_core_def)
  then obtain cell where cell: "map_of (lru_cells s) key = Some cell"
    using q by (metis list.set_intros(1) map_of_eq_None_iff not_None_eq queue_ok_def)
  have over: "lru_size_in_bytes s > lru_max_size_in_bytes s
      \<or> (lru_max_count s \<noteq> 0 \<and> Suc n > lru_max_count s)
    \<longleftrightarrow> \<not> fits (unat (lru_max_size_in_bytes s)) (lru_max_count s) (lru_view s)"
    using lru_core_view [OF Suc.prems(1)] Suc.prems(2) by (auto simp: fits_def word_less_nat_alt)
  show ?case
  proof (cases "fits (unat (lru_max_size_in_bytes s)) (lru_max_count s) (lru_view s)")
    case True
    then have "lru_evict (Suc n) s = Inr s"
      unfolding lru_evict.simps over by simp
    then show ?thesis
      using Suc.prems(1) keep_recent_all [OF True] by (intro exI [of _ s] exI [of _ "[]"]) simp
  next
    case False
    define t where "t = s\<lparr>lru_size_in_bytes := lru_size_in_bytes s - lru_cell_size cell,
        lru_removed := lru_removed s @ [(lru_cell_size cell, lru_value cell)],
        lru_cells := AList.delete key (lru_cells s), lru_queue := rest\<rparr>"
    note t_def [simp]
    have core: "lru_core weight t"
      using lru_drop_core(1) [OF Suc.prems(1) cell] q by (simp add: lru_drop_def lru_core_def)
    have "filter (\<lambda>k. k \<noteq> key) rest = rest"
      using ok q by (auto simp: queue_ok_def filter_id_conv)
    then have view: "lru_view t = queue_view (lru_cells s) rest"
      using lru_drop_core(2) [OF Suc.prems(1) cell] q
      by (simp add: lru_drop_def filter_queue_view [of "\<lambda>k. k \<noteq> key"])
    have len: "n = length (lru_cells t)"
      using lru_core_view(1) [OF core] lru_core_view(1) [OF Suc.prems(1)] Suc.prems(2) q
      by simp
    have step: "lru_evict (Suc n) s = lru_evict n t"
      unfolding lru_evict.simps over using False q cell by simp
    have keep: "keep_recent (unat (lru_max_size_in_bytes s)) (lru_max_count s) (lru_view s)
        = keep_recent (unat (lru_max_size_in_bytes s)) (lru_max_count s) (lru_view t)"
      using False q view by simp
    obtain s' out where s': "lru_evict n t = Inr s'" "lru_core weight s'" "lru_view t = out @ lru_view s'"
      "lru_view s' = keep_recent (unat (lru_max_size_in_bytes t)) (lru_max_count t) (lru_view t)"
      "lru_removed s' = lru_removed t @ map (\<lambda>(k, c). (lru_cell_size c, lru_value c)) out"
      "lru_max_size_in_bytes s' = lru_max_size_in_bytes t" "lru_max_count s' = lru_max_count t"
      "lru_size_metric s' = lru_size_metric t" "lru_count_metric s' = lru_count_metric t"
      using Suc.IH [OF core len] by blast
    have fields: "lru_max_size_in_bytes t = lru_max_size_in_bytes s" "lru_max_count t = lru_max_count s"
      "lru_size_metric t = lru_size_metric s" "lru_count_metric t = lru_count_metric s"
      "lru_removed t = lru_removed s @ [(lru_cell_size cell, lru_value cell)]"
      by simp_all
    have "lru_view s = ((key, cell) # out) @ lru_view s'"
      using s'(3) view q cell by simp
    then show ?thesis
      using step s' keep fields by (intro exI [of _ s'] exI [of _ "(key, cell) # out"]) simp
  qed
qed

lemma lru_removeOverflow_keeps:
  assumes "lru_core weight s" and "lru_metrics s" and "lru_max_size_in_bytes s \<le> 2 ^ 63"
  shows "\<exists>s'. lru_removeOverflow s = Inr s' \<and> lru_valid weight s' \<and> lru_abs s' = r_shrink (lru_abs s)
    \<and> (\<exists>out. lru_view s = out @ lru_view s'
         \<and> lru_removed s' = lru_removed s @ map (\<lambda>(k, c). (lru_cell_size c, lru_value c)) out)"
proof -
  obtain t out where t: "lru_evict (length (lru_cells s)) s = Inr t" "lru_core weight t"
    "lru_view s = out @ lru_view t"
    "lru_view t = keep_recent (unat (lru_max_size_in_bytes s)) (lru_max_count s) (lru_view s)"
    "lru_removed t = lru_removed s @ map (\<lambda>(k, c). (lru_cell_size c, lru_value c)) out"
    "lru_max_size_in_bytes t = lru_max_size_in_bytes s" "lru_max_count t = lru_max_count s"
    "lru_size_metric t = lru_size_metric s" "lru_count_metric t = lru_count_metric s"
    using lru_evict_keeps [OF assms(1) refl] by blast
  have fit: "fits (unat (lru_max_size_in_bytes s)) (lru_max_count s) (lru_view t)"
    unfolding t(4) by (rule keep_recent_fits)
  then have "unat (lru_size_in_bytes t) \<le> unat (lru_max_size_in_bytes s)"
    using lru_core_view(2) [OF t(2)] by (simp add: fits_def)
  then have small: "\<not> lru_size_in_bytes t > 2 ^ 63"
    using assms(3) by (simp add: word_le_nat_alt word_less_nat_alt)
  define s' where "s' = t\<lparr>lru_size_metric := lru_size_metric t - (lru_size_in_bytes s - lru_size_in_bytes t),
      lru_count_metric := lru_count_metric t
        - (word_of_nat (length (lru_cells s)) - word_of_nat (length (lru_cells t)))\<rparr>"
  have "lru_removeOverflow s = Inr s'"
    using t(1) small by (simp add: lru_removeOverflow_def s'_def)
  moreover have "lru_valid weight s'"
    using t(2,6-9) fit assms(2,3) by (simp add: lru_valid_def lru_core_def lru_metrics_def s'_def)
  moreover have "lru_abs s' = r_shrink (lru_abs s)"
    using t(4,6,7) by (simp add: lru_abs_def r_shrink_def s'_def)
  ultimately show ?thesis
    using t(3,5) by (auto simp: s'_def)
qed

section \<open>The operations on the recency list\<close>

lemma lru_valid_core: "lru_valid weight s \<Longrightarrow> lru_core weight s"
  by (simp add: lru_valid_def)

lemma fits_filter: "fits m n l \<Longrightarrow> fits m n (filter P l)"
proof -
  have "cells_sum (\<lambda>c. unat (lru_cell_size c)) (filter P l) \<le> cells_sum (\<lambda>c. unat (lru_cell_size c)) l"
    by (induction l) auto
  then show "fits m n l \<Longrightarrow> fits m n (filter P l)"
    by (auto simp: fits_def intro: order_trans [OF length_filter_le])
qed

lemma fits_use: "fits m n (use_entry k l) \<longleftrightarrow> fits m n l"
proof -
  have "cells_sum f (use_entry k l) = cells_sum f l" for f :: "'b lru_cell \<Rightarrow> nat"
    by (induction l) (auto simp: use_entry_def)
  moreover have "length (use_entry k l) = length l"
    by (induction l) (auto simp: use_entry_def)
  ultimately show ?thesis
    by (simp add: fits_def)
qed

lemma lru_touch:
  assumes "lru_valid weight s" and "map_of (lru_cells s) k = Some c"
  shows "lru_valid weight (s\<lparr>lru_queue := remove1 k (lru_queue s) @ [k]\<rparr>)"
    and "lru_abs (s\<lparr>lru_queue := remove1 k (lru_queue s) @ [k]\<rparr>) = (lru_abs s)\<lparr>r_list := use_entry k (lru_view s)\<rparr>"
proof -
  have ok: "queue_ok (lru_cells s) (lru_queue s)"
    using assms(1) by (simp add: lru_valid_def lru_core_def)
  note u = queue_ok_use [OF ok assms(2)]
  show "lru_valid weight (s\<lparr>lru_queue := remove1 k (lru_queue s) @ [k]\<rparr>)"
    using assms(1) u by (simp add: lru_valid_def lru_core_def lru_metrics_def fits_use del: queue_view_simps)
  show "lru_abs (s\<lparr>lru_queue := remove1 k (lru_queue s) @ [k]\<rparr>) = (lru_abs s)\<lparr>r_list := use_entry k (lru_view s)\<rparr>"
    using u(2) by (simp add: lru_abs_def del: queue_view_simps)
qed

lemma lru_get_abs:
  assumes "lru_valid weight s"
  shows "\<exists>s'. lru_get k s = (Option.bind (map_of (lru_view s) k) lru_value, s') \<and> lru_valid weight s'
    \<and> lru_abs s' = (lru_abs s)\<lparr>r_list := use_entry k (lru_view s)\<rparr>"
    and "\<exists>s'. lru_getWithKey k s = (map_option (\<lambda>c. (k, lru_value c)) (map_of (lru_view s) k), s')
      \<and> lru_valid weight s' \<and> lru_abs s' = (lru_abs s)\<lparr>r_list := use_entry k (lru_view s)\<rparr>"
  using assms lru_touch [OF assms, of k] lru_core_view(4) [OF lru_valid_core [OF assms]]
    use_entry_absent [of "lru_view s" k]
  by (cases "map_of (lru_cells s) k"; simp add: lru_get_def lru_getWithKey_def; simp add: lru_abs_def)+

lemma lru_remove_abs:
  assumes "lru_valid weight s"
  shows "lru_valid weight (lru_remove k s)"
    and "lru_abs (lru_remove k s) = (lru_abs s)\<lparr>r_list := filter (\<lambda>e. fst e \<noteq> k) (lru_view s)\<rparr>"
proof -
  note core = lru_valid_core [OF assms]
  have "lru_valid weight (lru_remove k s) \<and> lru_view (lru_remove k s) = filter (\<lambda>e. fst e \<noteq> k) (lru_view s)"
  proof (cases "map_of (lru_cells s) k")
    case None
    then have "k \<notin> fst ` set (lru_view s)"
      using lru_core_view(4) [OF core] by (metis map_of_eq_None_iff)
    then have "filter (\<lambda>e. fst e \<noteq> k) (lru_view s) = lru_view s"
      by (auto simp: filter_id_conv)
    then show ?thesis
      using None assms by (simp add: lru_remove_def)
  next
    case (Some c)
    have eq: "lru_remove k s = (lru_drop k c s)\<lparr>lru_size_metric := lru_size_metric s - lru_cell_size c,
        lru_count_metric := lru_count_metric s - 1\<rparr>"
      using Some by (cases s) (simp add: lru_remove_def lru_drop_def)
    have "Suc (length (AList.delete k (lru_cells s))) = length (lru_cells s)"
      using core Some by (intro length_cells_delete) (auto simp: lru_core_def queue_ok_def dest: map_of_SomeD intro: rev_image_eqI)
    then have "word_of_nat (length (lru_cells s)) = (1 :: 64 word) + word_of_nat (length (AList.delete k (lru_cells s)))"
      by (metis of_nat_Suc)
    then show ?thesis
      using lru_drop_core [OF core Some] assms fits_filter [of _ _ "lru_view s" "\<lambda>e. fst e \<noteq> k"] unfolding eq
      by (simp add: lru_valid_def lru_core_def lru_metrics_def) (simp add: lru_drop_def)
  qed
  moreover have "lru_max_size_in_bytes (lru_remove k s) = lru_max_size_in_bytes s"
    "lru_max_count (lru_remove k s) = lru_max_count s"
    by (simp_all add: lru_remove_def split: option.split)
  ultimately show "lru_valid weight (lru_remove k s)"
    and "lru_abs (lru_remove k s) = (lru_abs s)\<lparr>r_list := filter (\<lambda>e. fst e \<noteq> k) (lru_view s)\<rparr>"
    by (simp_all add: lru_abs_def)
qed

lemma lru_remove_loop_core:
  assumes "lru_core weight s" and "distinct (map fst rest)" and "set rest \<subseteq> set (lru_cells s)"
  shows "lru_core weight (lru_remove_loop p rest s)
    \<and> lru_view (lru_remove_loop p rest s)
        = filter (\<lambda>e. \<not> (e \<in> set rest \<and> p (fst e) (lru_value (snd e)))) (lru_view s)"
  using assms
proof (induction p rest s rule: lru_remove_loop.induct)
  case (2 p key cell rest s)
  have d: "distinct (map fst (lru_cells s))"
    using "2.prems"(1) by (simp add: lru_core_def queue_ok_def)
  then have cell: "map_of (lru_cells s) key = Some cell"
    using "2.prems"(3) by simp
  have only: "e \<in> set (lru_view s) \<Longrightarrow> fst e = key \<Longrightarrow> e = (key, cell)" for e
    using lru_core_view(3) [OF "2.prems"(1)] d "2.prems"(3)
    by (cases e) (auto dest: eq_key_imp_eq_value)
  show ?case
  proof (cases "p key (lru_value cell)")
    case False
    then show ?thesis
      using 2 by (auto intro!: filter_cong)
  next
    case True
    have step: "lru_remove_loop p ((key, cell) # rest) s = lru_remove_loop p rest (lru_drop key cell s)"
      using True by (simp add: lru_drop_def)
    have "set rest \<subseteq> set (lru_cells (lru_drop key cell s))"
      using "2.prems"(2,3) by (force simp: lru_drop_def AList.delete_eq)
    then have "lru_core weight (lru_remove_loop p rest (lru_drop key cell s))
      \<and> lru_view (lru_remove_loop p rest (lru_drop key cell s))
        = filter (\<lambda>e. \<not> (e \<in> set rest \<and> p (fst e) (lru_value (snd e)))) (lru_view (lru_drop key cell s))"
      using "2.IH"(1) [OF True] "2.prems"(2) lru_drop_core(1) [OF "2.prems"(1) cell]
      by (simp add: lru_drop_def)
    note IH = this
    have same: "fst e \<noteq> key \<and> \<not> (e \<in> set rest \<and> p (fst e) (lru_value (snd e)))
        \<longleftrightarrow> \<not> (e \<in> set ((key, cell) # rest) \<and> p (fst e) (lru_value (snd e)))"
      if "e \<in> set (lru_view s)" for e
    proof (cases "fst e = key")
      case here: True
      have "e = (key, cell)"
        by (rule only [OF that here])
      then show ?thesis
        using True by simp
    next
      case False
      then have "e \<noteq> (key, cell)"
        by (metis fst_conv)
      then show ?thesis
        using False by simp
    qed
    then have "filter (\<lambda>e. fst e \<noteq> key \<and> \<not> (e \<in> set rest \<and> p (fst e) (lru_value (snd e)))) (lru_view s)
        = filter (\<lambda>e. \<not> (e \<in> set ((key, cell) # rest) \<and> p (fst e) (lru_value (snd e)))) (lru_view s)"
      by (rule filter_cong [OF refl])
    then show ?thesis
      using IH unfolding step lru_drop_core(2) [OF "2.prems"(1) cell] filter_filter by argo
  qed
qed simp

lemma lru_remove_loop_fields:
  "lru_max_size_in_bytes (lru_remove_loop p rest s) = lru_max_size_in_bytes s"
  "lru_max_count (lru_remove_loop p rest s) = lru_max_count s"
  "lru_size_metric (lru_remove_loop p rest s) = lru_size_metric s"
  "lru_count_metric (lru_remove_loop p rest s) = lru_count_metric s"
  by (induction p rest s rule: lru_remove_loop.induct) simp_all

lemma lru_remove_if_abs:
  assumes "lru_valid weight s"
  shows "lru_valid weight (lru_remove_if p s)"
    and "lru_abs (lru_remove_if p s)
      = (lru_abs s)\<lparr>r_list := filter (\<lambda>(k, c). \<not> p k (lru_value c)) (lru_view s)\<rparr>"
proof -
  note core = lru_valid_core [OF assms]
  define t where "t = lru_remove_loop p (lru_cells s) s"
  have t: "lru_core weight t" "lru_view t = filter (\<lambda>e. \<not> (e \<in> set (lru_cells s) \<and> p (fst e) (lru_value (snd e)))) (lru_view s)"
    using lru_remove_loop_core [OF core, of "lru_cells s" p] core
    by (simp_all add: t_def lru_core_def queue_ok_def)
  have "lru_view t = filter (\<lambda>(k, c). \<not> p k (lru_value c)) (lru_view s)"
    unfolding t(2) using lru_core_view(3) [OF core] by (intro filter_cong) auto
  moreover have "lru_remove_if p s = t\<lparr>lru_size_metric := lru_size_metric t - (lru_size_in_bytes s - lru_size_in_bytes t),
      lru_count_metric := lru_count_metric t
        - (word_of_nat (length (lru_cells s)) - word_of_nat (length (lru_cells t)))\<rparr>"
    by (simp add: lru_remove_if_def t_def Let_def)
  moreover have "lru_max_size_in_bytes t = lru_max_size_in_bytes s" "lru_max_count t = lru_max_count s"
    "lru_size_metric t = lru_size_metric s" "lru_count_metric t = lru_count_metric s"
    by (simp_all add: t_def lru_remove_loop_fields)
  ultimately show "lru_valid weight (lru_remove_if p s)"
    "lru_abs (lru_remove_if p s) = (lru_abs s)\<lparr>r_list := filter (\<lambda>(k, c). \<not> p k (lru_value c)) (lru_view s)\<rparr>"
    using t(1) assms fits_filter [of _ _ "lru_view s" "\<lambda>(k, c). \<not> p k (lru_value c)"]
    by (simp_all add: lru_valid_def lru_core_def lru_metrics_def lru_abs_def)
qed

lemma lru_clear_abs:
  assumes "lru_valid weight s"
  shows "lru_valid weight (lru_clear s)" and "lru_abs (lru_clear s) = (lru_abs s)\<lparr>r_list := []\<rparr>"
  using assms by (simp_all add: lru_clear_def lru_valid_def lru_core_def lru_metrics_def lru_abs_def fits_def queue_ok_def)

text \<open>The state that \<^verbatim>\<open>set\<close> hands to \<^verbatim>\<open>removeOverflow\<close>.\<close>

lemma lru_set_abs:
  assumes "lru_valid weight s" and "value_weight weight v < 2 ^ 63"
  shows "\<exists>s'. lru_set weight k v s = Inr s' \<and> lru_valid weight s'
    \<and> lru_abs s' = r_shrink ((lru_abs s)\<lparr>r_list := filter (\<lambda>e. fst e \<noteq> k) (lru_view s)
        @ [(k, \<lparr>lru_value = v, lru_cell_size = value_weight weight v\<rparr>)]\<rparr>)
    \<and> (\<exists>out. filter (\<lambda>e. fst e \<noteq> k) (lru_view s)
          @ [(k, \<lparr>lru_value = v, lru_cell_size = value_weight weight v\<rparr>)] = out @ lru_view s'
        \<and> lru_removed s' = lru_removed s @ map (\<lambda>(k, c). (lru_cell_size c, lru_value c)) out)"
proof -
  define c where "c = \<lparr>lru_value = v, lru_cell_size = value_weight weight v\<rparr>"
  define old where "old = (case map_of (lru_cells s) k of None \<Rightarrow> 0 | Some c \<Rightarrow> lru_cell_size c)"
  define s2 where "s2 = s\<lparr>lru_queue := remove1 k (lru_queue s) @ [k], lru_cells := AList.update k c (lru_cells s),
      lru_size_in_bytes := lru_size_in_bytes s - old + lru_cell_size c,
      lru_size_metric := lru_size_metric s + (lru_size_in_bytes s - old + lru_cell_size c - lru_size_in_bytes s),
      lru_count_metric := lru_count_metric s
        + (word_of_nat (length (AList.update k c (lru_cells s))) - word_of_nat (length (lru_cells s)))\<rparr>"
  have ok: "queue_ok (lru_cells s) (lru_queue s)" and d: "distinct (map fst (lru_cells s))"
    and size: "lru_size_in_bytes s = cells_sum lru_cell_size (lru_cells s)"
    using assms(1) by (simp_all add: lru_valid_def lru_core_def queue_ok_def)
  have absent: "remove1 k (lru_queue s) = lru_queue s" if "map_of (lru_cells s) k = None"
    using that ok by (simp add: map_of_eq_None_iff queue_ok_def remove1_idem)
  have "lru_set weight k v s = lru_removeOverflow s2"
    using absent by (cases s; cases "map_of (lru_cells s) k") (simp_all add: lru_set_def s2_def old_def c_def Let_def)
  moreover have "lru_core weight s2"
  proof -
    have "cells_sum lru_cell_size (AList.update k c (lru_cells s)) = lru_size_in_bytes s - old + lru_cell_size c"
      using cells_sum_update [OF d, of k _ lru_cell_size c] cells_sum_update_new [of "lru_cells s" k lru_cell_size c]
      by (cases "map_of (lru_cells s) k") (simp_all add: old_def size algebra_simps)
    moreover have "cells_sum (\<lambda>c. unat (lru_cell_size c)) (AList.update k c (lru_cells s))
        \<le> cells_sum (\<lambda>c. unat (lru_cell_size c)) (lru_cells s) + unat (lru_cell_size c)"
      using cells_sum_update [OF d, of k _ "\<lambda>c. unat (lru_cell_size c)" c]
        cells_sum_update_new [of "lru_cells s" k "\<lambda>c. unat (lru_cell_size c)" c]
      by (cases "map_of (lru_cells s) k") auto
    moreover have "unat (lru_cell_size c) < 2 ^ 63"
      using assms(2) by (simp add: c_def word_less_nat_alt)
    moreover have "cells_sum (\<lambda>c. unat (lru_cell_size c)) (lru_cells s) \<le> 2 ^ 63"
      using assms(1) queue_view_sum [OF ok, of "\<lambda>c. unat (lru_cell_size c)"]
      by (simp add: lru_valid_def fits_def word_le_nat_alt)
    moreover have "\<forall>(k, c) \<in> set (AList.update k c (lru_cells s)). lru_cell_size c = value_weight weight (lru_value c)"
      using assms(1) set_update_subset [of k c "lru_cells s"] by (auto simp: lru_valid_def lru_core_def c_def)
    ultimately show ?thesis
      using queue_ok_insert(1) [OF ok, of k c] by (simp add: lru_core_def s2_def)
  qed
  moreover have "lru_metrics s2" "lru_max_size_in_bytes s2 \<le> 2 ^ 63"
    using assms(1) by (simp_all add: lru_valid_def lru_metrics_def s2_def)
  moreover have "lru_view s2 = filter (\<lambda>e. fst e \<noteq> k) (lru_view s) @ [(k, c)]"
    using queue_ok_insert(2) [OF ok, of k c] by (simp add: s2_def del: queue_view_simps)
  moreover have "lru_abs s2 = (lru_abs s)\<lparr>r_list := filter (\<lambda>e. fst e \<noteq> k) (lru_view s) @ [(k, c)]\<rparr>"
    using calculation by (simp add: lru_abs_def s2_def)
  moreover have "lru_removed s2 = lru_removed s"
    by (simp add: s2_def)
  ultimately show ?thesis
    using lru_removeOverflow_keeps [of weight s2] by (simp add: c_def)
qed

lemma lru_limits_abs:
  assumes "lru_valid weight s"
  shows "\<exists>s'. lru_setMaxCount n s = Inr s' \<and> lru_valid weight s'
      \<and> lru_abs s' = r_shrink ((lru_abs s)\<lparr>r_max_count := n\<rparr>)"
    and "m \<le> 2 ^ 63 \<Longrightarrow> \<exists>s'. lru_setMaxSizeInBytes m s = Inr s' \<and> lru_valid weight s'
      \<and> lru_abs s' = r_shrink ((lru_abs s)\<lparr>r_max_size := m\<rparr>)"
  using assms lru_removeOverflow_keeps [of weight "s\<lparr>lru_max_count := n\<rparr>"]
    lru_removeOverflow_keeps [of weight "s\<lparr>lru_max_size_in_bytes := m\<rparr>"]
  by (auto simp: lru_setMaxCount_def lru_setMaxSizeInBytes_def lru_valid_def lru_core_def lru_metrics_def lru_abs_def)

section \<open>Refinement\<close>

abbreviation lru_value_ok :: "('v \<Rightarrow> 64 word) \<Rightarrow> 'v option \<Rightarrow> bool" where
  "lru_value_ok weight v \<equiv> value_weight weight v < 2 ^ 63"

abbreviation lru_op_ok :: "('v \<Rightarrow> 64 word) \<Rightarrow> ('k, 'v) cache_op \<Rightarrow> bool" where
  "lru_op_ok weight \<equiv> op_ok (lru_value_ok weight) (\<lambda>n. n \<le> 2 ^ 63)"

lemma lru_step_refines:
  assumes "lru_valid weight s" and "lru_op_ok weight oper"
  shows "\<exists>out s'. policy_step (LRUCachePolicy weight) oper s = Inr (out, s') \<and> lru_valid weight s'
    \<and> recency_step weight oper (lru_abs s) = (out, lru_abs s')"
proof -
  note view = lru_core_view [OF lru_valid_core [OF assms(1)]]
  have r: "r_list (lru_abs s) = lru_view s"
    by (simp add: lru_abs_def)
  show ?thesis
  proof (cases oper)
    case (Get k)
    then show ?thesis
      using lru_get_abs(1) [OF assms(1), of k] r by (auto simp: policy_step_def recency_step_def LRUCachePolicy_def)
  next
    case (GetWithKey k)
    then show ?thesis
      using lru_get_abs(2) [OF assms(1), of k] r by (auto simp: policy_step_def recency_step_def LRUCachePolicy_def)
  next
    case (Contains k)
    have "map_of (lru_cells s) k \<noteq> None \<longleftrightarrow> k \<in> fst ` set (lru_view s)"
      unfolding view(3) by (simp add: map_of_eq_None_iff)
    then show ?thesis
      using Contains assms(1) r by (auto simp: policy_step_def recency_step_def LRUCachePolicy_def lru_contains_def)
  next
    case (Put k v)
    then show ?thesis
      using lru_set_abs [OF assms(1), of v k] assms(2) r
      by (auto simp: policy_step_def recency_step_def LRUCachePolicy_def op_ok_def)
  next
    case (Remove k)
    then show ?thesis
      using lru_remove_abs [OF assms(1), of k] r by (simp add: policy_step_def recency_step_def LRUCachePolicy_def)
  next
    case (RemoveIf p)
    then show ?thesis
      using lru_remove_if_abs [OF assms(1), of p] r by (simp add: policy_step_def recency_step_def LRUCachePolicy_def)
  next
    case Clear
    then show ?thesis
      using lru_clear_abs [OF assms(1)] by (simp add: policy_step_def recency_step_def LRUCachePolicy_def)
  next
    case (SetMaxCount n)
    then show ?thesis
      using lru_limits_abs(1) [OF assms(1), of n] by (auto simp: policy_step_def recency_step_def LRUCachePolicy_def)
  next
    case (SetMaxSizeInBytes n)
    then show ?thesis
      using lru_limits_abs(2) [OF assms(1), of n] assms(2)
      by (auto simp: policy_step_def recency_step_def LRUCachePolicy_def op_ok_def)
  next
    case Count
    then show ?thesis
      using assms(1) view(1) r by (simp add: policy_step_def recency_step_def LRUCachePolicy_def lru_count_def)
  next
    case SizeInBytes
    then show ?thesis
      using assms(1) view(2) r by (simp add: policy_step_def recency_step_def LRUCachePolicy_def)
  qed
qed

lemma lru_run_refines:
  assumes "lru_valid weight s" and "list_all (lru_op_ok weight) ops"
  shows "\<exists>outs s'. policy_run (LRUCachePolicy weight) ops s = Inr (outs, s') \<and> lru_valid weight s'
    \<and> recency_run weight ops (lru_abs s) = (outs, lru_abs s')"
  using assms
proof (induction ops arbitrary: s)
  case (Cons oper ops)
  obtain out t where t: "policy_step (LRUCachePolicy weight) oper s = Inr (out, t)" "lru_valid weight t"
    "recency_step weight oper (lru_abs s) = (out, lru_abs t)"
    using lru_step_refines [OF Cons.prems(1), of oper] Cons.prems(2) by auto
  moreover obtain outs s' where "policy_run (LRUCachePolicy weight) ops t = Inr (outs, s')" "lru_valid weight s'"
    "recency_run weight ops (lru_abs t) = (outs, lru_abs s')"
    using Cons.IH [OF t(2)] Cons.prems(2) by auto
  ultimately show ?case
    by auto
qed simp

lemma new_LRU_valid:
  "m \<le> 2 ^ 63 \<Longrightarrow> lru_valid weight (new_LRUCachePolicy m n)"
  by (simp add: new_LRUCachePolicy_def lru_valid_def lru_core_def lru_metrics_def queue_ok_def fits_def)

lemma keep_recent_longest:
  assumes "l = d @ t" and "fits m n t"
  shows "length t \<le> length (keep_recent m n l)"
  using assms
proof (induction l arbitrary: d)
  case (Cons e l)
  show ?case
  proof (cases d)
    case Nil
    then show ?thesis
      using Cons.prems by (simp add: keep_recent_all del: keep_recent.simps)
  next
    case (Cons e' d')
    then have "length t \<le> length (keep_recent m n l)" "length t \<le> length (e # l)"
      using Cons.IH [of d'] Cons.prems by auto
    then show ?thesis
      by simp
  qed
qed simp

section \<open>The policy interface\<close>

definition lru_entries :: "('k, 'v) lru \<Rightarrow> 'k \<rightharpoonup> 'v option" where
  "lru_entries s = map_option lru_value \<circ> map_of (lru_cells s)"

lemma lru_entries_iff:
  assumes "lru_valid weight s"
  shows "lru_entries s k = Some v \<longleftrightarrow> (\<exists>c. (k, c) \<in> set (lru_view s) \<and> lru_value c = v)"
proof -
  have "distinct (map fst (lru_cells s))"
    using assms by (simp add: lru_valid_def lru_core_def queue_ok_def)
  then show ?thesis
    using lru_core_view(3) [OF lru_valid_core [OF assms]] by (auto simp: lru_entries_def)
qed

lemma lru_entries_abs:
  assumes "lru_valid weight s" and "lru_valid weight s'"
  shows "set (r_list (lru_abs s')) = set (r_list (lru_abs s)) \<Longrightarrow> lru_entries s' = lru_entries s"
    and "set (r_list (lru_abs s')) \<subseteq> set (r_list (lru_abs s)) \<Longrightarrow> lru_entries s' \<subseteq>\<^sub>m lru_entries s"
    and "set (r_list (lru_abs s')) \<subseteq> insert (k, c) (Set.filter (\<lambda>e. fst e \<noteq> k) (set (r_list (lru_abs s)))) \<Longrightarrow>
       lru_entries s' \<subseteq>\<^sub>m (lru_entries s)(k \<mapsto> lru_value c)"
  using lru_entries_iff [OF assms(1)] lru_entries_iff [OF assms(2)]
  by (auto simp: lru_abs_def map_le_iff_Some intro!: map_eqI)

lemma set_keep_recent: "set (keep_recent m n l) \<subseteq> set l"
  by (induction l) auto

lemma set_r_shrink: "set (r_list (r_shrink r)) \<subseteq> set (r_list r)"
  by (simp add: r_shrink_def set_keep_recent)

lemma lru_set_entries:
  assumes "lru_valid weight s" and "lru_value_ok weight v"
  shows "\<exists>s'. lru_set weight k v s = Inr s' \<and> lru_valid weight s' \<and> lru_entries s' \<subseteq>\<^sub>m (lru_entries s)(k \<mapsto> v)"
proof -
  obtain s' where s': "lru_set weight k v s = Inr s'" "lru_valid weight s'"
    "lru_abs s' = r_shrink ((lru_abs s)\<lparr>r_list := filter (\<lambda>e. fst e \<noteq> k) (lru_view s)
        @ [(k, \<lparr>lru_value = v, lru_cell_size = value_weight weight v\<rparr>)]\<rparr>)"
    using lru_set_abs [OF assms, of k] by blast
  have "set (r_list (lru_abs s')) \<subseteq> insert (k, \<lparr>lru_value = v, lru_cell_size = value_weight weight v\<rparr>)
      (Set.filter (\<lambda>e. fst e \<noteq> k) (set (r_list (lru_abs s))))"
    using set_r_shrink unfolding s'(3) by (force simp: lru_abs_def)
  from lru_entries_abs(3) [OF assms(1) s'(2) this] show ?thesis
    using s'(1,2) by auto
qed

interpretation lru: replacing_policy "LRUCachePolicy weight" "lru_valid weight" lru_entries
    "lru_value_ok weight" "\<lambda>n. n \<le> 2 ^ 63" for weight :: "'v \<Rightarrow> 64 word"
proof unfold_locales
  fix s :: "('k, 'v) lru"
  assume s: "lru_valid weight s"
  note view = lru_core_view [OF lru_valid_core [OF s]]
  have r: "r_list (lru_abs s) = lru_view s"
    by (simp add: lru_abs_def)
  have d: "distinct (map fst (lru_cells s))"
    using s by (simp add: lru_valid_def lru_core_def queue_ok_def)
  show "finite (dom (lru_entries s))"
    by (simp add: lru_entries_def dom_map_option_comp finite_dom_map_of)
  show "\<exists>s'. policy_get (LRUCachePolicy weight) k s = Inr (Option.bind (lru_entries s k) id, s')
      \<and> lru_valid weight s' \<and> lru_entries s' = lru_entries s" for k
  proof -
    obtain s' where s': "lru_get k s = (Option.bind (map_of (lru_view s) k) lru_value, s')" "lru_valid weight s'"
      "lru_abs s' = (lru_abs s)\<lparr>r_list := use_entry k (lru_view s)\<rparr>"
      using lru_get_abs(1) [OF s, of k] by blast
    have "lru_entries s' = lru_entries s"
      using lru_entries_abs(1) [OF s s'(2)] s'(3) r by (simp add: set_use_entry)
    then show ?thesis
      using s' view(4) by (cases "map_of (lru_cells s) k") (auto simp: LRUCachePolicy_def lru_entries_def)
  qed
  show "\<exists>s'. policy_getWithKey (LRUCachePolicy weight) k s = Inr (map_option (Pair k) (lru_entries s k), s')
      \<and> lru_valid weight s' \<and> lru_entries s' = lru_entries s" for k
  proof -
    obtain s' where s': "lru_getWithKey k s = (map_option (\<lambda>c. (k, lru_value c)) (map_of (lru_view s) k), s')"
      "lru_valid weight s'" "lru_abs s' = (lru_abs s)\<lparr>r_list := use_entry k (lru_view s)\<rparr>"
      using lru_get_abs(2) [OF s, of k] by blast
    have "lru_entries s' = lru_entries s"
      using lru_entries_abs(1) [OF s s'(2)] s'(3) r by (simp add: set_use_entry)
    then show ?thesis
      using s' view(4) by (cases "map_of (lru_cells s) k") (auto simp: LRUCachePolicy_def lru_entries_def)
  qed
  show "policy_contains (LRUCachePolicy weight) k s \<longleftrightarrow> k \<in> dom (lru_entries s)" for k
    by (auto simp: LRUCachePolicy_def lru_contains_def lru_entries_def)
  show "\<exists>s'. policy_set (LRUCachePolicy weight) k v s = Inr s' \<and> lru_valid weight s'
      \<and> (lru_entries s' \<subseteq>\<^sub>m (lru_entries s)(k \<mapsto> v) \<or> lru_entries s' \<subseteq>\<^sub>m lru_entries s)"
    if "lru_value_ok weight v" for k v
    using lru_set_entries [OF s that, of k] by (auto simp: LRUCachePolicy_def)
  show "lru_entries s' \<subseteq>\<^sub>m (lru_entries s)(k \<mapsto> v)"
    if "lru_value_ok weight v" "policy_set (LRUCachePolicy weight) k v s = Inr s'" for k v s'
    using lru_set_entries [OF s that(1), of k] that(2) by (auto simp: LRUCachePolicy_def)
  show "lru_valid weight (policy_remove (LRUCachePolicy weight) k s)
      \<and> lru_entries (policy_remove (LRUCachePolicy weight) k s) = (lru_entries s)(k := None)" for k
    using lru_remove_abs [OF s, of k] lru_entries_iff [OF s] lru_entries_iff [OF lru_remove_abs(1) [OF s, of k]]
    by (auto simp: LRUCachePolicy_def lru_abs_def split: if_splits intro!: map_eqI)
  show "lru_valid weight (policy_remove_if (LRUCachePolicy weight) p s)
      \<and> lru_entries (policy_remove_if (LRUCachePolicy weight) p s) = without_if p (lru_entries s)" for p
    using lru_remove_if_abs [OF s, of p] lru_entries_iff [OF s] lru_entries_iff [OF lru_remove_if_abs(1) [OF s, of p]]
    by (auto simp: LRUCachePolicy_def lru_abs_def without_if_Some intro!: map_eqI)
  show "lru_valid weight (policy_clear (LRUCachePolicy weight) s)
      \<and> lru_entries (policy_clear (LRUCachePolicy weight) s) = Map.empty"
    using lru_clear_abs(1) [OF s] by (simp add: LRUCachePolicy_def lru_entries_def lru_clear_def comp_def)
  show "set (policy_dump (LRUCachePolicy weight) s) = {(k, v). lru_entries s k = Some v}
      \<and> length (policy_dump (LRUCachePolicy weight) s) = policy_count (LRUCachePolicy weight) s"
    using d by (force simp: LRUCachePolicy_def lru_dump_def lru_count_def lru_entries_def)
  show "\<exists>s'. policy_setMaxCount (LRUCachePolicy weight) n s = Inr s' \<and> lru_valid weight s'
      \<and> lru_entries s' \<subseteq>\<^sub>m lru_entries s" for n
    using lru_limits_abs(1) [OF s, of n] lru_entries_abs(2) [OF s] set_r_shrink [of "(lru_abs s)\<lparr>r_max_count := n\<rparr>"]
    by (auto simp: LRUCachePolicy_def)
  show "\<exists>s'. policy_setMaxSizeInBytes (LRUCachePolicy weight) w s = Inr s' \<and> lru_valid weight s'
      \<and> lru_entries s' \<subseteq>\<^sub>m lru_entries s" if "w \<le> 2 ^ 63" for w
    using lru_limits_abs(2) [OF s that] lru_entries_abs(2) [OF s] set_r_shrink [of "(lru_abs s)\<lparr>r_max_size := w\<rparr>"]
    by (auto simp: LRUCachePolicy_def)
qed

section \<open>Properties\<close>

text \<open>C6: The LRU policy implements a recency list: any sequence of operations on a new cache (with weights
  below \<open>2 ^ 63\<close> and size limits up to \<open>2 ^ 63\<close>) runs to the end, never reaches
  \<^verbatim>\<open>std::terminate\<close>, gives the outputs of the abstract recency list and ends in the state that stands for its
  list.\<close>

theorem lru_refines_recency_list:
  assumes "max_size \<le> 2 ^ 63" and "list_all (lru_op_ok weight) ops"
  shows "\<exists>outs s. policy_run (LRUCachePolicy weight) ops (new_LRUCachePolicy max_size max_count) = Inr (outs, s)
    \<and> recency_run weight ops \<lparr>r_max_size = max_size, r_max_count = max_count, r_list = []\<rparr> = (outs, lru_abs s)"
  using lru_run_refines [OF new_LRU_valid [OF assms(1)] assms(2), of max_count]
  by (auto simp: lru_abs_def new_LRUCachePolicy_def)

theorem lru_refines_recency_list_witness:
  "\<exists>outs s. policy_run (LRUCachePolicy EqualWeightFunction) [Put (1::nat) (Some CHR ''a''), Put 2 None, Get 1, SetMaxCount 1]
      (new_LRUCachePolicy 5 2) = Inr (outs, s)
    \<and> recency_run EqualWeightFunction [Put 1 (Some CHR ''a''), Put 2 None, Get 1, SetMaxCount 1]
      \<lparr>r_max_size = 5, r_max_count = 2, r_list = []\<rparr> = (outs, lru_abs s)"
  by (rule lru_refines_recency_list) (simp_all add: op_ok_def value_weight_def EqualWeightFunction_def)

text \<open>Accounting of the LRU policy: after any sequence of such operations the reported size is the sum of the
  weights of the cached values (no wrap-around), it respects the limits on bytes and on entries, and the
  metrics agree with it.\<close>

lemma lru_accounting:
  assumes "max_size \<le> 2 ^ 63" and "list_all (lru_op_ok weight) ops"
    and "policy_run (LRUCachePolicy weight) ops (new_LRUCachePolicy max_size max_count) = Inr (outs, s)"
  shows "unat (lru_size_in_bytes s) = sum_list (map (\<lambda>(k, v). unat (value_weight weight v)) (lru_dump s))
    \<and> lru_size_in_bytes s \<le> lru_max_size_in_bytes s
    \<and> (lru_max_count s = 0 \<or> lru_count s \<le> lru_max_count s)
    \<and> lru_size_metric s = lru_size_in_bytes s \<and> lru_count_metric s = word_of_nat (lru_count s)"
proof -
  have v: "lru_valid weight s"
    using lru_run_refines [OF new_LRU_valid [OF assms(1)] assms(2), of max_count] assms(3) by auto
  note view = lru_core_view [OF lru_valid_core [OF v]]
  have "cells_sum (\<lambda>c. unat (lru_cell_size c)) (lru_cells s) = sum_list (map (\<lambda>(k, v). unat (value_weight weight v)) (lru_dump s))"
    using v unfolding lru_valid_def lru_core_def cells_sum_def lru_dump_def map_map
    by (intro arg_cong [of _ _ sum_list] map_cong) auto
  moreover have "unat (lru_size_in_bytes s) = cells_sum (\<lambda>c. unat (lru_cell_size c)) (lru_cells s)"
    using v by (simp add: lru_valid_def lru_core_def unat_cells_sum)
  ultimately show ?thesis
    using v view(1,2)
    by (auto simp: lru_valid_def lru_metrics_def fits_def word_le_nat_alt lru_count_def)
qed

text \<open>The LRU policy evicts the oldest entries and no more than needed: after \<^verbatim>\<open>set\<close> the cache holds the
  longest suffix of the recency list (with the new entry last) that respects the limits, and the removal
  callback is called exactly for the entries dropped in front of it, oldest first.\<close>

lemma lru_set_evicts_oldest:
  assumes "lru_valid weight s" and "value_weight weight v < 2 ^ 63"
  shows "\<exists>s' dropped. lru_set weight k v s = Inr s'
    \<and> filter (\<lambda>e. fst e \<noteq> k) (lru_view s) @ [(k, \<lparr>lru_value = v, lru_cell_size = value_weight weight v\<rparr>)]
        = dropped @ lru_view s'
    \<and> fits (unat (lru_max_size_in_bytes s)) (lru_max_count s) (lru_view s')
    \<and> (\<forall>d t. dropped @ lru_view s' = d @ t \<and> fits (unat (lru_max_size_in_bytes s)) (lru_max_count s) t
          \<longrightarrow> length t \<le> length (lru_view s'))
    \<and> lru_removed s' = lru_removed s @ map (\<lambda>(k, c). (lru_cell_size c, lru_value c)) dropped"
proof -
  let ?l = "filter (\<lambda>e. fst e \<noteq> k) (lru_view s) @ [(k, \<lparr>lru_value = v, lru_cell_size = value_weight weight v\<rparr>)]"
  let ?keep = "keep_recent (unat (lru_max_size_in_bytes s)) (lru_max_count s)"
  obtain s' dropped where s': "lru_set weight k v s = Inr s'" "lru_abs s' = r_shrink ((lru_abs s)\<lparr>r_list := ?l\<rparr>)"
    "?l = dropped @ lru_view s'" "lru_removed s' = lru_removed s @ map (\<lambda>(k, c). (lru_cell_size c, lru_value c)) dropped"
    using lru_set_abs [OF assms, of k] by blast
  have keep: "lru_view s' = ?keep ?l"
    using s'(2) by (simp add: lru_abs_def r_shrink_def)
  then have "fits (unat (lru_max_size_in_bytes s)) (lru_max_count s) (lru_view s')"
    by (metis keep_recent_fits)
  moreover have "length t \<le> length (lru_view s')"
    if "dropped @ lru_view s' = d @ t" "fits (unat (lru_max_size_in_bytes s)) (lru_max_count s) t" for d t
    using keep_recent_longest [of ?l d t, OF _ that(2)] that(1) s'(3) keep by metis
  ultimately show ?thesis
    using s'(1,3,4) by blast
qed

end
