(* ===== verification/Cache_SLRU.thy ===== *)
theory Cache_SLRU
  imports Cache_LRU "HOL-Library.Log_Nat"
begin

text \<open>
  The segmented least-recently-used policy, \<^verbatim>\<open>src/src/Common/SLRUCachePolicy.h\<close>: a probationary queue for
  entries used once and a protected queue for entries used again.  Queue iterators are positions of
  keys, as in the theory of the LRU policy.
\<close>

section \<open>The size of the protected segment\<close>

text \<open>
  A finite \<^verbatim>\<open>double\<close> is \<open>(m, e)\<close> for \<open>m / 2 ^ e\<close>.  \<open>double_round p\<close> is \<open>p\<close> rounded to 53 significant bits,
  to the nearest and on a tie to the even neighbour; scaling by a power of two does not change the
  rounding, so the rounded product of \<open>n\<close> and \<open>m / 2 ^ e\<close> is \<open>double_round (n * m) / 2 ^ e\<close>.
\<close>

type_synonym double = "int \<times> nat"

definition double_round :: "nat \<Rightarrow> nat" where
  "double_round p =
     (if p \<le> 2 ^ 53 then p
      else let s = floorlog 2 p - 53; q = p div 2 ^ s; r = p mod 2 ^ s
           in if 2 ^ (s - 1) < r \<or> (r = 2 ^ (s - 1) \<and> odd q) then (q + 1) * 2 ^ s else q * 2 ^ s)"

definition clamp_ratio :: "double \<Rightarrow> nat \<times> nat" where
  "clamp_ratio size_ratio =
     (case size_ratio of (m, e) \<Rightarrow> if m \<le> 0 then (0, 0) else if 2 ^ e \<le> m then (1, 0) else (nat m, e))"

definition calculateMaxProtectedSize :: "64 word \<Rightarrow> double \<Rightarrow> 64 word" where
  "calculateMaxProtectedSize max_size_in_bytes size_ratio =
     (case clamp_ratio size_ratio of (m, e) \<Rightarrow>
        word_of_nat (double_round (double_round (unat max_size_in_bytes) * m) div 2 ^ e))"

section \<open>State and operations\<close>

record 'v slru_cell =
  is_protected :: bool
  slru_value :: "'v option"
  slru_cell_size :: "64 word"

record ('k, 'v) slru =
  probationary_queue :: "'k list"
  protected_queue :: "'k list"
  slru_cells :: "('k \<times> 'v slru_cell) list"
  slru_max_size_in_bytes :: "64 word"
  slru_max_protected_size :: "64 word"
  slru_max_count :: nat
  slru_size_ratio :: double
  slru_protected_size :: "64 word"
  slru_size_in_bytes :: "64 word"
  slru_size_metric :: "64 word"
  slru_count_metric :: "64 word"
  slru_removed :: "(64 word \<times> 'v option) list"

definition new_SLRUCachePolicy :: "64 word \<Rightarrow> nat \<Rightarrow> double \<Rightarrow> ('k, 'v) slru" where
  "new_SLRUCachePolicy max_size_in_bytes max_count size_ratio =
     \<lparr>probationary_queue = [], protected_queue = [], slru_cells = [],
      slru_max_size_in_bytes = max_size_in_bytes,
      slru_max_protected_size = calculateMaxProtectedSize max_size_in_bytes size_ratio,
      slru_max_count = max_count, slru_size_ratio = size_ratio, slru_protected_size = 0,
      slru_size_in_bytes = 0, slru_size_metric = 0, slru_count_metric = 0, slru_removed = []\<rparr>"

definition slru_count :: "('k, 'v) slru \<Rightarrow> nat" where
  "slru_count s = length (slru_cells s)"

text \<open>Subtraction of \<^verbatim>\<open>size_t\<close> counts.\<close>

definition size_minus :: "nat \<Rightarrow> nat \<Rightarrow> nat" where
  "size_minus a b = (if b \<le> a then a - b else 2 ^ 64 + a - b)"

definition slru_need_remove :: "bool \<Rightarrow> ('k, 'v) slru \<Rightarrow> bool" where
  "slru_need_remove protected_part s =
     (if protected_part
      then (slru_max_count s \<noteq> 0
              \<and> size_minus (length (slru_cells s)) (length (probationary_queue s)) > slru_max_count s)
           \<or> slru_protected_size s > slru_max_protected_size s
      else (slru_max_count s \<noteq> 0 \<and> length (slru_cells s) > slru_max_count s)
           \<or> slru_size_in_bytes s > slru_max_size_in_bytes s)"

text \<open>
  The loop of \<^verbatim>\<open>removeOverflow\<close>.  The flag says which queue, limit and counter the caller passed; the
  second argument is \<^verbatim>\<open>queue_size\<close>.
\<close>

fun slru_evict :: "bool \<Rightarrow> nat \<Rightarrow> ('k, 'v) slru \<Rightarrow> ('k, 'v) slru result" where
  "slru_evict protected_part 0 s = Inr s"
| "slru_evict protected_part (Suc queue_size) s =
     (if slru_need_remove protected_part s
      then (case (if protected_part then protected_queue s else probationary_queue s) of
              [] \<Rightarrow> Inl OutOfRange
            | key # rest \<Rightarrow>
                (case map_of (slru_cells s) key of
                   None \<Rightarrow> Inl STD_TERMINATE
                 | Some cell \<Rightarrow>
                     let s1 = (if protected_part
                               then s\<lparr>slru_protected_size := slru_protected_size s - slru_cell_size cell\<rparr>
                               else s\<lparr>slru_size_in_bytes := slru_size_in_bytes s - slru_cell_size cell\<rparr>);
                         s2 = (if protected_part then s1\<lparr>protected_queue := rest\<rparr>
                               else s1\<lparr>probationary_queue := rest\<rparr>)
                     in slru_evict protected_part queue_size
                          (if is_protected cell
                           then s2\<lparr>slru_cells := AList.update key (cell\<lparr>is_protected := False\<rparr>) (slru_cells s),
                                   probationary_queue := probationary_queue s2 @ [key]\<rparr>
                           else s2\<lparr>slru_removed := slru_removed s @ [(slru_cell_size cell, slru_value cell)],
                                   slru_cells := AList.delete key (slru_cells s)\<rparr>)))
      else Inr s)"

definition slru_removeOverflow :: "bool \<Rightarrow> ('k, 'v) slru \<Rightarrow> ('k, 'v) slru result" where
  "slru_removeOverflow protected_part s =
     res_bind (slru_evict protected_part
                 (length (if protected_part then protected_queue s else probationary_queue s)) s) (\<lambda>s'.
       if slru_size_in_bytes s' > 2 ^ 63 then Inl STD_TERMINATE
       else Inr (s'\<lparr>slru_size_metric := slru_size_metric s' - (slru_size_in_bytes s - slru_size_in_bytes s'),
                    slru_count_metric := slru_count_metric s'
                      - (word_of_nat (length (slru_cells s)) - word_of_nat (length (slru_cells s')))\<rparr>))"

definition slru_remove_both :: "('k, 'v) slru \<Rightarrow> ('k, 'v) slru result" where
  "slru_remove_both s = res_bind (slru_removeOverflow True s) (slru_removeOverflow False)"

definition slru_setMaxCount :: "nat \<Rightarrow> ('k, 'v) slru \<Rightarrow> ('k, 'v) slru result" where
  "slru_setMaxCount max_count s = slru_remove_both (s\<lparr>slru_max_count := max_count\<rparr>)"

definition slru_setMaxSizeInBytes :: "64 word \<Rightarrow> ('k, 'v) slru \<Rightarrow> ('k, 'v) slru result" where
  "slru_setMaxSizeInBytes max_size_in_bytes s =
     slru_remove_both
       (s\<lparr>slru_max_protected_size := calculateMaxProtectedSize max_size_in_bytes (slru_size_ratio s),
          slru_max_size_in_bytes := max_size_in_bytes\<rparr>)"

definition slru_clear :: "('k, 'v) slru \<Rightarrow> ('k, 'v) slru" where
  "slru_clear s = s\<lparr>slru_count_metric := slru_count_metric s - word_of_nat (length (slru_cells s)),
                    slru_size_metric := slru_size_metric s - slru_size_in_bytes s,
                    slru_cells := [], probationary_queue := [], protected_queue := [],
                    slru_size_in_bytes := 0, slru_protected_size := 0\<rparr>"

definition slru_erase :: "'k \<Rightarrow> 'v slru_cell \<Rightarrow> ('k, 'v) slru \<Rightarrow> ('k, 'v) slru" where
  "slru_erase key cell s =
     (let s1 = s\<lparr>slru_size_in_bytes := slru_size_in_bytes s - slru_cell_size cell\<rparr>;
          s2 = (if is_protected cell
                then s1\<lparr>slru_protected_size := slru_protected_size s - slru_cell_size cell,
                        protected_queue := remove1 key (protected_queue s)\<rparr>
                else s1\<lparr>probationary_queue := remove1 key (probationary_queue s)\<rparr>)
      in s2\<lparr>slru_cells := AList.delete key (slru_cells s)\<rparr>)"

definition slru_remove :: "'k \<Rightarrow> ('k, 'v) slru \<Rightarrow> ('k, 'v) slru" where
  "slru_remove key s =
     (case map_of (slru_cells s) key of
        None \<Rightarrow> s
      | Some cell \<Rightarrow>
          (slru_erase key cell s)\<lparr>slru_size_metric := slru_size_metric s - slru_cell_size cell,
                                  slru_count_metric := slru_count_metric s - 1\<rparr>)"

fun slru_remove_loop :: "('k \<Rightarrow> 'v option \<Rightarrow> bool) \<Rightarrow> ('k \<times> 'v slru_cell) list \<Rightarrow> ('k, 'v) slru \<Rightarrow> ('k, 'v) slru" where
  "slru_remove_loop p [] s = s"
| "slru_remove_loop p ((key, cell) # rest) s =
     slru_remove_loop p rest (if p key (slru_value cell) then slru_erase key cell s else s)"

definition slru_remove_if :: "('k \<Rightarrow> 'v option \<Rightarrow> bool) \<Rightarrow> ('k, 'v) slru \<Rightarrow> ('k, 'v) slru" where
  "slru_remove_if p s =
     (let s' = slru_remove_loop p (slru_cells s) s
      in s'\<lparr>slru_size_metric := slru_size_metric s' - (slru_size_in_bytes s - slru_size_in_bytes s'),
            slru_count_metric := slru_count_metric s'
              - (word_of_nat (length (slru_cells s)) - word_of_nat (length (slru_cells s')))\<rparr>)"

text \<open>The part that \<^verbatim>\<open>get\<close> and \<^verbatim>\<open>getWithKey\<close> share.\<close>

definition slru_touch :: "'k \<Rightarrow> 'v slru_cell \<Rightarrow> ('k, 'v) slru \<Rightarrow> ('k, 'v) slru result" where
  "slru_touch key cell s =
     (if is_protected cell
      then Inr (s\<lparr>protected_queue := remove1 key (protected_queue s) @ [key]\<rparr>)
      else slru_removeOverflow True
             (s\<lparr>slru_cells := AList.update key (cell\<lparr>is_protected := True\<rparr>) (slru_cells s),
                slru_protected_size := slru_protected_size s + slru_cell_size cell,
                probationary_queue := remove1 key (probationary_queue s),
                protected_queue := protected_queue s @ [key]\<rparr>))"

definition slru_get :: "'k \<Rightarrow> ('k, 'v) slru \<Rightarrow> ('v option \<times> ('k, 'v) slru) result" where
  "slru_get key s =
     (case map_of (slru_cells s) key of
        None \<Rightarrow> Inr (None, s)
      | Some cell \<Rightarrow> res_map (Pair (slru_value cell)) (slru_touch key cell s))"

definition slru_getWithKey :: "'k \<Rightarrow> ('k, 'v) slru \<Rightarrow> (('k \<times> 'v option) option \<times> ('k, 'v) slru) result" where
  "slru_getWithKey key s =
     (case map_of (slru_cells s) key of
        None \<Rightarrow> Inr (None, s)
      | Some cell \<Rightarrow> res_map (Pair (Some (key, slru_value cell))) (slru_touch key cell s))"

definition slru_contains :: "'k \<Rightarrow> ('k, 'v) slru \<Rightarrow> bool" where
  "slru_contains key s \<longleftrightarrow> map_of (slru_cells s) key \<noteq> None"

text \<open>
  \<^verbatim>\<open>set\<close>: the first \<open>let\<close> places the key in its queue and takes the old weight out of the counters; it also
  gives the protection flag of the cell.
\<close>

definition slru_set :: "('v \<Rightarrow> 64 word) \<Rightarrow> 'k \<Rightarrow> 'v option \<Rightarrow> ('k, 'v) slru \<Rightarrow> ('k, 'v) slru result" where
  "slru_set weight_function key mapped s =
     (let (s1, protected_cell) =
            (case map_of (slru_cells s) key of
               None \<Rightarrow> (s\<lparr>probationary_queue := probationary_queue s @ [key]\<rparr>, False)
             | Some cell \<Rightarrow>
                 (if is_protected cell
                  then s\<lparr>slru_size_in_bytes := slru_size_in_bytes s - slru_cell_size cell,
                         slru_protected_size := slru_protected_size s - slru_cell_size cell,
                         protected_queue := remove1 key (protected_queue s) @ [key]\<rparr>
                  else s\<lparr>slru_size_in_bytes := slru_size_in_bytes s - slru_cell_size cell,
                         probationary_queue := remove1 key (probationary_queue s),
                         protected_queue := protected_queue s @ [key]\<rparr>, True));
          cell_size = value_weight weight_function mapped;
          s2 = s1\<lparr>slru_cells := AList.update key
                      \<lparr>is_protected = protected_cell, slru_value = mapped, slru_cell_size = cell_size\<rparr> (slru_cells s),
                  slru_size_in_bytes := slru_size_in_bytes s1 + cell_size,
                  slru_protected_size := slru_protected_size s1 + (if protected_cell then cell_size else 0)\<rparr>
      in slru_remove_both
           (s2\<lparr>slru_size_metric := slru_size_metric s2 + (slru_size_in_bytes s2 - slru_size_in_bytes s),
               slru_count_metric := slru_count_metric s2
                 + (word_of_nat (length (slru_cells s2)) - word_of_nat (length (slru_cells s)))\<rparr>))"

definition slru_dump :: "('k, 'v) slru \<Rightarrow> ('k \<times> 'v option) list" where
  "slru_dump s = map (\<lambda>(key, cell). (key, slru_value cell)) (slru_cells s)"

definition SLRUCachePolicy :: "('v \<Rightarrow> 64 word) \<Rightarrow> (('k, 'v) slru, 'k, 'v) policy" where
  "SLRUCachePolicy weight_function =
     \<lparr>policy_sizeInBytes = slru_size_in_bytes, policy_count = slru_count,
      policy_maxSizeInBytes = slru_max_size_in_bytes, policy_maxCount = slru_max_count,
      policy_setMaxCount = slru_setMaxCount, policy_setMaxSizeInBytes = slru_setMaxSizeInBytes,
      policy_get = slru_get, policy_getWithKey = slru_getWithKey, policy_contains = slru_contains,
      policy_set = slru_set weight_function, policy_remove = slru_remove, policy_remove_if = slru_remove_if,
      policy_clear = slru_clear, policy_dump = slru_dump\<rparr>"

section \<open>The protected size\<close>

lemma double_round_le:
  assumes "p \<le> n * 2 ^ e" and "n \<le> 2 ^ 53"
  shows "double_round p \<le> n * 2 ^ e"
proof (cases "p \<le> 2 ^ 53")
  case True
  then show ?thesis
    using assms(1) by (simp add: double_round_def)
next
  case False
  define s where "s = floorlog 2 p - 53"
  define q where "q = p div 2 ^ s"
  have "p > 0"
    using False by simp
  then have lo: "2 ^ (floorlog 2 p - 1) \<le> p" and hi: "p < 2 ^ floorlog 2 p"
    using floorlog_bounds [of p 2] by simp_all
  have "2 ^ 53 < (2::nat) ^ floorlog 2 p"
    using False hi by linarith
  then have len: "53 < floorlog 2 p"
    by (rule power_less_imp_less_exp [rotated]) simp
  then have b: "floorlog 2 p = s + 53" "s \<ge> 1"
    by (simp_all add: s_def)
  have q: "2 ^ 52 \<le> q"
  proof -
    have "2 ^ 52 * 2 ^ s \<le> p"
      using lo b by (simp add: power_add mult.commute)
    then show ?thesis
      unfolding q_def by (metis less_eq_div_iff_mult_less_eq zero_less_numeral zero_less_power)
  qed
  have split: "p = q * 2 ^ s + p mod 2 ^ s"
    unfolding q_def by (rule div_mult_mod_eq [symmetric])
  have up: "(q + 1) * 2 ^ s \<le> n * 2 ^ e" if "p mod 2 ^ s > 0"
  proof (cases "s \<le> e")
    case True
    then obtain d where d: "e = s + d"
      using le_Suc_ex by blast
    have "q * 2 ^ s < n * 2 ^ e"
      using that split assms(1) by linarith
    then have "q * 2 ^ s < (n * 2 ^ d) * 2 ^ s"
      by (simp add: d power_add ac_simps)
    then have "q + 1 \<le> n * 2 ^ d"
      by simp
    then have "(q + 1) * 2 ^ s \<le> (n * 2 ^ d) * 2 ^ s"
      by (rule mult_le_mono1)
    then show ?thesis
      by (simp add: d power_add ac_simps)
  next
    case False
    have "n * 2 ^ e \<le> 2 ^ 53 * 2 ^ e"
      using assms(2) by simp
    also have "\<dots> \<le> 2 ^ 52 * (2::nat) ^ s"
      using False by (simp add: power_add [symmetric] flip: power_Suc)
    also have "\<dots> \<le> q * 2 ^ s"
      using q by simp
    finally show ?thesis
      using that split assms(1) by linarith
  qed
  have "double_round p = (if 2 ^ (s - 1) < p mod 2 ^ s \<or> (p mod 2 ^ s = 2 ^ (s - 1) \<and> odd q)
      then (q + 1) * 2 ^ s else q * 2 ^ s)"
    using False by (simp add: double_round_def Let_def s_def q_def)
  moreover have "q * 2 ^ s \<le> n * 2 ^ e"
    using split assms(1) by linarith
  ultimately show ?thesis
    using up by (auto split: if_splits)
qed

lemma calculateMaxProtectedSize_le:
  assumes "max_size \<le> 2 ^ 53"
  shows "calculateMaxProtectedSize max_size ratio \<le> max_size"
proof -
  obtain m e where me: "clamp_ratio ratio = (m, e)"
    by fastforce
  then have m: "m \<le> 2 ^ e"
    by (auto simp: clamp_ratio_def nat_le_iff split: prod.splits if_splits)
  have n: "unat max_size \<le> 2 ^ 53"
    using assms by (simp add: word_le_nat_alt)
  have "double_round (unat max_size * m) \<le> unat max_size * 2 ^ e"
    using n m by (intro double_round_le) simp_all
  then have "double_round (unat max_size * m) div 2 ^ e \<le> unat max_size"
    by (metis div_le_mono nonzero_mult_div_cancel_right power_not_zero zero_neq_numeral)
  then have "word_of_nat (double_round (unat max_size * m) div 2 ^ e) \<le> max_size"
    by (metis le_unat_uoi word_le_nat_alt order_refl)
  then show ?thesis
    using n by (simp add: calculateMaxProtectedSize_def me double_round_def [of "unat max_size"])
qed

section \<open>Consistent states\<close>

definition strip_cell :: "'v slru_cell \<Rightarrow> 'v lru_cell" where
  "strip_cell c = \<lparr>lru_value = slru_value c, lru_cell_size = slru_cell_size c\<rparr>"

text \<open>The entries of a queue, without the protection flag.\<close>

definition seg_view :: "('k \<times> 'v slru_cell) list \<Rightarrow> 'k list \<Rightarrow> ('k \<times> 'v lru_cell) list" where
  "seg_view cs q = map (\<lambda>k. (k, strip_cell (the (map_of cs k)))) q"

definition slru_core :: "('v \<Rightarrow> 64 word) \<Rightarrow> ('k, 'v) slru \<Rightarrow> bool" where
  "slru_core weight s \<longleftrightarrow> queue_ok (slru_cells s) (probationary_queue s @ protected_queue s)
     \<and> (\<forall>(k, c) \<in> set (slru_cells s). (is_protected c \<longleftrightarrow> k \<in> set (protected_queue s))
          \<and> slru_cell_size c = value_weight weight (slru_value c))
     \<and> slru_size_in_bytes s = cells_sum slru_cell_size (slru_cells s)
     \<and> slru_protected_size s = cells_sum slru_cell_size (queue_view (slru_cells s) (protected_queue s))
     \<and> cells_sum (\<lambda>c. unat (slru_cell_size c)) (slru_cells s) < 2 ^ 64"

definition slru_metrics :: "('k, 'v) slru \<Rightarrow> bool" where
  "slru_metrics s \<longleftrightarrow> slru_size_metric s = slru_size_in_bytes s
     \<and> slru_count_metric s = word_of_nat (length (slru_cells s))"

abbreviation prob_view :: "('k, 'v) slru \<Rightarrow> ('k \<times> 'v lru_cell) list" where
  "prob_view s \<equiv> seg_view (slru_cells s) (probationary_queue s)"

abbreviation prot_view :: "('k, 'v) slru \<Rightarrow> ('k \<times> 'v lru_cell) list" where
  "prot_view s \<equiv> seg_view (slru_cells s) (protected_queue s)"

abbreviation entry_bytes :: "('k \<times> 'v lru_cell) list \<Rightarrow> nat" where
  "entry_bytes \<equiv> cells_sum (\<lambda>c. unat (lru_cell_size c))"

lemma seg_view_simps [simp]:
  "seg_view cs [] = []"
  "seg_view cs (k # q) = (k, strip_cell (the (map_of cs k))) # seg_view cs q"
  "seg_view cs (q @ r) = seg_view cs q @ seg_view cs r"
  "length (seg_view cs q) = length q"
  "map fst (seg_view cs q) = q"
  by (simp_all add: seg_view_def comp_def)

lemma strip_cell_simps [simp]:
  "lru_value (strip_cell c) = slru_value c" "lru_cell_size (strip_cell c) = slru_cell_size c"
  "strip_cell (c\<lparr>is_protected := b\<rparr>) = strip_cell c"
  by (simp_all add: strip_cell_def)

lemma seg_view_cong:
  "(\<And>k. k \<in> set q \<Longrightarrow> strip_cell (the (map_of cs k)) = strip_cell (the (map_of ds k))) \<Longrightarrow>
   seg_view cs q = seg_view ds q"
  by (simp add: seg_view_def)

lemma filter_seg_view: "filter (\<lambda>e. P (fst e)) (seg_view cs q) = seg_view cs (filter P q)"
  by (simp add: seg_view_def filter_map comp_def)

lemma entry_bytes_seg_view:
  "entry_bytes (seg_view cs q) = cells_sum (\<lambda>c. unat (slru_cell_size c)) (queue_view cs q)"
  by (induction q) simp_all

lemma slru_core_view:
  assumes "slru_core weight s"
  shows "length (slru_cells s) = length (probationary_queue s) + length (protected_queue s)"
    and "unat (slru_size_in_bytes s) = entry_bytes (prob_view s @ prot_view s)"
    and "unat (slru_protected_size s) = entry_bytes (prot_view s)"
    and "unat (slru_size_in_bytes s) = cells_sum (\<lambda>c. unat (slru_cell_size c)) (slru_cells s)"
proof -
  have ok: "queue_ok (slru_cells s) (probationary_queue s @ protected_queue s)"
    using assms by (simp add: slru_core_def)
  show "length (slru_cells s) = length (probationary_queue s) + length (protected_queue s)"
    using queue_ok_length [OF ok] by simp
  have total: "entry_bytes (prob_view s @ prot_view s) = cells_sum (\<lambda>c. unat (slru_cell_size c)) (slru_cells s)"
    using queue_view_sum [OF ok, of "\<lambda>c. unat (slru_cell_size c)"]
    by (simp add: entry_bytes_seg_view)
  then show "unat (slru_size_in_bytes s) = entry_bytes (prob_view s @ prot_view s)"
    and "unat (slru_size_in_bytes s) = cells_sum (\<lambda>c. unat (slru_cell_size c)) (slru_cells s)"
    using assms by (simp_all add: slru_core_def unat_cells_sum)
  have "entry_bytes (prot_view s) \<le> entry_bytes (prob_view s @ prot_view s)"
    by simp
  then have "cells_sum (\<lambda>c. unat (slru_cell_size c)) (queue_view (slru_cells s) (protected_queue s)) < 2 ^ 64"
    unfolding total entry_bytes_seg_view using assms by (simp add: slru_core_def)
  then show "unat (slru_protected_size s) = entry_bytes (prot_view s)"
    using assms by (simp add: slru_core_def unat_cells_sum entry_bytes_seg_view)
qed

lemma slru_need_remove_iff:
  assumes "slru_core weight s"
  shows "slru_need_remove True s \<longleftrightarrow>
      \<not> fits (unat (slru_max_protected_size s)) (slru_max_count s) (prot_view s)"
    and "slru_need_remove False s \<longleftrightarrow>
      \<not> fits (unat (slru_max_size_in_bytes s)) (slru_max_count s) (prob_view s @ prot_view s)"
  using slru_core_view [OF assms]
  by (auto simp: slru_need_remove_def fits_def word_less_nat_alt size_minus_def)

lemma slru_cell:
  assumes "slru_core weight s" and "k \<in> set (probationary_queue s) \<union> set (protected_queue s)"
  obtains c where "map_of (slru_cells s) k = Some c" "is_protected c \<longleftrightarrow> k \<in> set (protected_queue s)"
    "(k, c) \<in> set (slru_cells s)"
proof -
  have "k \<in> fst ` set (slru_cells s)"
    using assms by (auto simp: slru_core_def queue_ok_def)
  then obtain c where c: "map_of (slru_cells s) k = Some c"
    by (metis map_of_eq_None_iff not_None_eq)
  then have "(k, c) \<in> set (slru_cells s)"
    by (rule map_of_SomeD)
  then show ?thesis
    using that c assms(1) by (auto simp: slru_core_def)
qed

section \<open>Moving and erasing entries\<close>

text \<open>
  Every operation puts one entry at the end of one of the queues or erases one; \<open>slru_place\<close> is the
  general form of the first.
\<close>

definition old_size :: "bool \<Rightarrow> 'k \<Rightarrow> ('k, 'v) slru \<Rightarrow> 64 word" where
  "old_size only_protected k s =
     (case map_of (slru_cells s) k of
        None \<Rightarrow> 0
      | Some c \<Rightarrow> if only_protected \<and> \<not> is_protected c then 0 else slru_cell_size c)"

definition slru_place :: "'k \<Rightarrow> 'v slru_cell \<Rightarrow> ('k, 'v) slru \<Rightarrow> ('k, 'v) slru" where
  "slru_place k c s =
     s\<lparr>probationary_queue := remove1 k (probationary_queue s) @ (if is_protected c then [] else [k]),
       protected_queue := remove1 k (protected_queue s) @ (if is_protected c then [k] else []),
       slru_cells := AList.update k c (slru_cells s),
       slru_protected_size := slru_protected_size s - old_size True k s
         + (if is_protected c then slru_cell_size c else 0),
       slru_size_in_bytes := slru_size_in_bytes s - old_size False k s + slru_cell_size c\<rparr>"

lemma remove1_as_filter: "distinct q \<Longrightarrow> remove1 k q = filter (\<lambda>x. x \<noteq> k) q"
  by (simp add: distinct_remove1_removeAll removeAll_filter_not_eq) (rule filter_cong; auto)

lemma queue_view_filter_sum:
  fixes f :: "'c \<Rightarrow> 64 word"
  assumes "distinct q" and "set q \<subseteq> fst ` set cs"
  shows "cells_sum f (queue_view cs (filter (\<lambda>x. x \<noteq> k) q))
    = cells_sum f (queue_view cs q) - (if k \<in> set q then f (the (map_of cs k)) else 0)"
  using assms by (induction q) (auto simp: filter_id_conv)

lemma slru_place_core:
  assumes "slru_core weight s" and "slru_cell_size c = value_weight weight (slru_value c)"
    and "cells_sum (\<lambda>c. unat (slru_cell_size c)) (AList.update k c (slru_cells s)) < 2 ^ 64"
  shows "slru_core weight (slru_place k c s)"
    and "prob_view (slru_place k c s)
      = filter (\<lambda>e. fst e \<noteq> k) (prob_view s) @ (if is_protected c then [] else [(k, strip_cell c)])"
    and "prot_view (slru_place k c s)
      = filter (\<lambda>e. fst e \<noteq> k) (prot_view s) @ (if is_protected c then [(k, strip_cell c)] else [])"
proof -
  have ok: "queue_ok (slru_cells s) (probationary_queue s @ protected_queue s)"
    and flags: "\<And>k c. (k, c) \<in> set (slru_cells s) \<Longrightarrow> (is_protected c \<longleftrightarrow> k \<in> set (protected_queue s))
          \<and> slru_cell_size c = value_weight weight (slru_value c)"
    and size: "slru_size_in_bytes s = cells_sum slru_cell_size (slru_cells s)"
    and psize: "slru_protected_size s = cells_sum slru_cell_size (queue_view (slru_cells s) (protected_queue s))"
    using assms(1) by (auto simp: slru_core_def)
  have d: "distinct (map fst (slru_cells s))" "distinct (probationary_queue s)" "distinct (protected_queue s)"
    "set (protected_queue s) \<subseteq> fst ` set (slru_cells s)" "set (probationary_queue s) \<inter> set (protected_queue s) = {}"
    using ok by (auto simp: queue_ok_def)
  note rem = remove1_as_filter [OF d(2)] remove1_as_filter [OF d(3)]
  have ok': "queue_ok (slru_cells (slru_place k c s))
      (probationary_queue (slru_place k c s) @ protected_queue (slru_place k c s))"
    using ok by (auto simp: slru_place_def queue_ok_def rem cell_simps)
  have flag: "is_protected c' \<longleftrightarrow> k' \<in> set (protected_queue (slru_place k c s))"
    "slru_cell_size c' = value_weight weight (slru_value c')"
    if "(k', c') \<in> set (slru_cells (slru_place k c s))" for k' c'
  proof -
    have "map_of (AList.update k c (slru_cells s)) k' = Some c'"
      using that ok' by (simp add: slru_place_def queue_ok_def)
    then have "(k' = k \<and> c' = c) \<or> (k' \<noteq> k \<and> (k', c') \<in> set (slru_cells s))"
      by (auto simp: cell_simps split: if_splits dest: map_of_SomeD)
    then show "is_protected c' \<longleftrightarrow> k' \<in> set (protected_queue (slru_place k c s))"
      "slru_cell_size c' = value_weight weight (slru_value c')"
      using flags [of k' c'] assms(2) by (auto simp: slru_place_def rem)
  qed
  have new_size: "cells_sum slru_cell_size (AList.update k c (slru_cells s))
      = slru_size_in_bytes s - old_size False k s + slru_cell_size c"
    using cells_sum_update [OF d(1), of k _ slru_cell_size c] cells_sum_update_new [of "slru_cells s" k slru_cell_size c]
    by (cases "map_of (slru_cells s) k") (simp_all add: old_size_def size algebra_simps)
  have same: "queue_view (AList.update k c (slru_cells s)) (filter (\<lambda>x. x \<noteq> k) q)
      = queue_view (slru_cells s) (filter (\<lambda>x. x \<noteq> k) q)"
    "seg_view (AList.update k c (slru_cells s)) (filter (\<lambda>x. x \<noteq> k) q)
      = seg_view (slru_cells s) (filter (\<lambda>x. x \<noteq> k) q)" for q
    by (rule queue_view_cong seg_view_cong; simp add: cell_simps)+
  have old: "old_size True k s = (if k \<in> set (protected_queue s) then slru_cell_size (the (map_of (slru_cells s) k)) else 0)"
    using flags [of k] d(4) by (auto simp: old_size_def map_of_eq_None_iff split: option.split dest!: map_of_SomeD)
  have q: "protected_queue (slru_place k c s)
      = filter (\<lambda>x. x \<noteq> k) (protected_queue s) @ (if is_protected c then [k] else [])"
    unfolding rem(2) [symmetric] by (simp add: slru_place_def)
  have cells: "slru_cells (slru_place k c s) = AList.update k c (slru_cells s)"
    by (simp add: slru_place_def)
  have "cells_sum slru_cell_size (queue_view (slru_cells (slru_place k c s)) (protected_queue (slru_place k c s)))
      = cells_sum slru_cell_size (queue_view (slru_cells s) (filter (\<lambda>x. x \<noteq> k) (protected_queue s)))
        + (if is_protected c then slru_cell_size c else 0)"
    unfolding q cells by (simp add: same cell_simps)
  also have "\<dots> = slru_protected_size (slru_place k c s)"
    unfolding queue_view_filter_sum [OF d(3,4), of slru_cell_size k] old [symmetric] psize [symmetric]
    by (simp add: slru_place_def)
  finally have psum: "slru_protected_size (slru_place k c s)
      = cells_sum slru_cell_size (queue_view (slru_cells (slru_place k c s)) (protected_queue (slru_place k c s)))"
    by (rule sym)
  have "slru_size_in_bytes (slru_place k c s) = cells_sum slru_cell_size (slru_cells (slru_place k c s))"
    unfolding cells new_size by (simp add: slru_place_def)
  moreover have "\<forall>(k', c') \<in> set (slru_cells (slru_place k c s)).
      (is_protected c' \<longleftrightarrow> k' \<in> set (protected_queue (slru_place k c s)))
      \<and> slru_cell_size c' = value_weight weight (slru_value c')"
    using flag by blast
  ultimately show "slru_core weight (slru_place k c s)"
    unfolding slru_core_def using ok' psum assms(3) unfolding cells by blast
  show "prob_view (slru_place k c s)
      = filter (\<lambda>e. fst e \<noteq> k) (prob_view s) @ (if is_protected c then [] else [(k, strip_cell c)])"
    and "prot_view (slru_place k c s)
      = filter (\<lambda>e. fst e \<noteq> k) (prot_view s) @ (if is_protected c then [(k, strip_cell c)] else [])"
    by (simp_all add: slru_place_def rem same filter_seg_view [of "\<lambda>x. x \<noteq> k"] cell_simps)
qed

definition slru_limits :: "('k, 'v) slru \<Rightarrow> 64 word \<times> 64 word \<times> nat \<times> double" where
  "slru_limits s = (slru_max_size_in_bytes s, slru_max_protected_size s, slru_max_count s, slru_size_ratio s)"

definition slru_meters :: "('k, 'v) slru \<Rightarrow> 64 word \<times> 64 word" where
  "slru_meters s = (slru_size_metric s, slru_count_metric s)"

lemma slru_place_fields [simp]:
  "slru_limits (slru_place k c s) = slru_limits s" "slru_meters (slru_place k c s) = slru_meters s"
  "slru_removed (slru_place k c s) = slru_removed s"
  by (simp_all add: slru_place_def slru_limits_def slru_meters_def)

lemma slru_erase_fields [simp]:
  "slru_limits (slru_erase k c s) = slru_limits s" "slru_meters (slru_erase k c s) = slru_meters s"
  "slru_removed (slru_erase k c s) = slru_removed s"
  "slru_cells (slru_erase k c s) = AList.delete k (slru_cells s)"
  "slru_size_in_bytes (slru_erase k c s) = slru_size_in_bytes s - slru_cell_size c"
  by (simp_all add: slru_erase_def slru_limits_def slru_meters_def Let_def)

lemma slru_flag:
  assumes "slru_core weight s" and "map_of (slru_cells s) k = Some c"
  shows "is_protected c \<longleftrightarrow> k \<in> set (protected_queue s)"
    and "\<not> is_protected c \<longleftrightarrow> k \<in> set (probationary_queue s)"
    and "slru_cell_size c = value_weight weight (slru_value c)"
  using assms map_of_SomeD [OF assms(2)] by (force simp: slru_core_def queue_ok_def)+

lemma slru_erase_core:
  assumes "slru_core weight s" and "map_of (slru_cells s) k = Some c"
  shows "slru_core weight (slru_erase k c s)"
    and "prob_view (slru_erase k c s) = filter (\<lambda>e. fst e \<noteq> k) (prob_view s)"
    and "prot_view (slru_erase k c s) = filter (\<lambda>e. fst e \<noteq> k) (prot_view s)"
proof -
  have ok: "queue_ok (slru_cells s) (probationary_queue s @ protected_queue s)"
    and flags: "\<And>k c. (k, c) \<in> set (slru_cells s) \<Longrightarrow> (is_protected c \<longleftrightarrow> k \<in> set (protected_queue s))
          \<and> slru_cell_size c = value_weight weight (slru_value c)"
    and size: "slru_size_in_bytes s = cells_sum slru_cell_size (slru_cells s)"
    and psize: "slru_protected_size s = cells_sum slru_cell_size (queue_view (slru_cells s) (protected_queue s))"
    and bound: "cells_sum (\<lambda>c. unat (slru_cell_size c)) (slru_cells s) < 2 ^ 64"
    using assms(1) by (auto simp: slru_core_def)
  have d: "distinct (map fst (slru_cells s))" "distinct (probationary_queue s)" "distinct (protected_queue s)"
    "set (protected_queue s) \<subseteq> fst ` set (slru_cells s)" "set (probationary_queue s) \<inter> set (protected_queue s) = {}"
    using ok by (auto simp: queue_ok_def)
  have queues: "probationary_queue (slru_erase k c s) = filter (\<lambda>x. x \<noteq> k) (probationary_queue s)"
    "protected_queue (slru_erase k c s) = filter (\<lambda>x. x \<noteq> k) (protected_queue s)"
    unfolding remove1_as_filter [OF d(2), symmetric] remove1_as_filter [OF d(3), symmetric]
    using slru_flag(1,2) [OF assms] d(5) by (auto simp: slru_erase_def Let_def remove1_idem)
  have same: "queue_view (AList.delete k (slru_cells s)) (filter (\<lambda>x. x \<noteq> k) q)
      = queue_view (slru_cells s) (filter (\<lambda>x. x \<noteq> k) q)"
    "seg_view (AList.delete k (slru_cells s)) (filter (\<lambda>x. x \<noteq> k) q)
      = seg_view (slru_cells s) (filter (\<lambda>x. x \<noteq> k) q)" for q
    by (rule queue_view_cong seg_view_cong; simp add: cell_simps)+
  have "queue_ok (AList.delete k (slru_cells s))
      (filter (\<lambda>x. x \<noteq> k) (probationary_queue s) @ filter (\<lambda>x. x \<noteq> k) (protected_queue s))"
    using ok by (auto simp: queue_ok_def cell_simps)
  moreover have "\<forall>(k', c') \<in> set (AList.delete k (slru_cells s)).
      (is_protected c' \<longleftrightarrow> k' \<in> set (filter (\<lambda>x. x \<noteq> k) (protected_queue s)))
      \<and> slru_cell_size c' = value_weight weight (slru_value c')"
    using flags by (auto simp: AList.delete_eq)
  moreover have "slru_size_in_bytes s - slru_cell_size c = cells_sum slru_cell_size (AList.delete k (slru_cells s))"
    using cells_sum_delete [OF d(1) assms(2), of slru_cell_size] by (simp add: size diff_eq_eq)
  moreover have "slru_protected_size (slru_erase k c s)
      = cells_sum slru_cell_size (queue_view (slru_cells s) (filter (\<lambda>x. x \<noteq> k) (protected_queue s)))"
    unfolding queue_view_filter_sum [OF d(3,4), of slru_cell_size k] psize [symmetric]
    using slru_flag(1) [OF assms] assms(2) by (simp add: slru_erase_def Let_def)
  moreover have "cells_sum (\<lambda>c. unat (slru_cell_size c)) (AList.delete k (slru_cells s)) < 2 ^ 64"
    using cells_sum_delete [OF d(1) assms(2), of "\<lambda>c. unat (slru_cell_size c)"] bound by linarith
  ultimately show "slru_core weight (slru_erase k c s)"
    unfolding slru_core_def queues slru_erase_fields same by blast
  show "prob_view (slru_erase k c s) = filter (\<lambda>e. fst e \<noteq> k) (prob_view s)"
    "prot_view (slru_erase k c s) = filter (\<lambda>e. fst e \<noteq> k) (prot_view s)"
    unfolding queues slru_erase_fields same filter_seg_view [of "\<lambda>x. x \<noteq> k"] by simp_all
qed

lemma cells_sum_reflag:
  assumes "distinct (map fst cs)" and "map_of cs k = Some c" and "f d = f c"
  shows "cells_sum f (AList.update k d cs) = (cells_sum f cs :: nat)"
  using cells_sum_update [OF assms(1,2), of f d] assms(3) by simp

text \<open>The first entry of the protected queue is moved to the end of the probationary queue.\<close>

lemma slru_demote_head:
  assumes "slru_core weight s" and "protected_queue s = key # rest" and "map_of (slru_cells s) key = Some cell"
  shows "s\<lparr>slru_protected_size := slru_protected_size s - slru_cell_size cell, protected_queue := rest,
        slru_cells := AList.update key (cell\<lparr>is_protected := False\<rparr>) (slru_cells s),
        probationary_queue := probationary_queue s @ [key]\<rparr> = slru_place key (cell\<lparr>is_protected := False\<rparr>) s"
    and "slru_core weight (slru_place key (cell\<lparr>is_protected := False\<rparr>) s)"
    and "prob_view (slru_place key (cell\<lparr>is_protected := False\<rparr>) s) = prob_view s @ [(key, strip_cell cell)]"
    and "(key, strip_cell cell) # prot_view (slru_place key (cell\<lparr>is_protected := False\<rparr>) s) = prot_view s"
proof -
  have d: "distinct (map fst (slru_cells s))" "distinct (key # rest)" "key \<notin> set (probationary_queue s)"
    using assms(1,2) by (auto simp: slru_core_def queue_ok_def)
  have flag: "is_protected cell"
    using slru_flag(1) [OF assms(1,3)] assms(2) by simp
  have sum: "cells_sum (\<lambda>c. unat (slru_cell_size c)) (AList.update key (cell\<lparr>is_protected := False\<rparr>) (slru_cells s)) < 2 ^ 64"
    using cells_sum_reflag [OF d(1) assms(3), of "\<lambda>c. unat (slru_cell_size c)" "cell\<lparr>is_protected := False\<rparr>"] assms(1)
    by (simp add: slru_core_def)
  have w: "slru_cell_size (cell\<lparr>is_protected := False\<rparr>) = value_weight weight (slru_value (cell\<lparr>is_protected := False\<rparr>))"
    using slru_flag(3) [OF assms(1,3)] by simp
  have none: "filter (\<lambda>e. fst e \<noteq> key) (prob_view s) = prob_view s"
    using d(3) by (auto simp: seg_view_def filter_id_conv)
  have rest: "filter (\<lambda>e. fst e \<noteq> key) (seg_view (slru_cells s) rest) = seg_view (slru_cells s) rest"
    using d(2) by (auto simp: seg_view_def filter_id_conv)
  show "s\<lparr>slru_protected_size := slru_protected_size s - slru_cell_size cell, protected_queue := rest,
        slru_cells := AList.update key (cell\<lparr>is_protected := False\<rparr>) (slru_cells s),
        probationary_queue := probationary_queue s @ [key]\<rparr> = slru_place key (cell\<lparr>is_protected := False\<rparr>) s"
    using assms(2,3) d(3) flag by (cases s) (simp add: slru_place_def old_size_def remove1_idem)
  show "slru_core weight (slru_place key (cell\<lparr>is_protected := False\<rparr>) s)"
    "prob_view (slru_place key (cell\<lparr>is_protected := False\<rparr>) s) = prob_view s @ [(key, strip_cell cell)]"
    "(key, strip_cell cell) # prot_view (slru_place key (cell\<lparr>is_protected := False\<rparr>) s) = prot_view s"
    using slru_place_core [OF assms(1) w sum] none rest assms(2,3) by simp_all
qed

section \<open>Eviction\<close>

lemma slru_limits_eq:
  assumes "slru_limits t = slru_limits s"
  shows "slru_max_size_in_bytes t = slru_max_size_in_bytes s" "slru_max_protected_size t = slru_max_protected_size s"
    "slru_max_count t = slru_max_count s" "slru_size_ratio t = slru_size_ratio s"
  using assms by (simp_all add: slru_limits_def)

lemma slru_demote:
  assumes "slru_core weight s" and "n = length (protected_queue s)"
  shows "\<exists>s' d. slru_evict True n s = Inr s' \<and> slru_core weight s' \<and> prot_view s = d @ prot_view s'
    \<and> prob_view s' = prob_view s @ d
    \<and> prot_view s' = keep_recent (unat (slru_max_protected_size s)) (slru_max_count s) (prot_view s)
    \<and> slru_limits s' = slru_limits s \<and> slru_meters s' = slru_meters s \<and> slru_removed s' = slru_removed s"
  using assms
proof (induction n arbitrary: s)
  case 0
  then show ?case
    by simp
next
  case (Suc n)
  then obtain key rest where q: "protected_queue s = key # rest"
    by (cases "protected_queue s") auto
  show ?case
  proof (cases "fits (unat (slru_max_protected_size s)) (slru_max_count s) (prot_view s)")
    case True
    then have "slru_evict True (Suc n) s = Inr s"
      using slru_need_remove_iff(1) [OF Suc.prems(1)] by simp
    then show ?thesis
      using Suc.prems(1) keep_recent_all [OF True] by (intro exI [of _ s] exI [of _ "[]"]) simp
  next
    case False
    obtain cell where cell: "map_of (slru_cells s) key = Some cell" "is_protected cell"
      using slru_cell [OF Suc.prems(1), of key] q by auto
    define t where "t = slru_place key (cell\<lparr>is_protected := False\<rparr>) s"
    note head = slru_demote_head [OF Suc.prems(1) q cell(1), folded t_def]
    have step: "slru_evict True (Suc n) s = slru_evict True n t"
      using False slru_need_remove_iff(1) [OF Suc.prems(1)] q cell head(1) by simp
    have limits: "slru_limits t = slru_limits s" "slru_meters t = slru_meters s" "slru_removed t = slru_removed s"
      by (simp_all add: t_def)
    have "length (prot_view s) = Suc (length (prot_view t))"
      unfolding head(4) [symmetric] by (rule length_Cons)
    then have len: "n = length (protected_queue t)"
      using Suc.prems(2) by simp
    have keep: "keep_recent (unat (slru_max_protected_size s)) (slru_max_count s) (prot_view s)
        = keep_recent (unat (slru_max_protected_size s)) (slru_max_count s) (prot_view t)"
      using False head(4) [symmetric] by (metis keep_recent.simps(2))
    obtain s' d where s': "slru_evict True n t = Inr s'" "slru_core weight s'" "prot_view t = d @ prot_view s'"
      "prob_view s' = prob_view t @ d"
      "prot_view s' = keep_recent (unat (slru_max_protected_size t)) (slru_max_count t) (prot_view t)"
      "slru_limits s' = slru_limits t" "slru_meters s' = slru_meters t" "slru_removed s' = slru_removed t"
      using Suc.IH [OF head(2) len] by blast
    have "prot_view s = ((key, strip_cell cell) # d) @ prot_view s'"
      "prob_view s' = prob_view s @ ((key, strip_cell cell) # d)"
      using s'(3,4) head(3) head(4) [symmetric] by simp_all
    then show ?thesis
      using step s'(1,2,5-8) keep limits slru_limits_eq [OF limits(1)]
      by (intro exI [of _ s'] exI [of _ "(key, strip_cell cell) # d"]) simp
  qed
qed

lemma slru_evict_probationary:
  assumes "slru_core weight s" and "n = length (probationary_queue s)"
    and "fits (unat (slru_max_size_in_bytes s)) (slru_max_count s) (prot_view s)"
  shows "\<exists>s' d. slru_evict False n s = Inr s' \<and> slru_core weight s' \<and> prob_view s = d @ prob_view s'
    \<and> prot_view s' = prot_view s
    \<and> prob_view s' @ prot_view s'
        = keep_recent (unat (slru_max_size_in_bytes s)) (slru_max_count s) (prob_view s @ prot_view s)
    \<and> slru_limits s' = slru_limits s \<and> slru_meters s' = slru_meters s
    \<and> slru_removed s' = slru_removed s @ map (\<lambda>(k, c). (lru_cell_size c, lru_value c)) d"
  using assms
proof (induction n arbitrary: s)
  case 0
  then show ?case
    by (simp add: keep_recent_all)
next
  case (Suc n)
  then obtain key rest where q: "probationary_queue s = key # rest"
    by (cases "probationary_queue s") auto
  show ?case
  proof (cases "fits (unat (slru_max_size_in_bytes s)) (slru_max_count s) (prob_view s @ prot_view s)")
    case True
    then have "slru_evict False (Suc n) s = Inr s"
      using slru_need_remove_iff(2) [OF Suc.prems(1)] by simp
    then show ?thesis
      using Suc.prems(1) keep_recent_all [OF True] by (intro exI [of _ s] exI [of _ "[]"]) simp
  next
    case False
    obtain cell where cell: "map_of (slru_cells s) key = Some cell" "is_protected cell \<longleftrightarrow> key \<in> set (protected_queue s)"
      using slru_cell [OF Suc.prems(1), of key] q by auto
    have d: "distinct (key # rest)" "key \<notin> set (protected_queue s)"
      using Suc.prems(1) q by (auto simp: slru_core_def queue_ok_def)
    define t where "t = (slru_erase key cell s)\<lparr>slru_removed := slru_removed s @ [(slru_cell_size cell, slru_value cell)]\<rparr>"
    note erase = slru_erase_core [OF Suc.prems(1) cell(1)]
    have "s\<lparr>slru_size_in_bytes := slru_size_in_bytes s - slru_cell_size cell, probationary_queue := rest,
        slru_removed := slru_removed s @ [(slru_cell_size cell, slru_value cell)],
        slru_cells := AList.delete key (slru_cells s)\<rparr> = t"
      using cell(2) d q by (cases s) (simp add: t_def slru_erase_def)
    then have step: "slru_evict False (Suc n) s = slru_evict False n t"
      using False slru_need_remove_iff(2) [OF Suc.prems(1)] q cell d(2) by simp
    have limits: "slru_limits t = slru_limits s" "slru_meters t = slru_meters s"
      "slru_removed t = slru_removed s @ [(slru_cell_size cell, slru_value cell)]"
      using slru_erase_fields(1,2) [of key cell s] by (simp_all add: t_def slru_limits_def slru_meters_def)
    have core: "slru_core weight t"
      using erase(1) by (simp add: t_def slru_core_def)
    have "filter (\<lambda>e. fst e \<noteq> key) (prot_view s) = prot_view s"
      "filter (\<lambda>e. fst e \<noteq> key) (seg_view (slru_cells s) rest) = seg_view (slru_cells s) rest"
      using d by (auto simp: seg_view_def filter_id_conv)
    then have prot: "prot_view t = prot_view s" and prob: "prob_view s = (key, strip_cell cell) # prob_view t"
      using erase(2,3) q cell(1) by (simp_all add: t_def)
    have "length (prob_view s) = Suc (length (prob_view t))"
      unfolding prob by (rule length_Cons)
    then have len: "n = length (probationary_queue t)"
      using Suc.prems(2) by simp
    have keep: "keep_recent (unat (slru_max_size_in_bytes s)) (slru_max_count s) (prob_view s @ prot_view s)
        = keep_recent (unat (slru_max_size_in_bytes s)) (slru_max_count s) (prob_view t @ prot_view t)"
      using False prob prot by (metis append_Cons keep_recent.simps(2))
    have "fits (unat (slru_max_size_in_bytes t)) (slru_max_count t) (prot_view t)"
      using Suc.prems(3) slru_limits_eq [OF limits(1)] prot by simp
    then obtain s' d where s': "slru_evict False n t = Inr s'" "slru_core weight s'" "prob_view t = d @ prob_view s'"
      "prot_view s' = prot_view t"
      "prob_view s' @ prot_view s'
        = keep_recent (unat (slru_max_size_in_bytes t)) (slru_max_count t) (prob_view t @ prot_view t)"
      "slru_limits s' = slru_limits t" "slru_meters s' = slru_meters t"
      "slru_removed s' = slru_removed t @ map (\<lambda>(k, c). (lru_cell_size c, lru_value c)) d"
      using Suc.IH [OF core len] by blast
    have "prob_view s = ((key, strip_cell cell) # d) @ prob_view s'"
      using s'(3) prob by simp
    then show ?thesis
      using step s'(1,2,4-8) keep limits prot slru_limits_eq [OF limits(1)]
      by (intro exI [of _ s'] exI [of _ "(key, strip_cell cell) # d"]) simp
  qed
qed

section \<open>Segmented recency lists\<close>

text \<open>
  The contract of the policy: two recency lists.  When the protected list exceeds its limits its oldest
  entries move to the end of the probationary list; when everything exceeds the limits of the cache the
  oldest probationary entries are dropped.
\<close>

record ('k, 'v) segmented =
  g_max_size :: "64 word"
  g_max_protected :: "64 word"
  g_max_count :: nat
  g_ratio :: double
  g_prob :: "('k \<times> 'v lru_cell) list"
  g_prot :: "('k \<times> 'v lru_cell) list"

definition g_demote :: "('k, 'v) segmented \<Rightarrow> ('k, 'v) segmented" where
  "g_demote g =
     (let keep = keep_recent (unat (g_max_protected g)) (g_max_count g) (g_prot g)
      in g\<lparr>g_prob := g_prob g @ take (length (g_prot g) - length keep) (g_prot g), g_prot := keep\<rparr>)"

definition g_evict :: "('k, 'v) segmented \<Rightarrow> ('k, 'v) segmented" where
  "g_evict g =
     (let keep = keep_recent (unat (g_max_size g)) (g_max_count g) (g_prob g @ g_prot g)
      in g\<lparr>g_prob := take (length keep - length (g_prot g)) keep\<rparr>)"

definition slru_abs :: "('k, 'v) slru \<Rightarrow> ('k, 'v) segmented" where
  "slru_abs s =
     \<lparr>g_max_size = slru_max_size_in_bytes s, g_max_protected = slru_max_protected_size s,
      g_max_count = slru_max_count s, g_ratio = slru_size_ratio s,
      g_prob = prob_view s, g_prot = prot_view s\<rparr>"

definition slru_valid :: "('v \<Rightarrow> 64 word) \<Rightarrow> ('k, 'v) slru \<Rightarrow> bool" where
  "slru_valid weight s \<longleftrightarrow> slru_core weight s \<and> slru_metrics s \<and> slru_max_size_in_bytes s \<le> 2 ^ 53
     \<and> slru_max_protected_size s = calculateMaxProtectedSize (slru_max_size_in_bytes s) (slru_size_ratio s)
     \<and> fits (unat (slru_max_protected_size s)) (slru_max_count s) (prot_view s)
     \<and> fits (unat (slru_max_size_in_bytes s)) (slru_max_count s) (prob_view s @ prot_view s)"

lemma slru_overflow_protected:
  assumes "slru_core weight s" and "slru_metrics s" and "slru_size_in_bytes s \<le> 2 ^ 63"
  shows "\<exists>s'. slru_removeOverflow True s = Inr s' \<and> slru_core weight s' \<and> slru_metrics s'
    \<and> slru_abs s' = g_demote (slru_abs s) \<and> slru_removed s' = slru_removed s
    \<and> prob_view s' @ prot_view s' = prob_view s @ prot_view s
    \<and> fits (unat (slru_max_protected_size s)) (slru_max_count s) (prot_view s')"
proof -
  obtain t d where t: "slru_evict True (length (protected_queue s)) s = Inr t" "slru_core weight t"
    "prot_view s = d @ prot_view t" "prob_view t = prob_view s @ d"
    "prot_view t = keep_recent (unat (slru_max_protected_size s)) (slru_max_count s) (prot_view s)"
    "slru_limits t = slru_limits s" "slru_meters t = slru_meters s" "slru_removed t = slru_removed s"
    using slru_demote [OF assms(1) refl] by blast
  note eqs = slru_limits_eq [OF t(6)]
  have all: "prob_view t @ prot_view t = prob_view s @ prot_view s"
    using t(3,4) by simp
  then have size: "slru_size_in_bytes t = slru_size_in_bytes s"
    using slru_core_view(2) [OF assms(1)] slru_core_view(2) [OF t(2)] by (metis word_unat_eq_iff)
  have "length (prob_view t @ prot_view t) = length (prob_view s @ prot_view s)"
    by (simp only: all)
  then have len: "length (slru_cells t) = length (slru_cells s)"
    using slru_core_view(1) [OF assms(1)] slru_core_view(1) [OF t(2)] by simp
  have res: "slru_removeOverflow True s = Inr (t\<lparr>slru_size_metric := slru_size_metric t, slru_count_metric := slru_count_metric t\<rparr>)"
    using t(1) assms(3) by (simp add: slru_removeOverflow_def size len not_less)
  have "d = take (length (prot_view s) - length (prot_view t)) (prot_view s)"
    using t(3) by (metis add_diff_cancel_right' append_eq_conv_conj length_append)
  then have "slru_abs t = g_demote (slru_abs s)"
    using t(4) eqs t(5) by (simp add: slru_abs_def g_demote_def Let_def)
  moreover have "fits (unat (slru_max_protected_size s)) (slru_max_count s) (prot_view t)"
    unfolding t(5) by (rule keep_recent_fits)
  moreover have "slru_metrics t"
    using assms(2) t(7) size len by (simp add: slru_metrics_def slru_meters_def)
  ultimately show ?thesis
    using res t(2,8) all by auto
qed

lemma slru_overflow_probationary:
  assumes "slru_core weight s" and "slru_metrics s" and "slru_max_size_in_bytes s \<le> 2 ^ 63"
    and "fits (unat (slru_max_size_in_bytes s)) (slru_max_count s) (prot_view s)"
  shows "\<exists>s' d. slru_removeOverflow False s = Inr s' \<and> slru_core weight s' \<and> slru_metrics s'
    \<and> slru_abs s' = g_evict (slru_abs s) \<and> prob_view s = d @ prob_view s' \<and> prot_view s' = prot_view s
    \<and> slru_removed s' = slru_removed s @ map (\<lambda>(k, c). (lru_cell_size c, lru_value c)) d
    \<and> fits (unat (slru_max_size_in_bytes s)) (slru_max_count s) (prob_view s' @ prot_view s')"
proof -
  obtain t d where t: "slru_evict False (length (probationary_queue s)) s = Inr t" "slru_core weight t"
    "prob_view s = d @ prob_view t" "prot_view t = prot_view s"
    "prob_view t @ prot_view t
      = keep_recent (unat (slru_max_size_in_bytes s)) (slru_max_count s) (prob_view s @ prot_view s)"
    "slru_limits t = slru_limits s" "slru_meters t = slru_meters s"
    "slru_removed t = slru_removed s @ map (\<lambda>(k, c). (lru_cell_size c, lru_value c)) d"
    using slru_evict_probationary [OF assms(1) refl assms(4)] by blast
  note eqs = slru_limits_eq [OF t(6)]
  have fit: "fits (unat (slru_max_size_in_bytes s)) (slru_max_count s) (prob_view t @ prot_view t)"
    unfolding t(5) by (rule keep_recent_fits)
  then have "unat (slru_size_in_bytes t) \<le> unat (slru_max_size_in_bytes s)"
    unfolding slru_core_view(2) [OF t(2)] by (simp add: fits_def)
  then have small: "\<not> slru_size_in_bytes t > 2 ^ 63"
    using assms(3) by (simp add: word_le_nat_alt word_less_nat_alt)
  define s' where "s' = t\<lparr>slru_size_metric := slru_size_metric t - (slru_size_in_bytes s - slru_size_in_bytes t),
      slru_count_metric := slru_count_metric t
        - (word_of_nat (length (slru_cells s)) - word_of_nat (length (slru_cells t)))\<rparr>"
  have res: "slru_removeOverflow False s = Inr s'"
    using t(1) small by (simp add: slru_removeOverflow_def s'_def)
  have keep: "take (length (prob_view t @ prot_view t) - length (prot_view s)) (prob_view t @ prot_view t) = prob_view t"
    by (simp add: t(4))
  have "slru_abs s' = g_evict (slru_abs s)"
    using eqs t(4) keep unfolding t(5) by (simp add: slru_abs_def g_evict_def Let_def s'_def)
  moreover have "slru_core weight s'" "slru_metrics s'"
    using t(2,7) assms(2) by (simp_all add: slru_core_def slru_metrics_def slru_meters_def s'_def)
  moreover have "prob_view s' = prob_view t" "prot_view s' = prot_view t" "slru_removed s' = slru_removed t"
    by (simp_all add: s'_def)
  ultimately show ?thesis
    using res t(3,4,8) fit by (intro exI [of _ s'] exI [of _ d]) auto
qed

lemma fits_mono: "fits m n l \<Longrightarrow> m \<le> m' \<Longrightarrow> fits m' n l"
  by (simp add: fits_def)

lemma slru_valid_core: "slru_valid weight s \<Longrightarrow> slru_core weight s"
  by (simp add: slru_valid_def)

lemma slru_remove_both_abs:
  assumes "slru_core weight s" and "slru_metrics s" and "slru_size_in_bytes s \<le> 2 ^ 63"
    and "slru_max_size_in_bytes s \<le> 2 ^ 53"
    and "slru_max_protected_size s = calculateMaxProtectedSize (slru_max_size_in_bytes s) (slru_size_ratio s)"
  shows "\<exists>s' d. slru_remove_both s = Inr s' \<and> slru_valid weight s' \<and> slru_abs s' = g_evict (g_demote (slru_abs s))
    \<and> prob_view s @ prot_view s = d @ prob_view s' @ prot_view s'
    \<and> slru_removed s' = slru_removed s @ map (\<lambda>(k, c). (lru_cell_size c, lru_value c)) d"
proof -
  obtain t where t: "slru_removeOverflow True s = Inr t" "slru_core weight t" "slru_metrics t"
    "slru_abs t = g_demote (slru_abs s)" "slru_removed t = slru_removed s"
    "prob_view t @ prot_view t = prob_view s @ prot_view s"
    "fits (unat (slru_max_protected_size s)) (slru_max_count s) (prot_view t)"
    using slru_overflow_protected [OF assms(1-3)] by blast
  have lim: "slru_max_size_in_bytes t = slru_max_size_in_bytes s" "slru_max_count t = slru_max_count s"
    "slru_max_protected_size t = slru_max_protected_size s" "slru_size_ratio t = slru_size_ratio s"
    using t(4) by (simp_all add: slru_abs_def g_demote_def Let_def)
  have "slru_max_protected_size s \<le> slru_max_size_in_bytes s"
    unfolding assms(5) using assms(4) by (rule calculateMaxProtectedSize_le)
  then have prot: "fits (unat (slru_max_size_in_bytes t)) (slru_max_count t) (prot_view t)"
    using t(7) lim by (auto simp: word_le_nat_alt intro: fits_mono)
  have "slru_max_size_in_bytes t \<le> 2 ^ 63"
    using assms(4) lim(1) by (simp add: word_le_nat_alt)
  then obtain s' d where s': "slru_removeOverflow False t = Inr s'" "slru_core weight s'" "slru_metrics s'"
    "slru_abs s' = g_evict (slru_abs t)" "prob_view t = d @ prob_view s'" "prot_view s' = prot_view t"
    "slru_removed s' = slru_removed t @ map (\<lambda>(k, c). (lru_cell_size c, lru_value c)) d"
    "fits (unat (slru_max_size_in_bytes t)) (slru_max_count t) (prob_view s' @ prot_view s')"
    using slru_overflow_probationary [OF t(2,3) _ prot] by blast
  have lim': "slru_max_size_in_bytes s' = slru_max_size_in_bytes s" "slru_max_count s' = slru_max_count s"
    "slru_max_protected_size s' = slru_max_protected_size s" "slru_size_ratio s' = slru_size_ratio s"
    using s'(4) lim by (simp_all add: slru_abs_def g_evict_def Let_def)
  have "slru_valid weight s'"
    using s'(2,3,6,8) t(7) assms(4,5) lim lim' by (simp add: slru_valid_def)
  moreover have "prob_view s @ prot_view s = d @ prob_view s' @ prot_view s'"
    using t(6) s'(5,6) by simp
  ultimately show ?thesis
    using t(1,4,5) s'(1,4,7) by (auto simp: slru_remove_both_def)
qed

end
