(* ===== verification/Cache_SLRU_Spec.thy ===== *)
theory Cache_SLRU_Spec
  imports Cache_SLRU
begin

text \<open>
  The segmented LRU policy implements two recency lists: every operation of
  \<^verbatim>\<open>src/src/Common/SLRUCachePolicy.h\<close> against its abstract counterpart, the policy as an instance of the
  cache interface, and its properties.
\<close>

section \<open>The operations on segmented lists\<close>

lemma seg_view_map_of:
  "map_of (seg_view cs q) k = (if k \<in> set q then Some (strip_cell (the (map_of cs k))) else None)"
  by (induction q) auto

lemma slru_lookup:
  assumes "slru_core weight s"
  shows "map_of (prot_view s) k = (case map_of (slru_cells s) k of None \<Rightarrow> None
      | Some c \<Rightarrow> if is_protected c then Some (strip_cell c) else None)"
    and "map_of (prob_view s) k = (case map_of (slru_cells s) k of None \<Rightarrow> None
      | Some c \<Rightarrow> if is_protected c then None else Some (strip_cell c))"
proof -
  have "map_of (slru_cells s) k = None \<longleftrightarrow> k \<notin> set (probationary_queue s) \<union> set (protected_queue s)"
    using assms by (auto simp: slru_core_def queue_ok_def map_of_eq_None_iff)
  then show "map_of (prot_view s) k = (case map_of (slru_cells s) k of None \<Rightarrow> None
      | Some c \<Rightarrow> if is_protected c then Some (strip_cell c) else None)"
    and "map_of (prob_view s) k = (case map_of (slru_cells s) k of None \<Rightarrow> None
      | Some c \<Rightarrow> if is_protected c then None else Some (strip_cell c))"
    using slru_flag(1,2) [OF assms, of k] by (auto simp: seg_view_map_of split: option.splits)
qed

definition g_touch :: "'k \<Rightarrow> ('k, 'v) segmented \<Rightarrow> ('k, 'v) segmented" where
  "g_touch k g =
     (case map_of (g_prot g) k of
        Some c \<Rightarrow> g\<lparr>g_prot := use_entry k (g_prot g)\<rparr>
      | None \<Rightarrow>
          (case map_of (g_prob g) k of
             None \<Rightarrow> g
           | Some c \<Rightarrow> g_demote (g\<lparr>g_prob := filter (\<lambda>e. fst e \<noteq> k) (g_prob g), g_prot := g_prot g @ [(k, c)]\<rparr>)))"

lemma update_same: "map_of cs k = Some c \<Longrightarrow> AList.update k c cs = cs"
  by (induction cs) (auto split: if_splits)

lemma filter_present:
  assumes "distinct (map fst l)" and "map_of l k = Some c"
  shows "use_entry k l = filter (\<lambda>e. fst e \<noteq> k) l @ [(k, c)]"
proof -
  have "filter (\<lambda>e. fst e = k) l = [(k, c)]"
    using assms
  proof (induction l)
    case (Cons e l)
    then show ?case
      by (cases e) (auto simp: filter_empty_conv split: if_splits)
  qed simp
  then show ?thesis
    by (simp add: use_entry_def)
qed

lemma slru_metrics_place:
  assumes "slru_metrics s" and "map_of (slru_cells s) k = Some cell" and "slru_cell_size c = slru_cell_size cell"
    and "distinct (map fst (slru_cells s))"
  shows "slru_metrics (slru_place k c s)"
    and "slru_size_in_bytes (slru_place k c s) = slru_size_in_bytes s"
  using assms length_cells_update [OF assms(4), of k c] map_of_SomeD [OF assms(2)]
  by (auto simp: slru_metrics_def slru_place_def old_size_def rev_image_eqI)

lemma slru_sizes:
  assumes "slru_valid weight s"
  shows "slru_metrics s" and "slru_max_size_in_bytes s \<le> 2 ^ 53" and "slru_size_in_bytes s \<le> 2 ^ 53"
    and "distinct (map fst (slru_cells s))"
    and "cells_sum (\<lambda>c. unat (slru_cell_size c)) (slru_cells s) \<le> 2 ^ 53"
proof -
  have "unat (slru_size_in_bytes s) \<le> unat (slru_max_size_in_bytes s)"
    using assms slru_core_view(2) [OF slru_valid_core [OF assms]] by (simp add: slru_valid_def fits_def)
  moreover have max: "slru_max_size_in_bytes s \<le> 2 ^ 53"
    using assms by (simp add: slru_valid_def)
  ultimately have "slru_size_in_bytes s \<le> 2 ^ 53"
    by (metis order_trans word_le_nat_alt)
  then show "slru_metrics s" "slru_max_size_in_bytes s \<le> 2 ^ 53" "slru_size_in_bytes s \<le> 2 ^ 53"
    "distinct (map fst (slru_cells s))" "cells_sum (\<lambda>c. unat (slru_cell_size c)) (slru_cells s) \<le> 2 ^ 53"
    using assms max slru_core_view(4) [OF slru_valid_core [OF assms]]
    by (auto simp: slru_valid_def slru_core_def queue_ok_def word_le_nat_alt)
qed

text \<open>Using an entry puts it at the end of the protected queue.\<close>

lemma slru_promote:
  assumes "slru_valid weight s" and "map_of (slru_cells s) k = Some cell"
  defines "t \<equiv> slru_place k (cell\<lparr>is_protected := True\<rparr>) s"
  shows "slru_core weight t" and "slru_metrics t" and "slru_size_in_bytes t = slru_size_in_bytes s"
    and "slru_limits t = slru_limits s"
    and "prob_view t = filter (\<lambda>e. fst e \<noteq> k) (prob_view s)"
    and "prot_view t = filter (\<lambda>e. fst e \<noteq> k) (prot_view s) @ [(k, strip_cell cell)]"
proof -
  note core = slru_valid_core [OF assms(1)] and sizes = slru_sizes [OF assms(1)]
  have sum: "cells_sum (\<lambda>c. unat (slru_cell_size c)) (AList.update k (cell\<lparr>is_protected := True\<rparr>) (slru_cells s)) < 2 ^ 64"
    using cells_sum_reflag [OF sizes(4) assms(2), of "\<lambda>c. unat (slru_cell_size c)" "cell\<lparr>is_protected := True\<rparr>"] core
    by (simp add: slru_core_def)
  have w: "slru_cell_size (cell\<lparr>is_protected := True\<rparr>) = value_weight weight (slru_value (cell\<lparr>is_protected := True\<rparr>))"
    using slru_flag(3) [OF core assms(2)] by simp
  show "slru_core weight t" "slru_metrics t" "slru_size_in_bytes t = slru_size_in_bytes s"
    "slru_limits t = slru_limits s" "prob_view t = filter (\<lambda>e. fst e \<noteq> k) (prob_view s)"
    "prot_view t = filter (\<lambda>e. fst e \<noteq> k) (prot_view s) @ [(k, strip_cell cell)]"
    using slru_place_core [OF core w sum] slru_metrics_place [OF sizes(1) assms(2) _ sizes(4)]
    by (simp_all add: t_def)
qed

lemma slru_touch_place:
  assumes "slru_valid weight s" and "map_of (slru_cells s) k = Some cell"
  shows "slru_touch k cell s = (if is_protected cell then Inr else slru_removeOverflow True)
    (slru_place k (cell\<lparr>is_protected := True\<rparr>) s)"
proof (cases "is_protected cell")
  case True
  have "k \<notin> set (probationary_queue s)"
    using slru_flag(2) [OF slru_valid_core [OF assms(1)] assms(2)] True by simp
  moreover have "cell\<lparr>is_protected := True\<rparr> = cell"
    using True by simp
  ultimately show ?thesis
    using True assms(2) by (cases s) (simp add: slru_touch_def slru_place_def old_size_def update_same remove1_idem)
next
  case False
  have "k \<notin> set (protected_queue s)"
    using slru_flag(1) [OF slru_valid_core [OF assms(1)] assms(2)] False by simp
  then have "s\<lparr>slru_cells := AList.update k (cell\<lparr>is_protected := True\<rparr>) (slru_cells s),
      slru_protected_size := slru_protected_size s + slru_cell_size cell,
      probationary_queue := remove1 k (probationary_queue s),
      protected_queue := protected_queue s @ [k]\<rparr> = slru_place k (cell\<lparr>is_protected := True\<rparr>) s"
    using False assms(2) by (cases s) (simp add: slru_place_def old_size_def remove1_idem)
  then show ?thesis
    using False by (simp add: slru_touch_def)
qed

lemma filter_absent: "map_of l k = None \<Longrightarrow> filter (\<lambda>e. fst e \<noteq> k) l = l"
  by (induction l) (auto split: if_splits)

lemma filter_no_key: "k \<notin> fst ` set l \<Longrightarrow> filter (\<lambda>e. fst e \<noteq> k) l = l"
  by (induction l) auto

lemma fits_append_use:
  "fits m n (l @ use_entry k l') \<longleftrightarrow> fits m n (l @ l')"
proof -
  have "entry_bytes (use_entry k l') = entry_bytes l'"
    by (induction l') (auto simp: use_entry_def)
  moreover have "length (use_entry k l') = length l'"
    by (induction l') (auto simp: use_entry_def)
  ultimately show ?thesis
    by (simp add: fits_def)
qed

lemma entry_bytes_remove:
  assumes "distinct (map fst l)" and "map_of l k = Some c"
  shows "entry_bytes (filter (\<lambda>e. fst e \<noteq> k) l) + unat (lru_cell_size c) = entry_bytes l"
    and "Suc (length (filter (\<lambda>e. fst e \<noteq> k) l)) = length l"
  using assms by (induction l) (auto simp: filter_no_key split: if_splits)

lemma fits_move:
  assumes "distinct (map fst l)" and "map_of l k = Some c"
  shows "fits m n (filter (\<lambda>e. fst e \<noteq> k) l @ l' @ [(k, c)]) \<longleftrightarrow> fits m n (l @ l')"
proof -
  have "entry_bytes (filter (\<lambda>e. fst e \<noteq> k) l @ l' @ [(k, c)]) = entry_bytes (l @ l')"
    using entry_bytes_remove(1) [OF assms] by simp
  moreover have "length (filter (\<lambda>e. fst e \<noteq> k) l @ l' @ [(k, c)]) = length (l @ l')"
    using entry_bytes_remove(2) [OF assms] by simp
  ultimately show ?thesis
    by (simp only: fits_def)
qed

lemma slru_touch_abs:
  assumes "slru_valid weight s" and "map_of (slru_cells s) k = Some cell"
  shows "\<exists>s'. slru_touch k cell s = Inr s' \<and> slru_valid weight s' \<and> slru_abs s' = g_touch k (slru_abs s)"
proof -
  define t where "t = slru_place k (cell\<lparr>is_protected := True\<rparr>) s"
  note core = slru_valid_core [OF assms(1)] and sizes = slru_sizes [OF assms(1)]
  note t = slru_promote [OF assms, folded t_def] and touch = slru_touch_place [OF assms, folded t_def]
  note lim = slru_limits_eq [OF t(4)]
  note lookup = slru_lookup [OF core, of k]
  have d: "distinct (map fst (prot_view s))" "distinct (map fst (prob_view s))"
    using core by (simp_all add: slru_core_def queue_ok_def)
  have abs: "slru_abs t = (slru_abs s)\<lparr>g_prob := prob_view t, g_prot := prot_view t\<rparr>"
    using lim by (simp add: slru_abs_def)
  show ?thesis
  proof (cases "is_protected cell")
    case True
    have "prot_view t = use_entry k (prot_view s)"
      using t(6) filter_present [OF d(1)] lookup(1) assms(2) True by simp
    moreover have "prob_view t = prob_view s"
      using t(5) filter_absent [of "prob_view s" k] lookup(2) assms(2) True by simp
    moreover have "slru_valid weight t"
      using calculation t(1,2) assms(1) lim by (auto simp: slru_valid_def fits_use fits_append_use)
    moreover have "slru_abs t = g_touch k (slru_abs s)"
      using calculation abs lookup(1) assms(2) True by (simp add: g_touch_def slru_abs_def)
    ultimately show ?thesis
      using touch True by simp
  next
    case False
    have prot: "prot_view t = prot_view s @ [(k, strip_cell cell)]"
      using t(6) filter_absent [of "prot_view s" k] lookup(1) assms(2) False by simp
    have "slru_size_in_bytes t \<le> 2 ^ 63"
      using t(3) sizes(3) by (simp add: word_le_nat_alt)
    then obtain s' where s': "slru_removeOverflow True t = Inr s'" "slru_core weight s'" "slru_metrics s'"
      "slru_abs s' = g_demote (slru_abs t)" "prob_view s' @ prot_view s' = prob_view t @ prot_view t"
      "fits (unat (slru_max_protected_size t)) (slru_max_count t) (prot_view s')"
      using slru_overflow_protected [OF t(1,2)] by blast
    have lim': "slru_max_size_in_bytes s' = slru_max_size_in_bytes s" "slru_max_count s' = slru_max_count s"
      "slru_max_protected_size s' = slru_max_protected_size s" "slru_size_ratio s' = slru_size_ratio s"
      using s'(4) lim by (simp_all add: slru_abs_def g_demote_def Let_def)
    have "fits m n (prob_view t @ prot_view t) \<longleftrightarrow> fits m n (prob_view s @ prot_view s)" for m n
      using fits_move [OF d(2), of k "strip_cell cell"] lookup(2) assms(2) False t(5) prot by simp
    then have "slru_valid weight s'"
      using s'(2,3,5,6) assms(1) lim lim' by (simp add: slru_valid_def)
    moreover have "slru_abs s' = g_touch k (slru_abs s)"
      using s'(4) abs prot t(5) lookup assms(2) False by (simp add: g_touch_def slru_abs_def)
    ultimately show ?thesis
      using touch False s'(1) by simp
  qed
qed

lemma slru_get_abs:
  assumes "slru_valid weight s"
  shows "\<exists>s'. slru_get k s = Inr (Option.bind (map_of (prob_view s @ prot_view s) k) lru_value, s')
      \<and> slru_valid weight s' \<and> slru_abs s' = g_touch k (slru_abs s)"
    and "\<exists>s'. slru_getWithKey k s = Inr (map_option (\<lambda>c. (k, lru_value c)) (map_of (prob_view s @ prot_view s) k), s')
      \<and> slru_valid weight s' \<and> slru_abs s' = g_touch k (slru_abs s)"
  using assms slru_touch_abs [OF assms, of k] slru_lookup [OF slru_valid_core [OF assms], of k]
  by (cases "map_of (slru_cells s) k";
      fastforce simp: slru_get_def slru_getWithKey_def map_add_def g_touch_def slru_abs_def)+

lemma slru_erase_valid:
  assumes "slru_valid weight s" and "slru_core weight t"
    and "slru_limits t = slru_limits s" and "slru_metrics t"
    and "prob_view t = filter P (prob_view s)" and "prot_view t = filter P (prot_view s)"
  shows "slru_valid weight t"
    and "slru_abs t = (slru_abs s)\<lparr>g_prob := filter P (prob_view s), g_prot := filter P (prot_view s)\<rparr>"
proof -
  note lim = slru_limits_eq [OF assms(3)]
  show "slru_valid weight t"
    using assms fits_filter [of _ _ "prob_view s @ prot_view s" P] fits_filter [of _ _ "prot_view s" P] lim
    by (auto simp: slru_valid_def)
  show "slru_abs t = (slru_abs s)\<lparr>g_prob := filter P (prob_view s), g_prot := filter P (prot_view s)\<rparr>"
    using assms(5,6) lim by (simp add: slru_abs_def)
qed

lemma slru_remove_abs:
  assumes "slru_valid weight s"
  shows "slru_valid weight (slru_remove k s) \<and> slru_abs (slru_remove k s)
    = (slru_abs s)\<lparr>g_prob := filter (\<lambda>e. fst e \<noteq> k) (prob_view s), g_prot := filter (\<lambda>e. fst e \<noteq> k) (prot_view s)\<rparr>"
proof (cases "map_of (slru_cells s) k")
  case None
  then show ?thesis
    using assms slru_lookup [OF slru_valid_core [OF assms], of k]
    by (simp add: slru_remove_def filter_absent slru_abs_def)
next
  case (Some c)
  note erase = slru_erase_core [OF slru_valid_core [OF assms] Some] and sizes = slru_sizes [OF assms]
  define t where "t = (slru_erase k c s)\<lparr>slru_size_metric := slru_size_metric s - slru_cell_size c,
      slru_count_metric := slru_count_metric s - 1\<rparr>"
  have "Suc (length (AList.delete k (slru_cells s))) = length (slru_cells s)"
    using map_of_SomeD [OF Some] sizes(4) by (intro length_cells_delete) (auto intro: rev_image_eqI)
  then have "word_of_nat (length (slru_cells s)) = (1 :: 64 word) + word_of_nat (length (AList.delete k (slru_cells s)))"
    by (metis of_nat_Suc)
  then have "slru_metrics t"
    using sizes(1) slru_erase_fields(4,5) [of k c s] by (simp add: slru_metrics_def t_def)
  moreover have "slru_core weight t" "slru_limits t = slru_limits s"
    using erase(1) slru_erase_fields(1) [of k c s] by (simp_all add: t_def slru_core_def slru_limits_def)
  moreover have "prob_view t = filter (\<lambda>e. fst e \<noteq> k) (prob_view s)" "prot_view t = filter (\<lambda>e. fst e \<noteq> k) (prot_view s)"
    using erase(2,3) by (simp_all add: t_def)
  moreover have "slru_remove k s = t"
    using Some by (simp add: slru_remove_def t_def)
  ultimately show ?thesis
    using slru_erase_valid [OF assms] by metis
qed

definition doomed :: "('k \<Rightarrow> 'v option \<Rightarrow> bool) \<Rightarrow> 'k set \<Rightarrow> 'k \<times> 'v lru_cell \<Rightarrow> bool" where
  "doomed p ks e \<longleftrightarrow> fst e \<in> ks \<and> p (fst e) (lru_value (snd e))"

lemma seg_view_entry:
  assumes "slru_core weight s" and "map_of (slru_cells s) k = Some c"
    and "e \<in> set (prob_view s) \<union> set (prot_view s)" and "fst e = k"
  shows "e = (k, strip_cell c)"
  using assms by (auto simp: seg_view_def)

lemma filter_doomed_Cons:
  assumes "\<And>e. e \<in> set l \<Longrightarrow> fst e = k \<Longrightarrow> lru_value (snd e) = v"
  shows "filter (\<lambda>e. \<not> doomed p ks e) (if p k v then filter (\<lambda>e. fst e \<noteq> k) l else l)
    = filter (\<lambda>e. \<not> doomed p (insert k ks) e) l"
proof (cases "p k v")
  case True
  have "(fst e \<noteq> k \<and> \<not> doomed p ks e) \<longleftrightarrow> \<not> doomed p (insert k ks) e" if "e \<in> set l" for e
    using assms [OF that] True by (cases "fst e = k") (simp_all add: doomed_def)
  then show ?thesis
    using True by (simp add: filter_filter cong: filter_cong)
next
  case False
  have "\<not> doomed p ks e \<longleftrightarrow> \<not> doomed p (insert k ks) e" if "e \<in> set l" for e
    using assms [OF that] False by (cases "fst e = k") (simp_all add: doomed_def)
  then show ?thesis
    using False by (simp cong: filter_cong)
qed

lemma slru_remove_loop_core:
  fixes p :: "'k \<Rightarrow> 'v option \<Rightarrow> bool" and s :: "('k, 'v) slru"
  assumes "slru_core weight s" and "distinct (map fst rest)" and "set rest \<subseteq> set (slru_cells s)"
  defines "t \<equiv> slru_remove_loop p rest s"
  shows "slru_core weight t \<and> slru_limits t = slru_limits s \<and> slru_meters t = slru_meters s
    \<and> prob_view t = filter (\<lambda>e. \<not> doomed p (fst ` set rest) e) (prob_view s)
    \<and> prot_view t = filter (\<lambda>e. \<not> doomed p (fst ` set rest) e) (prot_view s)"
  using assms(1-3) unfolding t_def
proof (induction p rest s rule: slru_remove_loop.induct)
  case (1 p s)
  then show ?case
    by (simp add: doomed_def)
next
  case (2 p key cell rest s)
  have cell: "map_of (slru_cells s) key = Some cell"
    using "2.prems"(1,3) by (auto simp: slru_core_def queue_ok_def)
  define u where "u = (if p key (slru_value cell) then slru_erase key cell s else s)"
  note erase = slru_erase_core [OF "2.prems"(1) cell]
  have u: "slru_core weight u" "slru_limits u = slru_limits s" "slru_meters u = slru_meters s"
    "prob_view u = (if p key (slru_value cell) then filter (\<lambda>e. fst e \<noteq> key) (prob_view s) else prob_view s)"
    "prot_view u = (if p key (slru_value cell) then filter (\<lambda>e. fst e \<noteq> key) (prot_view s) else prot_view s)"
    using "2.prems"(1) erase by (simp_all add: u_def)
  have "set rest \<subseteq> set (slru_cells u)"
    using "2.prems"(2,3) by (force simp: u_def AList.delete_eq)
  then have IH: "slru_core weight (slru_remove_loop p rest u) \<and> slru_limits (slru_remove_loop p rest u) = slru_limits u
    \<and> slru_meters (slru_remove_loop p rest u) = slru_meters u
    \<and> prob_view (slru_remove_loop p rest u) = filter (\<lambda>e. \<not> doomed p (fst ` set rest) e) (prob_view u)
    \<and> prot_view (slru_remove_loop p rest u) = filter (\<lambda>e. \<not> doomed p (fst ` set rest) e) (prot_view u)"
    using "2.IH" "2.prems"(2) u(1) by (simp add: u_def)
  have "lru_value (snd e) = slru_value cell" if "e \<in> set (prob_view s) \<union> set (prot_view s)" "fst e = key" for e
    using seg_view_entry [OF "2.prems"(1) cell that] by simp
  then show ?case
    using IH u filter_doomed_Cons [of "prob_view s" key "slru_value cell" p "fst ` set rest"]
      filter_doomed_Cons [of "prot_view s" key "slru_value cell" p "fst ` set rest"]
    by (simp add: u_def)
qed

lemma slru_remove_if_abs:
  assumes "slru_valid weight s"
  shows "slru_valid weight (slru_remove_if p s) \<and> slru_abs (slru_remove_if p s)
    = (slru_abs s)\<lparr>g_prob := filter (\<lambda>(k, c). \<not> p k (lru_value c)) (prob_view s),
                   g_prot := filter (\<lambda>(k, c). \<not> p k (lru_value c)) (prot_view s)\<rparr>"
proof -
  note core = slru_valid_core [OF assms] and sizes = slru_sizes [OF assms]
  define t where "t = slru_remove_loop p (slru_cells s) s"
  define u where "u = t\<lparr>slru_size_metric := slru_size_metric t - (slru_size_in_bytes s - slru_size_in_bytes t),
      slru_count_metric := slru_count_metric t
        - (word_of_nat (length (slru_cells s)) - word_of_nat (length (slru_cells t)))\<rparr>"
  have t: "slru_core weight t" "slru_limits t = slru_limits s" "slru_meters t = slru_meters s"
    "prob_view t = filter (\<lambda>e. \<not> doomed p (fst ` set (slru_cells s)) e) (prob_view s)"
    "prot_view t = filter (\<lambda>e. \<not> doomed p (fst ` set (slru_cells s)) e) (prot_view s)"
    using slru_remove_loop_core [OF core sizes(4) order_refl, of p] by (simp_all add: t_def)
  have "fst e \<in> fst ` set (slru_cells s)" if "e \<in> set (prob_view s) \<union> set (prot_view s)" for e
    using that core by (auto simp: seg_view_def slru_core_def queue_ok_def)
  then have same: "filter (\<lambda>e. \<not> doomed p (fst ` set (slru_cells s)) e) (prob_view s)
      = filter (\<lambda>(k, c). \<not> p k (lru_value c)) (prob_view s)"
    "filter (\<lambda>e. \<not> doomed p (fst ` set (slru_cells s)) e) (prot_view s)
      = filter (\<lambda>(k, c). \<not> p k (lru_value c)) (prot_view s)"
    by (auto simp: doomed_def split_beta intro!: filter_cong)
  have "slru_core weight u" "slru_limits u = slru_limits s" "slru_metrics u"
    using t(1-3) sizes(1) by (simp_all add: u_def slru_core_def slru_limits_def slru_metrics_def slru_meters_def)
  moreover have "prob_view u = filter (\<lambda>(k, c). \<not> p k (lru_value c)) (prob_view s)"
    "prot_view u = filter (\<lambda>(k, c). \<not> p k (lru_value c)) (prot_view s)"
    using t(4,5) same by (simp_all add: u_def)
  moreover have "slru_remove_if p s = u"
    by (simp add: slru_remove_if_def u_def t_def Let_def)
  ultimately show ?thesis
    using slru_erase_valid [OF assms] by metis
qed

lemma slru_clear_abs:
  assumes "slru_valid weight s"
  shows "slru_valid weight (slru_clear s) \<and> slru_abs (slru_clear s) = (slru_abs s)\<lparr>g_prob := [], g_prot := []\<rparr>"
  using assms
  by (simp add: slru_clear_def slru_valid_def slru_core_def slru_metrics_def slru_abs_def fits_def queue_ok_def)

lemma slru_limits_abs:
  assumes "slru_valid weight s"
  shows "\<exists>s'. slru_setMaxCount n s = Inr s' \<and> slru_valid weight s'
      \<and> slru_abs s' = g_evict (g_demote ((slru_abs s)\<lparr>g_max_count := n\<rparr>))"
    and "m \<le> 2 ^ 53 \<Longrightarrow> \<exists>s'. slru_setMaxSizeInBytes m s = Inr s' \<and> slru_valid weight s'
      \<and> slru_abs s' = g_evict (g_demote ((slru_abs s)\<lparr>g_max_protected := calculateMaxProtectedSize m (slru_size_ratio s),
           g_max_size := m\<rparr>))"
proof -
  have "slru_size_in_bytes s \<le> 2 ^ 63"
    using slru_sizes(3) [OF assms] by (simp add: word_le_nat_alt)
  then show "\<exists>s'. slru_setMaxCount n s = Inr s' \<and> slru_valid weight s'
      \<and> slru_abs s' = g_evict (g_demote ((slru_abs s)\<lparr>g_max_count := n\<rparr>))"
    and "m \<le> 2 ^ 53 \<Longrightarrow> \<exists>s'. slru_setMaxSizeInBytes m s = Inr s' \<and> slru_valid weight s'
      \<and> slru_abs s' = g_evict (g_demote ((slru_abs s)\<lparr>g_max_protected := calculateMaxProtectedSize m (slru_size_ratio s),
           g_max_size := m\<rparr>))"
    using assms slru_remove_both_abs [of weight "s\<lparr>slru_max_count := n\<rparr>"]
      slru_remove_both_abs [of weight "s\<lparr>slru_max_protected_size := calculateMaxProtectedSize m (slru_size_ratio s),
        slru_max_size_in_bytes := m\<rparr>"]
    by (auto simp: slru_setMaxCount_def slru_setMaxSizeInBytes_def slru_valid_def slru_core_def slru_metrics_def slru_abs_def)
qed

definition g_put :: "('v \<Rightarrow> 64 word) \<Rightarrow> 'k \<Rightarrow> 'v option \<Rightarrow> ('k, 'v) segmented \<Rightarrow> ('k, 'v) segmented" where
  "g_put weight k v g =
     (let entry = (k, \<lparr>lru_value = v, lru_cell_size = value_weight weight v\<rparr>)
      in if map_of (g_prob g @ g_prot g) k = None
         then g\<lparr>g_prob := g_prob g @ [entry]\<rparr>
         else g\<lparr>g_prob := filter (\<lambda>e. fst e \<noteq> k) (g_prob g), g_prot := filter (\<lambda>e. fst e \<noteq> k) (g_prot g) @ [entry]\<rparr>)"

abbreviation slru_value_ok :: "('v \<Rightarrow> 64 word) \<Rightarrow> 'v option \<Rightarrow> bool" where
  "slru_value_ok weight v \<equiv> value_weight weight v \<le> 2 ^ 62"

lemma slru_set_place:
  fixes k :: 'k and v :: "'v option" and s :: "('k, 'v) slru"
  assumes "slru_valid weight s"
  defines "c \<equiv> \<lparr>is_protected = (map_of (slru_cells s) k \<noteq> None), slru_value = v, slru_cell_size = value_weight weight v\<rparr>"
  defines "u \<equiv> slru_place k c s"
  shows "slru_set weight k v s = slru_remove_both
    (u\<lparr>slru_size_metric := slru_size_metric u + (slru_size_in_bytes u - slru_size_in_bytes s),
       slru_count_metric := slru_count_metric u
         + (word_of_nat (length (slru_cells u)) - word_of_nat (length (slru_cells s)))\<rparr>)"
proof -
  note core = slru_valid_core [OF assms(1)]
  have "k \<notin> set (probationary_queue s) \<and> k \<notin> set (protected_queue s)" if "map_of (slru_cells s) k = None"
    using that core by (auto simp: map_of_eq_None_iff slru_core_def queue_ok_def)
  then show ?thesis
    using slru_flag(1,2) [OF core, of k]
    by (cases s; cases "map_of (slru_cells s) k")
       (auto simp: slru_set_def c_def u_def slru_place_def old_size_def remove1_idem Let_def)
qed

lemma slru_set_abs:
  assumes "slru_valid weight s" and "slru_value_ok weight v"
  shows "\<exists>s' d. slru_set weight k v s = Inr s' \<and> slru_valid weight s'
    \<and> slru_abs s' = g_evict (g_demote (g_put weight k v (slru_abs s)))
    \<and> g_prob (g_put weight k v (slru_abs s)) @ g_prot (g_put weight k v (slru_abs s)) = d @ prob_view s' @ prot_view s'
    \<and> slru_removed s' = slru_removed s @ map (\<lambda>(k, c). (lru_cell_size c, lru_value c)) d"
proof -
  note core = slru_valid_core [OF assms(1)] and sizes = slru_sizes [OF assms(1)]
  define c where "c = \<lparr>is_protected = (map_of (slru_cells s) k \<noteq> None), slru_value = v, slru_cell_size = value_weight weight v\<rparr>"
  define u where "u = slru_place k c s"
  define t where "t = u\<lparr>slru_size_metric := slru_size_metric u + (slru_size_in_bytes u - slru_size_in_bytes s),
       slru_count_metric := slru_count_metric u
         + (word_of_nat (length (slru_cells u)) - word_of_nat (length (slru_cells s)))\<rparr>"
  have "cells_sum (\<lambda>c. unat (slru_cell_size c)) (AList.update k c (slru_cells s))
      \<le> cells_sum (\<lambda>c. unat (slru_cell_size c)) (slru_cells s) + unat (slru_cell_size c)"
    using cells_sum_update [OF sizes(4), of k _ "\<lambda>c. unat (slru_cell_size c)" c]
      cells_sum_update_new [of "slru_cells s" k "\<lambda>c. unat (slru_cell_size c)" c]
    by (cases "map_of (slru_cells s) k") auto
  moreover have "unat (slru_cell_size c) \<le> 2 ^ 62"
    using assms(2) by (simp add: c_def word_le_nat_alt)
  ultimately have sum: "cells_sum (\<lambda>c. unat (slru_cell_size c)) (AList.update k c (slru_cells s)) \<le> 2 ^ 53 + 2 ^ 62"
    using sizes(5) by linarith
  then have "cells_sum (\<lambda>c. unat (slru_cell_size c)) (AList.update k c (slru_cells s)) < 2 ^ 64"
    by simp
  note u = slru_place_core [OF core _ this, folded u_def]
  have cu: "slru_core weight u"
    by (rule u(1)) (simp add: c_def)
  have ct: "slru_core weight t" and lim: "slru_limits t = slru_limits s"
    using cu slru_place_fields(1) [of k c s] by (simp_all add: t_def slru_core_def u_def slru_limits_def)
  have mt: "slru_metrics t"
    using sizes(1) by (simp add: t_def slru_metrics_def u_def slru_place_def)
  have "unat (slru_size_in_bytes u) \<le> 2 ^ 53 + 2 ^ 62"
    using sum slru_core_view(4) [OF cu] by (simp add: u_def slru_place_def)
  then have st: "slru_size_in_bytes t \<le> 2 ^ 63"
    by (simp add: t_def word_le_nat_alt)
  have "strip_cell c = \<lparr>lru_value = v, lru_cell_size = value_weight weight v\<rparr>"
    by (simp add: strip_cell_def c_def)
  moreover have "map_of (prob_view s @ prot_view s) k = None \<longleftrightarrow> map_of (slru_cells s) k = None"
    using slru_lookup [OF core, of k] by (simp add: map_add_def split: option.splits if_splits)
  moreover have "prob_view t = prob_view u" "prot_view t = prot_view u"
    by (simp_all add: t_def)
  ultimately have abs: "slru_abs t = g_put weight k v (slru_abs s)"
    using u(2,3) slru_limits_eq [OF lim] slru_lookup [OF core, of k]
    by (auto simp: slru_abs_def g_put_def Let_def filter_absent c_def split: if_splits)
  have "slru_set weight k v s = slru_remove_both t"
    using slru_set_place [OF assms(1), of k v] by (simp add: t_def u_def c_def)
  moreover have "slru_max_protected_size t = calculateMaxProtectedSize (slru_max_size_in_bytes t) (slru_size_ratio t)"
    "slru_max_size_in_bytes t \<le> 2 ^ 53"
    using assms(1) slru_limits_eq [OF lim] by (auto simp: slru_valid_def)
  moreover have "slru_removed t = slru_removed s"
    by (simp add: t_def u_def)
  moreover have "prob_view t = g_prob (g_put weight k v (slru_abs s))" "prot_view t = g_prot (g_put weight k v (slru_abs s))"
    unfolding abs [symmetric] by (simp_all add: slru_abs_def)
  ultimately show ?thesis
    using slru_remove_both_abs [OF ct mt st] abs by auto
qed

section \<open>Refinement\<close>

definition segmented_step :: "('v \<Rightarrow> 64 word) \<Rightarrow> ('k, 'v) cache_op \<Rightarrow> ('k, 'v) segmented \<Rightarrow> ('k, 'v) cache_out \<times> ('k, 'v) segmented" where
  "segmented_step weight oper g =
     (case oper of
        Get k \<Rightarrow> (Value (Option.bind (map_of (g_prob g @ g_prot g) k) lru_value), g_touch k g)
      | GetWithKey k \<Rightarrow> (KeyMapped (map_option (\<lambda>c. (k, lru_value c)) (map_of (g_prob g @ g_prot g) k)), g_touch k g)
      | Contains k \<Rightarrow> (Found (map_of (g_prob g @ g_prot g) k \<noteq> None), g)
      | Put k v \<Rightarrow> (Done, g_evict (g_demote (g_put weight k v g)))
      | Remove k \<Rightarrow> (Done, g\<lparr>g_prob := filter (\<lambda>e. fst e \<noteq> k) (g_prob g), g_prot := filter (\<lambda>e. fst e \<noteq> k) (g_prot g)\<rparr>)
      | RemoveIf p \<Rightarrow> (Done, g\<lparr>g_prob := filter (\<lambda>(k, c). \<not> p k (lru_value c)) (g_prob g),
                              g_prot := filter (\<lambda>(k, c). \<not> p k (lru_value c)) (g_prot g)\<rparr>)
      | Clear \<Rightarrow> (Done, g\<lparr>g_prob := [], g_prot := []\<rparr>)
      | SetMaxCount n \<Rightarrow> (Done, g_evict (g_demote (g\<lparr>g_max_count := n\<rparr>)))
      | SetMaxSizeInBytes n \<Rightarrow> (Done, g_evict (g_demote
          (g\<lparr>g_max_protected := calculateMaxProtectedSize n (g_ratio g), g_max_size := n\<rparr>)))
      | Count \<Rightarrow> (Number (length (g_prob g @ g_prot g)), g)
      | SizeInBytes \<Rightarrow> (Number (entry_bytes (g_prob g @ g_prot g)), g))"

fun segmented_run :: "('v \<Rightarrow> 64 word) \<Rightarrow> ('k, 'v) cache_op list \<Rightarrow> ('k, 'v) segmented \<Rightarrow> ('k, 'v) cache_out list \<times> ('k, 'v) segmented" where
  "segmented_run weight [] g = ([], g)"
| "segmented_run weight (oper # ops) g =
     (let (out, g') = segmented_step weight oper g in map_prod (Cons out) id (segmented_run weight ops g'))"

abbreviation slru_op_ok :: "('v \<Rightarrow> 64 word) \<Rightarrow> ('k, 'v) cache_op \<Rightarrow> bool" where
  "slru_op_ok weight \<equiv> op_ok (slru_value_ok weight) (\<lambda>n. n \<le> 2 ^ 53)"

lemma slru_lookup_all:
  assumes "slru_core weight s"
  shows "map_of (prob_view s @ prot_view s) k = map_option strip_cell (map_of (slru_cells s) k)"
  using slru_lookup [OF assms, of k] by (auto simp: map_add_def split: option.split)

lemma slru_step_refines:
  assumes "slru_valid weight s" and "slru_op_ok weight oper"
  shows "\<exists>out s'. policy_step (SLRUCachePolicy weight) oper s = Inr (out, s') \<and> slru_valid weight s'
    \<and> segmented_step weight oper (slru_abs s) = (out, slru_abs s')"
proof -
  have g: "g_prob (slru_abs s) = prob_view s" "g_prot (slru_abs s) = prot_view s" "g_ratio (slru_abs s) = slru_size_ratio s"
    by (simp_all add: slru_abs_def)
  note core = slru_valid_core [OF assms(1)]
  note defs = policy_step_def segmented_step_def SLRUCachePolicy_def g
  show ?thesis
  proof (cases oper)
    case (Get k)
    then show ?thesis
      using slru_get_abs(1) [OF assms(1), of k] by (auto simp: defs)
  next
    case (GetWithKey k)
    then show ?thesis
      using slru_get_abs(2) [OF assms(1), of k] by (auto simp: defs)
  next
    case (Contains k)
    have "slru_contains k s \<longleftrightarrow> map_of (prob_view s @ prot_view s) k \<noteq> None"
      unfolding slru_contains_def slru_lookup_all [OF core] by simp
    then show ?thesis
      using Contains assms(1) by (simp add: defs del: map_of_append)
  next
    case (Put k v)
    then show ?thesis
      using slru_set_abs [OF assms(1), of v k] assms(2) by (auto simp: defs op_ok_def)
  next
    case (Remove k)
    then show ?thesis
      using slru_remove_abs [OF assms(1), of k] by (simp add: defs)
  next
    case (RemoveIf p)
    then show ?thesis
      using slru_remove_if_abs [OF assms(1), of p] by (simp add: defs)
  next
    case Clear
    then show ?thesis
      using slru_clear_abs [OF assms(1)] by (simp add: defs)
  next
    case (SetMaxCount n)
    then show ?thesis
      using slru_limits_abs(1) [OF assms(1), of n] by (auto simp: defs)
  next
    case (SetMaxSizeInBytes n)
    then show ?thesis
      using slru_limits_abs(2) [OF assms(1), of n] assms(2) by (auto simp: defs op_ok_def)
  next
    case Count
    then show ?thesis
      using assms(1) slru_core_view(1) [OF core] by (simp add: defs slru_count_def)
  next
    case SizeInBytes
    then show ?thesis
      using assms(1) slru_core_view(2) [OF core] by (simp add: defs)
  qed
qed

lemma slru_run_refines:
  assumes "slru_valid weight s" and "list_all (slru_op_ok weight) ops"
  shows "\<exists>outs s'. policy_run (SLRUCachePolicy weight) ops s = Inr (outs, s') \<and> slru_valid weight s'
    \<and> segmented_run weight ops (slru_abs s) = (outs, slru_abs s')"
  using assms
proof (induction ops arbitrary: s)
  case (Cons oper ops)
  obtain out t where t: "policy_step (SLRUCachePolicy weight) oper s = Inr (out, t)" "slru_valid weight t"
    "segmented_step weight oper (slru_abs s) = (out, slru_abs t)"
    using slru_step_refines [OF Cons.prems(1), of oper] Cons.prems(2) by auto
  moreover obtain outs s' where "policy_run (SLRUCachePolicy weight) ops t = Inr (outs, s')" "slru_valid weight s'"
    "segmented_run weight ops (slru_abs t) = (outs, slru_abs s')"
    using Cons.IH [OF t(2)] Cons.prems(2) by auto
  ultimately show ?case
    by auto
qed simp

lemma new_SLRU_valid:
  "m \<le> 2 ^ 53 \<Longrightarrow> slru_valid weight (new_SLRUCachePolicy m n r)"
  by (simp add: new_SLRUCachePolicy_def slru_valid_def slru_core_def slru_metrics_def queue_ok_def fits_def)

section \<open>The policy interface\<close>

definition slru_entries :: "('k, 'v) slru \<Rightarrow> 'k \<rightharpoonup> 'v option" where
  "slru_entries s = map_option slru_value \<circ> map_of (slru_cells s)"

abbreviation g_entries :: "('k, 'v) segmented \<Rightarrow> ('k \<times> 'v lru_cell) set" where
  "g_entries g \<equiv> set (g_prob g) \<union> set (g_prot g)"

lemma slru_entries_iff:
  assumes "slru_valid weight s"
  shows "slru_entries s k = Some v \<longleftrightarrow> (\<exists>c. (k, c) \<in> g_entries (slru_abs s) \<and> lru_value c = v)"
proof -
  have d: "distinct (map fst (prob_view s @ prot_view s))"
    using slru_valid_core [OF assms] by (simp add: slru_core_def queue_ok_def)
  have "slru_entries s k = map_option lru_value (map_of (prob_view s @ prot_view s) k)"
    unfolding slru_lookup_all [OF slru_valid_core [OF assms]]
    by (cases "map_of (slru_cells s) k") (simp_all add: slru_entries_def)
  then show ?thesis
    using d by (auto simp: slru_abs_def simp del: map_of_append map_append)
qed

lemma slru_entries_abs:
  assumes "slru_valid weight s" and "slru_valid weight s'"
  shows "g_entries (slru_abs s') = g_entries (slru_abs s) \<Longrightarrow> slru_entries s' = slru_entries s"
    and "g_entries (slru_abs s') \<subseteq> g_entries (slru_abs s) \<Longrightarrow> slru_entries s' \<subseteq>\<^sub>m slru_entries s"
    and "g_entries (slru_abs s') \<subseteq> insert (k, c) (Set.filter (\<lambda>e. fst e \<noteq> k) (g_entries (slru_abs s))) \<Longrightarrow>
       slru_entries s' \<subseteq>\<^sub>m (slru_entries s)(k \<mapsto> lru_value c)"
  using slru_entries_iff [OF assms(1)] slru_entries_iff [OF assms(2)]
  by (auto simp: map_le_iff_Some intro!: map_eqI)

lemma g_demote_entries: "g_entries (g_demote g) = g_entries g"
proof -
  obtain d where d: "g_prot g = d @ keep_recent (unat (g_max_protected g)) (g_max_count g) (g_prot g)"
    using keep_recent_suffix by blast
  then have "take (length (g_prot g) - length (keep_recent (unat (g_max_protected g)) (g_max_count g) (g_prot g))) (g_prot g) = d"
    by (metis add_diff_cancel_right' append_eq_conv_conj length_append)
  then show ?thesis
    using arg_cong [OF d, of set] by (auto simp: g_demote_def Let_def)
qed

lemma g_evict_entries: "g_entries (g_evict g) \<subseteq> g_entries g"
  using set_keep_recent [of _ _ "g_prob g @ g_prot g"] by (auto simp: g_evict_def Let_def dest!: in_set_takeD)

lemma g_touch_entries:
  assumes "distinct (map fst (g_prob g))"
  shows "g_entries (g_touch k g) = g_entries g"
proof (cases "map_of (g_prob g) k")
  case None
  then show ?thesis
    by (auto simp: g_touch_def set_use_entry split: option.split)
next
  case (Some c)
  have "set (use_entry k (g_prob g)) = set (g_prob g)"
    by (rule set_use_entry)
  then show ?thesis
    using filter_present [OF assms Some] Some
    by (auto simp: g_touch_def set_use_entry g_demote_entries split: option.split)
qed

lemma slru_set_entries:
  assumes "slru_valid weight s" and "slru_value_ok weight v"
  shows "\<exists>s'. slru_set weight k v s = Inr s' \<and> slru_valid weight s' \<and> slru_entries s' \<subseteq>\<^sub>m (slru_entries s)(k \<mapsto> v)"
proof -
  obtain s' where s': "slru_set weight k v s = Inr s'" "slru_valid weight s'"
    "slru_abs s' = g_evict (g_demote (g_put weight k v (slru_abs s)))"
    using slru_set_abs [OF assms, of k] by blast
  have "k \<notin> fst ` g_entries g" if "map_of (g_prob g @ g_prot g) k = None" for g :: "('b, 'a) segmented"
    using that by (auto simp: map_add_None map_of_eq_None_iff)
  then have "g_entries (g_put weight k v (slru_abs s))
      \<subseteq> insert (k, \<lparr>lru_value = v, lru_cell_size = value_weight weight v\<rparr>)
          (Set.filter (\<lambda>e. fst e \<noteq> k) (g_entries (slru_abs s)))"
    by (force simp: g_put_def Let_def simp del: map_of_append split: if_splits)
  then have "g_entries (slru_abs s') \<subseteq> insert (k, \<lparr>lru_value = v, lru_cell_size = value_weight weight v\<rparr>)
          (Set.filter (\<lambda>e. fst e \<noteq> k) (g_entries (slru_abs s)))"
    unfolding s'(3) using g_evict_entries [of "g_demote (g_put weight k v (slru_abs s))"] g_demote_entries by blast
  from slru_entries_abs(3) [OF assms(1) s'(2) this] show ?thesis
    using s'(1,2) by auto
qed

interpretation slru: replacing_policy "SLRUCachePolicy weight" "slru_valid weight" slru_entries
    "slru_value_ok weight" "\<lambda>n. n \<le> 2 ^ 53" for weight :: "'v \<Rightarrow> 64 word"
proof unfold_locales
  fix s :: "('k, 'v) slru"
  assume s: "slru_valid weight s"
  note core = slru_valid_core [OF s]
  have d: "distinct (map fst (slru_cells s))" "distinct (map fst (g_prob (slru_abs s)))"
    using core by (simp_all add: slru_core_def queue_ok_def slru_abs_def)
  have val: "Option.bind (map_of (prob_view s @ prot_view s) k) lru_value = Option.bind (slru_entries s k) id"
    "map_option (\<lambda>c. (k, lru_value c)) (map_of (prob_view s @ prot_view s) k) = map_option (Pair k) (slru_entries s k)" for k
    unfolding slru_lookup_all [OF core] slru_entries_def by (cases "map_of (slru_cells s) k"; simp)+
  show "finite (dom (slru_entries s))"
    by (simp add: slru_entries_def dom_map_option_comp finite_dom_map_of)
  show "\<exists>s'. policy_get (SLRUCachePolicy weight) k s = Inr (Option.bind (slru_entries s k) id, s')
      \<and> slru_valid weight s' \<and> slru_entries s' = slru_entries s" for k
    using slru_get_abs(1) [OF s, of k] slru_entries_abs(1) [OF s] g_touch_entries [OF d(2), of k] val(1) [of k]
    by (auto simp: SLRUCachePolicy_def)
  show "\<exists>s'. policy_getWithKey (SLRUCachePolicy weight) k s = Inr (map_option (Pair k) (slru_entries s k), s')
      \<and> slru_valid weight s' \<and> slru_entries s' = slru_entries s" for k
    using slru_get_abs(2) [OF s, of k] slru_entries_abs(1) [OF s] g_touch_entries [OF d(2), of k] val(2) [of k]
    by (auto simp: SLRUCachePolicy_def)
  show "policy_contains (SLRUCachePolicy weight) k s \<longleftrightarrow> k \<in> dom (slru_entries s)" for k
    by (auto simp: SLRUCachePolicy_def slru_contains_def slru_entries_def)
  show "\<exists>s'. policy_set (SLRUCachePolicy weight) k v s = Inr s' \<and> slru_valid weight s'
      \<and> (slru_entries s' \<subseteq>\<^sub>m (slru_entries s)(k \<mapsto> v) \<or> slru_entries s' \<subseteq>\<^sub>m slru_entries s)"
    if "slru_value_ok weight v" for k v
    using slru_set_entries [OF s that, of k] by (auto simp: SLRUCachePolicy_def)
  show "slru_entries s' \<subseteq>\<^sub>m (slru_entries s)(k \<mapsto> v)"
    if "slru_value_ok weight v" "policy_set (SLRUCachePolicy weight) k v s = Inr s'" for k v s'
    using slru_set_entries [OF s that(1), of k] that(2) by (auto simp: SLRUCachePolicy_def)
  show "slru_valid weight (policy_remove (SLRUCachePolicy weight) k s)
      \<and> slru_entries (policy_remove (SLRUCachePolicy weight) k s) = (slru_entries s)(k := None)" for k
    using slru_remove_abs [OF s, of k] slru_entries_iff [OF s] slru_entries_iff [of weight "slru_remove k s"]
    by (auto simp: SLRUCachePolicy_def slru_abs_def split: if_splits intro!: map_eqI)
  show "slru_valid weight (policy_remove_if (SLRUCachePolicy weight) p s)
      \<and> slru_entries (policy_remove_if (SLRUCachePolicy weight) p s) = without_if p (slru_entries s)" for p
    using slru_remove_if_abs [OF s, of p] slru_entries_iff [OF s] slru_entries_iff [of weight "slru_remove_if p s"]
    by (auto simp: SLRUCachePolicy_def slru_abs_def without_if_Some intro!: map_eqI)
  show "slru_valid weight (policy_clear (SLRUCachePolicy weight) s)
      \<and> slru_entries (policy_clear (SLRUCachePolicy weight) s) = Map.empty"
    using slru_clear_abs [OF s] by (simp add: SLRUCachePolicy_def slru_entries_def slru_clear_def comp_def)
  show "set (policy_dump (SLRUCachePolicy weight) s) = {(k, v). slru_entries s k = Some v}
      \<and> length (policy_dump (SLRUCachePolicy weight) s) = policy_count (SLRUCachePolicy weight) s"
    using d(1) by (force simp: SLRUCachePolicy_def slru_dump_def slru_count_def slru_entries_def)
  show "\<exists>s'. policy_setMaxCount (SLRUCachePolicy weight) n s = Inr s' \<and> slru_valid weight s'
      \<and> slru_entries s' \<subseteq>\<^sub>m slru_entries s" for n
    using slru_limits_abs(1) [OF s, of n] slru_entries_abs(2) [OF s]
      g_evict_entries [of "g_demote ((slru_abs s)\<lparr>g_max_count := n\<rparr>)"]
    by (auto simp: SLRUCachePolicy_def g_demote_entries)
  show "\<exists>s'. policy_setMaxSizeInBytes (SLRUCachePolicy weight) w s = Inr s' \<and> slru_valid weight s'
      \<and> slru_entries s' \<subseteq>\<^sub>m slru_entries s" if "w \<le> 2 ^ 53" for w
    using slru_limits_abs(2) [OF s that] slru_entries_abs(2) [OF s]
      g_evict_entries [of "g_demote ((slru_abs s)\<lparr>g_max_protected := calculateMaxProtectedSize w (slru_size_ratio s), g_max_size := w\<rparr>)"]
    by (auto simp: SLRUCachePolicy_def g_demote_entries)
qed

section \<open>Properties\<close>

lemma slru_put_new:
  assumes "slru_valid weight s" and "slru_value_ok weight v" and "slru_entries s k = None"
  shows "\<exists>s'. slru_set weight k v s = Inr s' \<and> slru_valid weight s' \<and> prot_view s' = prot_view s
    \<and> slru_entries s' \<subseteq>\<^sub>m (slru_entries s)(k \<mapsto> v)"
proof -
  obtain s' where s': "slru_set weight k v s = Inr s'" "slru_valid weight s'"
    "slru_abs s' = g_evict (g_demote (g_put weight k v (slru_abs s)))"
    using slru_set_abs [OF assms(1,2), of k] by blast
  have "map_of (g_prob (slru_abs s) @ g_prot (slru_abs s)) k = None"
    using assms(3) slru_lookup_all [OF slru_valid_core [OF assms(1)], of k]
    by (simp add: slru_abs_def slru_entries_def del: map_of_append)
  then have put: "g_put weight k v (slru_abs s)
      = (slru_abs s)\<lparr>g_prob := prob_view s @ [(k, \<lparr>lru_value = v, lru_cell_size = value_weight weight v\<rparr>)]\<rparr>"
    by (simp add: g_put_def slru_abs_def Let_def del: map_of_append)
  have "keep_recent (unat (slru_max_protected_size s)) (slru_max_count s) (prot_view s) = prot_view s"
    using assms(1) by (intro keep_recent_all) (auto simp: slru_valid_def)
  then have "prot_view s' = prot_view s"
    using s'(3) unfolding put by (simp add: slru_abs_def g_demote_def g_evict_def Let_def)
  then show ?thesis
    using s'(1,2) slru_set_entries [OF assms(1,2), of k] by auto
qed

lemma slru_scan:
  assumes "slru_valid weight s" and "distinct (map fst kvs)" and "\<forall>(k, v) \<in> set kvs. slru_value_ok weight v"
    and "fst ` set kvs \<inter> dom (slru_entries s) = {}"
  shows "\<exists>outs s'. policy_run (SLRUCachePolicy weight) (map (\<lambda>(k, v). Put k v) kvs) s = Inr (outs, s')
    \<and> slru_valid weight s' \<and> prot_view s' = prot_view s"
  using assms
proof (induction kvs arbitrary: s)
  case (Cons kv kvs)
  obtain k v where kv: "kv = (k, v)"
    by fastforce
  have "slru_entries s k = None"
    using Cons.prems(4) kv by (auto simp: dom_def)
  then obtain t where t: "slru_set weight k v s = Inr t" "slru_valid weight t" "prot_view t = prot_view s"
    "slru_entries t \<subseteq>\<^sub>m (slru_entries s)(k \<mapsto> v)"
    using slru_put_new [OF Cons.prems(1), of v k] Cons.prems(3) kv by auto
  have "dom (slru_entries t) \<subseteq> insert k (dom (slru_entries s))"
    using map_le_implies_dom_le [OF t(4)] by simp
  then have "fst ` set kvs \<inter> dom (slru_entries t) = {}"
    using Cons.prems(2,4) kv by auto
  then obtain outs s' where "policy_run (SLRUCachePolicy weight) (map (\<lambda>(k, v). Put k v) kvs) t = Inr (outs, s')"
    "slru_valid weight s'" "prot_view s' = prot_view t"
    using Cons.IH [OF t(2)] Cons.prems(2,3) by auto
  moreover have "policy_step (SLRUCachePolicy weight) (Put k v) s = Inr (Done, t)"
    using t(1) by (simp add: policy_step_def SLRUCachePolicy_def)
  ultimately show ?case
    using kv t(3) by auto
qed simp

lemma slru_protected_sum:
  assumes "slru_core weight s"
  shows "unat (slru_protected_size s)
    = sum_list (map (\<lambda>(k, c). unat (value_weight weight (slru_value c))) (filter (\<lambda>(k, c). is_protected c) (slru_cells s)))"
proof -
  let ?cs = "slru_cells s" and ?f = "\<lambda>(k, c). unat (slru_cell_size c)"
  let ?pro = "filter (\<lambda>(k, c). is_protected c) ?cs"
  have core: "queue_ok ?cs (probationary_queue s @ protected_queue s)"
    and cell: "\<And>k c. (k, c) \<in> set ?cs \<Longrightarrow> (is_protected c \<longleftrightarrow> k \<in> set (protected_queue s))
      \<and> slru_cell_size c = value_weight weight (slru_value c)"
    using assms by (auto simp: slru_core_def)
  then have d: "distinct (map fst ?cs)" "distinct (protected_queue s)" "set (protected_queue s) \<subseteq> fst ` set ?cs"
    by (auto simp: queue_ok_def)
  have "set (queue_view ?cs (protected_queue s)) = set ?pro"
    using d cell by (force simp: queue_view_def)
  moreover have "distinct (queue_view ?cs (protected_queue s))" "distinct ?pro"
    using d by (auto simp: queue_view_def distinct_map inj_on_def)
  ultimately have "sum_list (map ?f (queue_view ?cs (protected_queue s))) = sum_list (map ?f ?pro)"
    by (simp add: sum_list_distinct_conv_sum_set)
  moreover have "sum_list (map ?f ?pro) = sum_list (map (\<lambda>(k, c). unat (value_weight weight (slru_value c))) ?pro)"
    using cell by (intro arg_cong [of _ _ sum_list] map_cong) auto
  ultimately show ?thesis
    unfolding slru_core_view(3) [OF assms] entry_bytes_seg_view unfolding cells_sum_def by simp
qed

lemma slru_core_queues:
  assumes "slru_core weight s"
  shows "distinct (map fst (slru_cells s))" "distinct (probationary_queue s)" "distinct (protected_queue s)"
    and "set (probationary_queue s) = {k. \<exists>c. map_of (slru_cells s) k = Some c \<and> \<not> is_protected c}"
    and "set (protected_queue s) = {k. \<exists>c. map_of (slru_cells s) k = Some c \<and> is_protected c}"
proof -
  have ok: "distinct (map fst (slru_cells s))" "distinct (probationary_queue s @ protected_queue s)"
    "set (probationary_queue s) \<union> set (protected_queue s) = fst ` set (slru_cells s)"
    using assms by (auto simp: slru_core_def queue_ok_def)
  then show "distinct (map fst (slru_cells s))" "distinct (probationary_queue s)" "distinct (protected_queue s)"
    by simp_all
  have flag: "is_protected c \<longleftrightarrow> k \<in> set (protected_queue s)" if "map_of (slru_cells s) k = Some c" for k c
    using slru_flag(1) [OF assms that] by blast
  have cached: "k \<in> set (probationary_queue s) \<union> set (protected_queue s) \<longleftrightarrow> (\<exists>c. map_of (slru_cells s) k = Some c)" for k
    unfolding ok(3) by (metis map_of_eq_None_iff not_None_eq)
  show "set (protected_queue s) = {k. \<exists>c. map_of (slru_cells s) k = Some c \<and> is_protected c}"
    using flag cached by blast
  show "set (probationary_queue s) = {k. \<exists>c. map_of (slru_cells s) k = Some c \<and> \<not> is_protected c}"
    using slru_flag(2) [OF assms] cached by blast
qed

lemmas slru_eval = new_SLRUCachePolicy_def policy_step_def SLRUCachePolicy_def slru_set_def slru_get_def slru_touch_def
  slru_remove_both_def slru_removeOverflow_def slru_need_remove_def calculateMaxProtectedSize_def clamp_ratio_def
  double_round_def value_weight_def EqualWeightFunction_def size_minus_def res_map_def

text \<open>C8: The segmented LRU policy implements two recency lists: any sequence of operations on a new cache (with
  weights up to \<open>2 ^ 62\<close> and size limits up to \<open>2 ^ 53\<close>) runs to the end, never reaches
  \<^verbatim>\<open>std::terminate\<close>, gives the outputs of the abstract pair of lists and ends in the state that stands for it.\<close>

theorem slru_refines_segmented_list:
  assumes "max_size \<le> 2 ^ 53" and "list_all (slru_op_ok weight) ops"
  shows "\<exists>outs s. policy_run (SLRUCachePolicy weight) ops (new_SLRUCachePolicy max_size max_count ratio) = Inr (outs, s)
    \<and> segmented_run weight ops
        \<lparr>g_max_size = max_size, g_max_protected = calculateMaxProtectedSize max_size ratio,
         g_max_count = max_count, g_ratio = ratio, g_prob = [], g_prot = []\<rparr> = (outs, slru_abs s)"
  using slru_run_refines [OF new_SLRU_valid [OF assms(1)] assms(2), of max_count ratio]
  by (auto simp: slru_abs_def new_SLRUCachePolicy_def)

theorem slru_refines_segmented_list_witness:
  "\<exists>outs s. policy_run (SLRUCachePolicy EqualWeightFunction) [Put (1::nat) (Some CHR ''a''), Get 1, Put 2 None, SetMaxCount 1]
      (new_SLRUCachePolicy 5 2 (1, 1)) = Inr (outs, s)
    \<and> segmented_run EqualWeightFunction [Put 1 (Some CHR ''a''), Get 1, Put 2 None, SetMaxCount 1]
        \<lparr>g_max_size = 5, g_max_protected = calculateMaxProtectedSize 5 (1, 1),
         g_max_count = 2, g_ratio = (1, 1), g_prob = [], g_prot = []\<rparr> = (outs, slru_abs s)"
  by (rule slru_refines_segmented_list) (simp_all add: op_ok_def value_weight_def EqualWeightFunction_def)

text \<open>C30: Accounting of the segmented policy: any sequence of operations on a new cache (with weights up to
  \<open>2 ^ 62\<close> and size limits up to \<open>2 ^ 53\<close>) runs to the end without an error (in particular without \<^verbatim>\<open>std::terminate\<close>), and then the reported size is the sum of the weights of the cached
  values, the protected counter is the sum of the weights of the cells flagged as protected, every cached
  key is exactly once in the one queue that its flag names and the queues hold nothing else, both segments
  respect their limits, the protected limit is at most the limit of the whole, and the metrics agree.\<close>

theorem slru_accounting:
  assumes "max_size \<le> 2 ^ 53" and "list_all (slru_op_ok weight) ops"
  shows "\<exists>outs s. policy_run (SLRUCachePolicy weight) ops (new_SLRUCachePolicy max_size max_count ratio) = Inr (outs, s)
    \<and> unat (slru_size_in_bytes s) = sum_list (map (\<lambda>(k, v). unat (value_weight weight v)) (slru_dump s))
    \<and> unat (slru_protected_size s) = sum_list (map (\<lambda>(k, c). unat (value_weight weight (slru_value c)))
        (filter (\<lambda>(k, c). is_protected c) (slru_cells s)))
    \<and> distinct (map fst (slru_cells s)) \<and> distinct (probationary_queue s) \<and> distinct (protected_queue s)
    \<and> set (probationary_queue s) = {k. \<exists>c. map_of (slru_cells s) k = Some c \<and> \<not> is_protected c}
    \<and> set (protected_queue s) = {k. \<exists>c. map_of (slru_cells s) k = Some c \<and> is_protected c}
    \<and> slru_size_in_bytes s \<le> slru_max_size_in_bytes s
    \<and> slru_protected_size s \<le> slru_max_protected_size s
    \<and> slru_max_protected_size s \<le> slru_max_size_in_bytes s
    \<and> (slru_max_count s = 0 \<or> slru_count s \<le> slru_max_count s)
    \<and> slru_size_metric s = slru_size_in_bytes s \<and> slru_count_metric s = word_of_nat (slru_count s)"
proof -
  obtain outs s where run: "policy_run (SLRUCachePolicy weight) ops (new_SLRUCachePolicy max_size max_count ratio) = Inr (outs, s)"
    and v: "slru_valid weight s"
    using slru_run_refines [OF new_SLRU_valid [OF assms(1)] assms(2), of max_count ratio] by auto
  note core = slru_valid_core [OF v]
  note view = slru_core_view [OF core]
  have "cells_sum (\<lambda>c. unat (slru_cell_size c)) (slru_cells s)
      = sum_list (map (\<lambda>(k, v). unat (value_weight weight v)) (slru_dump s))"
    using core unfolding slru_core_def cells_sum_def slru_dump_def map_map
    by (intro arg_cong [of _ _ sum_list] map_cong) auto
  moreover have "slru_max_protected_size s \<le> slru_max_size_in_bytes s"
    using v calculateMaxProtectedSize_le by (auto simp: slru_valid_def)
  moreover have "unat (slru_size_in_bytes s) \<le> unat (slru_max_size_in_bytes s)"
    "slru_max_count s = 0 \<or> slru_count s \<le> slru_max_count s"
    using v view(1,2) by (auto simp: slru_valid_def fits_def slru_count_def)
  moreover have "unat (slru_protected_size s) \<le> unat (slru_max_protected_size s)"
    unfolding view(3) using v by (auto simp: slru_valid_def fits_def)
  ultimately show ?thesis
    using run v view(4) slru_protected_sum [OF core] slru_core_queues [OF core]
    by (simp add: slru_valid_def slru_metrics_def slru_count_def word_le_nat_alt)
qed

theorem slru_accounting_witness:
  "\<exists>outs s. policy_run (SLRUCachePolicy EqualWeightFunction) [Put (1::nat) (Some CHR ''a''), Get 1, Put 2 (Some CHR ''b'')]
      (new_SLRUCachePolicy 4 0 (1, 1)) = Inr (outs, s)
    \<and> slru_protected_size s \<le> slru_max_protected_size s"
proof -
  let ?ops = "[Put (1::nat) (Some CHR ''a''), Get 1, Put 2 (Some CHR ''b'')]"
  have ok: "list_all (slru_op_ok EqualWeightFunction) ?ops"
    by (simp add: op_ok_def value_weight_def EqualWeightFunction_def)
  show ?thesis
    using slru_accounting [OF _ ok, of 4 0 "(1, 1)"] by auto
qed

text \<open>C31: Scan resistance of the segmented policy: inserting any number of distinct keys that are not in the
  cache leaves the protected queue and the values of its keys untouched, so a sequential scan cannot evict
  an entry that was used more than once.\<close>

theorem slru_scan_resistant:
  assumes "slru_valid weight s" and "distinct (map fst kvs)"
    and "list_all (\<lambda>(k, v). slru_value_ok weight v \<and> \<not> slru_contains k s) kvs"
  shows "\<exists>outs s'. policy_run (SLRUCachePolicy weight) (map (\<lambda>(k, v). Put k v) kvs) s = Inr (outs, s')
    \<and> protected_queue s' = protected_queue s
    \<and> list_all (\<lambda>k. map_option slru_value (map_of (slru_cells s') k) = map_option slru_value (map_of (slru_cells s) k))
        (protected_queue s)"
proof -
  have "\<forall>(k, v) \<in> set kvs. slru_value_ok weight v" "fst ` set kvs \<inter> dom (slru_entries s) = {}"
    using assms(3) by (force simp: list_all_iff slru_contains_def slru_entries_def dom_def)+
  then obtain outs s' where s': "policy_run (SLRUCachePolicy weight) (map (\<lambda>(k, v). Put k v) kvs) s = Inr (outs, s')"
    "slru_valid weight s'" "prot_view s' = prot_view s"
    using slru_scan [OF assms(1,2)] by blast
  have queue: "protected_queue s' = protected_queue s"
    using arg_cong [OF s'(3), of "map fst"] by simp
  have "slru_entries s' k = slru_entries s k" if k: "k \<in> set (protected_queue s)" for k
  proof -
    obtain c where "map_of (slru_cells s) k = Some c"
      using slru_cell [OF slru_valid_core [OF assms(1)], of k] k by blast
    moreover obtain c' where "map_of (slru_cells s') k = Some c'"
      using slru_cell [OF slru_valid_core [OF s'(2)], of k] k queue by (metis UnCI)
    ultimately have c: "map_of (slru_cells s) k = Some c" "map_of (slru_cells s') k = Some c'"
      by simp_all
    have "map_of (prot_view s') k = map_of (prot_view s) k"
      by (simp only: s'(3))
    then have "strip_cell c' = strip_cell c"
      using c k queue by (simp add: seg_view_map_of)
    then have "lru_value (strip_cell c') = lru_value (strip_cell c)"
      by (rule arg_cong)
    then show ?thesis
      using c by (simp add: slru_entries_def)
  qed
  then show ?thesis
    using s'(1) queue by (auto simp: list_all_iff slru_entries_def)
qed

theorem slru_scan_resistant_witness:
  "\<exists>outs s outs' s'. policy_run (SLRUCachePolicy EqualWeightFunction) [Put (1::nat) (Some CHR ''a''), Get 1, Put 2 (Some CHR ''b'')]
      (new_SLRUCachePolicy 5 2 (1, 1)) = Inr (outs, s)
    \<and> slru_contains 2 s
    \<and> policy_run (SLRUCachePolicy EqualWeightFunction) (map (\<lambda>(k, v). Put k v) [(3, Some CHR ''c''), (4, Some CHR ''d'')]) s
      = Inr (outs', s')
    \<and> slru_dump s' = [(1, Some CHR ''a''), (4, Some CHR ''d'')]
    \<and> protected_queue s = [1] \<and> protected_queue s' = [1]"
proof -
  let ?ops = "[Put (1::nat) (Some CHR ''a''), Get 1, Put 2 (Some CHR ''b'')]"
  let ?scan = "[(3::nat, Some CHR ''c''), (4, Some CHR ''d'')]"
  have ok: "list_all (slru_op_ok EqualWeightFunction) ?ops"
    by (simp add: op_ok_def value_weight_def EqualWeightFunction_def)
  obtain outs s where s: "policy_run (SLRUCachePolicy EqualWeightFunction) ?ops (new_SLRUCachePolicy 5 2 (1, 1)) = Inr (outs, s)"
    "slru_contains 2 s" "\<not> slru_contains 3 s" "\<not> slru_contains 4 s" "protected_queue s = [1]"
    "\<exists>outs' s'. policy_run (SLRUCachePolicy EqualWeightFunction) (map (\<lambda>(k, v). Put k v) ?scan) s = Inr (outs', s')
      \<and> slru_dump s' = [(1, Some CHR ''a''), (4, Some CHR ''d'')]"
    by (simp add: slru_eval slru_contains_def slru_dump_def)
  have "slru_valid EqualWeightFunction s"
    using slru_run_refines [OF new_SLRU_valid ok, of 5 2 "(1, 1)"] s(1) by auto
  then show ?thesis
    using slru_scan_resistant [of EqualWeightFunction s ?scan] s by (auto simp: value_weight_def EqualWeightFunction_def)
qed

end
