(* ===== verification/Cache_Base.thy ===== *)
theory Cache_Base
  imports Cache_SLRU_Spec
begin

text \<open>
  The thread-safe cache over a policy, \<^verbatim>\<open>src/src/Common/CacheBase.h\<close>.  Every public function holds the
  mutex of the cache for its whole body, so a history of calls is a sequence of the functions below.
  The insert tokens of \<^verbatim>\<open>getOrSet\<close>, which holds the mutex only in parts, are in the theory on that
  function.
\<close>

section \<open>State and operations\<close>

record 's cache =
  cache_policy_state :: 's
  cache_hits :: "64 word"
  cache_misses :: "64 word"

datatype policy_kind = LRU | SLRU

definition cache_policy_by_name :: "string \<Rightarrow> policy_kind result" where
  "cache_policy_by_name cache_policy_name =
     (let name = (if cache_policy_name = [] then ''SLRU'' else cache_policy_name)
      in if name = ''LRU'' then Inr LRU else if name = ''SLRU'' then Inr SLRU else Inl BAD_ARGUMENTS)"

definition new_CacheBase :: "'s \<Rightarrow> 's cache" where
  "new_CacheBase s = \<lparr>cache_policy_state = s, cache_hits = 0, cache_misses = 0\<rparr>"

definition count_lookup :: "bool \<Rightarrow> 's cache \<Rightarrow> 's cache" where
  "count_lookup found c =
     (if found then c\<lparr>cache_hits := cache_hits c + 1\<rparr> else c\<lparr>cache_misses := cache_misses c + 1\<rparr>)"

definition cache_get :: "('s, 'k, 'v) policy \<Rightarrow> 'k \<Rightarrow> 's cache \<Rightarrow> ('v option \<times> 's cache) result" where
  "cache_get pol key c =
     res_map (\<lambda>(res, s). (res, count_lookup (res \<noteq> None) (c\<lparr>cache_policy_state := s\<rparr>)))
       (policy_get pol key (cache_policy_state c))"

definition cache_getWithKey :: "('s, 'k, 'v) policy \<Rightarrow> 'k \<Rightarrow> 's cache
    \<Rightarrow> (('k \<times> 'v option) option \<times> 's cache) result" where
  "cache_getWithKey pol key c =
     res_map (\<lambda>(res, s). (res, count_lookup (res \<noteq> None) (c\<lparr>cache_policy_state := s\<rparr>)))
       (policy_getWithKey pol key (cache_policy_state c))"

fun cache_getMany :: "('s, 'k, 'v) policy \<Rightarrow> 'k list \<Rightarrow> 's cache \<Rightarrow> ('v option list \<times> 's cache) result" where
  "cache_getMany pol [] c = Inr ([], c)"
| "cache_getMany pol (key # keys) c =
     res_bind (policy_get pol key (cache_policy_state c)) (\<lambda>(res, s).
       res_map (map_prod (Cons res) id)
         (cache_getMany pol keys (count_lookup (res \<noteq> None) (c\<lparr>cache_policy_state := s\<rparr>))))"

definition on_state :: "('s \<Rightarrow> 's) \<Rightarrow> 's cache \<Rightarrow> 's cache" where
  "on_state f c = c\<lparr>cache_policy_state := f (cache_policy_state c)\<rparr>"

definition cache_contains :: "('s, 'k, 'v) policy \<Rightarrow> 'k \<Rightarrow> 's cache \<Rightarrow> bool" where
  "cache_contains pol key c = policy_contains pol key (cache_policy_state c)"

definition cache_set :: "('s, 'k, 'v) policy \<Rightarrow> 'k \<Rightarrow> 'v option \<Rightarrow> 's cache \<Rightarrow> 's cache result" where
  "cache_set pol key mapped c =
     res_map (\<lambda>s. c\<lparr>cache_policy_state := s\<rparr>) (policy_set pol key mapped (cache_policy_state c))"

definition cache_getStats :: "'s cache \<Rightarrow> 64 word \<times> 64 word" where
  "cache_getStats c = (cache_hits c, cache_misses c)"

definition cache_dump :: "('s, 'k, 'v) policy \<Rightarrow> 's cache \<Rightarrow> ('k \<times> 'v option) list" where
  "cache_dump pol c = policy_dump pol (cache_policy_state c)"

definition cache_clear :: "('s, 'k, 'v) policy \<Rightarrow> 's cache \<Rightarrow> 's cache" where
  "cache_clear pol c = on_state (policy_clear pol) (c\<lparr>cache_hits := 0, cache_misses := 0\<rparr>)"

definition cache_remove :: "('s, 'k, 'v) policy \<Rightarrow> 'k \<Rightarrow> 's cache \<Rightarrow> 's cache" where
  "cache_remove pol key c = on_state (policy_remove pol key) c"

definition cache_remove_if :: "('s, 'k, 'v) policy \<Rightarrow> ('k \<Rightarrow> 'v option \<Rightarrow> bool) \<Rightarrow> 's cache \<Rightarrow> 's cache" where
  "cache_remove_if pol p c = on_state (policy_remove_if pol p) c"

definition cache_sizeInBytes :: "('s, 'k, 'v) policy \<Rightarrow> 's cache \<Rightarrow> 64 word" where
  "cache_sizeInBytes pol c = policy_sizeInBytes pol (cache_policy_state c)"

definition cache_count :: "('s, 'k, 'v) policy \<Rightarrow> 's cache \<Rightarrow> nat" where
  "cache_count pol c = policy_count pol (cache_policy_state c)"

definition cache_maxSizeInBytes :: "('s, 'k, 'v) policy \<Rightarrow> 's cache \<Rightarrow> 64 word" where
  "cache_maxSizeInBytes pol c = policy_maxSizeInBytes pol (cache_policy_state c)"

definition cache_maxCount :: "('s, 'k, 'v) policy \<Rightarrow> 's cache \<Rightarrow> nat" where
  "cache_maxCount pol c = policy_maxCount pol (cache_policy_state c)"

definition cache_setMaxCount :: "('s, 'k, 'v) policy \<Rightarrow> nat \<Rightarrow> 's cache \<Rightarrow> 's cache result" where
  "cache_setMaxCount pol n c =
     res_map (\<lambda>s. c\<lparr>cache_policy_state := s\<rparr>) (policy_setMaxCount pol n (cache_policy_state c))"

definition cache_setMaxSizeInBytes :: "('s, 'k, 'v) policy \<Rightarrow> 64 word \<Rightarrow> 's cache \<Rightarrow> 's cache result" where
  "cache_setMaxSizeInBytes pol n c =
     res_map (\<lambda>s. c\<lparr>cache_policy_state := s\<rparr>) (policy_setMaxSizeInBytes pol n (cache_policy_state c))"

text \<open>A history of calls.\<close>

definition cache_step :: "('s, 'k, 'v) policy \<Rightarrow> ('k, 'v) cache_op \<Rightarrow> 's cache
    \<Rightarrow> (('k, 'v) cache_out \<times> 's cache) result" where
  "cache_step pol oper c =
     (case oper of
        Get k \<Rightarrow> res_map (map_prod Value id) (cache_get pol k c)
      | GetWithKey k \<Rightarrow> res_map (map_prod KeyMapped id) (cache_getWithKey pol k c)
      | Contains k \<Rightarrow> Inr (Found (cache_contains pol k c), c)
      | Put k v \<Rightarrow> res_map (Pair Done) (cache_set pol k v c)
      | Remove k \<Rightarrow> Inr (Done, cache_remove pol k c)
      | RemoveIf p \<Rightarrow> Inr (Done, cache_remove_if pol p c)
      | Clear \<Rightarrow> Inr (Done, cache_clear pol c)
      | SetMaxCount n \<Rightarrow> res_map (Pair Done) (cache_setMaxCount pol n c)
      | SetMaxSizeInBytes n \<Rightarrow> res_map (Pair Done) (cache_setMaxSizeInBytes pol n c)
      | Count \<Rightarrow> Inr (Number (cache_count pol c), c)
      | SizeInBytes \<Rightarrow> Inr (Number (unat (cache_sizeInBytes pol c)), c))"

fun cache_run :: "('s, 'k, 'v) policy \<Rightarrow> ('k, 'v) cache_op list \<Rightarrow> 's cache
    \<Rightarrow> (('k, 'v) cache_out list \<times> 's cache) result" where
  "cache_run pol [] c = Inr ([], c)"
| "cache_run pol (oper # ops) c =
     res_bind (cache_step pol oper c) (\<lambda>(out, c').
       res_map (map_prod (Cons out) id) (cache_run pol ops c'))"

section \<open>What a client of the interface gets\<close>

text \<open>An output agrees with the last writes.\<close>

definition out_agrees :: "('k \<rightharpoonup> 'v option) \<Rightarrow> ('k, 'v) cache_op \<Rightarrow> ('k, 'v) cache_out \<Rightarrow> bool" where
  "out_agrees m oper out =
     (case oper of
        Get k \<Rightarrow> (case out of Value None \<Rightarrow> True | Value (Some v) \<Rightarrow> m k = Some (Some v) | _ \<Rightarrow> False)
      | GetWithKey k \<Rightarrow>
          (case out of KeyMapped None \<Rightarrow> True | KeyMapped (Some (k', v)) \<Rightarrow> k' = k \<and> m k = Some v | _ \<Rightarrow> False)
      | Contains k \<Rightarrow> (case out of Found found \<Rightarrow> found \<longrightarrow> m k \<noteq> None | _ \<Rightarrow> False)
      | Count \<Rightarrow> (case out of Number _ \<Rightarrow> True | _ \<Rightarrow> False)
      | SizeInBytes \<Rightarrow> (case out of Number _ \<Rightarrow> True | _ \<Rightarrow> False)
      | _ \<Rightarrow> out = Done)"

fun outs_agree :: "('k \<rightharpoonup> 'v option) \<Rightarrow> ('k, 'v) cache_op list \<Rightarrow> ('k, 'v) cache_out list \<Rightarrow> bool" where
  "outs_agree m [] outs \<longleftrightarrow> outs = []"
| "outs_agree m (oper # ops) outs \<longleftrightarrow>
     (case outs of [] \<Rightarrow> False | out # rest \<Rightarrow> out_agrees m oper out \<and> outs_agree (last_write oper m) ops rest)"

lemma without_if_mono: "m \<subseteq>\<^sub>m m' \<Longrightarrow> without_if p m \<subseteq>\<^sub>m without_if p m'"
  by (simp add: map_le_iff_Some without_if_Some)

context replacing_policy
begin

lemma step_agrees:
  assumes "valid (cache_policy_state c)" and "entries (cache_policy_state c) \<subseteq>\<^sub>m m" and "op_ok value_ok size_ok oper"
  shows "\<exists>out c'. cache_step pol oper c = Inr (out, c') \<and> valid (cache_policy_state c')
    \<and> entries (cache_policy_state c') \<subseteq>\<^sub>m last_write oper m \<and> out_agrees m oper out"
proof -
  note Some_le = assms(2) [unfolded map_le_iff_Some, rule_format]
  show ?thesis
  proof (cases oper)
    case (Get k)
    have "out_agrees m (Get k) (Value (Option.bind (entries (cache_policy_state c) k) id))"
      by (cases "Option.bind (entries (cache_policy_state c) k) id") (auto simp: Option.bind_eq_Some_conv Some_le out_agrees_def)
    then show ?thesis
      using get_law [OF assms(1), of k] assms(2) Get
      by (auto simp: cache_step_def cache_get_def count_lookup_def)
  next
    case (GetWithKey k)
    then show ?thesis
      using getWithKey_law [OF assms(1), of k] assms(2) Some_le
      by (auto simp: cache_step_def out_agrees_def cache_getWithKey_def count_lookup_def)
  next
    case (Contains k)
    then show ?thesis
      using contains_law [OF assms(1), of k] assms(1,2) Some_le
      by (cases "k \<in> dom (entries (cache_policy_state c))") (auto simp: cache_step_def out_agrees_def cache_contains_def)
  next
    case (Put k v)
    then obtain s' where s': "policy_set pol k v (cache_policy_state c) = Inr s'" "valid s'"
      using set_law [OF assms(1), of v k] assms(3) by (auto simp: op_ok_def)
    then have "entries s' \<subseteq>\<^sub>m (entries (cache_policy_state c))(k \<mapsto> v)"
      using set_replaces [OF assms(1), of v k] assms(3) Put by (simp add: op_ok_def)
    moreover have "(entries (cache_policy_state c))(k \<mapsto> v) \<subseteq>\<^sub>m m(k \<mapsto> v)"
      using assms(2) by (rule map_le_upd)
    ultimately show ?thesis
      using Put s' by (auto simp: cache_step_def out_agrees_def cache_set_def intro: map_le_trans)
  next
    case (Remove k)
    then show ?thesis
      using remove_law [OF assms(1), of k] assms(2)
      by (auto simp: cache_step_def out_agrees_def cache_remove_def on_state_def map_le_iff_Some)
  next
    case (RemoveIf p)
    then show ?thesis
      using remove_if_law [OF assms(1), of p] assms(2)
      by (simp add: cache_step_def out_agrees_def cache_remove_if_def on_state_def without_if_mono)
  next
    case Clear
    then show ?thesis
      using clear_law [OF assms(1)] by (simp add: cache_step_def out_agrees_def cache_clear_def on_state_def)
  next
    case (SetMaxCount n)
    then show ?thesis
      using setMaxCount_law [OF assms(1), of n] assms(2)
      by (auto simp: cache_step_def out_agrees_def cache_setMaxCount_def intro: map_le_trans)
  next
    case (SetMaxSizeInBytes n)
    then show ?thesis
      using setMaxSizeInBytes_law [OF assms(1), of n] assms(2,3)
      by (auto simp: cache_step_def out_agrees_def cache_setMaxSizeInBytes_def op_ok_def intro: map_le_trans)
  qed (use assms(1,2) in \<open>simp_all add: cache_step_def out_agrees_def\<close>)
qed

lemma run_agrees:
  assumes "valid (cache_policy_state c)" and "entries (cache_policy_state c) \<subseteq>\<^sub>m m"
    and "list_all (op_ok value_ok size_ok) ops"
  shows "\<exists>outs c'. cache_run pol ops c = Inr (outs, c') \<and> valid (cache_policy_state c') \<and> outs_agree m ops outs"
  using assms
proof (induction ops arbitrary: c m)
  case (Cons oper ops)
  obtain out c1 where c1: "cache_step pol oper c = Inr (out, c1)" "valid (cache_policy_state c1)"
    "entries (cache_policy_state c1) \<subseteq>\<^sub>m last_write oper m" "out_agrees m oper out"
    using step_agrees [OF Cons.prems(1,2), of oper] Cons.prems(3) by auto
  moreover obtain outs c' where "cache_run pol ops c1 = Inr (outs, c')" "valid (cache_policy_state c')"
    "outs_agree (last_write oper m) ops outs"
    using Cons.IH [OF c1(2,3)] Cons.prems(3) by auto
  ultimately show ?case
    by auto
qed simp

end

lemma new_entries:
  "lru_entries (new_LRUCachePolicy m n) = Map.empty"
  "slru_entries (new_SLRUCachePolicy m n r) = Map.empty"
  by (simp_all add: lru_entries_def new_LRUCachePolicy_def slru_entries_def new_SLRUCachePolicy_def comp_def)

lemma new_lru_cache_run:
  assumes "m \<le> 2 ^ 63" and "list_all (lru_op_ok weight) ops"
  shows "\<exists>outs c. cache_run (LRUCachePolicy weight) ops (new_CacheBase (new_LRUCachePolicy m n)) = Inr (outs, c)
    \<and> outs_agree Map.empty ops outs"
  using lru.run_agrees [of weight "new_CacheBase (new_LRUCachePolicy m n)" Map.empty ops]
    new_LRU_valid [OF assms(1), of weight n] assms(2)
  by (auto simp: new_CacheBase_def new_entries)

lemma new_slru_cache_run:
  assumes "m \<le> 2 ^ 53" and "list_all (slru_op_ok weight) ops"
  shows "\<exists>outs c. cache_run (SLRUCachePolicy weight) ops (new_CacheBase (new_SLRUCachePolicy m n r)) = Inr (outs, c)
    \<and> outs_agree Map.empty ops outs"
  using slru.run_agrees [of weight "new_CacheBase (new_SLRUCachePolicy m n r)" Map.empty ops]
    new_SLRU_valid [OF assms(1), of weight n r] assms(2)
  by (auto simp: new_CacheBase_def new_entries)

text \<open>The counters that a history of calls and answers should give since the last \<^verbatim>\<open>clear\<close>.\<close>

fun stats_of :: "('k, 'v) cache_op list \<Rightarrow> ('k, 'v) cache_out list \<Rightarrow> 64 word \<times> 64 word \<Rightarrow> 64 word \<times> 64 word" where
  "stats_of (oper # ops) (out # outs) (h, m) =
     stats_of ops outs
       (case (oper, out) of
          (Get _, Value None) \<Rightarrow> (h, m + 1)
        | (Get _, Value (Some _)) \<Rightarrow> (h + 1, m)
        | (GetWithKey _, KeyMapped None) \<Rightarrow> (h, m + 1)
        | (GetWithKey _, KeyMapped (Some _)) \<Rightarrow> (h + 1, m)
        | (Clear, _) \<Rightarrow> (0, 0)
        | _ \<Rightarrow> (h, m))"
| "stats_of _ _ hm = hm"

lemma cache_step_stats:
  assumes "cache_step pol oper c = Inr (out, c')"
  shows "stats_of (oper # ops) (out # outs) (cache_getStats c) = stats_of ops outs (cache_getStats c')"
  using assms
  by (cases oper)
     (auto simp: cache_step_def cache_get_def cache_getWithKey_def cache_set_def cache_remove_def cache_remove_if_def
        cache_clear_def cache_setMaxCount_def cache_setMaxSizeInBytes_def on_state_def count_lookup_def
        cache_getStats_def res_Inr_iff split: option.splits)

section \<open>Properties\<close>

text \<open>C21: A cache never serves a stale value: in any history of calls on a cache with the LRU or the segmented LRU
  policy, every value that \<^verbatim>\<open>get\<close> or \<^verbatim>\<open>getWithKey\<close> returns for a key is the one of the last
  \<^verbatim>\<open>set\<close> of that key, and the key was not removed or cleared since; and the history runs to its end.\<close>

theorem cache_serves_last_write:
  assumes "lru_max \<le> 2 ^ 63" and "list_all (lru_op_ok weight) ops"
    and "slru_max \<le> 2 ^ 53" and "list_all (slru_op_ok weight) ops"
  shows "(\<exists>outs c. cache_run (LRUCachePolicy weight) ops (new_CacheBase (new_LRUCachePolicy lru_max n)) = Inr (outs, c)
            \<and> outs_agree Map.empty ops outs)
    \<and> (\<exists>outs c. cache_run (SLRUCachePolicy weight) ops (new_CacheBase (new_SLRUCachePolicy slru_max n ratio)) = Inr (outs, c)
            \<and> outs_agree Map.empty ops outs)"
  using new_lru_cache_run [OF assms(1,2)] new_slru_cache_run [OF assms(3,4)] by blast

theorem cache_serves_last_write_witness:
  "(\<exists>outs c. cache_run (LRUCachePolicy EqualWeightFunction) [Put (1::nat) (Some CHR ''a''), Get 1, Remove 1, Get 1]
        (new_CacheBase (new_LRUCachePolicy 3 0)) = Inr (outs, c)
      \<and> outs_agree Map.empty [Put 1 (Some CHR ''a''), Get 1, Remove 1, Get 1] outs)
    \<and> (\<exists>outs c. cache_run (SLRUCachePolicy EqualWeightFunction) [Put (1::nat) (Some CHR ''a''), Get 1, Remove 1, Get 1]
        (new_CacheBase (new_SLRUCachePolicy 3 0 (1, 1))) = Inr (outs, c)
      \<and> outs_agree Map.empty [Put 1 (Some CHR ''a''), Get 1, Remove 1, Get 1] outs)"
  by (rule cache_serves_last_write) (simp_all add: op_ok_def value_weight_def EqualWeightFunction_def)

text \<open>Hit and miss counters: whatever the policy, after a history of calls the statistics are the number of
  lookups that found a value and of those that did not, since the last \<^verbatim>\<open>clear\<close>.\<close>

lemma cache_stats_correct:
  assumes "cache_run pol ops c = Inr (outs, c')"
  shows "cache_getStats c' = stats_of ops outs (cache_getStats c)"
  using assms
proof (induction ops arbitrary: c outs)
  case (Cons oper ops)
  obtain out c1 outs1 where "cache_step pol oper c = Inr (out, c1)" "cache_run pol ops c1 = Inr (outs1, c')"
    "outs = out # outs1"
    using Cons.prems by (auto simp: res_Inr_iff)
  then show ?case
    using Cons.IH cache_step_stats [of pol oper c out c1 ops outs1] by simp
qed (simp add: cache_getStats_def)

text \<open>\<^verbatim>\<open>getMany\<close> is equivalent to a sequence of \<^verbatim>\<open>get\<close> calls, in its values, in the counters and in the order
  of use it leaves behind, for every policy.\<close>

lemma getMany_equiv:
  "cache_run pol (map Get keys) c = res_map (map_prod (map Value) id) (cache_getMany pol keys c)"
proof (induction keys arbitrary: c)
  case (Cons key keys)
  then show ?case
    by (cases "policy_get pol key (cache_policy_state c)")
       (auto simp: cache_step_def cache_get_def res_map_def res_bind_def split: sum.split)
qed simp

end
