(* ===== verification/Cache_GetOrSet.thy ===== *)
theory Cache_GetOrSet
  imports Cache_Base
begin

text \<open>
  \<^verbatim>\<open>CacheBase::getOrSet\<close> of \<^verbatim>\<open>src/src/Common/CacheBase.h\<close> under concurrency.  A state has the cache, the map
  \<^verbatim>\<open>insert_tokens\<close>, the tokens ever allocated (a token is addressed by its position, which stands for the
  shared pointer) and a program counter for every thread.  One event is one critical section: what a
  thread does while it holds the mutex of the cache, or between taking and giving back the mutex of a
  token.  A section that is nested in the mutex of a token is one event, because it only touches what
  the two mutexes protect.
\<close>

section \<open>Threads and tokens\<close>

record 'v insert_token =
  token_mutex :: "nat option"
  token_cleaned_up :: bool
  token_value :: "'v option"
  token_refcount :: nat

definition new_InsertToken :: "'v insert_token" where
  "new_InsertToken = \<lparr>token_mutex = None, token_cleaned_up = False, token_value = None, token_refcount = 0\<rparr>"

text \<open>
  Where a thread is in a call: the key, the token of its holder, the flag \<^verbatim>\<open>cleaned_up\<close> of the holder,
  and the result of the call (\<open>None\<close> when \<^verbatim>\<open>load_func\<close> threw).  \<open>Unlocking\<close> leaves the scope of the token
  lock, \<open>Releasing\<close> runs the destructor of the holder.
\<close>

type_synonym 'v outcome = "('v option \<times> bool) option"

datatype ('k, 'v) pc =
    Idle
  | Calling 'k
  | Waiting 'k nat
  | Loading 'k nat bool
  | Publishing 'k nat bool
  | Unlocking 'k nat bool "'v outcome"
  | Releasing 'k nat "'v outcome"
  | Returned 'k "'v outcome"

record ('s, 'k, 'v) gos =
  gos_cache :: "'s cache"
  insert_tokens :: "'k \<rightharpoonup> nat"
  gos_tokens :: "'v insert_token list"
  gos_threads :: "('k, 'v) pc list"

datatype ('k, 'v) event =
    Call 'k
  | Lookup
  | Lock
  | LoadReturns "'v option"
  | LoadThrows
  | Publish
  | Unlock
  | Release
  | Return
  | ClearCache
  | Other "('k, 'v) cache_op"

section \<open>The critical sections\<close>

definition set_pc :: "nat \<Rightarrow> ('k, 'v) pc \<Rightarrow> ('s, 'k, 'v) gos \<Rightarrow> ('s, 'k, 'v) gos" where
  "set_pc i p st = st\<lparr>gos_threads := (gos_threads st)[i := p]\<rparr>"

definition upd_token :: "nat \<Rightarrow> ('v insert_token \<Rightarrow> 'v insert_token) \<Rightarrow> ('s, 'k, 'v) gos \<Rightarrow> ('s, 'k, 'v) gos" where
  "upd_token t f st = st\<lparr>gos_tokens := (gos_tokens st)[t := f (gos_tokens st ! t)]\<rparr>"

definition on_cache :: "('s cache \<Rightarrow> 's cache) \<Rightarrow> ('s, 'k, 'v) gos \<Rightarrow> ('s, 'k, 'v) gos" where
  "on_cache f st = st\<lparr>gos_cache := f (gos_cache st)\<rparr>"

text \<open>\<^verbatim>\<open>InsertTokenHolder::acquire\<close> and \<^verbatim>\<open>cleanup\<close>.\<close>

definition holder_acquire :: "nat \<Rightarrow> ('s, 'k, 'v) gos \<Rightarrow> ('s, 'k, 'v) gos" where
  "holder_acquire t = upd_token t (\<lambda>token. token\<lparr>token_refcount := token_refcount token + 1\<rparr>)"

definition holder_cleanup :: "'k \<Rightarrow> nat \<Rightarrow> ('s, 'k, 'v) gos \<Rightarrow> ('s, 'k, 'v) gos" where
  "holder_cleanup k t st =
     upd_token t (\<lambda>token. token\<lparr>token_cleaned_up := True\<rparr>)
       (st\<lparr>insert_tokens := (insert_tokens st)(k := None)\<rparr>)"

text \<open>The token of the key, created if there is none.\<close>

definition token_for :: "'k \<Rightarrow> ('s, 'k, 'v) gos \<Rightarrow> nat \<times> ('s, 'k, 'v) gos" where
  "token_for k st =
     (case insert_tokens st k of
        Some t \<Rightarrow> (t, st)
      | None \<Rightarrow> (length (gos_tokens st),
                 st\<lparr>insert_tokens := (insert_tokens st)(k \<mapsto> length (gos_tokens st)),
                    gos_tokens := gos_tokens st @ [new_InsertToken]\<rparr>))"

definition gos_lookup :: "('s, 'k, 'v) policy \<Rightarrow> nat \<Rightarrow> 'k \<Rightarrow> ('s, 'k, 'v) gos \<Rightarrow> ('s, 'k, 'v) gos option" where
  "gos_lookup pol i k st =
     (case policy_get pol k (cache_policy_state (gos_cache st)) of
        Inl e \<Rightarrow> None
      | Inr (val, s) \<Rightarrow>
          let st1 = on_cache (\<lambda>c. c\<lparr>cache_policy_state := s\<rparr>) st
          in (case val of
                Some v \<Rightarrow> Some (set_pc i (Returned k (Some (Some v, False))) (on_cache (count_lookup True) st1))
              | None \<Rightarrow> (case token_for k st1 of (t, st2) \<Rightarrow>
                           Some (set_pc i (Waiting k t) (holder_acquire t st2)))))"

definition gos_lock :: "nat \<Rightarrow> 'k \<Rightarrow> nat \<Rightarrow> ('s, 'k, 'v) gos \<Rightarrow> ('s, 'k, 'v) gos option" where
  "gos_lock i k t st =
     (let token = gos_tokens st ! t
      in if token_mutex token \<noteq> None then None
         else let st1 = upd_token t (\<lambda>token. token\<lparr>token_mutex := Some i\<rparr>) st
              in (case token_value token of
                    Some v \<Rightarrow> Some (set_pc i (Unlocking k t (token_cleaned_up token) (Some (Some v, False)))
                                      (on_cache (count_lookup True) st1))
                  | None \<Rightarrow> Some (set_pc i (Loading k t (token_cleaned_up token)) (on_cache (count_lookup False) st1))))"

definition gos_publish :: "('s, 'k, 'v) policy \<Rightarrow> nat \<Rightarrow> 'k \<Rightarrow> nat \<Rightarrow> bool \<Rightarrow> ('s, 'k, 'v) gos \<Rightarrow> ('s, 'k, 'v) gos option" where
  "gos_publish pol i k t cleaned st =
     (let present = (insert_tokens st k = Some t);
          mapped = token_value (gos_tokens st ! t);
          cleanup = (\<not> token_cleaned_up (gos_tokens st ! t))
      in case (if present then policy_set pol k mapped (cache_policy_state (gos_cache st))
               else Inr (cache_policy_state (gos_cache st))) of
           Inl e \<Rightarrow> None
         | Inr s \<Rightarrow>
             let st1 = on_cache (\<lambda>c. c\<lparr>cache_policy_state := s\<rparr>) st
             in Some (set_pc i (Unlocking k t (cleaned \<or> cleanup) (Some (mapped, present)))
                        (if cleanup then holder_cleanup k t st1 else st1)))"

definition gos_unlock :: "nat \<Rightarrow> 'k \<Rightarrow> nat \<Rightarrow> bool \<Rightarrow> 'v outcome \<Rightarrow> ('s, 'k, 'v) gos \<Rightarrow> ('s, 'k, 'v) gos" where
  "gos_unlock i k t cleaned r st =
     set_pc i (if cleaned then Returned k r else Releasing k t r)
       (upd_token t (\<lambda>token. token\<lparr>token_mutex := None\<rparr>) st)"

text \<open>The destructor of the holder; \<^verbatim>\<open>--refcount\<close> is on a \<^verbatim>\<open>size_t\<close>.\<close>

definition gos_release :: "nat \<Rightarrow> 'k \<Rightarrow> nat \<Rightarrow> 'v outcome \<Rightarrow> ('s, 'k, 'v) gos \<Rightarrow> ('s, 'k, 'v) gos option" where
  "gos_release i k t r st =
     (let token = gos_tokens st ! t
      in if token_mutex token \<noteq> None then None
         else if token_cleaned_up token then Some (set_pc i (Returned k r) st)
         else let left = size_minus (token_refcount token) 1;
                  st1 = upd_token t (\<lambda>token. token\<lparr>token_refcount := left\<rparr>) st
              in Some (set_pc i (Returned k r) (if left = 0 then holder_cleanup k t st1 else st1)))"

definition gos_clear :: "('s, 'k, 'v) policy \<Rightarrow> ('s, 'k, 'v) gos \<Rightarrow> ('s, 'k, 'v) gos" where
  "gos_clear pol st = on_cache (cache_clear pol) (st\<lparr>insert_tokens := Map.empty\<rparr>)"

section \<open>Interleavings\<close>

definition gos_step :: "('s, 'k, 'v) policy \<Rightarrow> nat \<times> ('k, 'v) event \<Rightarrow> ('s, 'k, 'v) gos \<Rightarrow> ('s, 'k, 'v) gos option" where
  "gos_step pol ie st =
     (case ie of (i, e) \<Rightarrow>
        if length (gos_threads st) \<le> i then None
        else (case (gos_threads st ! i, e) of
                (Idle, Call k) \<Rightarrow> Some (set_pc i (Calling k) st)
              | (Idle, ClearCache) \<Rightarrow> Some (gos_clear pol st)
              | (Idle, Other oper) \<Rightarrow>
                  (case oper of
                     Clear \<Rightarrow> None
                   | _ \<Rightarrow> (case cache_step pol oper (gos_cache st) of Inl _ \<Rightarrow> None
                             | Inr (_, c) \<Rightarrow> Some (st\<lparr>gos_cache := c\<rparr>)))
              | (Calling k, Lookup) \<Rightarrow> gos_lookup pol i k st
              | (Waiting k t, Lock) \<Rightarrow> gos_lock i k t st
              | (Loading k t c, LoadReturns v) \<Rightarrow>
                  Some (set_pc i (Publishing k t c) (upd_token t (\<lambda>token. token\<lparr>token_value := v\<rparr>) st))
              | (Loading k t c, LoadThrows) \<Rightarrow> Some (set_pc i (Unlocking k t c None) st)
              | (Publishing k t c, Publish) \<Rightarrow> gos_publish pol i k t c st
              | (Unlocking k t c r, Unlock) \<Rightarrow> Some (gos_unlock i k t c r st)
              | (Releasing k t r, Release) \<Rightarrow> gos_release i k t r st
              | (Returned k r, Return) \<Rightarrow> Some (set_pc i Idle st)
              | _ \<Rightarrow> None))"

fun gos_run :: "('s, 'k, 'v) policy \<Rightarrow> (nat \<times> ('k, 'v) event) list \<Rightarrow> ('s, 'k, 'v) gos \<Rightarrow> ('s, 'k, 'v) gos option" where
  "gos_run pol [] st = Some st"
| "gos_run pol (ie # ies) st = Option.bind (gos_step pol ie st) (gos_run pol ies)"

definition new_gos :: "nat \<Rightarrow> 's \<Rightarrow> ('s, 'k, 'v) gos" where
  "new_gos n s =
     \<lparr>gos_cache = new_CacheBase s, insert_tokens = Map.empty, gos_tokens = [], gos_threads = replicate n Idle\<rparr>"

section \<open>Invariant\<close>

text \<open>The token a thread refers to (with the key), the token whose mutex it holds, and its copy of the flag.\<close>

fun pc_ref :: "('k, 'v) pc \<Rightarrow> ('k \<times> nat) option" where
  "pc_ref (Waiting k t) = Some (k, t)"
| "pc_ref (Loading k t c) = Some (k, t)"
| "pc_ref (Publishing k t c) = Some (k, t)"
| "pc_ref (Unlocking k t c r) = Some (k, t)"
| "pc_ref (Releasing k t r) = Some (k, t)"
| "pc_ref _ = None"

fun pc_holds :: "('k, 'v) pc \<Rightarrow> (nat \<times> bool) option" where
  "pc_holds (Loading k t c) = Some (t, c)"
| "pc_holds (Publishing k t c) = Some (t, c)"
| "pc_holds (Unlocking k t c r) = Some (t, c)"
| "pc_holds _ = None"

definition refers :: "nat \<Rightarrow> ('k, 'v) pc \<Rightarrow> bool" where
  "refers t p \<longleftrightarrow> map_option snd (pc_ref p) = Some t"

definition refs :: "nat \<Rightarrow> ('s, 'k, 'v) gos \<Rightarrow> nat" where
  "refs t st = length (filter (refers t) (gos_threads st))"

definition token_ok :: "('s, 'k, 'v) gos \<Rightarrow> nat \<Rightarrow> bool" where
  "token_ok st t \<longleftrightarrow>
     (\<forall>j c. j < length (gos_threads st) \<longrightarrow> pc_holds (gos_threads st ! j) = Some (t, c) \<longrightarrow>
        token_mutex (gos_tokens st ! t) = Some j \<and> c = token_cleaned_up (gos_tokens st ! t))
     \<and> (\<forall>j. token_mutex (gos_tokens st ! t) = Some j \<longrightarrow>
          j < length (gos_threads st) \<and> pc_holds (gos_threads st ! j) = Some (t, token_cleaned_up (gos_tokens st ! t)))
     \<and> (\<not> token_cleaned_up (gos_tokens st ! t) \<longrightarrow> token_refcount (gos_tokens st ! t) = refs t st)"

definition gos_inv :: "('s, 'k, 'v) gos \<Rightarrow> bool" where
  "gos_inv st \<longleftrightarrow>
     (\<forall>p \<in> set (gos_threads st). \<forall>k t. pc_ref p = Some (k, t) \<longrightarrow> t < length (gos_tokens st))
     \<and> (\<forall>t < length (gos_tokens st). token_ok st t)
     \<and> (\<forall>k t. insert_tokens st k = Some t \<longrightarrow> t < length (gos_tokens st)
          \<and> \<not> token_cleaned_up (gos_tokens st ! t) \<and> 0 < refs t st
          \<and> (\<forall>p \<in> set (gos_threads st). \<forall>k'. pc_ref p = Some (k', t) \<longrightarrow> k' = k))"

lemma pc_holds_ref: "pc_holds p = Some (t, c) \<Longrightarrow> \<exists>k. pc_ref p = Some (k, t)"
  by (cases p) auto

lemma length_filter_update:
  assumes "i < length xs"
  shows "length (filter P (xs[i := y])) + (if P (xs ! i) then 1 else 0) = length (filter P xs) + (if P y then 1 else 0)"
  using assms
proof (induction xs arbitrary: i)
  case (Cons x xs)
  then show ?case
    by (cases i) (auto simp: ac_simps)
qed simp

lemma refs_update:
  assumes "i < length (gos_threads st)"
  shows "refs t (set_pc i p st) + (if refers t (gos_threads st ! i) then 1 else 0) = refs t st + (if refers t p then 1 else 0)"
  using length_filter_update [OF assms, of "refers t" p] by (simp add: refs_def set_pc_def)

lemma refs_pos: "i < length (gos_threads st) \<Longrightarrow> refers t (gos_threads st ! i) \<Longrightarrow> 0 < refs t st"
  by (auto simp: refs_def filter_empty_conv length_greater_0_conv [symmetric] simp del: length_greater_0_conv
      intro!: length_pos_if_in_set [of "gos_threads st ! i"])

lemma gos_fields [simp]:
  "gos_threads (set_pc i p st) = (gos_threads st)[i := p]" "gos_tokens (set_pc i p st) = gos_tokens st"
  "insert_tokens (set_pc i p st) = insert_tokens st" "gos_cache (set_pc i p st) = gos_cache st"
  "gos_threads (upd_token t f st) = gos_threads st" "insert_tokens (upd_token t f st) = insert_tokens st"
  "gos_tokens (upd_token t f st) = (gos_tokens st)[t := f (gos_tokens st ! t)]"
  "gos_cache (upd_token t f st) = gos_cache st"
  "gos_threads (on_cache g st) = gos_threads st" "gos_tokens (on_cache g st) = gos_tokens st"
  "insert_tokens (on_cache g st) = insert_tokens st" "gos_cache (on_cache g st) = g (gos_cache st)"
  by (simp_all add: set_pc_def upd_token_def on_cache_def)

lemma holder_fields [simp]:
  "gos_threads (holder_acquire t st) = gos_threads st" "insert_tokens (holder_acquire t st) = insert_tokens st"
  "gos_cache (holder_acquire t st) = gos_cache st"
  "gos_threads (holder_cleanup k t st) = gos_threads st" "gos_cache (holder_cleanup k t st) = gos_cache st"
  "insert_tokens (holder_cleanup k t st) = (insert_tokens st)(k := None)"
  "gos_tokens (holder_cleanup k t st) = (gos_tokens st)[t := (gos_tokens st ! t)\<lparr>token_cleaned_up := True\<rparr>]"
  by (simp_all add: holder_acquire_def holder_cleanup_def)

lemma refs_cong: "gos_threads st = gos_threads st' \<Longrightarrow> refs t st = refs t st'"
  by (simp add: refs_def)

lemma gos_inv_cong:
  assumes "gos_threads st' = gos_threads st" "gos_tokens st' = gos_tokens st" "insert_tokens st' = insert_tokens st"
  shows "gos_inv st' \<longleftrightarrow> gos_inv st"
  using assms by (simp add: gos_inv_def token_ok_def refs_def)

lemma gos_inv_new: "gos_inv (new_gos n s)"
  by (simp add: gos_inv_def new_gos_def)

lemma gos_inv_outside:
  assumes "gos_inv st" and "i < length (gos_threads st)" and "pc_ref (gos_threads st ! i) = None" and "pc_ref p = None"
  shows "gos_inv (set_pc i p st)"
proof -
  have holds: "pc_holds p = None" "pc_holds (gos_threads st ! i) = None"
    using assms(3,4) pc_holds_ref by (metis not_None_eq old.prod.exhaust option.distinct(1))+
  have r: "refs t (set_pc i p st) = refs t st" for t
    using refs_update [OF assms(2), of t p] assms(3,4) by (simp add: refers_def)
  have h: "pc_holds ((gos_threads st)[i := p] ! j) = pc_holds (gos_threads st ! j)" for j
    using holds assms(2) by (cases "j = i") (auto simp: nth_list_update)
  have q: "pc_ref q = None \<or> q \<in> set (gos_threads st)" if "q \<in> set ((gos_threads st)[i := p])" for q
    using that assms(4) set_update_subset_insert [of "gos_threads st" i p] by auto
  have "token_ok (set_pc i p st) t \<longleftrightarrow> token_ok st t" for t
    by (simp add: token_ok_def Let_def r h)
  moreover have "q \<in> set (gos_threads st)" if "q \<in> set ((gos_threads st)[i := p])" "pc_ref q = Some x" for q x
    using q [OF that(1)] that(2) by simp
  ultimately show ?thesis
    using assms(1) unfolding gos_inv_def by (simp add: r) blast
qed

lemma gos_invD:
  assumes "gos_inv st"
  shows "p \<in> set (gos_threads st) \<Longrightarrow> pc_ref p = Some (k, t) \<Longrightarrow> t < length (gos_tokens st)"
    and "t < length (gos_tokens st) \<Longrightarrow> token_ok st t"
    and "insert_tokens st k = Some t \<Longrightarrow> t < length (gos_tokens st) \<and> \<not> token_cleaned_up (gos_tokens st ! t) \<and> 0 < refs t st"
    and "insert_tokens st k = Some t \<Longrightarrow> p \<in> set (gos_threads st) \<Longrightarrow> pc_ref p = Some (k', t) \<Longrightarrow> k' = k"
  using assms unfolding gos_inv_def by simp_all

lemma token_okD:
  assumes "token_ok st t"
  shows "j < length (gos_threads st) \<Longrightarrow> pc_holds (gos_threads st ! j) = Some (t, c) \<Longrightarrow>
      token_mutex (gos_tokens st ! t) = Some j \<and> c = token_cleaned_up (gos_tokens st ! t)"
    and "token_mutex (gos_tokens st ! t) = Some j \<Longrightarrow>
      j < length (gos_threads st) \<and> pc_holds (gos_threads st ! j) = Some (t, token_cleaned_up (gos_tokens st ! t))"
    and "\<not> token_cleaned_up (gos_tokens st ! t) \<Longrightarrow> token_refcount (gos_tokens st ! t) = refs t st"
  using assms unfolding token_ok_def by blast+

lemma token_okI:
  assumes "\<And>j c. j < length (gos_threads st) \<Longrightarrow> pc_holds (gos_threads st ! j) = Some (t, c) \<Longrightarrow>
      token_mutex (gos_tokens st ! t) = Some j \<and> c = token_cleaned_up (gos_tokens st ! t)"
    and "\<And>j. token_mutex (gos_tokens st ! t) = Some j \<Longrightarrow>
      j < length (gos_threads st) \<and> pc_holds (gos_threads st ! j) = Some (t, token_cleaned_up (gos_tokens st ! t))"
    and "\<not> token_cleaned_up (gos_tokens st ! t) \<Longrightarrow> token_refcount (gos_tokens st ! t) = refs t st"
  shows "token_ok st t"
  unfolding token_ok_def using assms by blast

lemma gos_inv_move:
  assumes inv: "gos_inv st" and i: "i < length (gos_threads st)" and ref: "pc_ref (gos_threads st ! i) = Some (k, t)"
    and free: "token_mutex (gos_tokens st ! t) = None \<or> token_mutex (gos_tokens st ! t) = Some i"
    and pref: "pc_ref p = Some (k, t) \<or> pc_ref p = None"
    and hold: "(token_mutex tok = Some i \<and> pc_holds p = Some (t, token_cleaned_up tok))
      \<or> (token_mutex tok = None \<and> pc_holds p = None)"
    and count: "\<not> token_cleaned_up tok \<Longrightarrow> \<not> token_cleaned_up (gos_tokens st ! t)
      \<and> token_refcount tok + (if pc_ref p = None then 1 else 0) = token_refcount (gos_tokens st ! t)
      \<and> 0 < token_refcount tok"
    and threads: "gos_threads st' = (gos_threads st)[i := p]" and tokens: "gos_tokens st' = (gos_tokens st)[t := tok]"
    and ins: "insert_tokens st' = (if token_cleaned_up tok \<and> \<not> token_cleaned_up (gos_tokens st ! t)
      then (insert_tokens st)(k := None) else insert_tokens st)"
  shows "gos_inv st'"
proof -
  let ?tok = "gos_tokens st ! t"
  have mem: "gos_threads st ! i \<in> set (gos_threads st)"
    using i by simp
  have t: "t < length (gos_tokens st)" and ok: "token_ok st t"
    using gos_invD(1) [OF inv mem ref] gos_invD(2) [OF inv] by simp_all
  have others: "pc_holds (gos_threads st ! j) \<noteq> Some (t, c)" if "j < length (gos_threads st)" "j \<noteq> i" for j c
    using token_okD(1) [OF ok that(1), of c] free that(2) by auto
  have own: "pc_holds (gos_threads st ! i) = Some (t', c) \<Longrightarrow> t' = t" "pc_holds p = Some (t', c) \<Longrightarrow> t' = t" for t' c
    using pc_holds_ref [of "gos_threads st ! i" t' c] pc_holds_ref [of p t' c] ref pref by auto
  have nth: "gos_threads st' ! j = (if j = i then p else gos_threads st ! j)" if "j < length (gos_threads st)" for j
    using that by (simp add: threads nth_list_update)
  have len: "length (gos_threads st') = length (gos_threads st)" "length (gos_tokens st') = length (gos_tokens st)"
    by (simp_all add: threads tokens)
  have tok: "gos_tokens st' ! u = (if u = t then tok else gos_tokens st ! u)" for u
    using t by (simp add: tokens nth_list_update)
  have refs': "refs u st' + (if u = t then 1 else 0) = refs u st + (if u = t \<and> pc_ref p \<noteq> None then 1 else 0)" for u
    using length_filter_update [OF i, of "refers u" p] ref pref by (auto simp: refs_def threads refers_def)
  have subset: "q \<in> set (gos_threads st') \<Longrightarrow> q = p \<or> q \<in> set (gos_threads st)" for q
    using set_update_subset_insert [of "gos_threads st" i p] by (auto simp: threads)
  have c_new: "\<not> token_cleaned_up tok \<Longrightarrow> token_refcount tok = refs t st'"
    using count token_okD(3) [OF ok] refs' [of t] by (cases "pc_ref p") auto
  have token: "token_ok st' u" if u: "u < length (gos_tokens st)" for u
  proof (cases "u = t")
    case True
    show ?thesis
    proof (rule token_okI, unfold len tok True if_True simp_thms)
      show "token_mutex tok = Some j \<and> c = token_cleaned_up tok"
        if "j < length (gos_threads st)" "pc_holds (gos_threads st' ! j) = Some (t, c)" for j c
        using that hold others [OF that(1), of c] by (cases "j = i") (auto simp: nth)
      show "j < length (gos_threads st) \<and> pc_holds (gos_threads st' ! j) = Some (t, token_cleaned_up tok)"
        if "token_mutex tok = Some j" for j
        using that hold i nth [of i] by auto
      show "token_refcount tok = refs t st'" if "\<not> token_cleaned_up tok"
        by (rule c_new [OF that])
    qed
  next
    case False
    have same: "pc_holds (gos_threads st' ! j) = Some (u, c) \<longleftrightarrow> pc_holds (gos_threads st ! j) = Some (u, c)"
      if "j < length (gos_threads st)" for j c
      using own [of u c] False that by (auto simp: nth)
    note u_ok = token_okD [OF gos_invD(2) [OF inv u]]
    have refs_u: "refs u st' = refs u st" and tok_u: "gos_tokens st' ! u = gos_tokens st ! u"
      using refs' [of u] False by (simp_all add: tok)
    show ?thesis
    proof (rule token_okI, unfold len tok_u refs_u)
      show "token_mutex (gos_tokens st ! u) = Some j \<and> c = token_cleaned_up (gos_tokens st ! u)"
        if "j < length (gos_threads st)" "pc_holds (gos_threads st' ! j) = Some (u, c)" for j c
        using u_ok(1) [OF that(1)] that(2) same [OF that(1)] by blast
      show "j < length (gos_threads st) \<and> pc_holds (gos_threads st' ! j) = Some (u, token_cleaned_up (gos_tokens st ! u))"
        if "token_mutex (gos_tokens st ! u) = Some j" for j
        using u_ok(2) [OF that] same by blast
    qed (rule u_ok(3))
  qed
  have "u < length (gos_tokens st') \<and> \<not> token_cleaned_up (gos_tokens st' ! u) \<and> 0 < refs u st'
      \<and> (\<forall>q \<in> set (gos_threads st'). \<forall>k''. pc_ref q = Some (k'', u) \<longrightarrow> k'' = k')"
    if "insert_tokens st' k' = Some u" for k' u
  proof -
    have old: "insert_tokens st k' = Some u" and gone: "token_cleaned_up tok \<Longrightarrow> \<not> token_cleaned_up ?tok \<Longrightarrow> k' \<noteq> k"
      using that ins by (auto split: if_splits)
    note m = gos_invD(3) [OF inv old] and keys = gos_invD(4) [OF inv old]
    have same: "u = t \<Longrightarrow> k' = k"
      using keys [OF mem, of k] ref by simp
    then have "u = t \<Longrightarrow> \<not> token_cleaned_up tok"
      using gone m by blast
    moreover have "k'' = k'" if "q \<in> set (gos_threads st')" "pc_ref q = Some (k'', u)" for q k''
      using subset [OF that(1)] that(2) keys [of q k''] pref same by auto
    ultimately show ?thesis
      using m c_new count refs' [of u] unfolding tok len by (cases "u = t") auto
  qed
  moreover have "pc_ref q = Some (k', u) \<Longrightarrow> q \<in> set (gos_threads st') \<Longrightarrow> u < length (gos_tokens st')" for q k' u
    using subset [of q] pref t gos_invD(1) [OF inv, of q k' u] len(2) by auto
  ultimately show ?thesis
    using token unfolding gos_inv_def len by blast
qed

text \<open>A thread takes a reference to the token of its key, which may be new.\<close>

lemma gos_inv_join:
  assumes inv: "\<And>p k u. p \<in> set (gos_threads st) \<Longrightarrow> pc_ref p = Some (k, u) \<Longrightarrow> u < length (gos_tokens st)"
      "\<And>u. u < length (gos_tokens st) \<Longrightarrow> token_ok st u"
      "\<And>k' u. insert_tokens st k' = Some u \<Longrightarrow> u < length (gos_tokens st)
        \<and> \<not> token_cleaned_up (gos_tokens st ! u) \<and> (u = t \<or> 0 < refs u st)"
      "\<And>k' u p k''. insert_tokens st k' = Some u \<Longrightarrow> p \<in> set (gos_threads st) \<Longrightarrow> pc_ref p = Some (k'', u) \<Longrightarrow> k'' = k'"
    and once: "\<And>k'. insert_tokens st k' = Some t \<Longrightarrow> k' = k"
    and i: "i < length (gos_threads st)" "pc_ref (gos_threads st ! i) = None" and k: "insert_tokens st k = Some t"
  shows "gos_inv (set_pc i (Waiting k t) (holder_acquire t st))"
proof -
  let ?st = "set_pc i (Waiting k t) (holder_acquire t st)"
  let ?tok = "gos_tokens st ! t"
  have t: "t < length (gos_tokens st)" "\<not> token_cleaned_up ?tok"
    using inv(3) [OF k] by simp_all
  have none: "pc_holds (gos_threads st ! i) = None"
    using i(2) pc_holds_ref by (metis not_None_eq old.prod.exhaust option.distinct(1))
  have threads: "gos_threads ?st = (gos_threads st)[i := Waiting k t]" and len: "length (gos_tokens ?st) = length (gos_tokens st)"
    and ins: "insert_tokens ?st = insert_tokens st"
    by (simp_all add: holder_acquire_def)
  have tok: "gos_tokens ?st ! u = (if u = t then ?tok\<lparr>token_refcount := token_refcount ?tok + 1\<rparr> else gos_tokens st ! u)" for u
    using t(1) by (simp add: holder_acquire_def nth_list_update)
  have refs': "refs u ?st = refs u st + (if u = t then 1 else 0)" for u
    using length_filter_update [OF i(1), of "refers u" "Waiting k t"] i(2) by (simp add: refs_def threads refers_def)
  have holds: "pc_holds (gos_threads ?st ! j) = pc_holds (gos_threads st ! j)" if "j < length (gos_threads st)" for j
    using that none by (cases "j = i") (simp_all add: threads)
  have token: "token_ok ?st u" if u: "u < length (gos_tokens st)" for u
  proof -
    note ok = token_okD [OF inv(2) [OF u]]
    have same: "token_mutex (gos_tokens ?st ! u) = token_mutex (gos_tokens st ! u)"
      "token_cleaned_up (gos_tokens ?st ! u) = token_cleaned_up (gos_tokens st ! u)"
      "token_refcount (gos_tokens ?st ! u) = token_refcount (gos_tokens st ! u) + (if u = t then 1 else 0)"
      unfolding tok by simp_all
    show ?thesis
    proof (rule token_okI, unfold same refs' threads length_list_update)
      show "token_mutex (gos_tokens st ! u) = Some j \<and> c = token_cleaned_up (gos_tokens st ! u)"
        if "j < length (gos_threads st)" "pc_holds ((gos_threads st)[i := Waiting k t] ! j) = Some (u, c)" for j c
        using ok(1) [OF that(1), of c] that(2) holds [OF that(1)] unfolding threads by argo
      show "j < length (gos_threads st) \<and> pc_holds ((gos_threads st)[i := Waiting k t] ! j) = Some (u, token_cleaned_up (gos_tokens st ! u))"
        if "token_mutex (gos_tokens st ! u) = Some j" for j
        using ok(2) [OF that] holds [of j] unfolding threads by argo
    qed (simp add: ok(3))
  qed
  have subset: "q \<in> set (gos_threads ?st) \<Longrightarrow> q = Waiting k t \<or> q \<in> set (gos_threads st)" for q
    using set_update_subset_insert [of "gos_threads st" i "Waiting k t"] by (auto simp: threads)
  have "u < length (gos_tokens st) \<and> \<not> token_cleaned_up (gos_tokens ?st ! u) \<and> 0 < refs u ?st
      \<and> (\<forall>q \<in> set (gos_threads ?st). \<forall>k''. pc_ref q = Some (k'', u) \<longrightarrow> k'' = k')"
    if u: "insert_tokens st k' = Some u" for k' u
  proof -
    have "k'' = k'" if q: "q \<in> set (gos_threads ?st)" "pc_ref q = Some (k'', u)" for q k''
      using subset [OF q(1)] q(2) inv(4) [OF u, of q k''] once u by auto
    then show ?thesis
      using inv(3) [OF u] refs' [of u] unfolding tok by auto
  qed
  moreover have "u < length (gos_tokens st)" if "q \<in> set (gos_threads ?st)" "pc_ref q = Some (k', u)" for q k' u
    using subset [OF that(1)] that(2) t(1) inv(1) [of q k' u] by auto
  ultimately show ?thesis
    using token unfolding gos_inv_def len ins by blast
qed

lemma gos_inv_insert_tokens_once:
  assumes "gos_inv st" and "insert_tokens st k = Some t" and "insert_tokens st k' = Some t"
  shows "k' = k"
proof -
  have "0 < refs t st"
    using gos_invD(3) [OF assms(1,2)] by simp
  then obtain p where p: "p \<in> set (gos_threads st)" "refers t p"
    by (auto simp: refs_def filter_empty_conv)
  then obtain k'' where "pc_ref p = Some (k'', t)"
    by (auto simp: refers_def)
  then show ?thesis
    using gos_invD(4) [OF assms(1,2) p(1)] gos_invD(4) [OF assms(1,3) p(1)] by simp
qed

lemma gos_inv_lookup:
  assumes inv: "gos_inv st" and i: "i < length (gos_threads st)" "gos_threads st ! i = Calling k"
    and step: "gos_lookup pol i k st = Some st'"
  shows "gos_inv st'"
proof -
  obtain val s where get: "policy_get pol k (cache_policy_state (gos_cache st)) = Inr (val, s)"
    using step by (auto simp: gos_lookup_def split: sum.splits)
  define st1 where "st1 = on_cache (\<lambda>c. c\<lparr>cache_policy_state := s\<rparr>) st"
  have st1: "gos_inv st1" "gos_threads st1 = gos_threads st" "insert_tokens st1 = insert_tokens st" "gos_tokens st1 = gos_tokens st"
    using inv by (simp_all add: st1_def gos_inv_cong [of "on_cache _ st" st])
  show ?thesis
  proof (cases val)
    case (Some v)
    then have st': "st' = set_pc i (Returned k (Some (Some v, False))) (on_cache (count_lookup True) st1)"
      using step get by (simp add: gos_lookup_def st1_def Let_def)
    have "gos_inv (on_cache (count_lookup True) st1)"
      using st1(1) by (simp add: gos_inv_cong [of "on_cache _ st1" st1])
    then show ?thesis
      unfolding st' by (rule gos_inv_outside) (simp_all add: st1 i)
  next
    case None
    obtain t st2 where tf: "token_for k st1 = (t, st2)"
      by fastforce
    have st': "st' = set_pc i (Waiting k t) (holder_acquire t st2)"
      using step get None tf by (simp add: gos_lookup_def st1_def Let_def)
    show ?thesis
    proof (cases "insert_tokens st1 k")
      case (Some u)
      then have eq: "u = t" "st2 = st1"
        using tf by (simp_all add: token_for_def)
      show ?thesis
        unfolding st' eq(2)
      proof (rule gos_inv_join)
        show "k' = k" if "insert_tokens st1 k' = Some t" for k'
          using gos_inv_insert_tokens_once [OF st1(1) _ that] Some eq(1) by simp
        show "u < length (gos_tokens st1) \<and> \<not> token_cleaned_up (gos_tokens st1 ! u) \<and> (u = t \<or> 0 < refs u st1)"
          if "insert_tokens st1 k' = Some u" for k' u
          using gos_invD(3) [OF st1(1) that] by simp
      qed (use gos_invD(1,2,4) [OF st1(1)] i st1(2) Some eq(1) in simp_all)
    next
      case none: None
      then have new: "t = length (gos_tokens st1)"
        "st2 = st1\<lparr>insert_tokens := (insert_tokens st1)(k \<mapsto> t), gos_tokens := gos_tokens st1 @ [new_InsertToken]\<rparr>"
        using tf by (auto simp: token_for_def)
      have fresh: "pc_ref p \<noteq> Some (k', t)" if "p \<in> set (gos_threads st1)" for p k'
        using gos_invD(1) [OF st1(1) that] new(1) by blast
      have st2: "gos_threads st2 = gos_threads st1" "gos_tokens st2 ! t = new_InsertToken"
        "u < length (gos_tokens st1) \<Longrightarrow> gos_tokens st2 ! u = gos_tokens st1 ! u" for u
        by (simp_all add: new nth_append)
      have refs0: "refs t st2 = 0"
        using fresh by (auto simp: refs_def refers_def st2(1) filter_empty_conv)
      have idle: "pc_holds (gos_threads st1 ! j) \<noteq> Some (t, c)" if "j < length (gos_threads st1)" for j c
        using fresh [OF nth_mem [OF that]] pc_holds_ref [of "gos_threads st1 ! j" t c] by blast
      have "token_ok st2 t"
        by (rule token_okI; unfold st2(1,2) refs0) (use idle in \<open>auto simp: new_InsertToken_def\<close>)
      moreover have "token_ok st2 u" if "u < length (gos_tokens st1)" for u
        using gos_invD(2) [OF st1(1) that] unfolding token_ok_def st2(1) st2(3) [OF that] refs_def .
      ultimately have ok: "token_ok st2 u" if "u < length (gos_tokens st2)" for u
        using that new by (cases "u = t") auto
      show ?thesis
        unfolding st'
      proof (rule gos_inv_join)
        show "u < length (gos_tokens st2)" if "p \<in> set (gos_threads st2)" "pc_ref p = Some (k', u)" for p k' u
          using that gos_invD(1) [OF st1(1), of p k' u] by (simp add: new(2))
        show "token_ok st2 u" if "u < length (gos_tokens st2)" for u
          by (rule ok [OF that])
        show "u < length (gos_tokens st2) \<and> \<not> token_cleaned_up (gos_tokens st2 ! u) \<and> (u = t \<or> 0 < refs u st2)"
          if "insert_tokens st2 k' = Some u" for k' u
          using that gos_invD(3) [OF st1(1), of k' u]
          by (auto simp: new new_InsertToken_def nth_append refs_def split: if_splits)
        show "k'' = k'" if "insert_tokens st2 k' = Some u" "p \<in> set (gos_threads st2)" "pc_ref p = Some (k'', u)" for k' u p k''
          using that fresh [of p k''] gos_invD(4) [OF st1(1), of k' u p k''] by (auto simp: new(2) split: if_splits)
        show "k' = k" if "insert_tokens st2 k' = Some t" for k'
          using that gos_invD(3) [OF st1(1), of k' t] new by (auto split: if_splits)
      qed (use i st1 new in simp_all)
    qed
  qed
qed

text \<open>The other sections act on the token a thread already refers to.\<close>

lemma gos_ref_token:
  assumes "gos_inv st" and "i < length (gos_threads st)" and "pc_ref (gos_threads st ! i) = Some (k, t)"
  shows "t < length (gos_tokens st)" and "token_ok st t" and "0 < refs t st"
proof -
  show t: "t < length (gos_tokens st)"
    using gos_invD(1) [OF assms(1) nth_mem [OF assms(2)] assms(3)] .
  show "token_ok st t"
    by (rule gos_invD(2) [OF assms(1) t])
  show "0 < refs t st"
    using assms(2,3) by (intro refs_pos) (auto simp: refers_def)
qed

lemma gos_inv_hold:
  assumes inv: "gos_inv st" and i: "i < length (gos_threads st)" and ref: "pc_ref (gos_threads st ! i) = Some (k, t)"
    and free: "token_mutex (gos_tokens st ! t) = None \<or> token_mutex (gos_tokens st ! t) = Some i"
    and p: "pc_ref p = Some (k, t)" "pc_holds p = Some (t, token_cleaned_up (gos_tokens st ! t))"
    and tok: "token_mutex tok = Some i" "token_cleaned_up tok = token_cleaned_up (gos_tokens st ! t)"
      "token_refcount tok = token_refcount (gos_tokens st ! t)"
    and st': "gos_threads st' = (gos_threads st)[i := p]" "gos_tokens st' = (gos_tokens st)[t := tok]"
      "insert_tokens st' = insert_tokens st"
  shows "gos_inv st'"
proof (rule gos_inv_move [OF inv i ref free])
  note t = gos_ref_token [OF inv i ref]
  show "\<not> token_cleaned_up (gos_tokens st ! t) \<and> token_refcount tok + (if pc_ref p = None then 1 else 0)
      = token_refcount (gos_tokens st ! t) \<and> 0 < token_refcount tok" if "\<not> token_cleaned_up tok"
    using that tok p(1) token_okD(3) [OF t(2)] t(3) by simp
qed (use p tok st' in simp_all)

lemma gos_holder:
  assumes "gos_inv st" and "i < length (gos_threads st)" and "pc_holds (gos_threads st ! i) = Some (t, c)"
    and "pc_ref (gos_threads st ! i) = Some (k, t)"
  shows "token_mutex (gos_tokens st ! t) = Some i" and "c = token_cleaned_up (gos_tokens st ! t)"
  using token_okD(1) [OF gos_ref_token(2) [OF assms(1,2,4)] assms(2,3)] by simp_all

lemma gos_inv_lock:
  assumes "gos_inv st" and "i < length (gos_threads st)" and "gos_threads st ! i = Waiting k t"
    and "gos_lock i k t st = Some st'"
  shows "gos_inv st'"
proof -
  have free: "token_mutex (gos_tokens st ! t) = None"
    using assms(4) by (auto simp: gos_lock_def Let_def split: if_splits)
  define p where "p = (case token_value (gos_tokens st ! t) of
      None \<Rightarrow> Loading k t (token_cleaned_up (gos_tokens st ! t))
    | Some v \<Rightarrow> Unlocking k t (token_cleaned_up (gos_tokens st ! t)) (Some (Some v, False)))"
  have "gos_threads st' = (gos_threads st)[i := p]" "insert_tokens st' = insert_tokens st"
    "gos_tokens st' = (gos_tokens st)[t := (gos_tokens st ! t)\<lparr>token_mutex := Some i\<rparr>]"
    using assms(4) free by (auto simp: gos_lock_def p_def Let_def split: option.splits)
  then show ?thesis
    using free assms(3)
    by (intro gos_inv_hold [OF assms(1,2), where t = t and k = k and p = p]) (auto simp: p_def split: option.splits)
qed

lemma gos_inv_publish:
  assumes "gos_inv st" and i: "i < length (gos_threads st)" and pc: "gos_threads st ! i = Publishing k t c"
    and step: "gos_publish pol i k t c st = Some st'"
  shows "gos_inv st'"
proof -
  let ?tok = "gos_tokens st ! t"
  have h: "token_mutex ?tok = Some i" "c = token_cleaned_up ?tok"
    using gos_holder [OF assms(1) i, of t c k] pc by simp_all
  have same: "(gos_tokens st)[t := ?tok\<lparr>token_cleaned_up := True\<rparr>] = gos_tokens st" if "token_cleaned_up ?tok"
  proof -
    have "?tok\<lparr>token_cleaned_up := True\<rparr> = ?tok"
      using that by (cases ?tok) simp
    then show ?thesis
      by (simp only: list_update_id)
  qed
  define p where "p = Unlocking k t (c \<or> \<not> token_cleaned_up ?tok) (Some (token_value ?tok, insert_tokens st k = Some t))"
  have "gos_threads st' = (gos_threads st)[i := p]" "gos_tokens st' = (gos_tokens st)[t := ?tok\<lparr>token_cleaned_up := True\<rparr>]"
    "insert_tokens st' = (if token_cleaned_up ?tok then insert_tokens st else (insert_tokens st)(k := None))"
    using step same by (auto simp: gos_publish_def Let_def p_def split: sum.splits if_splits)
  then show ?thesis
    using h pc by (intro gos_inv_move [OF assms(1) i, where k = k and t = t and p = p and tok = "?tok\<lparr>token_cleaned_up := True\<rparr>"])
      (auto simp: p_def)
qed

lemma gos_inv_unlock:
  assumes "gos_inv st" and i: "i < length (gos_threads st)" and pc: "gos_threads st ! i = Unlocking k t c r"
  shows "gos_inv (gos_unlock i k t c r st)"
proof -
  let ?tok = "gos_tokens st ! t"
  have ref: "pc_ref (gos_threads st ! i) = Some (k, t)"
    using pc by simp
  have h: "token_mutex ?tok = Some i" "c = token_cleaned_up ?tok"
    using gos_holder [OF assms(1) i, of t c k] pc by simp_all
  note t = gos_ref_token [OF assms(1) i ref]
  show ?thesis
  proof (rule gos_inv_move [OF assms(1) i ref, where p = "if c then Returned k r else Releasing k t r"
        and tok = "?tok\<lparr>token_mutex := None\<rparr>"])
    show "\<not> token_cleaned_up ?tok \<and> token_refcount (?tok\<lparr>token_mutex := None\<rparr>)
        + (if pc_ref (if c then Returned k r else Releasing k t r) = None then 1 else 0) = token_refcount ?tok
        \<and> 0 < token_refcount (?tok\<lparr>token_mutex := None\<rparr>)" if "\<not> token_cleaned_up (?tok\<lparr>token_mutex := None\<rparr>)"
      using that h(2) token_okD(3) [OF t(2)] t(3) by simp
  qed (use h in \<open>auto simp: gos_unlock_def\<close>)
qed

lemma gos_inv_release:
  assumes "gos_inv st" and i: "i < length (gos_threads st)" and pc: "gos_threads st ! i = Releasing k t r"
    and step: "gos_release i k t r st = Some st'"
  shows "gos_inv st'"
proof -
  let ?tok = "gos_tokens st ! t"
  have ref: "pc_ref (gos_threads st ! i) = Some (k, t)"
    using pc by simp
  note t = gos_ref_token [OF assms(1) i ref]
  have free: "token_mutex ?tok = None"
    using step by (auto simp: gos_release_def Let_def split: if_splits)
  show ?thesis
  proof (cases "token_cleaned_up ?tok")
    case True
    then have "st' = set_pc i (Returned k r) st"
      using step free by (simp add: gos_release_def Let_def)
    then show ?thesis
      using free True by (intro gos_inv_move [OF assms(1) i ref, where p = "Returned k r" and tok = ?tok]) simp_all
  next
    case False
    have count: "token_refcount ?tok = refs t st" "0 < token_refcount ?tok"
      using token_okD(3) [OF t(2) False] t(3) by simp_all
    obtain n where n: "token_refcount ?tok = Suc n"
      using gr0_implies_Suc [OF count(2)] by blast
    then have left: "size_minus (token_refcount ?tok) 1 = n"
      by (simp add: size_minus_def)
    define tok where "tok = (if n = 0 then ?tok\<lparr>token_refcount := n, token_cleaned_up := True\<rparr>
        else ?tok\<lparr>token_refcount := n\<rparr>)"
    have "st' = set_pc i (Returned k r) ((if n = 0 then holder_cleanup k t else id)
        (upd_token t (\<lambda>token. token\<lparr>token_refcount := n\<rparr>) st))"
      using step free False unfolding gos_release_def Let_def left by (cases "n = 0") simp_all
    then have "gos_threads st' = (gos_threads st)[i := Returned k r]" "gos_tokens st' = (gos_tokens st)[t := tok]"
      "insert_tokens st' = (if n = 0 then (insert_tokens st)(k := None) else insert_tokens st)"
      using t(1) by (auto simp: tok_def)
    then show ?thesis
      using free False n
      by (intro gos_inv_move [OF assms(1) i ref, where p = "Returned k r" and tok = tok]) (auto simp: tok_def split: if_splits)
  qed
qed

lemma gos_inv_clear:
  assumes "gos_inv st"
  shows "gos_inv (gos_clear pol st)"
proof -
  have "token_ok (gos_clear pol st) t \<longleftrightarrow> token_ok st t" for t
    unfolding token_ok_def refs_def gos_clear_def on_cache_def by simp
  moreover have "gos_threads (gos_clear pol st) = gos_threads st" "gos_tokens (gos_clear pol st) = gos_tokens st"
    "insert_tokens (gos_clear pol st) = Map.empty"
    by (simp_all add: gos_clear_def on_cache_def)
  ultimately show ?thesis
    using gos_invD(1,2) [OF assms] unfolding gos_inv_def by (simp only:) blast
qed

lemma gos_inv_step:
  assumes inv: "gos_inv st" and step: "gos_step pol (i, e) st = Some st'"
  shows "gos_inv st'"
proof -
  have i: "i < length (gos_threads st)"
    using step by (simp add: gos_step_def split: if_splits)
  show ?thesis
  proof (cases "gos_threads st ! i")
    case Idle
    then show ?thesis
    proof (cases e)
      case (Call k)
      then show ?thesis
        using step i Idle inv by (auto simp: gos_step_def intro: gos_inv_outside)
    next
      case ClearCache
      then have "st' = gos_clear pol st"
        using step i Idle by (simp add: gos_step_def)
      then show ?thesis
        using gos_inv_clear [OF inv] by simp
    next
      case (Other oper)
      then obtain c where "st' = st\<lparr>gos_cache := c\<rparr>"
        using step i Idle by (auto simp: gos_step_def split: cache_op.splits sum.splits prod.splits)
      then show ?thesis
        using inv gos_inv_cong [of st' st] by simp
    qed (use step i Idle in \<open>simp_all add: gos_step_def\<close>)
  next
    case (Calling k)
    then show ?thesis
      using step i inv gos_inv_lookup [OF inv i Calling] by (cases e) (simp_all add: gos_step_def)
  next
    case (Waiting k t)
    then show ?thesis
      using step i inv gos_inv_lock [OF inv i Waiting] by (cases e) (simp_all add: gos_step_def)
  next
    case (Loading k t c)
    then have ref: "pc_ref (gos_threads st ! i) = Some (k, t)"
      by simp
    have h: "token_mutex (gos_tokens st ! t) = Some i" "c = token_cleaned_up (gos_tokens st ! t)"
      using gos_holder [OF inv i _ ref, of c] Loading by simp_all
    show ?thesis
    proof (cases e)
      case (LoadReturns v)
      then have "st' = set_pc i (Publishing k t c) (upd_token t (\<lambda>token. token\<lparr>token_value := v\<rparr>) st)"
        using step i Loading by (simp add: gos_step_def)
      then show ?thesis
        using h by (intro gos_inv_hold [OF inv i ref, where p = "Publishing k t c"
              and tok = "(gos_tokens st ! t)\<lparr>token_value := v\<rparr>"]) simp_all
    next
      case LoadThrows
      then have "st' = set_pc i (Unlocking k t c None) st"
        using step i Loading by (simp add: gos_step_def)
      then show ?thesis
        using h by (intro gos_inv_hold [OF inv i ref, where p = "Unlocking k t c None" and tok = "gos_tokens st ! t"]) simp_all
    qed (use step i Loading in \<open>simp_all add: gos_step_def\<close>)
  next
    case (Publishing k t c)
    then show ?thesis
      using step i inv gos_inv_publish [OF inv i Publishing] by (cases e) (simp_all add: gos_step_def)
  next
    case (Unlocking k t c r)
    then show ?thesis
      using step i inv gos_inv_unlock [OF inv i Unlocking] by (cases e) (auto simp: gos_step_def)
  next
    case (Releasing k t r)
    then show ?thesis
      using step i inv gos_inv_release [OF inv i Releasing] by (cases e) (simp_all add: gos_step_def)
  next
    case (Returned k r)
    then show ?thesis
      using step i inv by (cases e) (auto simp: gos_step_def intro: gos_inv_outside)
  qed
qed

lemma gos_inv_run:
  "gos_inv st \<Longrightarrow> gos_run pol ies st = Some st' \<Longrightarrow> gos_inv st'"
proof (induction ies arbitrary: st)
  case (Cons ie ies)
  obtain st1 where "gos_step pol ie st = Some st1" "gos_run pol ies st1 = Some st'"
    using Cons.prems(2) by (auto simp: Option.bind_eq_Some_conv)
  then show ?case
    using Cons.IH gos_inv_step [OF Cons.prems(1)] by (metis prod.exhaust)
qed simp

end
