(* ===== verification/Cache_Loads.thy ===== *)
theory Cache_Loads
  imports Cache_GetOrSet
begin

text \<open>
  What the protocol of \<^verbatim>\<open>CacheBase::getOrSet\<close> (\<^verbatim>\<open>src/src/Common/CacheBase.h\<close>) guarantees in every
  interleaving: loads of one key exclude each other, tokens do not leak, and every call returns.
\<close>

section \<open>One load per key\<close>

text \<open>
  As long as nobody calls \<^verbatim>\<open>clear\<close> and \<^verbatim>\<open>load_func\<close> returns no null pointer: a token that a thread
  refers to is the token of its key, or its value is there.
\<close>

fun publishes :: "('k, 'v) pc \<Rightarrow> nat option" where
  "publishes (Publishing k t c) = Some t"
| "publishes _ = None"

fun clean_load :: "('k, 'v) pc \<Rightarrow> bool" where
  "clean_load (Loading k t c) \<longleftrightarrow> \<not> c"
| "clean_load (Publishing k t c) \<longleftrightarrow> \<not> c"
| "clean_load _ \<longleftrightarrow> True"

definition live_ref :: "('s, 'k, 'v) gos \<Rightarrow> 'k \<Rightarrow> nat \<Rightarrow> bool" where
  "live_ref st k t \<longleftrightarrow>
     (if token_cleaned_up (gos_tokens st ! t) then token_value (gos_tokens st ! t) \<noteq> None else insert_tokens st k = Some t)"

definition live_pc :: "('s, 'k, 'v) gos \<Rightarrow> ('k, 'v) pc \<Rightarrow> bool" where
  "live_pc st p \<longleftrightarrow> (\<forall>k t. pc_ref p = Some (k, t) \<longrightarrow> live_ref st k t)
     \<and> (\<forall>t. publishes p = Some t \<longrightarrow> token_value (gos_tokens st ! t) \<noteq> None) \<and> clean_load p"

definition gos_live :: "('s, 'k, 'v) gos \<Rightarrow> bool" where
  "gos_live st \<longleftrightarrow> (\<forall>j < length (gos_threads st). live_pc st (gos_threads st ! j))"

text \<open>The events other than a call of \<^verbatim>\<open>clear\<close> and a \<^verbatim>\<open>load_func\<close> that returns a null pointer.\<close>

definition quiet :: "('k, 'v) event \<Rightarrow> bool" where
  "quiet e = (case e of ClearCache \<Rightarrow> False | LoadReturns v \<Rightarrow> v \<noteq> None | _ \<Rightarrow> True)"

lemma gos_live_update:
  assumes "gos_live st" and "gos_threads st' = (gos_threads st)[i := p]" and "live_pc st' p"
    and "\<And>j. j < length (gos_threads st) \<Longrightarrow> j \<noteq> i \<Longrightarrow> live_pc st (gos_threads st ! j) \<Longrightarrow> live_pc st' (gos_threads st ! j)"
  shows "gos_live st'"
  unfolding gos_live_def
proof (intro allI impI)
  fix j assume "j < length (gos_threads st')"
  then have j: "j < length (gos_threads st)"
    using assms(2) by simp
  show "live_pc st' (gos_threads st' ! j)"
    using assms j by (cases "j = i") (simp_all add: gos_live_def)
qed

lemma gos_liveD:
  "gos_live st \<Longrightarrow> i < length (gos_threads st) \<Longrightarrow> pc_ref (gos_threads st ! i) = Some (k, t) \<Longrightarrow> live_ref st k t"
  by (simp add: gos_live_def live_pc_def)

text \<open>Sections that change at most the mutex and the reference count of tokens.\<close>

lemma gos_live_keep:
  assumes "gos_live st" and "i < length (gos_threads st)"
    and "gos_threads st' = (gos_threads st)[i := p]" and "insert_tokens st' = insert_tokens st"
    and "\<And>t. token_cleaned_up (gos_tokens st' ! t) = token_cleaned_up (gos_tokens st ! t)"
    and "\<And>t. token_value (gos_tokens st ! t) \<noteq> None \<Longrightarrow> token_value (gos_tokens st' ! t) \<noteq> None"
    and "pc_ref p = pc_ref (gos_threads st ! i) \<or> pc_ref p = None"
    and "\<And>t. publishes p = Some t \<Longrightarrow> token_value (gos_tokens st' ! t) \<noteq> None" and "clean_load p"
  shows "gos_live st'"
proof -
  have keep: "live_ref st k t \<Longrightarrow> live_ref st' k t" for k t
    using assms(4-6) by (auto simp: live_ref_def)
  show ?thesis
  proof (rule gos_live_update [OF assms(1,3)])
    show "live_pc st' p"
      using assms(7-9) keep gos_liveD [OF assms(1,2)] by (auto simp: live_pc_def)
  qed (use keep assms(6) in \<open>auto simp: live_pc_def\<close>)
qed

text \<open>Sections that clean a token up: its entry leaves the map of tokens.\<close>

lemma gos_live_clean:
  assumes "gos_live st" and i: "i < length (gos_threads st)" and ref: "pc_ref (gos_threads st ! i) = Some (k, t)"
    and fresh: "\<not> token_cleaned_up (gos_tokens st ! t)" and t: "t < length (gos_tokens st)"
    and st': "gos_threads st' = (gos_threads st)[i := p]" "insert_tokens st' = (insert_tokens st)(k := None)"
      "gos_tokens st' = (gos_tokens st)[t := tok]"
    and tok: "token_value tok = token_value (gos_tokens st ! t)"
    and others: "token_value tok \<noteq> None \<or> (\<forall>j < length (gos_threads st). j \<noteq> i \<longrightarrow> \<not> refers t (gos_threads st ! j))"
    and "token_cleaned_up tok" and p: "pc_ref p = None \<or> pc_ref p = Some (k, t) \<and> token_value tok \<noteq> None" "publishes p = None" "clean_load p"
  shows "gos_live st'"
proof (rule gos_live_update [OF assms(1) st'(1)])
  have own: "insert_tokens st k = Some t"
    using gos_liveD [OF assms(1) i ref] fresh by (simp add: live_ref_def)
  have nth: "gos_tokens st' ! u = (if u = t then tok else gos_tokens st ! u)" for u
    using t by (simp add: st'(3) nth_list_update)
  show "live_pc st' p"
    using p assms(11) by (auto simp: live_pc_def live_ref_def nth)
  fix j assume j: "j < length (gos_threads st)" "j \<noteq> i" "live_pc st (gos_threads st ! j)"
  have "live_ref st' k' u" if u: "pc_ref (gos_threads st ! j) = Some (k', u)" for k' u
  proof (cases "u = t")
    case True
    then have "refers t (gos_threads st ! j)"
      using u by (simp add: refers_def)
    then show ?thesis
      using others j True assms(11) by (auto simp: live_ref_def nth)
  next
    case False
    have "live_ref st k' u"
      using j(3) u by (simp add: live_pc_def)
    then show ?thesis
      using False own by (auto simp: live_ref_def nth st'(2) split: if_splits)
  qed
  moreover have "token_value (gos_tokens st' ! u) \<noteq> None" if "publishes (gos_threads st ! j) = Some u" for u
    using that j(3) tok by (auto simp: live_pc_def nth)
  ultimately show "live_pc st' (gos_threads st ! j)"
    using j(3) unfolding live_pc_def by blast
qed

lemma nth_update_or: "xs[t := y] ! u = (if u = t \<and> t < length xs then y else xs ! u)"
  by (cases "t < length xs") (simp_all add: nth_list_update list_update_beyond)

lemma token_update_same:
  "token_cleaned_up y = token_cleaned_up (xs ! t) \<Longrightarrow> token_cleaned_up (xs[t := y] ! u) = token_cleaned_up (xs ! u)"
  "token_value y = token_value (xs ! t) \<Longrightarrow> token_value (xs[t := y] ! u) = token_value (xs ! u)"
  by (simp_all add: nth_update_or)

lemma gos_live_lookup:
  assumes live: "gos_live st" and inv: "gos_inv st" and i: "i < length (gos_threads st)" "gos_threads st ! i = Calling k"
    and step: "gos_lookup pol i k st = Some st'"
  shows "gos_live st'"
proof -
  obtain val s where get: "policy_get pol k (cache_policy_state (gos_cache st)) = Inr (val, s)"
    using step by (auto simp: gos_lookup_def split: sum.splits)
  show ?thesis
  proof (cases "val = None \<and> insert_tokens st k = None")
    case False
    have "\<exists>p. gos_threads st' = (gos_threads st)[i := p] \<and> insert_tokens st' = insert_tokens st
        \<and> (\<forall>t. token_cleaned_up (gos_tokens st' ! t) = token_cleaned_up (gos_tokens st ! t)
            \<and> token_value (gos_tokens st' ! t) = token_value (gos_tokens st ! t))
        \<and> (pc_ref p = None \<or> (\<exists>t. pc_ref p = Some (k, t) \<and> insert_tokens st k = Some t)) \<and> publishes p = None \<and> clean_load p"
      using step get False
      by (cases val; cases "insert_tokens st k")
         (auto simp: gos_lookup_def Let_def token_for_def holder_acquire_def token_update_same)
    then obtain p where p: "gos_threads st' = (gos_threads st)[i := p]" "insert_tokens st' = insert_tokens st"
      "\<And>t. token_cleaned_up (gos_tokens st' ! t) = token_cleaned_up (gos_tokens st ! t)"
      "\<And>t. token_value (gos_tokens st' ! t) = token_value (gos_tokens st ! t)"
      "pc_ref p = None \<or> (\<exists>t. pc_ref p = Some (k, t) \<and> insert_tokens st k = Some t)" "publishes p = None" "clean_load p"
      by blast
    have keep: "live_ref st' k' t \<longleftrightarrow> live_ref st k' t" for k' t
      by (simp add: live_ref_def p(2-4))
    have "live_ref st k t" if "insert_tokens st k = Some t" for t
      using that gos_invD(3) [OF inv that] by (simp add: live_ref_def)
    then have "live_pc st' p"
      using p(5-7) keep by (auto simp: live_pc_def)
    then show ?thesis
      using keep p(4) by (intro gos_live_update [OF live p(1)]) (auto simp: live_pc_def)
  next
    case True
    define t where "t = length (gos_tokens st)"
    have st': "gos_threads st' = (gos_threads st)[i := Waiting k t]" "insert_tokens st' = (insert_tokens st)(k \<mapsto> t)"
      "gos_tokens st' = gos_tokens st @ [new_InsertToken\<lparr>token_refcount := 1\<rparr>]"
      using step get True by (auto simp: gos_lookup_def Let_def token_for_def holder_acquire_def t_def new_InsertToken_def)
    have old: "gos_tokens st' ! u = gos_tokens st ! u" if "u < t" for u
      using that by (simp add: st'(3) t_def nth_append)
    show ?thesis
    proof (rule gos_live_update [OF live st'(1)])
      show "live_pc st' (Waiting k t)"
        by (simp add: live_pc_def live_ref_def st'(2,3) t_def nth_append new_InsertToken_def)
      fix j assume j: "j < length (gos_threads st)" "live_pc st (gos_threads st ! j)"
      have lt: "u < t" if "pc_ref (gos_threads st ! j) = Some (k', u)" for k' u
        using gos_invD(1) [OF inv nth_mem [OF j(1)] that] by (simp add: t_def)
      have "live_ref st' k' u" if u: "pc_ref (gos_threads st ! j) = Some (k', u)" for k' u
      proof -
        have "live_ref st k' u"
          using j(2) u by (simp add: live_pc_def)
        then show ?thesis
          using True old [OF lt [OF u]] by (auto simp: live_ref_def st'(2) split: if_splits)
      qed
      moreover have "token_value (gos_tokens st' ! u) \<noteq> None" if "publishes (gos_threads st ! j) = Some u" for u
      proof -
        have "\<exists>k'. pc_ref (gos_threads st ! j) = Some (k', u)"
          using that by (cases "gos_threads st ! j") auto
        then show ?thesis
          using that j(2) old lt by (auto simp: live_pc_def)
      qed
      ultimately show "live_pc st' (gos_threads st ! j)"
        using j(2) unfolding live_pc_def by blast
    qed
  qed
qed

lemma gos_live_publish:
  assumes live: "gos_live st" and inv: "gos_inv st" and i: "i < length (gos_threads st)" and pc: "gos_threads st ! i = Publishing k t c"
    and step: "gos_publish pol i k t c st = Some st'"
  shows "gos_live st'"
proof -
  let ?tok = "gos_tokens st ! t"
  have ref: "pc_ref (gos_threads st ! i) = Some (k, t)"
    using pc by simp
  have val: "token_value ?tok \<noteq> None"
    using live i pc by (auto simp: gos_live_def live_pc_def)
  define p where "p = Unlocking k t (c \<or> \<not> token_cleaned_up ?tok) (Some (token_value ?tok, insert_tokens st k = Some t))"
  show ?thesis
  proof (cases "token_cleaned_up ?tok")
    case True
    then have "gos_threads st' = (gos_threads st)[i := p]" "gos_tokens st' = gos_tokens st" "insert_tokens st' = insert_tokens st"
      using step by (auto simp: gos_publish_def Let_def p_def split: sum.splits if_splits)
    then show ?thesis
      using pc by (intro gos_live_keep [OF live i, where p = p]) (simp_all add: p_def)
  next
    case False
    then have "gos_threads st' = (gos_threads st)[i := p]" "gos_tokens st' = (gos_tokens st)[t := ?tok\<lparr>token_cleaned_up := True\<rparr>]"
      "insert_tokens st' = (insert_tokens st)(k := None)"
      using step by (auto simp: gos_publish_def Let_def p_def split: sum.splits if_splits)
    then show ?thesis
      using False val gos_ref_token(1) [OF inv i ref]
      by (intro gos_live_clean [OF live i ref, where p = p and tok = "?tok\<lparr>token_cleaned_up := True\<rparr>"]) (simp_all add: p_def)
  qed
qed

lemma refs_one:
  assumes "refs t st = 1" and "i < length (gos_threads st)" and "refers t (gos_threads st ! i)"
    and "j < length (gos_threads st)" and "j \<noteq> i"
  shows "\<not> refers t (gos_threads st ! j)"
proof
  assume "refers t (gos_threads st ! j)"
  then have "{i, j} \<subseteq> {n. n < length (gos_threads st) \<and> refers t (gos_threads st ! n)}"
    using assms by auto
  moreover have "card {n. n < length (gos_threads st) \<and> refers t (gos_threads st ! n)} = 1"
    using assms(1) by (simp add: refs_def length_filter_conv_card)
  moreover have "finite {n. n < length (gos_threads st) \<and> refers t (gos_threads st ! n)}"
    by simp
  ultimately have "card {i, j} \<le> 1"
    using card_mono by metis
  then show False
    using assms(5) by simp
qed

lemma gos_live_release:
  assumes live: "gos_live st" and inv: "gos_inv st" and i: "i < length (gos_threads st)" and pc: "gos_threads st ! i = Releasing k t r"
    and step: "gos_release i k t r st = Some st'"
  shows "gos_live st'"
proof -
  let ?tok = "gos_tokens st ! t"
  have ref: "pc_ref (gos_threads st ! i) = Some (k, t)"
    using pc by simp
  note t = gos_ref_token [OF inv i ref]
  have free: "token_mutex ?tok = None"
    using step by (auto simp: gos_release_def Let_def split: if_splits)
  show ?thesis
  proof (cases "\<not> token_cleaned_up ?tok \<and> size_minus (token_refcount ?tok) 1 = 0")
    case False
    have "gos_threads st' = (gos_threads st)[i := Returned k r] \<and> insert_tokens st' = insert_tokens st
        \<and> (gos_tokens st' = gos_tokens st
           \<or> gos_tokens st' = (gos_tokens st)[t := ?tok\<lparr>token_refcount := size_minus (token_refcount ?tok) 1\<rparr>])"
      using step free False by (auto simp: gos_release_def Let_def split: if_splits)
    then show ?thesis
      by (intro gos_live_keep [OF live i, where p = "Returned k r"]) (auto simp: token_update_same)
  next
    case True
    have "token_refcount ?tok = refs t st"
      using token_okD(3) [OF t(2)] True by simp
    then have one: "refs t st = 1"
      using True t(3) by (simp add: size_minus_def split: if_splits)
    have "refers t (gos_threads st ! i)"
      using ref by (simp add: refers_def)
    then have others: "\<forall>j < length (gos_threads st). j \<noteq> i \<longrightarrow> \<not> refers t (gos_threads st ! j)"
      using refs_one [OF one i] by blast
    have "st' = set_pc i (Returned k r) (holder_cleanup k t (upd_token t (\<lambda>token. token\<lparr>token_refcount := 0\<rparr>) st))"
      using step free True unfolding gos_release_def Let_def by simp
    then show ?thesis
      using True others t(1)
      by (intro gos_live_clean [OF live i ref, where p = "Returned k r"
            and tok = "?tok\<lparr>token_refcount := 0, token_cleaned_up := True\<rparr>"]) simp_all
  qed
qed

lemma gos_live_step:
  assumes live: "gos_live st" and inv: "gos_inv st" and step: "gos_step pol (i, e) st = Some st'" and "quiet e"
  shows "gos_live st'"
proof -
  have i: "i < length (gos_threads st)"
    using step by (simp add: gos_step_def split: if_splits)
  show ?thesis
  proof (cases "gos_threads st ! i")
    case Idle
    have same: "gos_threads st = (gos_threads st)[i := Idle]"
      unfolding Idle [symmetric] by simp
    show ?thesis
    proof (cases e)
      case (Call k)
      then have "st' = set_pc i (Calling k) st"
        using step i Idle by (simp add: gos_step_def)
      then show ?thesis
        by (intro gos_live_keep [OF live i, where p = "Calling k"]) simp_all
    next
      case (Other oper)
      then obtain c where "st' = st\<lparr>gos_cache := c\<rparr>"
        using step i Idle by (auto simp: gos_step_def split: cache_op.splits sum.splits prod.splits)
      then show ?thesis
        using same by (intro gos_live_keep [OF live i, where p = Idle]) simp_all
    qed (use step i Idle assms(4) in \<open>simp_all add: gos_step_def quiet_def\<close>)
  next
    case (Calling k)
    then show ?thesis
      using step i gos_live_lookup [OF live inv i Calling] by (cases e) (simp_all add: gos_step_def)
  next
    case (Waiting k t)
    then have "gos_lock i k t st = Some st'"
      using step i by (cases e) (simp_all add: gos_step_def)
    moreover have "live_ref st k t"
      using gos_liveD [OF live i] Waiting by simp
    ultimately have "insert_tokens st' = insert_tokens st
        \<and> gos_tokens st' = (gos_tokens st)[t := (gos_tokens st ! t)\<lparr>token_mutex := Some i\<rparr>]
        \<and> (\<exists>p. gos_threads st' = (gos_threads st)[i := p] \<and> pc_ref p = Some (k, t) \<and> publishes p = None \<and> clean_load p)"
      by (auto simp: gos_lock_def Let_def live_ref_def split: if_splits option.splits)
    then show ?thesis
      using Waiting by (auto intro!: gos_live_keep [OF live i] simp: token_update_same)
  next
    case (Loading k t c)
    then have flag: "\<not> c"
      using live i by (auto simp: gos_live_def live_pc_def)
    show ?thesis
    proof (cases e)
      case (LoadReturns v)
      then have st': "st' = set_pc i (Publishing k t c) (upd_token t (\<lambda>token. token\<lparr>token_value := v\<rparr>) st)" and "v \<noteq> None"
        using step i Loading assms(4) by (simp_all add: gos_step_def quiet_def)
      moreover have "t < length (gos_tokens st)"
        using gos_ref_token(1) [OF inv i] Loading by simp
      ultimately show ?thesis
        using Loading flag by (intro gos_live_keep [OF live i, where p = "Publishing k t c"])
          (auto simp: token_update_same nth_update_or)
    next
      case LoadThrows
      then have "st' = set_pc i (Unlocking k t c None) st"
        using step i Loading by (simp add: gos_step_def)
      then show ?thesis
        using Loading by (intro gos_live_keep [OF live i, where p = "Unlocking k t c None"]) simp_all
    qed (use step i Loading in \<open>simp_all add: gos_step_def\<close>)
  next
    case (Publishing k t c)
    then show ?thesis
      using step i gos_live_publish [OF live inv i Publishing] by (cases e) (simp_all add: gos_step_def)
  next
    case (Unlocking k t c r)
    then have "st' = gos_unlock i k t c r st"
      using step i by (cases e) (simp_all add: gos_step_def)
    then show ?thesis
      using Unlocking by (intro gos_live_keep [OF live i, where p = "if c then Returned k r else Releasing k t r"])
        (auto simp: gos_unlock_def token_update_same split: if_splits)
  next
    case (Releasing k t r)
    then show ?thesis
      using step i gos_live_release [OF live inv i Releasing] by (cases e) (simp_all add: gos_step_def)
  next
    case (Returned k r)
    then have "st' = set_pc i Idle st"
      using step i by (cases e) (simp_all add: gos_step_def)
    then show ?thesis
      by (intro gos_live_keep [OF live i, where p = Idle]) simp_all
  qed
qed

lemma gos_live_run:
  assumes "gos_live st" and "gos_inv st" and "gos_run pol ies st = Some st'" and "list_all (quiet \<circ> snd) ies"
  shows "gos_live st' \<and> gos_inv st'"
  using assms
proof (induction ies arbitrary: st)
  case (Cons ie ies)
  obtain i e where ie: "ie = (i, e)"
    by fastforce
  obtain st1 where st1: "gos_step pol (i, e) st = Some st1" "gos_run pol ies st1 = Some st'"
    using Cons.prems(3) ie by (auto simp: Option.bind_eq_Some_conv)
  show ?case
    using Cons.IH [OF gos_live_step [OF Cons.prems(1,2) st1(1)] gos_inv_step [OF Cons.prems(2) st1(1)] st1(2)] Cons.prems(4) ie
    by simp
qed simp

text \<open>The token whose load a thread runs or publishes.\<close>

fun load_token :: "('k, 'v) pc \<Rightarrow> nat option" where
  "load_token (Loading k t c) = Some t"
| "load_token (Publishing k t c) = Some t"
| "load_token _ = None"

fun loads :: "'k \<Rightarrow> ('k, 'v) pc \<Rightarrow> bool" where
  "loads k (Loading k' t c) \<longleftrightarrow> k' = k"
| "loads k (Publishing k' t c) \<longleftrightarrow> k' = k"
| "loads k _ \<longleftrightarrow> False"

section \<open>Progress\<close>

definition internal :: "('k, 'v) event \<Rightarrow> bool" where
  "internal e = (case e of Call _ \<Rightarrow> False | Return \<Rightarrow> False | ClearCache \<Rightarrow> False | Other _ \<Rightarrow> False | _ \<Rightarrow> True)"

text \<open>The number of critical sections a call still has before it at most.\<close>

fun pc_work :: "('k, 'v) pc \<Rightarrow> nat" where
  "pc_work Idle = 0"
| "pc_work (Calling k) = 6"
| "pc_work (Waiting k t) = 5"
| "pc_work (Loading k t c) = 4"
| "pc_work (Publishing k t c) = 3"
| "pc_work (Unlocking k t c r) = 2"
| "pc_work (Releasing k t r) = 1"
| "pc_work (Returned k r) = 0"

definition work :: "('s, 'k, 'v) gos \<Rightarrow> nat" where
  "work st = sum_list (map pc_work (gos_threads st))"

lemma sum_list_update_less:
  fixes f :: "'a \<Rightarrow> nat"
  assumes "i < length xs" and "f y < f (xs ! i)"
  shows "sum_list (map f (xs[i := y])) < sum_list (map f xs)"
  using assms
proof (induction xs arbitrary: i)
  case (Cons x xs)
  then show ?case
    by (cases i) auto
qed simp

lemma internal_step_thread:
  assumes "gos_step pol (i, e) st = Some st'" and "internal e"
  shows "\<exists>p. gos_threads st' = (gos_threads st)[i := p] \<and> i < length (gos_threads st) \<and> pc_work p < pc_work (gos_threads st ! i)"
proof -
  have i: "i < length (gos_threads st)"
    using assms(1) by (simp add: gos_step_def split: if_splits)
  show ?thesis
    using assms i
    by (cases "gos_threads st ! i"; cases e)
       (auto simp: gos_step_def internal_def gos_lookup_def gos_lock_def gos_publish_def gos_unlock_def gos_release_def
          token_for_def Let_def split: sum.splits option.splits if_splits prod.splits)
qed

lemma internal_run_bound:
  assumes "gos_run pol ies st = Some st'" and "list_all (internal \<circ> snd) ies"
  shows "length ies + work st' \<le> work st"
  using assms
proof (induction ies arbitrary: st)
  case (Cons ie ies)
  obtain i e where ie: "ie = (i, e)"
    by fastforce
  obtain st1 where st1: "gos_step pol (i, e) st = Some st1" "gos_run pol ies st1 = Some st'"
    using Cons.prems(1) ie by (auto simp: Option.bind_eq_Some_conv)
  have "work st1 < work st"
    using internal_step_thread [OF st1(1)] Cons.prems(2) ie sum_list_update_less unfolding work_def by fastforce
  then show ?case
    using Cons.IH [OF st1(2)] Cons.prems(2) by simp
qed simp

lemma gos_step_threads: "gos_step pol (i, e) st = Some st' \<Longrightarrow> length (gos_threads st') = length (gos_threads st)"
  by (cases "gos_threads st ! i"; cases e)
     (auto simp: gos_step_def gos_lookup_def gos_lock_def gos_publish_def gos_unlock_def gos_release_def gos_clear_def
        token_for_def Let_def split: sum.splits option.splits if_splits prod.splits cache_op.splits)

lemma gos_run_threads: "gos_run pol ies st = Some st' \<Longrightarrow> length (gos_threads st') = length (gos_threads st)"
proof (induction ies arbitrary: st)
  case (Cons ie ies)
  then show ?case
    using gos_step_threads by (cases ie) (fastforce simp: Option.bind_eq_Some_conv)
qed simp

lemma gos_run_append: "gos_run pol (ies @ ies') st = Option.bind (gos_run pol ies st) (gos_run pol ies')"
  by (induction ies arbitrary: st) (auto simp: Option.bind_assoc split: Option.bind_split)

lemma work_bound: "work st \<le> 6 * length (gos_threads st)"
proof -
  have "pc_work p \<le> 6" for p :: "('k, 'v) pc"
    by (cases p) simp_all
  then have "sum_list (map pc_work ps) \<le> 6 * length ps" for ps :: "('k, 'v) pc list"
    by (induction ps) (auto intro: add_mono)
  then show ?thesis
    by (simp add: work_def)
qed

fun finished :: "('k, 'v) pc \<Rightarrow> bool" where
  "finished Idle \<longleftrightarrow> True"
| "finished (Returned k r) \<longleftrightarrow> True"
| "finished _ \<longleftrightarrow> False"

definition event_ok :: "('v option \<Rightarrow> bool) \<Rightarrow> (64 word \<Rightarrow> bool) \<Rightarrow> ('k, 'v) event \<Rightarrow> bool" where
  "event_ok value_ok size_ok e =
     (case e of LoadReturns v \<Rightarrow> value_ok v | Other oper \<Rightarrow> op_ok value_ok size_ok oper | _ \<Rightarrow> True)"

text \<open>A thread that holds the mutex of a token can always go on, so a waiting thread waits for one that can.\<close>

definition gos_values :: "('v option \<Rightarrow> bool) \<Rightarrow> ('s, 'k, 'v) gos \<Rightarrow> bool" where
  "gos_values value_ok st \<longleftrightarrow> (\<forall>token \<in> set (gos_tokens st). value_ok (token_value token))"

context cache_policy
begin

lemma holder_can_step:
  assumes "valid (cache_policy_state (gos_cache st))" and "gos_values value_ok st" and "gos_inv st"
    and "i < length (gos_threads st)" and "pc_holds (gos_threads st ! i) = Some (t, c)"
  shows "\<exists>e st'. internal e \<and> gos_step pol (i, e) st = Some st'"
proof (cases "gos_threads st ! i")
  case (Loading k u d)
  then have "gos_step pol (i, LoadThrows) st \<noteq> None" "internal LoadThrows"
    using assms(4) by (simp_all add: gos_step_def internal_def)
  then show ?thesis
    by blast
next
  case (Publishing k u d)
  then have "value_ok (token_value (gos_tokens st ! u))"
    using gos_ref_token(1) [OF assms(3,4), of k u] assms(2) by (simp add: gos_values_def)
  then have "gos_step pol (i, Publish) st \<noteq> None" "internal Publish"
    using assms(4) Publishing set_law [OF assms(1), of "token_value (gos_tokens st ! u)" k]
    by (auto simp: gos_step_def internal_def gos_publish_def Let_def)
  then show ?thesis
    by blast
next
  case (Unlocking k u d r)
  then have "gos_step pol (i, Unlock) st \<noteq> None" "internal Unlock"
    using assms(4) by (simp_all add: gos_step_def internal_def)
  then show ?thesis
    by blast
qed (use assms(5) in simp_all)

lemma someone_can_step:
  assumes "valid (cache_policy_state (gos_cache st))" and "gos_values value_ok st" and "gos_inv st"
    and i: "i < length (gos_threads st)" and "\<not> finished (gos_threads st ! i)"
  shows "\<exists>j e st'. internal e \<and> gos_step pol (j, e) st = Some st'"
proof -
  note holder = holder_can_step [OF assms(1-3)]
  have blocked: "\<exists>j e st'. internal e \<and> gos_step pol (j, e) st = Some st'"
    if "pc_ref (gos_threads st ! i) = Some (k, t)" "token_mutex (gos_tokens st ! t) = Some j" for k t j
    using token_okD(2) [OF gos_ref_token(2) [OF assms(3) i that(1)] that(2)] holder by blast
  show ?thesis
  proof (cases "gos_threads st ! i")
    case (Calling k)
    obtain v s where "policy_get pol k (cache_policy_state (gos_cache st)) = Inr (v, s)"
      using get_law [OF assms(1), of k] by blast
    then have "gos_step pol (i, Lookup) st \<noteq> None" "internal Lookup"
      using i Calling by (auto simp: gos_step_def internal_def gos_lookup_def Let_def split: option.split prod.split)
    then show ?thesis
      by blast
  next
    case (Waiting k t)
    show ?thesis
    proof (cases "token_mutex (gos_tokens st ! t)")
      case None
      then have "gos_step pol (i, Lock) st \<noteq> None" "internal Lock"
        using i Waiting by (auto simp: gos_step_def internal_def gos_lock_def Let_def split: option.split)
      then show ?thesis
        by blast
    qed (use blocked Waiting in auto)
  next
    case (Releasing k t r)
    show ?thesis
    proof (cases "token_mutex (gos_tokens st ! t)")
      case None
      then have "gos_step pol (i, Release) st \<noteq> None" "internal Release"
        using i Releasing by (auto simp: gos_step_def internal_def gos_release_def Let_def)
      then show ?thesis
        by blast
    qed (use blocked Releasing in auto)
  qed (use assms(5) holder [OF i] in auto)
qed

end

lemma gos_values_update:
  assumes "gos_values value_ok st" and "value_ok (token_value tok)"
  shows "\<forall>token \<in> set ((gos_tokens st)[t := tok]). value_ok (token_value token)"
  using assms set_update_subset_insert [of "gos_tokens st" t tok] by (auto simp: gos_values_def)

lemma gos_values_same [simp]:
  "gos_values value_ok (set_pc i p st) = gos_values value_ok st"
  "gos_values value_ok (on_cache g st) = gos_values value_ok st"
  by (simp_all add: gos_values_def)

lemma gos_values_upd_token:
  "gos_values value_ok st \<Longrightarrow> value_ok (token_value (f (gos_tokens st ! t))) \<Longrightarrow> gos_values value_ok (upd_token t f st)"
  using gos_values_update by (simp add: gos_values_def)

lemma gos_values_cleanup:
  assumes "gos_values value_ok st" and "value_ok (token_value (gos_tokens st ! t))"
  shows "gos_values value_ok (holder_cleanup k t st)"
  using gos_values_update [OF assms(1), of "(gos_tokens st ! t)\<lparr>token_cleaned_up := True\<rparr>" t] assms(2)
  by (simp add: gos_values_def)

lemma gos_values_release:
  assumes "gos_release i k t r st = Some st'" and "gos_values value_ok st"
    and "value_ok (token_value (gos_tokens st ! t))"
  shows "gos_values value_ok st'" and "gos_cache st' = gos_cache st"
proof -
  have a: "gos_values value_ok (upd_token t (\<lambda>token. token\<lparr>token_refcount := n\<rparr>) st)" for n
    using gos_values_upd_token [OF assms(2)] assms(3) by simp
  have "gos_values value_ok (holder_cleanup k t (upd_token t (\<lambda>token. token\<lparr>token_refcount := n\<rparr>) st))" for n
    using gos_values_cleanup [OF a, where t = t] assms(3) by (simp add: nth_update_or)
  then show "gos_values value_ok st'" "gos_cache st' = gos_cache st"
    using assms(1,2) a by (auto simp: gos_release_def Let_def split: if_splits)
qed

lemma gos_values_lookup:
  assumes "gos_values value_ok st" and "value_ok None" and "\<And>t. insert_tokens st k = Some t \<Longrightarrow> t < length (gos_tokens st)"
  shows "gos_values value_ok (holder_acquire (fst (token_for k st)) (snd (token_for k st)))"
proof (cases "insert_tokens st k")
  case None
  then show ?thesis
    using assms(1,2) by (simp add: token_for_def holder_acquire_def new_InsertToken_def gos_values_def)
next
  case (Some t)
  have "value_ok (token_value (gos_tokens st ! t))"
    using assms(1) assms(3) [OF Some] by (simp add: gos_values_def)
  then show ?thesis
    using Some assms(1) by (simp add: token_for_def holder_acquire_def gos_values_upd_token)
qed

context replacing_policy
begin

lemma valid_step:
  assumes valid: "valid (cache_policy_state (gos_cache st))" and vals: "gos_values value_ok st" and inv: "gos_inv st"
    and null: "value_ok None" and step: "gos_step pol (i, e) st = Some st'" and ok: "event_ok value_ok size_ok e"
  shows "valid (cache_policy_state (gos_cache st')) \<and> gos_values value_ok st'"
proof -
  have i: "i < length (gos_threads st)"
    using step by (simp add: gos_step_def split: if_splits)
  have tok: "value_ok (token_value (gos_tokens st ! t))" if "pc_ref (gos_threads st ! i) = Some (k, t)" for k t
    using gos_ref_token(1) [OF inv i that] vals by (simp add: gos_values_def)
  show ?thesis
  proof (cases "gos_threads st ! i")
    case Idle
    show ?thesis
    proof (cases e)
      case (Other oper)
      obtain out c where "cache_step pol oper (gos_cache st) = Inr (out, c)" "valid (cache_policy_state c)"
        using step_agrees [OF valid map_le_refl, of oper] ok Other by (auto simp: event_ok_def)
      then have "st' = st\<lparr>gos_cache := c\<rparr>" "valid (cache_policy_state c)"
        using step i Idle Other by (auto simp: gos_step_def split: cache_op.splits)
      then show ?thesis
        using vals by (simp add: gos_values_def)
    next
      case ClearCache
      then have "st' = gos_clear pol st"
        using step i Idle by (simp add: gos_step_def)
      then show ?thesis
        using clear_law [OF valid] vals by (simp add: gos_clear_def cache_clear_def on_state_def gos_values_def)
    qed (use step i Idle valid vals in \<open>auto simp: gos_step_def gos_values_def\<close>)
  next
    case (Calling k)
    then have "gos_lookup pol i k st = Some st'"
      using step i by (cases e) (simp_all add: gos_step_def)
    moreover obtain s v where s: "policy_get pol k (cache_policy_state (gos_cache st)) = Inr (v, s)" "valid s"
      using get_law [OF valid, of k] by blast
    moreover define st1 where "st1 = on_cache (\<lambda>c. c\<lparr>cache_policy_state := s\<rparr>) st"
    moreover have "gos_values value_ok (holder_acquire (fst (token_for k st1)) (snd (token_for k st1)))"
      using gos_values_lookup [of value_ok st1 k] vals null gos_invD(3) [OF inv, of k] by (simp add: st1_def)
    moreover have "gos_cache (snd (token_for k st1)) = gos_cache st1"
      by (simp add: token_for_def split: option.split)
    ultimately show ?thesis
      using vals by (cases v) (auto simp: gos_lookup_def Let_def count_lookup_def split: prod.splits)
  next
    case (Waiting k t)
    then have "gos_lock i k t st = Some st'"
      using step i by (cases e) (simp_all add: gos_step_def)
    then show ?thesis
      using valid gos_values_upd_token [OF vals, of "\<lambda>token. token\<lparr>token_mutex := Some i\<rparr>" t] tok [of k t] Waiting
      by (auto simp: gos_lock_def Let_def count_lookup_def split: if_splits option.splits)
  next
    case (Loading k t c)
    then show ?thesis
      using step i valid vals ok gos_values_upd_token [OF vals, of "\<lambda>token. token\<lparr>token_value := v\<rparr>" t for v]
      by (cases e) (auto simp: gos_step_def event_ok_def)
  next
    case (Publishing k t c)
    then have step': "gos_publish pol i k t c st = Some st'"
      using step i by (cases e) (simp_all add: gos_step_def)
    moreover obtain s where "policy_set pol k (token_value (gos_tokens st ! t)) (cache_policy_state (gos_cache st)) = Inr s" "valid s"
      using set_law [OF valid tok [of k t], of k] Publishing by auto
    moreover have "gos_values value_ok (holder_cleanup k t (on_cache g st))" for g
      using gos_values_cleanup [of value_ok "on_cache g st" t k] vals tok [of k t] Publishing by simp
    ultimately show ?thesis
      using valid vals by (auto simp: gos_publish_def Let_def split: if_splits)
  next
    case (Unlocking k t c r)
    then show ?thesis
      using step i valid tok [of k t] gos_values_upd_token [OF vals, of "\<lambda>token. token\<lparr>token_mutex := None\<rparr>" t]
      by (cases e) (auto simp: gos_step_def gos_unlock_def)
  next
    case (Releasing k t r)
    then have "gos_release i k t r st = Some st'"
      using step i by (cases e) (simp_all add: gos_step_def)
    then show ?thesis
      using valid gos_values_release [OF _ vals tok [of k t]] Releasing by (metis pc_ref.simps(5))
  next
    case (Returned k r)
    then show ?thesis
      using step i valid vals by (cases e) (auto simp: gos_step_def)
  qed
qed

lemma valid_run:
  assumes "valid (cache_policy_state (gos_cache st))" and "gos_values value_ok st" and "gos_inv st"
    and "value_ok None" and "gos_run pol ies st = Some st'" and "list_all (event_ok value_ok size_ok \<circ> snd) ies"
  shows "valid (cache_policy_state (gos_cache st')) \<and> gos_values value_ok st' \<and> gos_inv st'"
  using assms
proof (induction ies arbitrary: st)
  case (Cons ie ies)
  obtain i e where ie: "ie = (i, e)"
    by fastforce
  obtain st1 where st1: "gos_step pol (i, e) st = Some st1" "gos_run pol ies st1 = Some st'"
    using Cons.prems(5) ie by (auto simp: Option.bind_eq_Some_conv)
  show ?case
    using valid_step [OF Cons.prems(1-4) st1(1)] Cons.IH [OF _ _ gos_inv_step [OF Cons.prems(3) st1(1)] Cons.prems(4) st1(2)]
      Cons.prems(6) ie
    by simp
qed simp

lemma calls_return:
  assumes new: "valid s" and null: "value_ok None"
    and run: "gos_run pol (ies @ ies') (new_gos n s) = Some st'"
    and ok: "list_all (event_ok value_ok size_ok \<circ> snd) (ies @ ies')" and int: "list_all (internal \<circ> snd) ies'"
  shows "length ies' \<le> 6 * n
    \<and> (list_all finished (gos_threads st') \<or> (\<exists>j e. internal e \<and> gos_step pol (j, e) st' \<noteq> None))"
proof -
  obtain st where st: "gos_run pol ies (new_gos n s) = Some st" "gos_run pol ies' st = Some st'"
    using run by (auto simp: gos_run_append Option.bind_eq_Some_conv)
  have st': "valid (cache_policy_state (gos_cache st')) \<and> gos_values value_ok st' \<and> gos_inv st'"
    by (rule valid_run [OF _ _ gos_inv_new null run ok]) (simp_all add: new gos_values_def new_gos_def new_CacheBase_def)
  have "length (gos_threads st) = n"
    using gos_run_threads [OF st(1)] by (simp add: new_gos_def)
  then have "length ies' \<le> 6 * n"
    using internal_run_bound [OF st(2) int] work_bound [of st] by simp
  moreover have "\<exists>j e. internal e \<and> gos_step pol (j, e) st' \<noteq> None"
    if "\<not> list_all finished (gos_threads st')"
  proof -
    obtain i where "i < length (gos_threads st')" "\<not> finished (gos_threads st' ! i)"
      using \<open>\<not> list_all finished (gos_threads st')\<close> by (auto simp: list_all_iff in_set_conv_nth)
    then show ?thesis
      using someone_can_step [of st' i] st' by blast
  qed
  ultimately show ?thesis
    by blast
qed

end

section \<open>Properties\<close>

lemma event_ok_lru:
  fixes ies :: "(nat \<times> ('k, 'v) event) list"
  assumes "list_all (event_ok (slru_value_ok weight) (\<lambda>n. n \<le> 2 ^ 53) \<circ> snd) ies"
  shows "list_all (event_ok (lru_value_ok weight) (\<lambda>n. n \<le> 2 ^ 63) \<circ> snd) ies"
proof -
  have w: "value_weight weight v < 2 ^ 63" if "value_weight weight v \<le> 2 ^ 62" for v
    using that by (simp add: word_le_nat_alt word_less_nat_alt)
  have n: "(m :: 64 word) \<le> 2 ^ 63" if "m \<le> 2 ^ 53" for m
    using that by (simp add: word_le_nat_alt)
  have "event_ok (lru_value_ok weight) (\<lambda>n. n \<le> 2 ^ 63) e"
    if "event_ok (slru_value_ok weight) (\<lambda>n. n \<le> 2 ^ 53) e" for e :: "('k, 'v) event"
  proof (cases e)
    case (Other oper)
    then show ?thesis
      using that w n by (cases oper) (simp_all add: event_ok_def op_ok_def)
  qed (use that w in \<open>simp_all add: event_ok_def\<close>)
  then show ?thesis
    using assms by (simp add: list_all_iff)
qed

lemmas gos_eval = new_gos_def new_CacheBase_def gos_step_def gos_lookup_def gos_lock_def gos_publish_def gos_unlock_def
  gos_release_def gos_clear_def cache_clear_def on_state_def token_for_def holder_acquire_def holder_cleanup_def set_pc_def upd_token_def on_cache_def
  new_InsertToken_def count_lookup_def size_minus_def LRUCachePolicy_def new_LRUCachePolicy_def lru_get_def lru_clear_def Let_def numeral_2_eq_2

lemma loads_holds: "loads k p \<Longrightarrow> live_pc st p \<Longrightarrow> \<exists>t. pc_ref p = Some (k, t) \<and> pc_holds p = Some (t, False)"
  by (cases p) (auto simp: live_pc_def)

lemma loads_token: "loads k p \<Longrightarrow> load_token p \<noteq> None"
  by (cases p) auto

lemma load_token_mutex:
  assumes "gos_inv st" and "m < length (gos_threads st)" and "load_token (gos_threads st ! m) = Some t"
  shows "token_mutex (gos_tokens st ! t) = Some m"
proof -
  obtain c where c: "pc_holds (gos_threads st ! m) = Some (t, c)"
    using assms(3) by (cases "gos_threads st ! m") auto
  then obtain k where "pc_ref (gos_threads st ! m) = Some (k, t)"
    using pc_holds_ref by blast
  then show ?thesis
    using gos_holder [OF assms(1,2) c] by blast
qed

lemma live_load_token:
  assumes "gos_live st" and "m < length (gos_threads st)" and "loads k (gos_threads st ! m)"
    and "gos_inv st"
  shows "load_token (gos_threads st ! m) = insert_tokens st k"
proof -
  obtain t where t: "pc_ref (gos_threads st ! m) = Some (k, t)" "pc_holds (gos_threads st ! m) = Some (t, False)"
    using loads_holds [OF assms(3)] assms(1,2) by (auto simp: gos_live_def)
  have "load_token (gos_threads st ! m) = Some t"
    using t assms(3) by (cases "gos_threads st ! m") auto
  then show ?thesis
    using gos_holder [OF assms(4,2) t(2,1)] gos_liveD [OF assms(1,2) t(1)] by (simp add: live_ref_def)
qed

text \<open>C9: Who runs \<^verbatim>\<open>load_func\<close>, under every policy and in every interleaving of \<^verbatim>\<open>getOrSet\<close> calls with each other
  and with the other operations, whether or not loads throw.  Two threads never are between the start of
  a load and its publication with the same insert token.  If moreover \<^verbatim>\<open>clear\<close> was never called and no
  \<^verbatim>\<open>load_func\<close> returned a null pointer, two threads never are there for the same key.  Both provisos are
  needed: the two lemmas after the witness give runs with a \<^verbatim>\<open>clear\<close> and with a null pointer in which two
  threads load one key at once.\<close>

theorem getOrSet_single_load:
  assumes "gos_run pol ies (new_gos n s) = Some st"
    and "i < length (gos_threads st)" and "j < length (gos_threads st)"
  shows "(load_token (gos_threads st ! i) \<noteq> None \<and> load_token (gos_threads st ! i) = load_token (gos_threads st ! j) \<longrightarrow> i = j)
    \<and> (list_all (quiet \<circ> snd) ies \<and> loads k (gos_threads st ! i) \<and> loads k (gos_threads st ! j) \<longrightarrow> i = j)"
proof (intro conjI impI)
  have inv: "gos_inv st"
    by (rule gos_inv_run [OF gos_inv_new assms(1)])
  show token: "i = j"
    if "load_token (gos_threads st ! i) \<noteq> None \<and> load_token (gos_threads st ! i) = load_token (gos_threads st ! j)"
    using that load_token_mutex [OF inv assms(2)] load_token_mutex [OF inv assms(3)]
    by (metis option.exhaust option.inject)
  assume quiet: "list_all (quiet \<circ> snd) ies \<and> loads k (gos_threads st ! i) \<and> loads k (gos_threads st ! j)"
  have "gos_live st \<and> gos_inv st"
    using quiet by (intro gos_live_run [OF _ gos_inv_new assms(1)]) (simp_all add: gos_live_def new_gos_def live_pc_def)
  then show "i = j"
    using live_load_token [of st i k] live_load_token [of st j k] quiet assms(2,3)
      loads_token [of k "gos_threads st ! i"] by (intro token) simp
qed

theorem getOrSet_single_load_witness:
  "\<exists>st. gos_run (LRUCachePolicy EqualWeightFunction)
       [(0, Call (7::nat)), (1, Call 7), (1, Lookup), (0, Lookup), (0, Lock)]
       (new_gos 2 (new_LRUCachePolicy 3 0) :: ((nat, char) lru, nat, char) gos) = Some st
     \<and> loads 7 (gos_threads st ! 0) \<and> \<not> loads 7 (gos_threads st ! 1)"
proof -
  let ?ies = "[(0::nat, Call (7::nat)), (1, Call 7), (1, Lookup), (0, Lookup), (0, Lock)]"
  obtain st where st: "gos_run (LRUCachePolicy EqualWeightFunction) ?ies
      (new_gos 2 (new_LRUCachePolicy 3 0) :: ((nat, char) lru, nat, char) gos) = Some st"
    "loads 7 (gos_threads st ! 0)" "length (gos_threads st) = 2"
    by (simp add: gos_eval)
  have "list_all (quiet \<circ> snd) ?ies"
    by (simp add: quiet_def)
  then have "\<not> loads 7 (gos_threads st ! 1)"
    using getOrSet_single_load [OF st(1), of 0 1 7] st(2,3) by auto
  then show ?thesis
    using st by blast
qed

text \<open>A load that is under way during a \<^verbatim>\<open>clear\<close> erases at its end the token that a later call registered for
  the key; two threads whose calls both started after the \<^verbatim>\<open>clear\<close> then load the key at once.\<close>

lemma getOrSet_clear_breaks_single_load:
  "\<exists>st. gos_run (LRUCachePolicy EqualWeightFunction)
       [(0, Call (7::nat)), (0, Lookup), (0, Lock), (3, ClearCache),
        (1, Call 7), (1, Lookup), (1, Lock), (0, LoadReturns (Some v)), (0, Publish),
        (2, Call 7), (2, Lookup), (2, Lock)]
       (new_gos 4 (new_LRUCachePolicy 3 0)) = Some st
     \<and> loads 7 (gos_threads st ! 1) \<and> loads 7 (gos_threads st ! 2)"
  by (simp add: gos_eval)

text \<open>A null pointer from \<^verbatim>\<open>load_func\<close> counts as no value: the token is cleaned up, a thread that waited for it
  loads again, and so does a later call with a token of its own.\<close>

lemma getOrSet_null_breaks_single_load:
  "\<exists>st. gos_run (LRUCachePolicy EqualWeightFunction)
       [(0, Call (7::nat)), (0, Lookup), (0, Lock), (1, Call 7), (1, Lookup),
        (0, LoadReturns None), (0, Publish), (0, Unlock),
        (1, Lock), (2, Call 7), (2, Lookup), (2, Lock)]
       (new_gos 3 (new_LRUCachePolicy 3 0) :: ((nat, char) lru, nat, char) gos) = Some st
     \<and> loads 7 (gos_threads st ! 1) \<and> loads 7 (gos_threads st ! 2)"
  by (simp add: gos_eval lru_set_def lru_removeOverflow_def value_weight_def)

text \<open>C11: The map of insert tokens does not leak: whatever the interleaving (loads that throw and calls of
  \<^verbatim>\<open>clear\<close> included), once no call is under way no token is left in \<^verbatim>\<open>insert_tokens\<close>.\<close>

theorem getOrSet_no_token_leak:
  assumes "gos_run pol ies (new_gos n s) = Some st" and "list_all finished (gos_threads st)"
  shows "insert_tokens st = Map.empty"
proof (rule ext, rule ccontr)
  fix k assume "insert_tokens st k \<noteq> None"
  then obtain t where "insert_tokens st k = Some t"
    by auto
  then have "0 < refs t st"
    using gos_invD(3) [OF gos_inv_run [OF gos_inv_new assms(1)]] by blast
  then obtain p where p: "p \<in> set (gos_threads st)" "refers t p"
    by (auto simp: refs_def filter_empty_conv)
  then have "finished p"
    using assms(2) by (simp add: list_all_iff)
  then show False
    using p(2) by (cases p) (simp_all add: refers_def)
qed

theorem getOrSet_no_token_leak_witness:
  "\<exists>st. gos_run (LRUCachePolicy EqualWeightFunction)
       [(0, Call (7::nat)), (0, Lookup), (0, Lock), (0, LoadThrows), (0, Unlock), (0, Release)]
       (new_gos 2 (new_LRUCachePolicy 3 0) :: ((nat, char) lru, nat, char) gos) = Some st
     \<and> insert_tokens st = Map.empty"
proof -
  obtain st where st: "gos_run (LRUCachePolicy EqualWeightFunction)
       [(0, Call (7::nat)), (0, Lookup), (0, Lock), (0, LoadThrows), (0, Unlock), (0, Release)]
       (new_gos 2 (new_LRUCachePolicy 3 0) :: ((nat, char) lru, nat, char) gos) = Some st"
    "list_all finished (gos_threads st)"
    by (simp add: gos_eval)
  show ?thesis
    using st(1) getOrSet_no_token_leak [OF st] by blast
qed

text \<open>C10: Every \<^verbatim>\<open>getOrSet\<close> call returns: on a cache with the LRU or the segmented LRU policy, from any state that
  a history of calls can reach, the threads inside calls take at most six critical sections each, and
  as long as one of them has not returned some thread can take its next one (there is no deadlock),
  provided \<^verbatim>\<open>load_func\<close> returns or throws.\<close>

theorem getOrSet_returns:
  assumes "lru_max \<le> 2 ^ 63" and "slru_max \<le> 2 ^ 53"
    and "list_all (event_ok (slru_value_ok weight) (\<lambda>n. n \<le> 2 ^ 53) \<circ> snd) (ies @ ies')"
    and "list_all (internal \<circ> snd) ies'"
  shows "(\<forall>st. gos_run (LRUCachePolicy weight) (ies @ ies') (new_gos n (new_LRUCachePolicy lru_max c)) = Some st \<longrightarrow>
      length ies' \<le> 6 * n \<and> (list_all finished (gos_threads st)
        \<or> (\<exists>j e. internal e \<and> gos_step (LRUCachePolicy weight) (j, e) st \<noteq> None)))
    \<and> (\<forall>st. gos_run (SLRUCachePolicy weight) (ies @ ies') (new_gos n (new_SLRUCachePolicy slru_max c ratio)) = Some st \<longrightarrow>
      length ies' \<le> 6 * n \<and> (list_all finished (gos_threads st)
        \<or> (\<exists>j e. internal e \<and> gos_step (SLRUCachePolicy weight) (j, e) st \<noteq> None)))"
proof (rule conjI; intro allI impI)
  fix st assume run: "gos_run (LRUCachePolicy weight) (ies @ ies') (new_gos n (new_LRUCachePolicy lru_max c)) = Some st"
  show "length ies' \<le> 6 * n \<and> (list_all finished (gos_threads st)
      \<or> (\<exists>j e. internal e \<and> gos_step (LRUCachePolicy weight) (j, e) st \<noteq> None))"
    by (rule lru.calls_return [OF new_LRU_valid [OF assms(1)] _ run event_ok_lru [OF assms(3)] assms(4)])
       (simp add: value_weight_def)
next
  fix st assume run: "gos_run (SLRUCachePolicy weight) (ies @ ies') (new_gos n (new_SLRUCachePolicy slru_max c ratio)) = Some st"
  show "length ies' \<le> 6 * n \<and> (list_all finished (gos_threads st)
      \<or> (\<exists>j e. internal e \<and> gos_step (SLRUCachePolicy weight) (j, e) st \<noteq> None))"
    by (rule slru.calls_return [OF new_SLRU_valid [OF assms(2)] _ run assms(3,4)])
       (simp add: value_weight_def)
qed

theorem getOrSet_returns_witness:
  "\<exists>st. gos_run (LRUCachePolicy EqualWeightFunction) ([(0, Call (7::nat)), (1, Call 7), (0, Lookup)] @ [(0, Lock)])
        (new_gos 2 (new_LRUCachePolicy 3 0) :: ((nat, char) lru, nat, char) gos) = Some st
      \<and> (\<exists>j e. internal e \<and> gos_step (LRUCachePolicy EqualWeightFunction) (j, e) st \<noteq> None)"
proof -
  obtain st where st: "gos_run (LRUCachePolicy EqualWeightFunction) ([(0, Call (7::nat)), (1, Call 7), (0, Lookup)] @ [(0, Lock)])
        (new_gos 2 (new_LRUCachePolicy 3 0) :: ((nat, char) lru, nat, char) gos) = Some st"
    "\<not> list_all finished (gos_threads st)"
    by (simp add: gos_eval)
  show ?thesis
    using getOrSet_returns [of 3 3 EqualWeightFunction "[(0, Call 7), (1, Call 7), (0, Lookup)]"
        "[(0, Lock :: (nat, char) event)]" 2 0] st
    by (simp add: event_ok_def internal_def)
qed

end
