(* ===== verification/Cache_TTL.thy ===== *)
theory Cache_TTL
  imports Cache_Base
begin

text \<open>
  The cache policy with expiring entries and quotas per user, \<^verbatim>\<open>src/src/Common/TTLCachePolicy.h\<close> and
  \<^verbatim>\<open>ICachePolicyUserQuota.h\<close>.  The template parameters are a record: what \<^verbatim>\<open>operator==\<close> of the key compares,
  the user of a key, and the weight of a value.  Values are never null (\<^verbatim>\<open>set\<close> dereferences its argument).
  The predicate for stale keys is an argument of \<^verbatim>\<open>set\<close>, because it depends on the clock.
\<close>

section \<open>Quotas per user\<close>

record resources =
  res_size_in_bytes :: "64 word"
  res_num_items :: "64 word"

record 'u user_quota =
  quotas :: "'u \<rightharpoonup> resources"
  actual :: "'u \<rightharpoonup> resources"

definition new_user_quota :: "'u user_quota" where
  "new_user_quota = \<lparr>quotas = Map.empty, actual = Map.empty\<rparr>"

definition setQuotaForUser :: "'u \<Rightarrow> 64 word \<Rightarrow> 64 word \<Rightarrow> 'u user_quota \<Rightarrow> 'u user_quota" where
  "setQuotaForUser u max_size max_entries q =
     q\<lparr>quotas := (quotas q)(u \<mapsto> \<lparr>res_size_in_bytes = max_size, res_num_items = max_entries\<rparr>)\<rparr>"

text \<open>\<^verbatim>\<open>actual[user_id]\<close> creates an entry of zeros.\<close>

definition usage :: "'u user_quota \<Rightarrow> 'u \<Rightarrow> resources" where
  "usage q u = (case actual q u of None \<Rightarrow> \<lparr>res_size_in_bytes = 0, res_num_items = 0\<rparr> | Some r \<Rightarrow> r)"

definition increaseActual :: "'u \<Rightarrow> 64 word \<Rightarrow> 'u user_quota \<Rightarrow> 'u user_quota" where
  "increaseActual u sz q =
     q\<lparr>actual := (actual q)(u \<mapsto> \<lparr>res_size_in_bytes = res_size_in_bytes (usage q u) + sz,
                                 res_num_items = res_num_items (usage q u) + 1\<rparr>)\<rparr>"

definition decreaseActual :: "'u \<Rightarrow> 64 word \<Rightarrow> 'u user_quota \<Rightarrow> 'u user_quota" where
  "decreaseActual u sz q =
     q\<lparr>actual := (actual q)(u \<mapsto> \<lparr>res_size_in_bytes = res_size_in_bytes (usage q u) - sz,
                                 res_num_items = res_num_items (usage q u) - 1\<rparr>)\<rparr>"

definition approveWrite :: "'u \<Rightarrow> 64 word \<Rightarrow> 'u user_quota \<Rightarrow> bool" where
  "approveWrite u sz q =
     (let quota = (case quotas q u of None \<Rightarrow> \<lparr>res_size_in_bytes = - 1, res_num_items = - 1\<rparr> | Some r \<Rightarrow> r);
          max_size = (if res_size_in_bytes quota = 0 then - 1 else res_size_in_bytes quota);
          max_items = (if res_num_items quota = 0 then - 1 else res_num_items quota)
      in \<not> res_size_in_bytes (usage q u) + sz > max_size \<and> \<not> res_num_items (usage q u) + 1 > max_items)"

definition quota_clear :: "'u user_quota \<Rightarrow> 'u user_quota" where
  "quota_clear q = q\<lparr>actual := Map.empty\<rparr>"

section \<open>The policy\<close>

record ('k, 'i, 'u, 'v) ttl_types =
  key_ident :: "'k \<Rightarrow> 'i"
  key_user :: "'k \<Rightarrow> 'u option"
  entry_weight :: "'v \<Rightarrow> 64 word"

record ('k, 'u, 'v) ttl =
  ttl_cache :: "('k \<times> 'v) list"
  ttl_size_in_bytes :: "64 word"
  ttl_max_size_in_bytes :: "64 word"
  ttl_max_count :: nat
  user_quotas :: "'u user_quota"

definition new_TTLCachePolicy :: "('k, 'u, 'v) ttl" where
  "new_TTLCachePolicy =
     \<lparr>ttl_cache = [], ttl_size_in_bytes = 0, ttl_max_size_in_bytes = 0, ttl_max_count = 0, user_quotas = new_user_quota\<rparr>"

definition ttl_count :: "('k, 'u, 'v) ttl \<Rightarrow> nat" where
  "ttl_count s = length (ttl_cache s)"

definition ttl_setMaxCount :: "nat \<Rightarrow> ('k, 'u, 'v) ttl \<Rightarrow> ('k, 'u, 'v) ttl" where
  "ttl_setMaxCount n s = s\<lparr>ttl_max_count := n\<rparr>"

definition ttl_setMaxSizeInBytes :: "64 word \<Rightarrow> ('k, 'u, 'v) ttl \<Rightarrow> ('k, 'u, 'v) ttl" where
  "ttl_setMaxSizeInBytes n s = s\<lparr>ttl_max_size_in_bytes := n\<rparr>"

definition ttl_setQuotaForUser :: "'u \<Rightarrow> 64 word \<Rightarrow> 64 word \<Rightarrow> ('k, 'u, 'v) ttl \<Rightarrow> ('k, 'u, 'v) ttl" where
  "ttl_setQuotaForUser u max_size max_entries s =
     s\<lparr>user_quotas := setQuotaForUser u max_size max_entries (user_quotas s)\<rparr>"

definition ttl_clear :: "('k, 'u, 'v) ttl \<Rightarrow> ('k, 'u, 'v) ttl" where
  "ttl_clear s = s\<lparr>ttl_cache := [], user_quotas := quota_clear (user_quotas s), ttl_size_in_bytes := 0\<rparr>"

definition ttl_find :: "('k, 'i, 'u, 'v) ttl_types \<Rightarrow> 'k \<Rightarrow> ('k, 'u, 'v) ttl \<Rightarrow> ('k \<times> 'v) option" where
  "ttl_find T key s = find (\<lambda>e. key_ident T (fst e) = key_ident T key) (ttl_cache s)"

text \<open>The code that removes the entry at an iterator, which occurs four times in the source.\<close>

definition ttl_erase :: "('k, 'i, 'u, 'v) ttl_types \<Rightarrow> 'k \<times> 'v \<Rightarrow> ('k, 'u, 'v) ttl \<Rightarrow> ('k, 'u, 'v) ttl" where
  "ttl_erase T e s =
     (let sz = entry_weight T (snd e)
      in s\<lparr>user_quotas := (case key_user T (fst e) of None \<Rightarrow> user_quotas s | Some u \<Rightarrow> decreaseActual u sz (user_quotas s)),
           ttl_cache := filter (\<lambda>e'. key_ident T (fst e') \<noteq> key_ident T (fst e)) (ttl_cache s),
           ttl_size_in_bytes := ttl_size_in_bytes s - sz\<rparr>)"

definition ttl_remove :: "('k, 'i, 'u, 'v) ttl_types \<Rightarrow> 'k \<Rightarrow> ('k, 'u, 'v) ttl \<Rightarrow> ('k, 'u, 'v) ttl" where
  "ttl_remove T key s = (case ttl_find T key s of None \<Rightarrow> s | Some e \<Rightarrow> ttl_erase T e s)"

fun ttl_remove_loop :: "('k, 'i, 'u, 'v) ttl_types \<Rightarrow> ('k \<times> 'v \<Rightarrow> bool) \<Rightarrow> ('k \<times> 'v) list \<Rightarrow> ('k, 'u, 'v) ttl \<Rightarrow> ('k, 'u, 'v) ttl" where
  "ttl_remove_loop T p [] s = s"
| "ttl_remove_loop T p (e # es) s = ttl_remove_loop T p es (if p e then ttl_erase T e s else s)"

definition ttl_remove_if :: "('k, 'i, 'u, 'v) ttl_types \<Rightarrow> ('k \<Rightarrow> 'v \<Rightarrow> bool) \<Rightarrow> ('k, 'u, 'v) ttl \<Rightarrow> ('k, 'u, 'v) ttl" where
  "ttl_remove_if T predicate s = ttl_remove_loop T (\<lambda>e. predicate (fst e) (snd e)) (ttl_cache s) s"

definition ttl_get :: "('k, 'i, 'u, 'v) ttl_types \<Rightarrow> 'k \<Rightarrow> ('k, 'u, 'v) ttl \<Rightarrow> 'v option" where
  "ttl_get T key s = map_option snd (ttl_find T key s)"

definition ttl_contains :: "('k, 'i, 'u, 'v) ttl_types \<Rightarrow> 'k \<Rightarrow> ('k, 'u, 'v) ttl \<Rightarrow> bool" where
  "ttl_contains T key s \<longleftrightarrow> ttl_find T key s \<noteq> None"

definition ttl_getWithKey :: "('k, 'i, 'u, 'v) ttl_types \<Rightarrow> 'k \<Rightarrow> ('k, 'u, 'v) ttl \<Rightarrow> ('k \<times> 'v) option" where
  "ttl_getWithKey T key s = ttl_find T key s"

definition sufficient_space_in_cache :: "64 word \<Rightarrow> ('k, 'u, 'v) ttl \<Rightarrow> bool" where
  "sufficient_space_in_cache sz s \<longleftrightarrow>
     ttl_size_in_bytes s + sz \<le> ttl_max_size_in_bytes s \<and> length (ttl_cache s) + 1 \<le> ttl_max_count s"

definition sufficient_space_in_cache_for_user :: "('k, 'i, 'u, 'v) ttl_types \<Rightarrow> 'k \<Rightarrow> 64 word \<Rightarrow> ('k, 'u, 'v) ttl \<Rightarrow> bool" where
  "sufficient_space_in_cache_for_user T key sz s \<longleftrightarrow>
     (case key_user T key of None \<Rightarrow> True | Some u \<Rightarrow> approveWrite u sz (user_quotas s))"

definition ttl_fits :: "('k, 'i, 'u, 'v) ttl_types \<Rightarrow> 'k \<Rightarrow> 64 word \<Rightarrow> ('k, 'u, 'v) ttl \<Rightarrow> bool" where
  "ttl_fits T key sz s \<longleftrightarrow> sufficient_space_in_cache sz s \<and> sufficient_space_in_cache_for_user T key sz s"

definition ttl_insert :: "('k, 'i, 'u, 'v) ttl_types \<Rightarrow> 'k \<Rightarrow> 'v \<Rightarrow> ('k, 'u, 'v) ttl \<Rightarrow> ('k, 'u, 'v) ttl" where
  "ttl_insert T key mapped s =
     (let sz = entry_weight T mapped
      in s\<lparr>ttl_cache := ttl_cache s @ [(key, mapped)], ttl_size_in_bytes := ttl_size_in_bytes s + sz,
           user_quotas := (case key_user T key of None \<Rightarrow> user_quotas s | Some u \<Rightarrow> increaseActual u sz (user_quotas s))\<rparr>)"

definition ttl_set :: "('k, 'i, 'u, 'v) ttl_types \<Rightarrow> ('k \<Rightarrow> bool) \<Rightarrow> 'k \<Rightarrow> 'v \<Rightarrow> ('k, 'u, 'v) ttl \<Rightarrow> ('k, 'u, 'v) ttl" where
  "ttl_set T stale key mapped s =
     (let sz = entry_weight T mapped;
          s1 = (if \<not> ttl_fits T key sz s then ttl_remove_loop T (\<lambda>e. stale (fst e)) (ttl_cache s) s else s)
      in if ttl_fits T key sz s1 then
           ttl_insert T key mapped (case ttl_find T key s1 of None \<Rightarrow> s1 | Some e \<Rightarrow> ttl_erase T e s1)
         else s1)"

definition ttl_dump :: "('k, 'u, 'v) ttl \<Rightarrow> ('k \<times> 'v) list" where
  "ttl_dump s = ttl_cache s"

text \<open>As a policy of the thread-safe cache; a null pointer is dereferenced by \<^verbatim>\<open>set\<close>, after a failed assertion.\<close>

definition TTLCachePolicy :: "('k, 'i, 'u, 'v) ttl_types \<Rightarrow> ('k \<Rightarrow> bool) \<Rightarrow> (('k, 'u, 'v) ttl, 'k, 'v) policy" where
  "TTLCachePolicy T stale =
     \<lparr>policy_sizeInBytes = ttl_size_in_bytes, policy_count = ttl_count,
      policy_maxSizeInBytes = ttl_max_size_in_bytes, policy_maxCount = ttl_max_count,
      policy_setMaxCount = (\<lambda>n s. Inr (ttl_setMaxCount n s)),
      policy_setMaxSizeInBytes = (\<lambda>n s. Inr (ttl_setMaxSizeInBytes n s)),
      policy_get = (\<lambda>key s. Inr (ttl_get T key s, s)),
      policy_getWithKey = (\<lambda>key s. Inr (map_option (map_prod id Some) (ttl_getWithKey T key s), s)),
      policy_contains = ttl_contains T,
      policy_set = (\<lambda>key mapped s. case mapped of None \<Rightarrow> Inl LOGICAL_ERROR | Some v \<Rightarrow> Inr (ttl_set T stale key v s)),
      policy_remove = ttl_remove T, policy_remove_if = (\<lambda>p. ttl_remove_if T (\<lambda>k v. p k (Some v))),
      policy_clear = ttl_clear, policy_dump = (\<lambda>s. map (map_prod id Some) (ttl_dump s))\<rparr>"

definition cache_setQuotaForUser :: "'u \<Rightarrow> 64 word \<Rightarrow> 64 word \<Rightarrow> ('k, 'u, 'v) ttl cache \<Rightarrow> ('k, 'u, 'v) ttl cache" where
  "cache_setQuotaForUser u max_size max_entries = on_state (ttl_setQuotaForUser u max_size max_entries)"

section \<open>Accounting\<close>

definition for_user :: "('k, 'i, 'u, 'v) ttl_types \<Rightarrow> 'u \<Rightarrow> ('k \<times> 'v \<Rightarrow> 'n::zero) \<Rightarrow> 'k \<times> 'v \<Rightarrow> 'n" where
  "for_user T u f e = (if key_user T (fst e) = Some u then f e else 0)"

definition weight_of :: "('k, 'i, 'u, 'v) ttl_types \<Rightarrow> 'k \<times> 'v \<Rightarrow> 64 word" where
  "weight_of T e = entry_weight T (snd e)"

definition distinct_keys :: "('k, 'i, 'u, 'v) ttl_types \<Rightarrow> ('k \<times> 'v) list \<Rightarrow> bool" where
  "distinct_keys T es \<longleftrightarrow> distinct (map (\<lambda>e. key_ident T (fst e)) es)"

definition ttl_valid :: "('k, 'i, 'u, 'v) ttl_types \<Rightarrow> ('k, 'u, 'v) ttl \<Rightarrow> bool" where
  "ttl_valid T s \<longleftrightarrow>
     distinct_keys T (ttl_cache s)
     \<and> ttl_size_in_bytes s = sum_list (map (weight_of T) (ttl_cache s))
     \<and> (\<forall>u. usage (user_quotas s) u =
           \<lparr>res_size_in_bytes = sum_list (map (for_user T u (weight_of T)) (ttl_cache s)),
            res_num_items = sum_list (map (for_user T u (\<lambda>_. 1)) (ttl_cache s))\<rparr>)"

lemma sum_drop:
  fixes f :: "'e \<Rightarrow> 'n::comm_monoid_add"
  assumes "distinct (map g es)" and "e \<in> set es"
  shows "sum_list (map f (filter (\<lambda>x. g x \<noteq> g e) es)) + f e = sum_list (map f es)"
  using assms
proof (induction es)
  case (Cons x es)
  show ?case
  proof (cases "x = e")
    case True
    then have "filter (\<lambda>x. g x \<noteq> g e) es = es"
      using Cons.prems(1) by (auto simp: filter_id_conv) (metis imageI)
    then show ?thesis
      using True by (simp add: add.commute)
  next
    case False
    then have "e \<in> set es" "g x \<noteq> g e"
      using Cons.prems by auto
    then show ?thesis
      using Cons by (simp add: add.assoc)
  qed
qed simp

lemma usage_update [simp]:
  "usage (increaseActual u sz q) w =
     (if w = u then \<lparr>res_size_in_bytes = res_size_in_bytes (usage q u) + sz, res_num_items = res_num_items (usage q u) + 1\<rparr>
      else usage q w)"
  "usage (decreaseActual u sz q) w =
     (if w = u then \<lparr>res_size_in_bytes = res_size_in_bytes (usage q u) - sz, res_num_items = res_num_items (usage q u) - 1\<rparr>
      else usage q w)"
  "usage (quota_clear q) w = \<lparr>res_size_in_bytes = 0, res_num_items = 0\<rparr>"
  by (simp_all add: usage_def increaseActual_def decreaseActual_def quota_clear_def)

lemma quotas_update [simp]:
  "quotas (increaseActual u sz q) = quotas q" "quotas (decreaseActual u sz q) = quotas q" "quotas (quota_clear q) = quotas q"
  by (simp_all add: increaseActual_def decreaseActual_def quota_clear_def)

lemma ttl_erase_valid:
  assumes "ttl_valid T s" and "e \<in> set (ttl_cache s)"
  shows "ttl_valid T (ttl_erase T e s)"
proof -
  have d: "distinct (map (\<lambda>e. key_ident T (fst e)) (ttl_cache s))"
    using assms(1) by (simp add: ttl_valid_def distinct_keys_def)
  let ?es = "filter (\<lambda>e'. key_ident T (fst e') \<noteq> key_ident T (fst e)) (ttl_cache s)"
  have drop: "sum_list (map f ?es) = sum_list (map f (ttl_cache s)) - f e" for f :: "_ \<Rightarrow> 64 word"
    using sum_drop [OF d assms(2), of f] by (simp add: algebra_simps)
  have "distinct_keys T ?es"
    using d by (simp add: distinct_keys_def distinct_map_filter)
  then show ?thesis
    using assms(1)
    by (auto simp: ttl_valid_def ttl_erase_def Let_def drop for_user_def weight_of_def split: option.split)
qed

lemma ttl_insert_valid:
  assumes "ttl_valid T s" and "ttl_find T key s = None"
  shows "ttl_valid T (ttl_insert T key mapped s)"
  using assms
  by (auto simp: ttl_valid_def distinct_keys_def ttl_insert_def Let_def for_user_def weight_of_def ttl_find_def find_None_iff
      split: option.split)

lemma ttl_erase_keeps:
  assumes "distinct_keys T (e # es)" and "set es \<subseteq> set (ttl_cache s)"
  shows "set es \<subseteq> set (ttl_cache (ttl_erase T e s))"
proof
  fix e' assume e': "e' \<in> set es"
  then have "key_ident T (fst e') \<noteq> key_ident T (fst e)"
    using assms(1) by (auto simp: distinct_keys_def image_iff)
  then show "e' \<in> set (ttl_cache (ttl_erase T e s))"
    using e' assms(2) by (auto simp: ttl_erase_def Let_def)
qed

lemma ttl_remove_loop_valid:
  assumes "ttl_valid T s" and "set es \<subseteq> set (ttl_cache s)" and "distinct_keys T es"
  shows "ttl_valid T (ttl_remove_loop T p es s)"
    and "ttl_cache (ttl_remove_loop T p es s) = filter (\<lambda>e. \<not> (e \<in> set es \<and> p e)) (ttl_cache s)"
  using assms
proof (induction es arbitrary: s)
  case (Cons e es)
  {
    case 1
    have "set es \<subseteq> set (ttl_cache (ttl_erase T e s))"
      using 1 by (intro ttl_erase_keeps) auto
    then show ?case
      using 1 Cons.IH(1) [of "if p e then ttl_erase T e s else s"] ttl_erase_valid [of T s e] by (simp add: distinct_keys_def)
  next
    case 2
    have sub: "set es \<subseteq> set (ttl_cache (ttl_erase T e s))"
      using 2 by (intro ttl_erase_keeps) auto
    have "inj_on (\<lambda>e. key_ident T (fst e)) (set (ttl_cache s))"
      using 2(1) by (simp add: ttl_valid_def distinct_keys_def distinct_map)
    then have "ttl_cache (ttl_erase T e s) = filter (\<lambda>e'. e' \<noteq> e) (ttl_cache s)"
      using 2(2) by (auto simp: ttl_erase_def Let_def inj_on_def intro!: filter_cong)
    then show ?case
      using 2 sub Cons.IH(2) [of "if p e then ttl_erase T e s else s"] ttl_erase_valid [of T s e]
      by (auto simp: distinct_keys_def intro!: filter_cong)
  }
qed simp_all

section \<open>Limits\<close>

definition ttl_bytes :: "('k, 'i, 'u, 'v) ttl_types \<Rightarrow> ('k \<times> 'v) list \<Rightarrow> nat" where
  "ttl_bytes T es = sum_list (map (\<lambda>e. unat (weight_of T e)) es)"

definition user_entries :: "('k, 'i, 'u, 'v) ttl_types \<Rightarrow> 'u \<Rightarrow> ('k \<times> 'v) list \<Rightarrow> ('k \<times> 'v) list" where
  "user_entries T u es = filter (\<lambda>e. key_user T (fst e) = Some u) es"

definition ttl_within :: "('k, 'i, 'u, 'v) ttl_types \<Rightarrow> ('k, 'u, 'v) ttl \<Rightarrow> bool" where
  "ttl_within T s \<longleftrightarrow>
     ttl_bytes T (ttl_cache s) \<le> unat (ttl_max_size_in_bytes s) \<and> length (ttl_cache s) \<le> ttl_max_count s
     \<and> (\<forall>u r. quotas (user_quotas s) u = Some r \<longrightarrow>
          (res_size_in_bytes r \<noteq> 0 \<longrightarrow> ttl_bytes T (user_entries T u (ttl_cache s)) \<le> unat (res_size_in_bytes r))
          \<and> (res_num_items r \<noteq> 0 \<longrightarrow> length (user_entries T u (ttl_cache s)) \<le> unat (res_num_items r)))"

lemma ttl_bytes_filter: "ttl_bytes T (filter P es) \<le> ttl_bytes T es"
  by (induction es) (auto simp: ttl_bytes_def)

lemma user_entries_filter: "user_entries T u (filter P es) = filter P (user_entries T u es)"
  by (simp add: user_entries_def conj_commute)

lemma unat_sum_weights:
  assumes "ttl_bytes T es < 2 ^ 64"
  shows "unat (sum_list (map (weight_of T) es)) = ttl_bytes T es"
proof -
  have "sum_list (map (weight_of T) es) = word_of_nat (ttl_bytes T es)"
    by (induction es) (simp_all add: ttl_bytes_def)
  then show ?thesis
    using assms by (simp add: unat_of_nat take_bit_nat_eq_self)
qed

lemma for_user_sum:
  fixes f :: "'k \<times> 'v \<Rightarrow> 'n::comm_monoid_add"
  shows "sum_list (map (for_user T u f) es) = sum_list (map f (user_entries T u es))"
  by (induction es) (simp_all add: for_user_def user_entries_def)

lemma ttl_within_filter:
  assumes "ttl_within T s" and "ttl_cache s' = filter P (ttl_cache s)" and "quotas (user_quotas s') = quotas (user_quotas s)"
    and "ttl_max_size_in_bytes s' = ttl_max_size_in_bytes s" and "ttl_max_count s' = ttl_max_count s"
  shows "ttl_within T s'"
  using assms(1) unfolding ttl_within_def assms(2-5) user_entries_filter
  by (metis (no_types, lifting) le_trans length_filter_le ttl_bytes_filter)

lemma ttl_erase_fields [simp]:
  "ttl_cache (ttl_erase T e s) = filter (\<lambda>e'. key_ident T (fst e') \<noteq> key_ident T (fst e)) (ttl_cache s)"
  "quotas (user_quotas (ttl_erase T e s)) = quotas (user_quotas s)"
  "ttl_max_size_in_bytes (ttl_erase T e s) = ttl_max_size_in_bytes s" "ttl_max_count (ttl_erase T e s) = ttl_max_count s"
  by (simp_all add: ttl_erase_def Let_def split: option.split)

lemma ttl_remove_loop_fields [simp]:
  "quotas (user_quotas (ttl_remove_loop T p es s)) = quotas (user_quotas s)"
  "ttl_max_size_in_bytes (ttl_remove_loop T p es s) = ttl_max_size_in_bytes s"
  "ttl_max_count (ttl_remove_loop T p es s) = ttl_max_count s"
  by (induction es arbitrary: s) simp_all

lemma ttl_insert_fields [simp]:
  "ttl_cache (ttl_insert T key mapped s) = ttl_cache s @ [(key, mapped)]"
  "quotas (user_quotas (ttl_insert T key mapped s)) = quotas (user_quotas s)"
  "ttl_max_size_in_bytes (ttl_insert T key mapped s) = ttl_max_size_in_bytes s"
  "ttl_max_count (ttl_insert T key mapped s) = ttl_max_count s"
  by (simp_all add: ttl_insert_def Let_def split: option.split)

text \<open>Whether an entry has room beside others, in numbers; a quota of zero is no limit.\<close>

definition ttl_room :: "('k, 'i, 'u, 'v) ttl_types \<Rightarrow> ('k, 'u, 'v) ttl \<Rightarrow> 'k \<Rightarrow> 64 word \<Rightarrow> ('k \<times> 'v) list \<Rightarrow> bool" where
  "ttl_room T s key sz es \<longleftrightarrow>
     ttl_bytes T es + unat sz \<le> unat (ttl_max_size_in_bytes s) \<and> length es < ttl_max_count s
     \<and> (case key_user T key of None \<Rightarrow> True
        | Some u \<Rightarrow> (case quotas (user_quotas s) u of None \<Rightarrow> True
                    | Some r \<Rightarrow> (res_size_in_bytes r = 0 \<or> ttl_bytes T (user_entries T u es) + unat sz \<le> unat (res_size_in_bytes r))
                        \<and> (res_num_items r = 0 \<or> length (user_entries T u es) < unat (res_num_items r))))"

lemma unat_plus_le_iff:
  fixes a b c :: "64 word"
  assumes "unat a + unat b < 2 ^ 64"
  shows "a + b \<le> c \<longleftrightarrow> unat a + unat b \<le> unat c"
  using assms by (simp add: word_le_nat_alt unat_plus_if')

lemma usage_exact:
  assumes valid: "ttl_valid T s" and less: "ttl_bytes T (ttl_cache s) < 2 ^ 64" "length (ttl_cache s) < 2 ^ 64"
  shows "unat (res_size_in_bytes (usage (user_quotas s) u)) = ttl_bytes T (user_entries T u (ttl_cache s))
    \<and> unat (res_num_items (usage (user_quotas s) u)) = length (user_entries T u (ttl_cache s))"
proof -
  let ?es = "user_entries T u (ttl_cache s)"
  have le: "ttl_bytes T ?es \<le> ttl_bytes T (ttl_cache s)" "length ?es \<le> length (ttl_cache s)"
    by (simp_all add: user_entries_def ttl_bytes_filter)
  have "usage (user_quotas s) u = \<lparr>res_size_in_bytes = sum_list (map (weight_of T) ?es), res_num_items = of_nat (length ?es)\<rparr>"
    using valid by (simp add: ttl_valid_def for_user_sum sum_list_triv)
  moreover have "unat (sum_list (map (weight_of T) ?es)) = ttl_bytes T ?es"
    using le(1) less(1) by (intro unat_sum_weights) simp
  moreover have "unat (of_nat (length ?es) :: 64 word) = length ?es"
    using le(2) less(2) by (simp add: unat_of_nat take_bit_nat_eq_self)
  ultimately show ?thesis
    by simp
qed

text \<open>The assertions of \<^verbatim>\<open>decreaseActual\<close> hold whenever an entry of a valid state is erased.\<close>

lemma decreaseActual_assertions:
  assumes "ttl_valid T s" and "ttl_bytes T (ttl_cache s) < 2 ^ 64" and "length (ttl_cache s) < 2 ^ 64"
    and "e \<in> set (ttl_cache s)" and "key_user T (fst e) = Some u"
  shows "actual (user_quotas s) u \<noteq> None"
    and "entry_weight T (snd e) \<le> res_size_in_bytes (usage (user_quotas s) u)"
    and "1 \<le> res_num_items (usage (user_quotas s) u)"
proof -
  let ?es = "user_entries T u (ttl_cache s)"
  have e: "e \<in> set ?es"
    using assms(4,5) by (simp add: user_entries_def)
  note exact = usage_exact [OF assms(1-3), of u]
  have "unat (entry_weight T (snd e)) \<le> ttl_bytes T ?es"
    using e unfolding ttl_bytes_def by (intro member_le_sum_list) (auto simp: weight_of_def intro!: image_eqI [of _ _ e])
  then show "entry_weight T (snd e) \<le> res_size_in_bytes (usage (user_quotas s) u)"
    using exact by (simp add: word_le_nat_alt)
  have "Suc 0 \<le> length ?es"
    using length_pos_if_in_set [OF e] by (rule Suc_leI)
  then show items: "1 \<le> res_num_items (usage (user_quotas s) u)"
    using exact by (simp add: word_le_nat_alt)
  show "actual (user_quotas s) u \<noteq> None"
    using items by (cases "actual (user_quotas s) u") (simp_all add: usage_def)
qed

lemma approveWrite_iff:
  assumes valid: "ttl_valid T s" and less: "ttl_bytes T (ttl_cache s) + unat sz < 2 ^ 64" "Suc (length (ttl_cache s)) < 2 ^ 64"
  shows "approveWrite u sz (user_quotas s) \<longleftrightarrow>
    (case quotas (user_quotas s) u of None \<Rightarrow> True
     | Some r \<Rightarrow> (res_size_in_bytes r = 0 \<or> ttl_bytes T (user_entries T u (ttl_cache s)) + unat sz \<le> unat (res_size_in_bytes r))
         \<and> (res_num_items r = 0 \<or> length (user_entries T u (ttl_cache s)) < unat (res_num_items r)))"
proof -
  let ?es = "user_entries T u (ttl_cache s)"
  have le: "ttl_bytes T ?es \<le> ttl_bytes T (ttl_cache s)" "length ?es \<le> length (ttl_cache s)"
    by (simp_all add: user_entries_def ttl_bytes_filter)
  have u: "unat (res_size_in_bytes (usage (user_quotas s) u)) = ttl_bytes T ?es"
    "unat (res_num_items (usage (user_quotas s) u)) = length ?es"
    using usage_exact [OF valid] less by simp_all
  have "res_size_in_bytes (usage (user_quotas s) u) + sz \<le> c \<longleftrightarrow> ttl_bytes T ?es + unat sz \<le> unat c" for c
    using unat_plus_le_iff [of "res_size_in_bytes (usage (user_quotas s) u)" sz c] u(1) le(1) less(1) by simp
  moreover have "res_num_items (usage (user_quotas s) u) + 1 \<le> c \<longleftrightarrow> length ?es < unat c" for c
    using unat_plus_le_iff [of "res_num_items (usage (user_quotas s) u)" 1 c] u(2) le(2) less(2) by (simp add: Suc_le_eq)
  moreover have "unat (- 1 :: 64 word) = 2 ^ 64 - 1"
    by (simp add: unsigned_minus_1_eq_mask mask_eq_exp_minus_1)
  then have "ttl_bytes T ?es + unat sz \<le> unat (- 1 :: 64 word)" "length ?es < unat (- 1 :: 64 word)"
    using le less by simp_all
  ultimately show ?thesis
    by (cases "quotas (user_quotas s) u") (simp_all add: approveWrite_def Let_def not_less)
qed

definition ttl_limits_ok :: "('k, 'u, 'v) ttl \<Rightarrow> bool" where
  "ttl_limits_ok s \<longleftrightarrow> ttl_max_size_in_bytes s \<le> 2 ^ 63 \<and> ttl_max_count s < 2 ^ 63"

lemma ttl_fits_iff_room:
  assumes valid: "ttl_valid T s" and within: "ttl_within T s" and limits: "ttl_limits_ok s" and sz: "sz < 2 ^ 63"
  shows "ttl_fits T key sz s \<longleftrightarrow> ttl_room T s key sz (ttl_cache s)"
proof -
  have max: "unat (ttl_max_size_in_bytes s) \<le> 2 ^ 63" "unat sz < 2 ^ 63" "ttl_max_count s < 2 ^ 63"
    using limits sz by (simp_all add: ttl_limits_ok_def word_le_nat_alt word_less_nat_alt)
  have b: "ttl_bytes T (ttl_cache s) \<le> unat (ttl_max_size_in_bytes s)" "length (ttl_cache s) \<le> ttl_max_count s"
    using within by (simp_all add: ttl_within_def)
  have less: "ttl_bytes T (ttl_cache s) + unat sz < 2 ^ 64" "Suc (length (ttl_cache s)) < 2 ^ 64"
    using max b by simp_all
  have "unat (ttl_size_in_bytes s) = ttl_bytes T (ttl_cache s)"
    using valid unat_sum_weights [of T "ttl_cache s"] less by (simp add: ttl_valid_def)
  then have "ttl_size_in_bytes s + sz \<le> ttl_max_size_in_bytes s \<longleftrightarrow> ttl_bytes T (ttl_cache s) + unat sz \<le> unat (ttl_max_size_in_bytes s)"
    using unat_plus_le_iff less(1) by metis
  then show ?thesis
    using approveWrite_iff [OF valid less]
    by (auto simp: ttl_fits_def ttl_room_def sufficient_space_in_cache_def sufficient_space_in_cache_for_user_def Suc_le_eq
        split: option.split)
qed

section \<open>What \<^verbatim>\<open>set\<close> does\<close>

definition ttl_put :: "('k, 'i, 'u, 'v) ttl_types \<Rightarrow> ('k, 'u, 'v) ttl \<Rightarrow> ('k \<Rightarrow> bool) \<Rightarrow> 'k \<Rightarrow> 'v \<Rightarrow> ('k \<times> 'v) list \<Rightarrow> ('k \<times> 'v) list" where
  "ttl_put T s stale key mapped es =
     (let room = ttl_room T s key (entry_weight T mapped);
          kept = (if room es then es else filter (\<lambda>e. \<not> stale (fst e)) es)
      in if room kept then filter (\<lambda>e. key_ident T (fst e) \<noteq> key_ident T key) kept @ [(key, mapped)] else kept)"

lemma ttl_room_cong:
  assumes "quotas (user_quotas s') = quotas (user_quotas s)" and "ttl_max_size_in_bytes s' = ttl_max_size_in_bytes s"
    and "ttl_max_count s' = ttl_max_count s"
  shows "ttl_room T s' = ttl_room T s"
  by (intro ext) (unfold ttl_room_def assms, rule refl)

lemma ttl_findD: "ttl_find T key s = Some e \<Longrightarrow> e \<in> set (ttl_cache s) \<and> key_ident T (fst e) = key_ident T key"
  by (auto simp: ttl_find_def find_Some_iff)

lemma ttl_remove_spec:
  assumes "ttl_valid T s"
  shows "ttl_valid T (ttl_remove T key s)"
    and "ttl_cache (ttl_remove T key s) = filter (\<lambda>e. key_ident T (fst e) \<noteq> key_ident T key) (ttl_cache s)"
    and "ttl_find T key (ttl_remove T key s) = None"
proof -
  show "ttl_valid T (ttl_remove T key s)"
    using assms by (auto simp: ttl_remove_def split: option.split intro: ttl_erase_valid dest: ttl_findD)
  show c: "ttl_cache (ttl_remove T key s) = filter (\<lambda>e. key_ident T (fst e) \<noteq> key_ident T key) (ttl_cache s)"
  proof (cases "ttl_find T key s")
    case None
    then have "filter (\<lambda>e. key_ident T (fst e) \<noteq> key_ident T key) (ttl_cache s) = ttl_cache s"
      by (auto simp: ttl_find_def find_None_iff filter_id_conv)
    then show ?thesis
      using None by (simp add: ttl_remove_def)
  next
    case (Some e)
    then show ?thesis
      using ttl_findD [OF Some] by (simp add: ttl_remove_def)
  qed
  show "ttl_find T key (ttl_remove T key s) = None"
    by (auto simp: ttl_find_def c find_None_iff)
qed

lemma ttl_remove_fields [simp]:
  "quotas (user_quotas (ttl_remove T key s)) = quotas (user_quotas s)"
  "ttl_max_size_in_bytes (ttl_remove T key s) = ttl_max_size_in_bytes s" "ttl_max_count (ttl_remove T key s) = ttl_max_count s"
  by (simp_all add: ttl_remove_def split: option.split)

lemma ttl_set_spec:
  fixes T :: "('k, 'i, 'u, 'v) ttl_types" and mapped :: 'v and key :: 'k and stale :: "'k \<Rightarrow> bool"
  assumes valid: "ttl_valid T s" and within: "ttl_within T s" and limits: "ttl_limits_ok s"
    and sz: "entry_weight T mapped < 2 ^ 63"
  defines "s' \<equiv> ttl_set T stale key mapped s"
  shows "ttl_valid T s'" and "ttl_cache s' = ttl_put T s stale key mapped (ttl_cache s)"
    and "quotas (user_quotas s') = quotas (user_quotas s)" and "ttl_max_size_in_bytes s' = ttl_max_size_in_bytes s"
    and "ttl_max_count s' = ttl_max_count s"
proof -
  let ?sz = "entry_weight T mapped" and ?loop = "ttl_remove_loop T (\<lambda>e. stale (fst e)) (ttl_cache s) s"
  define s1 where "s1 = (if \<not> ttl_fits T key ?sz s then ?loop else s)"
  have loop: "ttl_valid T ?loop" "ttl_cache ?loop = filter (\<lambda>e. \<not> stale (fst e)) (ttl_cache s)"
    using valid ttl_remove_loop_valid [OF valid order_refl, of "\<lambda>e. stale (fst e)"]
    by (auto simp: ttl_valid_def intro!: filter_cong)
  have room: "ttl_fits T key ?sz s \<longleftrightarrow> ttl_room T s key ?sz (ttl_cache s)"
    by (rule ttl_fits_iff_room [OF valid within limits sz])
  have s1: "ttl_valid T s1" "ttl_cache s1 = (if ttl_room T s key ?sz (ttl_cache s) then ttl_cache s
      else filter (\<lambda>e. \<not> stale (fst e)) (ttl_cache s))"
    "quotas (user_quotas s1) = quotas (user_quotas s)" "ttl_max_size_in_bytes s1 = ttl_max_size_in_bytes s"
    "ttl_max_count s1 = ttl_max_count s"
    using valid loop room by (simp_all add: s1_def)
  have "ttl_within T s1"
    using within ttl_within_filter [OF within loop(2)] by (simp add: s1_def)
  then have fits1: "ttl_fits T key ?sz s1 \<longleftrightarrow> ttl_room T s key ?sz (ttl_cache s1)"
    using ttl_fits_iff_room [OF s1(1) _ _ sz] limits s1(3-5) ttl_room_cong [OF s1(3-5), of T] by (simp add: ttl_limits_ok_def)
  note erase = ttl_remove_spec [OF s1(1), of key]
  have s': "s' = (if ttl_room T s key ?sz (ttl_cache s1)
      then ttl_insert T key mapped (ttl_remove T key s1) else s1)"
    unfolding s'_def ttl_set_def Let_def s1_def [symmetric] fits1 ttl_remove_def ..
  show "ttl_valid T s'"
    using s1(1) ttl_insert_valid [OF erase(1,3)] by (simp add: s')
  show "ttl_cache s' = ttl_put T s stale key mapped (ttl_cache s)"
    using erase(2) by (simp add: s' ttl_put_def Let_def s1(2))
  show "quotas (user_quotas s') = quotas (user_quotas s)" "ttl_max_size_in_bytes s' = ttl_max_size_in_bytes s"
    "ttl_max_count s' = ttl_max_count s"
    using s1(3-5) by (simp_all add: s')
qed

lemma ttl_put_within:
  assumes within: "ttl_within T s" and s': "ttl_cache s' = ttl_put T s stale key mapped (ttl_cache s)"
    "quotas (user_quotas s') = quotas (user_quotas s)" "ttl_max_size_in_bytes s' = ttl_max_size_in_bytes s"
    "ttl_max_count s' = ttl_max_count s"
  shows "ttl_within T s'"
proof -
  let ?sz = "entry_weight T mapped"
  define kept where "kept = (if ttl_room T s key ?sz (ttl_cache s) then ttl_cache s else filter (\<lambda>e. \<not> stale (fst e)) (ttl_cache s))"
  have kept: "kept = filter (\<lambda>e. ttl_room T s key ?sz (ttl_cache s) \<or> \<not> stale (fst e)) (ttl_cache s)"
    by (simp add: kept_def)
  show ?thesis
  proof (cases "ttl_room T s key ?sz kept")
    case False
    then have "ttl_cache s' = kept"
      using s'(1) by (simp add: ttl_put_def Let_def kept_def)
    then show ?thesis
      using ttl_within_filter [OF within _ s'(2-4)] kept by simp
  next
    case True
    let ?rest = "filter (\<lambda>e. key_ident T (fst e) \<noteq> key_ident T key) kept"
    have c: "ttl_cache s' = ?rest @ [(key, mapped)]"
      using s'(1) True by (simp add: ttl_put_def Let_def kept_def)
    have b: "ttl_bytes T ?rest \<le> ttl_bytes T kept" "length ?rest \<le> length kept"
      by (simp_all add: ttl_bytes_filter)
    have ub: "ttl_bytes T (user_entries T u ?rest) \<le> ttl_bytes T (user_entries T u kept)"
      "length (user_entries T u ?rest) \<le> length (user_entries T u kept)" for u
      by (simp_all add: user_entries_filter ttl_bytes_filter)
    have within1: "ttl_within T (s\<lparr>ttl_cache := kept\<rparr>)"
      by (rule ttl_within_filter [OF within]) (simp_all add: kept)
    have quota: "(res_size_in_bytes r \<noteq> 0 \<longrightarrow> ttl_bytes T (user_entries T u (ttl_cache s')) \<le> unat (res_size_in_bytes r))
        \<and> (res_num_items r \<noteq> 0 \<longrightarrow> length (user_entries T u (ttl_cache s')) \<le> unat (res_num_items r))"
      if r: "quotas (user_quotas s) u = Some r" for u r
    proof (cases "key_user T key = Some u")
      case True
      then show ?thesis
        using \<open>ttl_room T s key ?sz kept\<close> r ub [of u]
        by (auto simp: c ttl_room_def user_entries_def ttl_bytes_def weight_of_def)
    next
      case False
      then show ?thesis
        using within1 r ub [of u] by (fastforce simp: c ttl_within_def user_entries_def)
    qed
    have "length kept < ttl_max_count s"
      using True by (simp add: ttl_room_def)
    then have "length (ttl_cache s') \<le> ttl_max_count s"
      using le_less_trans [OF length_filter_le] by (simp add: c Suc_le_eq)
    moreover have "ttl_bytes T (ttl_cache s') \<le> unat (ttl_max_size_in_bytes s)"
      using True b(1) by (simp add: c ttl_room_def ttl_bytes_def weight_of_def)
    ultimately show ?thesis
      using quota by (simp add: ttl_within_def s'(2-4))
  qed
qed

section \<open>Histories\<close>

datatype ('k, 'v) ttl_op =
    TtlSet "'k \<Rightarrow> bool" 'k 'v
  | TtlRemove 'k
  | TtlRemoveIf "'k \<Rightarrow> 'v \<Rightarrow> bool"
  | TtlClear

fun ttl_step :: "('k, 'i, 'u, 'v) ttl_types \<Rightarrow> ('k, 'v) ttl_op \<Rightarrow> ('k, 'u, 'v) ttl \<Rightarrow> ('k, 'u, 'v) ttl" where
  "ttl_step T (TtlSet stale key mapped) s = ttl_set T stale key mapped s"
| "ttl_step T (TtlRemove key) s = ttl_remove T key s"
| "ttl_step T (TtlRemoveIf p) s = ttl_remove_if T p s"
| "ttl_step T TtlClear s = ttl_clear s"

fun ttl_op_ok :: "('k, 'i, 'u, 'v) ttl_types \<Rightarrow> ('k, 'v) ttl_op \<Rightarrow> bool" where
  "ttl_op_ok T (TtlSet stale key mapped) \<longleftrightarrow> entry_weight T mapped < 2 ^ 63"
| "ttl_op_ok T _ \<longleftrightarrow> True"

text \<open>A policy after its limits and quotas are set, before the first entry.\<close>

fun ttl_configure :: "64 word \<Rightarrow> nat \<Rightarrow> ('u \<times> 64 word \<times> 64 word) list \<Rightarrow> ('k, 'u, 'v) ttl" where
  "ttl_configure max_size max_count [] = ttl_setMaxCount max_count (ttl_setMaxSizeInBytes max_size new_TTLCachePolicy)"
| "ttl_configure max_size max_count ((u, sz, n) # qs) = ttl_setQuotaForUser u sz n (ttl_configure max_size max_count qs)"

definition ttl_same_limits :: "('k, 'u, 'v) ttl \<Rightarrow> ('k, 'u, 'v) ttl \<Rightarrow> bool" where
  "ttl_same_limits s s' \<longleftrightarrow> quotas (user_quotas s') = quotas (user_quotas s)
     \<and> ttl_max_size_in_bytes s' = ttl_max_size_in_bytes s \<and> ttl_max_count s' = ttl_max_count s"

lemma ttl_step_keeps:
  assumes "ttl_valid T s" and "ttl_within T s" and "ttl_limits_ok s" and "ttl_op_ok T oper"
  shows "ttl_valid T (ttl_step T oper s) \<and> ttl_within T (ttl_step T oper s) \<and> ttl_same_limits s (ttl_step T oper s)"
proof (cases oper)
  case (TtlSet stale key mapped)
  then show ?thesis
    using ttl_set_spec [OF assms(1-3), of mapped stale key] assms(4)
      ttl_put_within [OF assms(2), of "ttl_set T stale key mapped s" stale key mapped]
    by (simp add: ttl_same_limits_def)
next
  case (TtlRemove key)
  then show ?thesis
    using ttl_remove_spec [OF assms(1), of key] ttl_within_filter [OF assms(2), of "ttl_remove T key s"]
    by (simp add: ttl_same_limits_def)
next
  case (TtlRemoveIf p)
  have d: "distinct_keys T (ttl_cache s)"
    using assms(1) by (simp add: ttl_valid_def)
  show ?thesis
    using TtlRemoveIf ttl_remove_loop_valid [OF assms(1) order_refl d, of "\<lambda>e. p (fst e) (snd e)"]
      ttl_within_filter [OF assms(2), of "ttl_remove_if T p s"]
    by (simp add: ttl_same_limits_def ttl_remove_if_def)
next
  case TtlClear
  have "ttl_valid T (ttl_clear s)"
    by (simp add: ttl_valid_def ttl_clear_def distinct_keys_def)
  moreover have "ttl_within T (ttl_clear s)"
    by (rule ttl_within_filter [OF assms(2), of _ "\<lambda>_. False"]) (simp_all add: ttl_clear_def)
  ultimately show ?thesis
    using TtlClear by (simp add: ttl_same_limits_def ttl_clear_def)
qed

lemma ttl_run_keeps:
  assumes "ttl_valid T s" and "ttl_within T s" and "ttl_limits_ok s" and "list_all (ttl_op_ok T) ops"
  shows "ttl_valid T (fold (ttl_step T) ops s) \<and> ttl_within T (fold (ttl_step T) ops s)
    \<and> ttl_same_limits s (fold (ttl_step T) ops s)"
  using assms
proof (induction ops arbitrary: s)
  case (Cons oper ops)
  have "ttl_valid T (ttl_step T oper s) \<and> ttl_within T (ttl_step T oper s) \<and> ttl_same_limits s (ttl_step T oper s)"
    using ttl_step_keeps [OF Cons.prems(1-3)] Cons.prems(4) by simp
  then show ?case
    using Cons.IH [of "ttl_step T oper s"] Cons.prems(3,4) by (simp add: ttl_same_limits_def ttl_limits_ok_def)
qed (simp add: ttl_same_limits_def)

lemma ttl_configure_fields:
  "ttl_cache (ttl_configure max_size max_count qs) = []" "ttl_size_in_bytes (ttl_configure max_size max_count qs) = 0"
  "ttl_max_size_in_bytes (ttl_configure max_size max_count qs) = max_size" "ttl_max_count (ttl_configure max_size max_count qs) = max_count"
  "actual (user_quotas (ttl_configure max_size max_count qs)) = Map.empty"
  by (induction qs rule: ttl_configure.induct)
     (simp_all add: ttl_setMaxCount_def ttl_setMaxSizeInBytes_def new_TTLCachePolicy_def ttl_setQuotaForUser_def setQuotaForUser_def new_user_quota_def)

lemma ttl_configure_valid:
  "ttl_valid T (ttl_configure max_size max_count qs)" "ttl_within T (ttl_configure max_size max_count qs)"
  by (simp_all add: ttl_valid_def ttl_within_def distinct_keys_def ttl_configure_fields usage_def ttl_bytes_def user_entries_def)

lemma find_append_key: "find P (filter (\<lambda>e. \<not> P e) es @ [e]) = (if P e then Some e else None)"
  by (induction es) simp_all

lemmas ttl_eval = ttl_setQuotaForUser_def setQuotaForUser_def ttl_setMaxCount_def ttl_setMaxSizeInBytes_def
  new_TTLCachePolicy_def new_user_quota_def ttl_set_def ttl_fits_def sufficient_space_in_cache_def
  sufficient_space_in_cache_for_user_def approveWrite_def usage_def ttl_find_def ttl_insert_def increaseActual_def ttl_erase_def decreaseActual_def
  ttl_room_def ttl_bytes_def weight_of_def user_entries_def ttl_getWithKey_def

section \<open>Properties\<close>

text \<open>C22: The limits of the query cache's policy hold: after any history of writes, removals and clears on a policy
  with given limits and quotas, the entries weigh at most the maximum size and are at most the maximum
  number, the entries of every user respect the quota of that user (a quota of zero is none), and the
  counters of the policy and of every user are the exact sums over the entries.\<close>

theorem ttl_limits_hold:
  fixes T :: "('k, 'i, 'u, 'v) ttl_types"
  assumes "max_size \<le> 2 ^ 63" and "max_count < 2 ^ 63" and "list_all (ttl_op_ok T) ops"
  shows "let s = fold (ttl_step T) ops (ttl_configure max_size max_count qs);
             quota = quotas (user_quotas (ttl_configure max_size max_count qs :: ('k, 'u, 'v) ttl))
         in ttl_bytes T (ttl_cache s) \<le> unat max_size \<and> length (ttl_cache s) \<le> max_count
            \<and> unat (ttl_size_in_bytes s) = ttl_bytes T (ttl_cache s)
            \<and> (\<forall>u. let es = user_entries T u (ttl_cache s)
                   in unat (res_size_in_bytes (usage (user_quotas s) u)) = ttl_bytes T es
                      \<and> unat (res_num_items (usage (user_quotas s) u)) = length es
                      \<and> (case quota u of None \<Rightarrow> True
                         | Some r \<Rightarrow> (res_size_in_bytes r = 0 \<or> ttl_bytes T es \<le> unat (res_size_in_bytes r))
                             \<and> (res_num_items r = 0 \<or> length es \<le> unat (res_num_items r))))"
proof -
  define c :: "('k, 'u, 'v) ttl" where "c = ttl_configure max_size max_count qs"
  define s where "s = fold (ttl_step T) ops c"
  have "ttl_limits_ok c"
    using assms(1,2) by (simp add: c_def ttl_limits_ok_def ttl_configure_fields)
  then have run: "ttl_valid T s" "ttl_within T s" "ttl_same_limits c s"
    using ttl_run_keeps [of T c ops] assms(3) ttl_configure_valid [of T max_size max_count qs] by (simp_all add: c_def s_def)
  have "unat max_size \<le> 2 ^ 63"
    using assms(1) by (simp add: word_le_nat_alt)
  then have b: "ttl_bytes T (ttl_cache s) \<le> unat max_size" "length (ttl_cache s) \<le> max_count"
    "ttl_bytes T (ttl_cache s) < 2 ^ 64" "length (ttl_cache s) < 2 ^ 64"
    using run(2,3) assms(2) by (simp_all add: ttl_within_def ttl_same_limits_def c_def ttl_configure_fields)
  have u: "unat (res_size_in_bytes (usage (user_quotas s) u)) = ttl_bytes T (user_entries T u (ttl_cache s))
      \<and> unat (res_num_items (usage (user_quotas s) u)) = length (user_entries T u (ttl_cache s))" for u
    by (rule usage_exact [OF run(1) b(3,4)])
  have q: "case quotas (user_quotas c) u of None \<Rightarrow> True
      | Some r \<Rightarrow> (res_size_in_bytes r = 0 \<or> ttl_bytes T (user_entries T u (ttl_cache s)) \<le> unat (res_size_in_bytes r))
          \<and> (res_num_items r = 0 \<or> length (user_entries T u (ttl_cache s)) \<le> unat (res_num_items r))" for u
    using run(2,3) by (auto simp: ttl_within_def ttl_same_limits_def split: option.split)
  show ?thesis
    using b u q unat_sum_weights [OF b(3)] run(1) unfolding c_def [symmetric] s_def [symmetric] Let_def
    by (simp add: ttl_valid_def)
qed

theorem ttl_limits_hold_witness:
  "let T = \<lparr>key_ident = fst, key_user = snd, entry_weight = of_nat \<circ> length\<rparr>;
       s = fold (ttl_step T) [TtlSet (\<lambda>_. False) (7::nat, Some True) ''abc'', TtlSet (\<lambda>_. False) (8, Some True) ''d'']
             (ttl_configure 10 5 [(True, 3, 0)])
   in ttl_bytes T (ttl_cache s) \<le> 10 \<and> ttl_bytes T (user_entries T True (ttl_cache s)) \<le> 3"
  using ttl_limits_hold [of 10 5 "\<lparr>key_ident = fst, key_user = snd, entry_weight = of_nat \<circ> length\<rparr>"
      "[TtlSet (\<lambda>_. False) (7::nat, Some True) ''abc'', TtlSet (\<lambda>_. False) (8, Some True) ''d'']" "[(True, 3, 0)]"]
  by (simp add: Let_def ttl_setQuotaForUser_def setQuotaForUser_def del: fold.simps ttl_step.simps)
     (auto dest: spec [of _ True] simp del: fold.simps ttl_step.simps)

text \<open>C32: A write to the query cache's policy never evicts an entry that has not expired, except one of the same
  key: in any state that a history reaches, \<^verbatim>\<open>set\<close> leaves the entries alone if the new one has room beside
  them, drops exactly the stale ones otherwise, and then replaces the entry of the key if the new one
  has room, or else stores nothing.\<close>

theorem ttl_set_keeps_live_entries:
  fixes T :: "('k, 'i, 'u, 'v) ttl_types"
  assumes "max_size \<le> 2 ^ 63" and "max_count < 2 ^ 63" and "list_all (ttl_op_ok T) ops" and "entry_weight T mapped < 2 ^ 63"
  shows "let s = fold (ttl_step T) ops (ttl_configure max_size max_count qs);
             s' = ttl_set T stale key mapped s;
             room = ttl_room T s key (entry_weight T mapped);
             kept = (if room (ttl_cache s) then ttl_cache s else filter (\<lambda>(k, v). \<not> stale k) (ttl_cache s))
         in ttl_cache s' = (if room kept then filter (\<lambda>(k, v). key_ident T k \<noteq> key_ident T key) kept @ [(key, mapped)] else kept)
            \<and> ttl_getWithKey T key s' = (if room kept then Some (key, mapped) else ttl_getWithKey T key (s\<lparr>ttl_cache := kept\<rparr>))"
proof -
  define c :: "('k, 'u, 'v) ttl" where "c = ttl_configure max_size max_count qs"
  define s where "s = fold (ttl_step T) ops c"
  have c: "ttl_limits_ok c"
    using assms(1,2) by (simp add: c_def ttl_limits_ok_def ttl_configure_fields)
  then have run: "ttl_valid T s" "ttl_within T s" "ttl_same_limits c s"
    using ttl_run_keeps [of T c ops] assms(3) ttl_configure_valid [of T max_size max_count qs] by (simp_all add: c_def s_def)
  have "ttl_limits_ok s"
    using c run(3) by (simp add: ttl_limits_ok_def ttl_same_limits_def)
  note set = ttl_set_spec(2) [OF run(1,2) this assms(4), of stale key]
  show ?thesis
    unfolding c_def [symmetric] s_def [symmetric] Let_def set ttl_getWithKey_def ttl_find_def
    by (simp add: ttl_put_def Let_def case_prod_unfold find_append_key del: filter_filter)
qed

theorem ttl_set_keeps_live_entries_witness:
  "let T = \<lparr>key_ident = fst, key_user = snd, entry_weight = of_nat \<circ> length\<rparr>;
       s = fold (ttl_step T) [TtlSet (\<lambda>_. False) (7::nat, Some True) ''abc''] (ttl_configure 10 1 [(True, 3, 0)]);
       s' = ttl_set T (\<lambda>k. fst k = 7) (8, None) ''d'' s
   in ttl_getWithKey T (8, None) s' = Some ((8, None), ''d'')"
  using ttl_set_keeps_live_entries [of 10 1 "\<lparr>key_ident = fst, key_user = snd, entry_weight = of_nat \<circ> length\<rparr>"
      "[TtlSet (\<lambda>_. False) (7::nat, Some True) ''abc'']" "''d''" "[(True, 3, 0)]" "\<lambda>k. fst k = 7" "(8, None)"]
  by (simp add: Let_def ttl_eval)

end
