(* ===== verification/Hash_SipHash.thy ===== *)
theory Hash_SipHash
  imports IO_Binary
begin

text \<open>
  The streaming hash of \<^verbatim>\<open>src/src/Common/SipHash.h\<close> and \<^verbatim>\<open>SipHash.cpp\<close>, on a little-endian machine, and its
  equivalence with the hash of a whole message as the SipHash-2-4 specification defines it.
\<close>

unbundle bit_operations_syntax

section \<open>State and rounds\<close>

record sip_words =
  sip_v0 :: "64 word"
  sip_v1 :: "64 word"
  sip_v2 :: "64 word"
  sip_v3 :: "64 word"

record siphash =
  sip_v :: sip_words
  sip_cnt :: "64 word"
  is_reference_128 :: bool
  current_bytes :: "byte list"

definition SIPROUND :: "sip_words \<Rightarrow> sip_words" where
  "SIPROUND v =
     (let v0 = sip_v0 v; v1 = sip_v1 v; v2 = sip_v2 v; v3 = sip_v3 v;
          v0 = v0 + v1; v1 = word_rotl 13 v1; v1 = v1 XOR v0; v0 = word_rotl 32 v0;
          v2 = v2 + v3; v3 = word_rotl 16 v3; v3 = v3 XOR v2;
          v0 = v0 + v3; v3 = word_rotl 21 v3; v3 = v3 XOR v0;
          v2 = v2 + v1; v1 = word_rotl 17 v1; v1 = v1 XOR v2; v2 = word_rotl 32 v2
      in \<lparr>sip_v0 = v0, sip_v1 = v1, sip_v2 = v2, sip_v3 = v3\<rparr>)"

definition word_of_bytes :: "byte list \<Rightarrow> 64 word" where
  "word_of_bytes bs = word_of_int (le_value bs)"

definition sip_mix :: "64 word \<Rightarrow> sip_words \<Rightarrow> sip_words" where
  "sip_mix w v =
     (let v = SIPROUND (SIPROUND (v\<lparr>sip_v3 := sip_v3 v XOR w\<rparr>)) in v\<lparr>sip_v0 := sip_v0 v XOR w\<rparr>)"

definition new_SipHash :: "64 word \<Rightarrow> 64 word \<Rightarrow> bool \<Rightarrow> siphash" where
  "new_SipHash key0 key1 reference =
     \<lparr>sip_v = \<lparr>sip_v0 = 0x736f6d6570736575 XOR key0,
               sip_v1 = (if reference then (0x646f72616e646f6d XOR key1) XOR 0xee else 0x646f72616e646f6d XOR key1),
               sip_v2 = 0x6c7967656e657261 XOR key0, sip_v3 = 0x7465646279746573 XOR key1\<rparr>,
      sip_cnt = 0, is_reference_128 = reference, current_bytes = replicate 8 0\<rparr>"

section \<open>Operations\<close>

text \<open>The three loops of \<^verbatim>\<open>update\<close>: complete the word begun before, absorb whole words, keep the remainder.\<close>

fun sip_fill :: "byte list \<Rightarrow> siphash \<Rightarrow> byte list \<times> siphash" where
  "sip_fill [] st = ([], st)"
| "sip_fill (b # data) st =
     (if sip_cnt st AND 7 = 0 then (b # data, st)
      else sip_fill data (st\<lparr>current_bytes := (current_bytes st)[unat (sip_cnt st AND 7) := b], sip_cnt := sip_cnt st + 1\<rparr>))"

function sip_blocks :: "byte list \<Rightarrow> siphash \<Rightarrow> byte list \<times> siphash" where
  "sip_blocks data st =
     (if length data < 8 then (data, st)
      else sip_blocks (drop 8 data)
             (st\<lparr>current_bytes := take 8 data, sip_v := sip_mix (word_of_bytes (take 8 data)) (sip_v st)\<rparr>))"
  by pat_completeness auto
termination
  by (relation "measure (length \<circ> fst)") auto

declare sip_blocks.simps [simp del]

definition sip_tail :: "byte list \<Rightarrow> siphash \<Rightarrow> siphash" where
  "sip_tail data st =
     (case sip_blocks data (st\<lparr>sip_cnt := sip_cnt st + of_nat (length data)\<rparr>) of
        (rest, st') \<Rightarrow> st'\<lparr>current_bytes := rest @ replicate (8 - length rest) 0\<rparr>)"

definition sip_update :: "byte list \<Rightarrow> siphash \<Rightarrow> siphash" where
  "sip_update data st =
     (if sip_cnt st AND 7 \<noteq> 0 then
        (case sip_fill data st of
           (data', st') \<Rightarrow>
             if sip_cnt st' AND 7 \<noteq> 0 then st'
             else sip_tail data' (st'\<lparr>sip_v := sip_mix (word_of_bytes (current_bytes st')) (sip_v st')\<rparr>))
      else sip_tail data st)"

definition sip_update_string :: "string \<Rightarrow> siphash \<Rightarrow> siphash" where
  "sip_update_string s = sip_update (map byte_of_char s)"

definition sip_finalize :: "siphash \<Rightarrow> siphash" where
  "sip_finalize st =
     (let bytes = (current_bytes st)[7 := ucast (sip_cnt st)];
          v = sip_mix (word_of_bytes bytes) (sip_v st);
          v = v\<lparr>sip_v2 := sip_v2 v XOR (if is_reference_128 st then 0xee else 0xff)\<rparr>
      in st\<lparr>current_bytes := bytes, sip_v := SIPROUND (SIPROUND (SIPROUND (SIPROUND v)))\<rparr>)"

definition sip_xor :: "sip_words \<Rightarrow> 64 word" where
  "sip_xor v = sip_v0 v XOR sip_v1 v XOR sip_v2 v XOR sip_v3 v"

definition sip_get64 :: "siphash \<Rightarrow> 64 word" where
  "sip_get64 st = sip_xor (sip_v (sip_finalize st))"

definition sip_get128 :: "siphash \<Rightarrow> 64 word \<times> 64 word" where
  "sip_get128 st =
     (let v = sip_v (sip_finalize st) in (sip_v0 v XOR sip_v1 v, sip_v2 v XOR sip_v3 v))"

definition sip_get128Reference :: "siphash \<Rightarrow> 128 word result" where
  "sip_get128Reference st =
     (if \<not> is_reference_128 st then Inl LOGICAL_ERROR
      else let v = sip_v (sip_finalize st);
               lo = sip_xor v;
               v = v\<lparr>sip_v1 := sip_v1 v XOR 0xdd\<rparr>;
               hi = sip_xor (SIPROUND (SIPROUND (SIPROUND (SIPROUND v))))
           in Inr (push_bit 64 (ucast hi) OR ucast lo))"

definition sipHash64Keyed :: "64 word \<Rightarrow> 64 word \<Rightarrow> byte list \<Rightarrow> 64 word" where
  "sipHash64Keyed key0 key1 data = sip_get64 (sip_update data (new_SipHash key0 key1 False))"

definition sipHash128Keyed :: "64 word \<Rightarrow> 64 word \<Rightarrow> byte list \<Rightarrow> 64 word \<times> 64 word" where
  "sipHash128Keyed key0 key1 data = sip_get128 (sip_update data (new_SipHash key0 key1 False))"

definition sipHash128ReferenceKeyed :: "64 word \<Rightarrow> 64 word \<Rightarrow> byte list \<Rightarrow> 128 word result" where
  "sipHash128ReferenceKeyed key0 key1 data = sip_get128Reference (sip_update data (new_SipHash key0 key1 True))"

section \<open>The specification\<close>

text \<open>
  SipHash-2-4 as its authors define it, written without the functions above: the round as two pairs of
  half rounds, the initial state from the text ``somepseudorandomlygeneratedbytes'', the message as a
  list of words of which the last one is padded with zeros and ends in the length modulo 256.  With
  \<open>reference\<close> it is the variant of 128 bits of output.
\<close>

definition spec_round :: "sip_words \<Rightarrow> sip_words" where
  "spec_round v =
     (let v0 = sip_v0 v + sip_v1 v; v2 = sip_v2 v + sip_v3 v;
          v1 = word_rotl 13 (sip_v1 v) XOR v0; v3 = word_rotl 16 (sip_v3 v) XOR v2;
          v0 = word_rotl 32 v0;
          v2 = v2 + v1; v0 = v0 + v3
      in \<lparr>sip_v0 = v0, sip_v1 = word_rotl 17 v1 XOR v2, sip_v2 = word_rotl 32 v2, sip_v3 = word_rotl 21 v3 XOR v0\<rparr>)"

definition spec_text :: "string \<Rightarrow> 64 word" where
  "spec_text cs = foldl (\<lambda>w c. w * 256 + word_of_nat (of_char c)) 0 cs"

definition spec_init :: "64 word \<Rightarrow> 64 word \<Rightarrow> bool \<Rightarrow> sip_words" where
  "spec_init key0 key1 reference =
     \<lparr>sip_v0 = key0 XOR spec_text ''somepseu'',
      sip_v1 = key1 XOR spec_text ''dorandom'' XOR (if reference then 0xee else 0),
      sip_v2 = key0 XOR spec_text ''lygenera'', sip_v3 = key1 XOR spec_text ''tedbytes''\<rparr>"

definition spec_compress :: "64 word \<Rightarrow> sip_words \<Rightarrow> sip_words" where
  "spec_compress m v =
     (let u = (spec_round ^^ 2) (v\<lparr>sip_v3 := sip_v3 v XOR m\<rparr>) in u\<lparr>sip_v0 := sip_v0 u XOR m\<rparr>)"

definition sip_rest :: "byte list \<Rightarrow> byte list" where
  "sip_rest msg = drop (length msg div 8 * 8) msg"

definition whole_words :: "byte list \<Rightarrow> 64 word list" where
  "whole_words msg = map (\<lambda>i. word_of_bytes (take 8 (drop (8 * i) msg))) [0..<length msg div 8]"

definition last_word :: "byte list \<Rightarrow> 64 word" where
  "last_word msg =
     word_of_bytes (sip_rest msg @ replicate (7 - length (sip_rest msg)) 0 @ [word_of_nat (length msg mod 256)])"

definition sip_message :: "64 word \<Rightarrow> 64 word \<Rightarrow> bool \<Rightarrow> byte list \<Rightarrow> sip_words" where
  "sip_message key0 key1 reference msg =
     (let v = fold spec_compress (whole_words msg @ [last_word msg]) (spec_init key0 key1 reference)
      in (spec_round ^^ 4) (v\<lparr>sip_v2 := sip_v2 v XOR (if reference then 0xee else 0xff)\<rparr>))"

lemma funpow_four: "(f ^^ 4) x = f (f (f (f x)))"
  by (simp add: eval_nat_numeral)

lemma spec_round: "spec_round = SIPROUND"
  by (rule ext) (simp add: spec_round_def SIPROUND_def Let_def)

lemma spec_compress: "spec_compress = sip_mix"
  by (intro ext) (simp add: spec_compress_def sip_mix_def spec_round numeral_2_eq_2)

lemma spec_init: "spec_init key0 key1 reference = sip_v (new_SipHash key0 key1 reference)"
  by (simp add: spec_init_def new_SipHash_def spec_text_def ac_simps)

section \<open>The state between updates\<close>

function sip_absorb :: "byte list \<Rightarrow> sip_words \<Rightarrow> sip_words" where
  "sip_absorb msg v =
     (if length msg < 8 then v else sip_absorb (drop 8 msg) (sip_mix (word_of_bytes (take 8 msg)) v))"
  by pat_completeness auto
termination
  by (relation "measure (length \<circ> fst)") auto

declare sip_absorb.simps [simp del]

lemma whole_words_Cons:
  assumes "8 \<le> length msg"
  shows "whole_words msg = word_of_bytes (take 8 msg) # whole_words (drop 8 msg)"
proof -
  have "length msg div 8 = Suc (length (drop 8 msg) div 8)"
    using assms by (simp add: le_div_geq)
  then show ?thesis
    by (simp add: whole_words_def upt_conv_Cons map_Suc_upt [symmetric] add.commute del: upt_Suc)
qed

lemma sip_absorb_words: "sip_absorb msg v = fold sip_mix (whole_words msg) v"
proof (induction msg v rule: sip_absorb.induct)
  case (1 msg v)
  show ?case
  proof (cases "length msg < 8")
    case True
    then show ?thesis
      by (simp add: sip_absorb.simps [of msg] whole_words_def)
  next
    case False
    then show ?thesis
      using 1 by (simp add: sip_absorb.simps [of msg] whole_words_Cons)
  qed
qed

section \<open>Streaming\<close>

definition sip_state :: "64 word \<Rightarrow> 64 word \<Rightarrow> bool \<Rightarrow> byte list \<Rightarrow> siphash" where
  "sip_state key0 key1 reference msg =
     \<lparr>sip_v = sip_absorb msg (sip_v (new_SipHash key0 key1 reference)), sip_cnt = word_of_nat (length msg),
      is_reference_128 = reference, current_bytes = sip_rest msg @ replicate (8 - length (sip_rest msg)) 0\<rparr>"

lemma cnt_and_7: "(word_of_nat n :: 64 word) AND 7 = word_of_nat (n mod 8)"
proof -
  have "(word_of_nat n :: 64 word) AND mask 3 = take_bit 3 (word_of_nat n)"
    by (simp add: take_bit_eq_mask)
  also have "\<dots> = word_of_nat (take_bit 3 n)"
    by (simp add: take_bit_of_nat)
  finally show ?thesis
    by (simp add: mask_eq_exp_minus_1 take_bit_eq_mod)
qed

lemma cnt_and_7_unat: "unat ((word_of_nat n :: 64 word) AND 7) = n mod 8"
proof -
  have "n mod 8 < 2 ^ 64"
    by (rule less_le_trans [of _ 8]) simp_all
  then show ?thesis
    unfolding cnt_and_7 by (simp add: unat_of_nat take_bit_nat_eq_self)
qed

lemma cnt_and_7_zero: "(word_of_nat n :: 64 word) AND 7 = 0 \<longleftrightarrow> n mod 8 = 0"
  using cnt_and_7_unat [of n] by (metis unat_eq_zero)

lemma sip_rest_length: "length (sip_rest msg) = length msg mod 8"
  by (simp add: sip_rest_def minus_div_mult_eq_mod)

lemma sip_absorb_append:
  "length xs mod 8 = 0 \<Longrightarrow> sip_absorb (xs @ ys) v = sip_absorb ys (sip_absorb xs v)"
proof (induction xs v rule: sip_absorb.induct)
  case (1 xs v)
  show ?case
  proof (cases "length xs < 8")
    case True
    then have "xs = []"
      using 1(2) by simp
    then show ?thesis
      by (simp add: sip_absorb.simps [of "[]"])
  next
    case False
    then have "length (drop 8 xs) mod 8 = 0"
      using 1(2) by (simp add: le_mod_geq)
    with False 1(1) show ?thesis
      by (simp add: sip_absorb.simps [of "xs @ ys"] sip_absorb.simps [of xs])
  qed
qed

lemma sip_absorb_rest:
  assumes "length msg mod 8 + length data < 8"
  shows "sip_absorb (msg @ data) v = sip_absorb msg v"
proof -
  let ?n = "length msg div 8 * 8"
  have n: "length (take ?n msg) mod 8 = 0" "msg = take ?n msg @ sip_rest msg"
    by (simp_all add: sip_rest_def min.absorb2)
  have short: "sip_absorb ys v = v" if "length ys < 8" for ys v
    using that by (simp add: sip_absorb.simps [of ys])
  have "sip_absorb (msg @ data) v = sip_absorb (sip_rest msg @ data) (sip_absorb (take ?n msg) v)"
    by (metis append.assoc n sip_absorb_append)
  also have "\<dots> = sip_absorb (sip_rest msg) (sip_absorb (take ?n msg) v)"
    using assms by (simp add: short sip_rest_length)
  also have "\<dots> = sip_absorb msg v"
    by (metis n sip_absorb_append)
  finally show ?thesis .
qed

lemma sip_rest_extend:
  assumes "length msg mod 8 + length data < 8"
  shows "sip_rest (msg @ data) = sip_rest msg @ data"
proof -
  have "(length msg + length data) div 8 = length msg div 8"
    using assms by (simp add: div_add1_eq [of "length msg"])
  then show ?thesis
    by (simp add: sip_rest_def)
qed

lemma sip_absorb_complete:
  assumes "length (sip_rest msg @ data) = 8"
  shows "sip_absorb (msg @ data) v = sip_mix (word_of_bytes (sip_rest msg @ data)) (sip_absorb msg v)"
proof -
  let ?n = "length msg div 8 * 8"
  have n: "length (take ?n msg) mod 8 = 0" "msg = take ?n msg @ sip_rest msg"
    by (simp_all add: sip_rest_def min.absorb2)
  have one: "sip_absorb ys v = sip_mix (word_of_bytes ys) v" if "length ys = 8" for ys v
    using that by (simp add: sip_absorb.simps [of ys] sip_absorb.simps [of "[]"])
  have "sip_absorb (msg @ data) v = sip_absorb (sip_rest msg @ data) (sip_absorb (take ?n msg) v)"
    by (metis append.assoc n sip_absorb_append)
  moreover have "sip_absorb (take ?n msg) v = sip_absorb msg v"
    using sip_absorb_rest [of "take ?n msg" "sip_rest msg" v] n sip_rest_length [of msg] by simp
  ultimately show ?thesis
    using one [OF assms] by simp
qed

lemma sip_rest_append: "length msg mod 8 = 0 \<Longrightarrow> sip_rest (msg @ data) = sip_rest data"
proof -
  assume "length msg mod 8 = 0"
  then have "(length msg + length data) div 8 * 8 = length msg + length data div 8 * 8"
    by (auto simp: div_add1_eq [of "length msg"] mod_eq_0_iff_dvd distrib_right)
  then show ?thesis
    by (simp add: sip_rest_def)
qed

lemma sip_blocks_absorb:
  "\<exists>cb. sip_blocks data st = (sip_rest data, st\<lparr>sip_v := sip_absorb data (sip_v st), current_bytes := cb\<rparr>)"
proof (induction data st rule: sip_blocks.induct)
  case (1 data st)
  show ?case
  proof (cases "length data < 8")
    case True
    then show ?thesis
      by (auto simp: sip_blocks.simps [of data] sip_absorb.simps [of data] sip_rest_def intro: exI [of _ "current_bytes st"])
  next
    case False
    then have "sip_rest data = sip_rest (drop 8 data)"
      using sip_rest_append [of "take 8 data" "drop 8 data"] by simp
    then show ?thesis
      using 1 [OF False] False by (auto simp: sip_blocks.simps [of data] sip_absorb.simps [of data])
  qed
qed

lemma sip_tail_state:
  assumes "length msg mod 8 = 0" and "sip_v st = sip_absorb msg (sip_v (new_SipHash key0 key1 reference))"
    and "sip_cnt st = word_of_nat (length msg)" and "is_reference_128 st = reference"
  shows "sip_tail data st = sip_state key0 key1 reference (msg @ data)"
proof -
  obtain cb where "sip_blocks data (st\<lparr>sip_cnt := sip_cnt st + of_nat (length data)\<rparr>) =
      (sip_rest data, st\<lparr>sip_cnt := sip_cnt st + of_nat (length data), sip_v := sip_absorb data (sip_v st), current_bytes := cb\<rparr>)"
    using sip_blocks_absorb [of data "st\<lparr>sip_cnt := sip_cnt st + of_nat (length data)\<rparr>"] by auto
  then show ?thesis
    using assms by (cases st) (simp add: sip_tail_def sip_state_def sip_rest_append sip_absorb_append)
qed

lemma sip_fill_step:
  assumes "length msg mod 8 = r" and "Suc r < 8"
  shows "(sip_state key0 key1 reference msg)
      \<lparr>current_bytes := (current_bytes (sip_state key0 key1 reference msg))[r := b],
       sip_cnt := sip_cnt (sip_state key0 key1 reference msg) + 1\<rparr> = sip_state key0 key1 reference (msg @ [b])"
proof -
  have "length msg mod 8 + length [b] < 8"
    using assms by simp
  note ext = sip_rest_extend [OF this] sip_absorb_rest [OF this]
  have "8 - r = Suc (8 - Suc r)"
    using assms(2) by simp
  then have "(sip_rest msg @ replicate (8 - r) 0)[r := b] = sip_rest msg @ b # replicate (8 - Suc r) 0"
    using assms(1) sip_rest_length [of msg] by (simp add: list_update_append)
  then show ?thesis
    using assms(1) by (simp add: sip_state_def ext sip_rest_length)
qed

lemma sip_fill_state:
  assumes "length msg mod 8 = r" and "r \<noteq> 0"
  shows "sip_fill data (sip_state key0 key1 reference msg) =
    (if r + length data < 8 then ([], sip_state key0 key1 reference (msg @ data))
     else (drop (8 - r) data, (sip_state key0 key1 reference msg)
             \<lparr>current_bytes := sip_rest msg @ take (8 - r) data, sip_cnt := word_of_nat (length msg + (8 - r))\<rparr>))"
  using assms
proof (induction data arbitrary: msg r)
  case Nil
  have "r < 8"
    using Nil by auto
  then show ?case
    by simp
next
  case (Cons b data)
  let ?st = "sip_state key0 key1 reference"
  have r: "r < 8"
    using Cons.prems(1) by auto
  have cnt: "sip_cnt (?st msg) AND 7 \<noteq> 0" "unat (sip_cnt (?st msg) AND 7) = r"
    using Cons.prems by (simp_all add: sip_state_def cnt_and_7_zero cnt_and_7_unat)
  show ?case
  proof (cases "Suc r < 8")
    case True
    have r': "length (msg @ [b]) mod 8 = Suc r"
      using Cons.prems(1) True by (simp add: mod_Suc)
    have "sip_fill (b # data) (?st msg) = sip_fill data (?st (msg @ [b]))"
      using cnt sip_fill_step [OF Cons.prems(1) True, of key0 key1 reference b] by simp
    moreover have "8 - r = Suc (8 - Suc r)"
      using True by simp
    moreover have "sip_rest (msg @ [b]) = sip_rest msg @ [b]" "sip_absorb (msg @ [b]) v = sip_absorb msg v" for v
      using sip_rest_extend [of msg "[b]"] sip_absorb_rest [of msg "[b]"] Cons.prems(1) True by simp_all
    ultimately show ?thesis
      using Cons.IH [OF r'] by (simp add: sip_state_def)
  next
    case False
    then have r7: "r = 7"
      using r by simp
    have "(sip_rest msg @ replicate (Suc 0) 0)[7 := b] = sip_rest msg @ [b]"
      using Cons.prems(1) r7 sip_rest_length [of msg] by (simp add: list_update_append)
    moreover have "(word_of_nat (length msg) + 1 :: 64 word) AND 7 = 0"
      using Cons.prems(1) r7 cnt_and_7_zero [of "Suc (length msg)"] by (simp add: mod_Suc add.commute)
    then have "sip_fill data (?st msg\<lparr>current_bytes := cb, sip_cnt := word_of_nat (length msg) + 1\<rparr>)
        = (data, ?st msg\<lparr>current_bytes := cb, sip_cnt := word_of_nat (length msg) + 1\<rparr>)" for cb
      by (cases data) simp_all
    ultimately show ?thesis
      using cnt r7 sip_rest_length [of msg] Cons.prems(1) by (simp add: sip_state_def add.commute)
  qed
qed

lemma sip_update_state: "sip_update data (sip_state key0 key1 reference msg) = sip_state key0 key1 reference (msg @ data)"
proof (cases "length msg mod 8 = 0")
  case True
  then show ?thesis
    using sip_tail_state [OF True, of "sip_state key0 key1 reference msg"]
    by (simp add: sip_update_def sip_state_def cnt_and_7_zero)
next
  case False
  let ?r = "length msg mod 8" and ?st = "sip_state key0 key1 reference msg"
  have cnt: "sip_cnt ?st AND 7 \<noteq> 0"
    using False by (simp add: sip_state_def cnt_and_7_zero)
  show ?thesis
  proof (cases "?r + length data < 8")
    case True
    then have "length (msg @ data) mod 8 \<noteq> 0"
      using False by (simp add: mod_add_left_eq [symmetric, of "length msg"])
    then have "sip_cnt (sip_state key0 key1 reference (msg @ data)) AND 7 \<noteq> 0"
      by (simp add: sip_state_def cnt_and_7_zero del: length_append)
    then show ?thesis
      using cnt True sip_fill_state [OF refl False, of data key0 key1 reference] by (simp add: sip_update_def)
  next
    case full: False
    let ?d = "take (8 - ?r) data"
    have d: "length (sip_rest msg @ ?d) = 8" "length (msg @ ?d) = length msg + (8 - ?r)"
      using full by (simp_all add: sip_rest_length)
    have m: "length (msg @ ?d) mod 8 = 0"
      unfolding d(2) using mod_add_left_eq [of "length msg" 8 "8 - ?r"] by simp
    have "(word_of_nat (length msg + (8 - ?r)) :: 64 word) AND 7 = 0"
      using m unfolding d(2) cnt_and_7_zero .
    then have "sip_update data ?st = sip_tail (drop (8 - ?r) data)
        (?st\<lparr>current_bytes := sip_rest msg @ ?d, sip_cnt := word_of_nat (length msg + (8 - ?r)),
             sip_v := sip_mix (word_of_bytes (sip_rest msg @ ?d)) (sip_v ?st)\<rparr>)"
      using cnt full sip_fill_state [OF refl False, of data key0 key1 reference] by (simp add: sip_update_def)
    also have "\<dots> = sip_state key0 key1 reference ((msg @ ?d) @ drop (8 - ?r) data)"
      using sip_absorb_complete [OF d(1)] d(2) by (intro sip_tail_state [OF m]) (simp_all add: sip_state_def)
    finally show ?thesis
      by simp
  qed
qed

lemma sip_state_reference [simp]: "is_reference_128 (sip_state key0 key1 reference msg) = reference"
  by (simp add: sip_state_def)

lemma sip_new_state: "new_SipHash key0 key1 reference = sip_state key0 key1 reference []"
  by (simp add: sip_state_def new_SipHash_def sip_absorb.simps [of "[]"] sip_rest_def)

lemma sip_updates_state:
  "fold sip_update pieces (sip_state key0 key1 reference msg) = sip_state key0 key1 reference (msg @ concat pieces)"
  by (induction pieces arbitrary: msg) (simp_all add: sip_update_state)

lemma sip_finalize_state:
  "sip_v (sip_finalize (sip_state key0 key1 reference msg)) = sip_message key0 key1 reference msg"
proof -
  have r: "length (sip_rest msg) < 8"
    by (simp add: sip_rest_length)
  then have rep: "replicate (8 - length (sip_rest msg)) (0 :: byte) = replicate (7 - length (sip_rest msg)) 0 @ [0]"
    by (simp add: replicate_append_same flip: replicate_Suc)
  have "(ucast (word_of_nat n :: 64 word) :: byte) = word_of_nat (n mod 256)" for n
    by (rule word_unat_eq_iff [THEN iffD2])
       (simp add: unsigned_ucast_eq unat_of_nat take_bit_eq_mod mod_mod_cancel)
  then have "(sip_rest msg @ replicate (8 - length (sip_rest msg)) 0)[7 := ucast (word_of_nat (length msg) :: 64 word)] =
      sip_rest msg @ replicate (7 - length (sip_rest msg)) 0 @ [word_of_nat (length msg mod 256)]"
    using r unfolding rep by (simp add: list_update_append)
  then show ?thesis
    by (simp add: sip_finalize_def sip_state_def sip_message_def last_word_def spec_round spec_compress spec_init
        sip_absorb_words Let_def funpow_four)
qed

section \<open>Properties\<close>

text \<open>C19: The streaming hash is SipHash-2-4: however the input is cut into pieces for \<^verbatim>\<open>update\<close> (empty pieces
  included), the results of \<^verbatim>\<open>get64\<close>, \<^verbatim>\<open>get128\<close> and \<^verbatim>\<open>get128Reference\<close> are those of the specification for the
  concatenation of the pieces, and \<^verbatim>\<open>get128Reference\<close> throws exactly when the hash was not made for it.  The
  specification has its own rounds, initial constants and padding.\<close>

theorem siphash_streaming:
  "(let st = fold sip_update pieces (new_SipHash key0 key1 reference);
        v = sip_message key0 key1 reference (concat pieces);
        w = (spec_round ^^ 4) (v\<lparr>sip_v1 := sip_v1 v XOR 0xdd\<rparr>)
    in sip_get64 st = sip_v0 v XOR sip_v1 v XOR sip_v2 v XOR sip_v3 v
       \<and> sip_get128 st = (sip_v0 v XOR sip_v1 v, sip_v2 v XOR sip_v3 v)
       \<and> sip_get128Reference st =
           (if reference
            then Inr (push_bit 64 (ucast (sip_v0 w XOR sip_v1 w XOR sip_v2 w XOR sip_v3 w))
                      OR ucast (sip_v0 v XOR sip_v1 v XOR sip_v2 v XOR sip_v3 v))
            else Inl LOGICAL_ERROR))"
  by (simp add: sip_finalize_state sip_new_state sip_updates_state Let_def sip_get64_def sip_get128_def sip_get128Reference_def
      sip_xor_def spec_round funpow_four)

end
