(* ===== verification/Columns_Chunk.thy ===== *)
theory Columns_Chunk
  imports Compression_Codec
begin

text \<open>
  Chunks of columns, \<^verbatim>\<open>src/src/Processors/Chunk.cpp\<close>, over an interface of columns; numeric, constant and
  compressed columns, \<^verbatim>\<open>src/src/Columns/ColumnVector.cpp\<close>, \<^verbatim>\<open>ColumnConst.cpp\<close> and \<^verbatim>\<open>ColumnCompressed.cpp\<close>, implement
  it.  The LZ4 library is a parameter, and so is the memory an array of values reserves.  Column
  pointers are values, because columns are copied on write.
\<close>

section \<open>The interface of a column\<close>

record 'c column_ops =
  col_size :: "'c \<Rightarrow> nat"
  col_cloneEmpty :: "'c \<Rightarrow> 'c result"
  col_insertRangeFrom :: "'c \<Rightarrow> 'c \<Rightarrow> nat \<Rightarrow> nat \<Rightarrow> 'c result"
  col_removeSpecialRepresentations :: "'c \<Rightarrow> 'c"
  col_convertToFullColumnIfConst :: "'c \<Rightarrow> 'c"
  col_compress :: "bool \<Rightarrow> 'c \<Rightarrow> 'c result"
  col_decompress :: "'c \<Rightarrow> 'c result"
  col_allocatedBytes :: "'c \<Rightarrow> 64 word"

text \<open>
  What a chunk relies on.  \<open>good\<close> columns have values; \<open>plain\<close> columns can be appended to; columns of one
  \<open>kind\<close> can be mixed; decompression is right if the library is \<open>faithful\<close>.
\<close>

locale columns =
  fixes C :: "'c column_ops"
    and good plain :: "'c \<Rightarrow> bool"
    and vals :: "'c \<Rightarrow> 'a list"
    and kind :: "'c \<Rightarrow> 't"
    and faithful :: bool
  assumes size_law: "good c \<Longrightarrow> col_size C c = length (vals c)"
    and plain_good: "plain c \<Longrightarrow> good c"
    and special_law: "good c \<Longrightarrow> good (col_removeSpecialRepresentations C c)
        \<and> vals (col_removeSpecialRepresentations C c) = vals c \<and> kind (col_removeSpecialRepresentations C c) = kind c"
    and full_law: "good c \<Longrightarrow> (let d = col_convertToFullColumnIfConst C (col_removeSpecialRepresentations C c)
        in plain d \<and> vals d = vals c \<and> kind d = kind c)"
    and empty_law: "plain c \<Longrightarrow> \<exists>e. col_cloneEmpty C c = Inr e \<and> plain e \<and> vals e = [] \<and> kind e = kind c"
    and insert_law: "plain c \<Longrightarrow> plain d \<Longrightarrow> kind c = kind d \<Longrightarrow> from + len \<le> length (vals d) \<Longrightarrow>
        \<exists>e. col_insertRangeFrom C c d from len = Inr e \<and> plain e \<and> kind e = kind c
          \<and> vals e = vals c @ take len (drop from (vals d))"
    and compress_law: "good c \<Longrightarrow> col_compress C force c = Inr d \<Longrightarrow> col_size C d = length (vals c)"
    and decompress_law: "faithful \<Longrightarrow> good c \<Longrightarrow> col_compress C force c = Inr d \<Longrightarrow>
        \<exists>e. col_decompress C d = Inr e \<and> good e \<and> vals e = vals c \<and> kind e = kind c"

section \<open>Numeric columns\<close>

text \<open>
  The columns of one numeric type of \<open>k\<close> bytes, with the values as unsigned words: \<^verbatim>\<open>ColumnVector\<close>,
  \<^verbatim>\<open>ColumnConst\<close> over it, and \<^verbatim>\<open>ColumnCompressed\<close>, which holds a column or the bytes LZ4 made of one.
\<close>

datatype vcol =
    ColumnVector "int list"
  | ColumnConst int nat
  | ColumnWrapped vcol
  | ColumnLZ4 nat "byte list"

record lz4 =
  LZ4_COMPRESSBOUND :: "nat \<Rightarrow> nat"
  LZ4_compress_default :: "byte list \<Rightarrow> nat \<Rightarrow> byte list option"
  LZ4_decompress_safe :: "byte list \<Rightarrow> nat \<Rightarrow> byte list option"

definition lz4_lossless :: "lz4 \<Rightarrow> bool" where
  "lz4_lossless Z \<longleftrightarrow> (\<forall>bs n out. LZ4_compress_default Z bs n = Some out \<longrightarrow> LZ4_decompress_safe Z out (length bs) = Some bs)"

fun vcol_size :: "vcol \<Rightarrow> nat" where
  "vcol_size (ColumnVector xs) = length xs"
| "vcol_size (ColumnConst x n) = n"
| "vcol_size (ColumnWrapped c) = vcol_size c"
| "vcol_size (ColumnLZ4 n bs) = n"

fun vcol_cloneResized :: "vcol \<Rightarrow> nat \<Rightarrow> vcol result" where
  "vcol_cloneResized (ColumnVector xs) new_size = Inr (ColumnVector (take new_size xs @ replicate (new_size - length xs) 0))"
| "vcol_cloneResized (ColumnConst x n) new_size = Inr (ColumnConst x new_size)"
| "vcol_cloneResized _ new_size = Inl NOT_IMPLEMENTED"

definition vcol_cloneEmpty :: "vcol \<Rightarrow> vcol result" where
  "vcol_cloneEmpty c = vcol_cloneResized c 0"

text \<open>
  The bounds check adds two \<^verbatim>\<open>size_t\<close>; a sum that wraps passes it and the copy reads past the source.  A
  constant column asserts that a constant source has the same value.
\<close>

fun vcol_insertRangeFrom :: "vcol \<Rightarrow> vcol \<Rightarrow> nat \<Rightarrow> nat \<Rightarrow> vcol result" where
  "vcol_insertRangeFrom (ColumnVector xs) (ColumnVector ys) start len =
     (if (start + len) mod 2 ^ 64 > length ys then Inl PARAMETER_OUT_OF_BOUND
      else if start + len > length ys then Inl OutOfRange
      else Inr (ColumnVector (xs @ take len (drop start ys))))"
| "vcol_insertRangeFrom (ColumnConst x n) (ColumnConst y m) start len =
     (if x \<noteq> y then Inl ASSERTION_FAILED else Inr (ColumnConst x ((n + len) mod 2 ^ 64)))"
| "vcol_insertRangeFrom (ColumnConst x n) _ start len = Inr (ColumnConst x ((n + len) mod 2 ^ 64))"
| "vcol_insertRangeFrom _ _ start len = Inl LOGICAL_ERROR"

fun vcol_convertToFullColumnIfConst :: "vcol \<Rightarrow> vcol" where
  "vcol_convertToFullColumnIfConst (ColumnConst x n) = (if n = 1 then ColumnVector [x] else ColumnVector (replicate n x))"
| "vcol_convertToFullColumnIfConst c = c"

fun vcol_allocatedBytes :: "(int list \<Rightarrow> 64 word) \<Rightarrow> vcol \<Rightarrow> 64 word" where
  "vcol_allocatedBytes reserved (ColumnVector xs) = reserved xs"
| "vcol_allocatedBytes reserved (ColumnConst x n) = reserved [x] + 8"
| "vcol_allocatedBytes reserved (ColumnWrapped c) = vcol_allocatedBytes reserved c"
| "vcol_allocatedBytes reserved (ColumnLZ4 n bs) = of_nat (length bs)"

definition compressBuffer :: "lz4 \<Rightarrow> byte list \<Rightarrow> bool \<Rightarrow> byte list option result" where
  "compressBuffer Z data force_compression =
     (let max_dest_size = LZ4_COMPRESSBOUND Z (length data);
          threshold = (if force_compression then 1 else 2)
      in if max_dest_size > 2 ^ 31 - 1 then Inl CANNOT_COMPRESS
         else (case LZ4_compress_default Z data max_dest_size of
                 None \<Rightarrow> Inl CANNOT_COMPRESS
               | Some compressed \<Rightarrow>
                   if length compressed * threshold > length data then Inr None else Inr (Some compressed)))"

definition decompressBuffer :: "lz4 \<Rightarrow> byte list \<Rightarrow> nat \<Rightarrow> byte list result" where
  "decompressBuffer Z compressed decompressed_size =
     (case LZ4_decompress_safe Z compressed decompressed_size of None \<Rightarrow> Inl CANNOT_DECOMPRESS | Some bs \<Rightarrow> Inr bs)"

fun vcol_compress :: "nat \<Rightarrow> lz4 \<Rightarrow> bool \<Rightarrow> vcol \<Rightarrow> vcol result" where
  "vcol_compress k Z force_compression (ColumnVector xs) =
     (if length xs * k < 4096 then Inr (ColumnWrapped (ColumnVector xs))
      else res_map (\<lambda>compressed. case compressed of
                None \<Rightarrow> ColumnWrapped (ColumnVector xs)
              | Some bs \<Rightarrow> ColumnLZ4 (length xs) bs)
             (compressBuffer Z (store_words k xs) force_compression))"
| "vcol_compress k Z force_compression c = Inr c"

fun vcol_decompress :: "nat \<Rightarrow> lz4 \<Rightarrow> vcol \<Rightarrow> vcol result" where
  "vcol_decompress k Z (ColumnWrapped c) = Inr c"
| "vcol_decompress k Z (ColumnLZ4 n bs) = res_map (\<lambda>data. ColumnVector (load_words k data)) (decompressBuffer Z bs (n * k))"
| "vcol_decompress k Z c = Inr c"

definition vcol_ops :: "nat \<Rightarrow> lz4 \<Rightarrow> (int list \<Rightarrow> 64 word) \<Rightarrow> vcol column_ops" where
  "vcol_ops k Z reserved =
     \<lparr>col_size = vcol_size, col_cloneEmpty = vcol_cloneEmpty, col_insertRangeFrom = vcol_insertRangeFrom,
      col_removeSpecialRepresentations = id, col_convertToFullColumnIfConst = vcol_convertToFullColumnIfConst,
      col_compress = vcol_compress k Z, col_decompress = vcol_decompress k Z,
      col_allocatedBytes = vcol_allocatedBytes reserved\<rparr>"

fun vcol_values :: "vcol \<Rightarrow> int list" where
  "vcol_values (ColumnVector xs) = xs"
| "vcol_values (ColumnConst x n) = replicate n x"
| "vcol_values (ColumnWrapped c) = vcol_values c"
| "vcol_values (ColumnLZ4 n bs) = []"

fun vcol_plain :: "nat \<Rightarrow> vcol \<Rightarrow> bool" where
  "vcol_plain k (ColumnVector xs) \<longleftrightarrow> (\<forall>x \<in> set xs. 0 \<le> x \<and> x < 256 ^ k)"
| "vcol_plain k _ \<longleftrightarrow> False"

fun vcol_good :: "nat \<Rightarrow> vcol \<Rightarrow> bool" where
  "vcol_good k (ColumnVector xs) \<longleftrightarrow> (\<forall>x \<in> set xs. 0 \<le> x \<and> x < 256 ^ k)"
| "vcol_good k (ColumnConst x n) \<longleftrightarrow> 0 \<le> x \<and> x < 256 ^ k"
| "vcol_good k _ \<longleftrightarrow> False"

lemma vcol_roundtrip:
  assumes "lz4_lossless Z" and "vcol_good k c" and "vcol_compress k Z force c = Inr d"
  shows "vcol_decompress k Z d = Inr c"
proof (cases c)
  case (ColumnVector xs)
  show ?thesis
  proof (cases "length xs * k < 4096")
    case False
    then obtain out where out: "compressBuffer Z (store_words k xs) force = Inr out"
      "d = (case out of None \<Rightarrow> ColumnWrapped c | Some bs \<Rightarrow> ColumnLZ4 (length xs) bs)"
      using assms(3) ColumnVector by (auto simp: res_Inr_iff)
    show ?thesis
    proof (cases out)
      case (Some bs)
      then have "LZ4_decompress_safe Z bs (k * length xs) = Some (store_words k xs)"
        using out(1) assms(1)
        by (auto simp: compressBuffer_def Let_def lz4_lossless_def split: if_splits option.splits) (metis length_store_words)+
      moreover have "map (\<lambda>w. w mod 256 ^ k) xs = xs"
        using assms(2) ColumnVector by (intro map_idI) simp
      moreover have "0 < k"
        using False by (cases k) simp_all
      ultimately show ?thesis
        using Some out(2) ColumnVector by (simp add: decompressBuffer_def mult.commute load_store_words)
    qed (use out(2) in simp)
  qed (use assms(3) ColumnVector in auto)
qed (use assms in auto)

interpretation vec: columns "vcol_ops k Z reserved" "vcol_good k" "vcol_plain k" vcol_values "\<lambda>_. ()" "lz4_lossless Z"
  for k :: nat and Z :: lz4 and reserved :: "int list \<Rightarrow> 64 word"
proof unfold_locales
  fix c d :: vcol and force :: bool
  show "col_size (vcol_ops k Z reserved) c = length (vcol_values c)" if "vcol_good k c"
    using that by (cases c) (simp_all add: vcol_ops_def)
  show "vcol_good k c" if "vcol_plain k c"
    using that by (cases c) simp_all
  show "vcol_good k (col_removeSpecialRepresentations (vcol_ops k Z reserved) c)
      \<and> vcol_values (col_removeSpecialRepresentations (vcol_ops k Z reserved) c) = vcol_values c \<and> () = ()" if "vcol_good k c"
    using that by (simp add: vcol_ops_def)
  show "let d = col_convertToFullColumnIfConst (vcol_ops k Z reserved) (col_removeSpecialRepresentations (vcol_ops k Z reserved) c)
      in vcol_plain k d \<and> vcol_values d = vcol_values c \<and> () = ()" if "vcol_good k c"
    using that by (cases c) (simp_all add: vcol_ops_def)
  show "\<exists>e. col_cloneEmpty (vcol_ops k Z reserved) c = Inr e \<and> vcol_plain k e \<and> vcol_values e = [] \<and> () = ()"
    if "vcol_plain k c"
    using that by (cases c) (simp_all add: vcol_ops_def vcol_cloneEmpty_def)
  show "\<exists>e. col_insertRangeFrom (vcol_ops k Z reserved) c d from len = Inr e \<and> vcol_plain k e \<and> () = ()
      \<and> vcol_values e = vcol_values c @ take len (drop from (vcol_values d))"
    if "vcol_plain k c" "vcol_plain k d" "from + len \<le> length (vcol_values d)" for "from" len
    using that mod_less_eq_dividend [of "from + len" "2 ^ 64"]
    by (cases c; cases d) (auto simp: vcol_ops_def dest!: in_set_takeD in_set_dropD)
  show "col_size (vcol_ops k Z reserved) d = length (vcol_values c)"
    if "vcol_good k c" "col_compress (vcol_ops k Z reserved) force c = Inr d"
    using that by (cases c) (auto simp: vcol_ops_def res_Inr_iff split: if_splits option.splits)
  show "\<exists>e. col_decompress (vcol_ops k Z reserved) d = Inr e \<and> vcol_good k e \<and> vcol_values e = vcol_values c \<and> () = ()"
    if "lz4_lossless Z" "vcol_good k c" "col_compress (vcol_ops k Z reserved) force c = Inr d"
    using that vcol_roundtrip by (auto simp: vcol_ops_def)
qed

section \<open>Chunks\<close>

record 'c chunk =
  chunk_columns :: "'c list"
  chunk_num_rows :: nat

definition new_Chunk :: "'c chunk" where
  "new_Chunk = \<lparr>chunk_columns = [], chunk_num_rows = 0\<rparr>"

definition checkNumRowsIsConsistent :: "'c column_ops \<Rightarrow> 'c chunk \<Rightarrow> 'c chunk result" where
  "checkNumRowsIsConsistent C ch =
     (if list_all (\<lambda>c. col_size C c = chunk_num_rows ch) (chunk_columns ch) then Inr ch else Inl LOGICAL_ERROR)"

definition chunk_create :: "'c column_ops \<Rightarrow> 'c list \<Rightarrow> nat \<Rightarrow> 'c chunk result" where
  "chunk_create C cols rows = checkNumRowsIsConsistent C \<lparr>chunk_columns = cols, chunk_num_rows = rows\<rparr>"

definition chunk_setColumns :: "'c column_ops \<Rightarrow> 'c list \<Rightarrow> nat \<Rightarrow> 'c chunk \<Rightarrow> 'c chunk result" where
  "chunk_setColumns C cols rows ch =
     checkNumRowsIsConsistent C (ch\<lparr>chunk_columns := cols, chunk_num_rows := rows\<rparr>)"

definition chunk_clone :: "'c column_ops \<Rightarrow> 'c chunk \<Rightarrow> 'c chunk result" where
  "chunk_clone C ch = chunk_create C (chunk_columns ch) (chunk_num_rows ch)"

definition chunk_empty :: "'c chunk \<Rightarrow> bool" where
  "chunk_empty ch \<longleftrightarrow> \<not> 0 < chunk_num_rows ch \<and> chunk_columns ch = []"

definition chunk_cloneEmptyColumns :: "'c column_ops \<Rightarrow> 'c chunk \<Rightarrow> 'c list result" where
  "chunk_cloneEmptyColumns C ch =
     foldr (\<lambda>c r. res_bind (col_cloneEmpty C c) (\<lambda>d. res_map (Cons d) r)) (chunk_columns ch) (Inr [])"

definition chunk_addColumn :: "'c column_ops \<Rightarrow> 'c \<Rightarrow> 'c chunk \<Rightarrow> 'c chunk result" where
  "chunk_addColumn C column ch =
     (if chunk_empty ch then Inr (ch\<lparr>chunk_num_rows := col_size C column, chunk_columns := [column]\<rparr>)
      else if col_size C column \<noteq> chunk_num_rows ch then Inl LOGICAL_ERROR
      else Inr (ch\<lparr>chunk_columns := chunk_columns ch @ [column]\<rparr>))"

definition chunk_addColumn_at :: "'c column_ops \<Rightarrow> nat \<Rightarrow> 'c \<Rightarrow> 'c chunk \<Rightarrow> 'c chunk result" where
  "chunk_addColumn_at C position column ch =
     (if position \<ge> length (chunk_columns ch) then Inl POSITION_OUT_OF_BOUND
      else
        let insert_at = take position (chunk_columns ch) @ column # drop position (chunk_columns ch)
        in if chunk_empty ch then Inr (ch\<lparr>chunk_num_rows := col_size C column, chunk_columns := insert_at\<rparr>)
           else if col_size C column \<noteq> chunk_num_rows ch then Inl LOGICAL_ERROR
           else Inr (ch\<lparr>chunk_columns := insert_at\<rparr>))"

definition chunk_erase :: "nat \<Rightarrow> 'c chunk \<Rightarrow> 'c chunk result" where
  "chunk_erase position ch =
     (if chunk_columns ch = [] then Inl POSITION_OUT_OF_BOUND
      else if position \<ge> length (chunk_columns ch) then Inl POSITION_OUT_OF_BOUND
      else Inr (ch\<lparr>chunk_columns := take position (chunk_columns ch) @ drop (Suc position) (chunk_columns ch)\<rparr>))"

definition chunk_allocatedBytes :: "'c column_ops \<Rightarrow> 'c chunk \<Rightarrow> 64 word" where
  "chunk_allocatedBytes C ch = sum_list (map (col_allocatedBytes C) (chunk_columns ch))"

text \<open>
  The loop of \<^verbatim>\<open>append\<close> reads the column of the other chunk at each position unchecked, and the first
  column of the result.
\<close>

fun append_columns :: "'c column_ops \<Rightarrow> 'c list \<Rightarrow> 'c list \<Rightarrow> nat \<Rightarrow> nat \<Rightarrow> 'c list result" where
  "append_columns C [] ds from len = Inr []"
| "append_columns C (c # cs) [] from len = Inl OutOfRange"
| "append_columns C (c # cs) (d # ds) from len =
     res_bind (col_insertRangeFrom C c d from len) (\<lambda>e. res_map (Cons e) (append_columns C cs ds from len))"

definition chunk_append_range :: "'c column_ops \<Rightarrow> 'c chunk \<Rightarrow> 'c chunk \<Rightarrow> nat \<Rightarrow> nat \<Rightarrow> 'c chunk result" where
  "chunk_append_range C ch other from len =
     res_bind (append_columns C (chunk_columns ch) (chunk_columns other) from len) (\<lambda>cols.
       case cols of [] \<Rightarrow> Inl OutOfRange | c # _ \<Rightarrow> chunk_setColumns C cols (col_size C c) ch)"

definition chunk_append :: "'c column_ops \<Rightarrow> 'c chunk \<Rightarrow> 'c chunk \<Rightarrow> 'c chunk result" where
  "chunk_append C ch other = chunk_append_range C ch other 0 (chunk_num_rows other)"

definition convertToFullIfConst :: "'c column_ops \<Rightarrow> 'c chunk \<Rightarrow> 'c chunk result" where
  "convertToFullIfConst C ch =
     chunk_setColumns C (map (col_convertToFullColumnIfConst C) (chunk_columns ch)) (chunk_num_rows ch) ch"

definition removeSpecialColumnRepresentations :: "'c column_ops \<Rightarrow> 'c chunk \<Rightarrow> 'c chunk result" where
  "removeSpecialColumnRepresentations C ch =
     chunk_setColumns C (map (col_removeSpecialRepresentations C) (chunk_columns ch)) (chunk_num_rows ch) ch"

text \<open>All columns of a chunk have as many rows as it says.\<close>

definition chunk_consistent :: "'c column_ops \<Rightarrow> 'c chunk \<Rightarrow> bool" where
  "chunk_consistent C ch \<longleftrightarrow> list_all (\<lambda>c. col_size C c = chunk_num_rows ch) (chunk_columns ch)"

lemma checkNumRows_iff: "checkNumRowsIsConsistent C ch = Inr ch' \<longleftrightarrow> ch' = ch \<and> chunk_consistent C ch"
  by (auto simp: checkNumRowsIsConsistent_def chunk_consistent_def)

lemma chunk_append_range_consistent:
  assumes "chunk_append_range C ch other from len = Inr ch'"
  shows "chunk_consistent C ch'"
proof -
  obtain cols where "(case cols of [] \<Rightarrow> Inl OutOfRange | c # _ \<Rightarrow> chunk_setColumns C cols (col_size C c) ch) = Inr ch'"
    using assms by (auto simp: chunk_append_range_def res_Inr_iff)
  then show ?thesis
    by (cases cols) (auto simp: chunk_setColumns_def checkNumRows_iff)
qed

text \<open>C33: The type invariant of a chunk, columns of equal length, holds for everything the operations of a chunk
  return: the constructor, \<^verbatim>\<open>setColumns\<close>, both \<^verbatim>\<open>append\<close>, both \<^verbatim>\<open>addColumn\<close>, \<^verbatim>\<open>erase\<close>, \<^verbatim>\<open>clone\<close> and the conversions,
  for every kind of column.\<close>

theorem chunk_operations_consistent:
  assumes "chunk_consistent C ch"
  shows "chunk_consistent C new_Chunk
    \<and> (\<forall>cols rows ch'. chunk_create C cols rows = Inr ch' \<longrightarrow> chunk_consistent C ch')
    \<and> (\<forall>cols rows ch'. chunk_setColumns C cols rows ch = Inr ch' \<longrightarrow> chunk_consistent C ch')
    \<and> (\<forall>other from len ch'. chunk_append_range C ch other from len = Inr ch' \<longrightarrow> chunk_consistent C ch')
    \<and> (\<forall>other ch'. chunk_append C ch other = Inr ch' \<longrightarrow> chunk_consistent C ch')
    \<and> (\<forall>column ch'. chunk_addColumn C column ch = Inr ch' \<longrightarrow> chunk_consistent C ch')
    \<and> (\<forall>position column ch'. chunk_addColumn_at C position column ch = Inr ch' \<longrightarrow> chunk_consistent C ch')
    \<and> (\<forall>position ch'. chunk_erase position ch = Inr ch' \<longrightarrow> chunk_consistent C ch')
    \<and> (\<forall>ch'. convertToFullIfConst C ch = Inr ch' \<longrightarrow> chunk_consistent C ch')
    \<and> (\<forall>ch'. removeSpecialColumnRepresentations C ch = Inr ch' \<longrightarrow> chunk_consistent C ch')
    \<and> chunk_clone C ch = Inr ch"
proof (intro conjI allI impI)
  fix position column ch'
  show "chunk_consistent C ch'" if "chunk_addColumn C column ch = Inr ch'"
    using that assms by (auto simp: chunk_addColumn_def chunk_consistent_def chunk_empty_def split: if_splits)
  show "chunk_consistent C ch'" if "chunk_addColumn_at C position column ch = Inr ch'"
    using that assms
    by (auto simp: chunk_addColumn_at_def chunk_consistent_def chunk_empty_def Let_def list_all_iff
        dest!: in_set_takeD in_set_dropD split: if_splits)
  show "chunk_consistent C ch'" if "chunk_erase position ch = Inr ch'"
    using that assms
    by (auto simp: chunk_erase_def chunk_consistent_def list_all_iff dest!: in_set_takeD in_set_dropD split: if_splits)
  show "chunk_clone C ch = Inr ch"
    using assms by (cases ch) (simp add: chunk_clone_def chunk_create_def checkNumRows_iff)
qed (auto simp: new_Chunk_def chunk_consistent_def [of C "\<lparr>chunk_columns = [], chunk_num_rows = 0\<rparr>"] chunk_create_def
      chunk_setColumns_def checkNumRows_iff chunk_append_def convertToFullIfConst_def removeSpecialColumnRepresentations_def
      intro: chunk_append_range_consistent)

theorem chunk_operations_consistent_witness:
  "let C = vcol_ops 1 \<lparr>LZ4_COMPRESSBOUND = id, LZ4_compress_default = (\<lambda>bs n. None), LZ4_decompress_safe = (\<lambda>bs n. None)\<rparr> (\<lambda>_. 0);
       ch = \<lparr>chunk_columns = [ColumnVector [1, 2], ColumnVector [3, 4]], chunk_num_rows = 2\<rparr>
   in \<exists>ch'. chunk_append C ch ch = Inr ch' \<and> chunk_num_rows ch' = 4 \<and> chunk_consistent C ch'"
proof -
  let ?C = "vcol_ops 1 \<lparr>LZ4_COMPRESSBOUND = id, LZ4_compress_default = (\<lambda>bs n. None), LZ4_decompress_safe = (\<lambda>bs n. None)\<rparr> (\<lambda>_. 0)"
  let ?ch = "\<lparr>chunk_columns = [ColumnVector [1, 2], ColumnVector [3, 4]], chunk_num_rows = 2\<rparr>"
  have ok: "chunk_consistent ?C ?ch"
    by (simp add: chunk_consistent_def vcol_ops_def)
  have "\<forall>other ch'. chunk_append ?C ?ch other = Inr ch' \<longrightarrow> chunk_consistent ?C ch'"
    using chunk_operations_consistent [OF ok] by (elim conjE)
  moreover have "\<exists>ch'. chunk_append ?C ?ch ?ch = Inr ch' \<and> chunk_num_rows ch' = 4"
    by (simp add: chunk_append_def chunk_append_range_def chunk_setColumns_def checkNumRowsIsConsistent_def vcol_ops_def)
  ultimately show ?thesis
    unfolding Let_def by blast
qed

end
