(* ===== verification/Columns_Filter.thy ===== *)
theory Columns_Filter
  imports Columns_Chunk
begin

unbundle bit_operations_syntax

text \<open>
  Filtering of numeric columns, \<^verbatim>\<open>src/src/Columns/ColumnVector.cpp\<close> and \<^verbatim>\<open>ColumnsCommon.h\<close>: 64 rows at a time
  are turned into a bit mask, and a mask of one run of ones at either end is copied as a block.  The
  same loop writes to a new array or, through \<^verbatim>\<open>InPlaceResultInserter\<close>, to the array it reads.  Arrays are lists;
  positions are natural numbers.
\<close>

section \<open>Masks\<close>

definition bytes64MaskToBits64Mask :: "byte list \<Rightarrow> 64 word" where
  "bytes64MaskToBits64Mask bytes64 =
     NOT (foldl (\<lambda>res i. res OR push_bit i (if 0 = bytes64 ! i then 1 else 0)) 0 [0..<64])"

definition blsr :: "64 word \<Rightarrow> 64 word" where
  "blsr msk = msk AND (msk - 1)"

definition clzll :: "64 word \<Rightarrow> nat" where
  "clzll x = length (takeWhile (\<lambda>i. \<not> bit x i) (rev [0..<64]))"

definition countr_zero :: "64 word \<Rightarrow> nat" where
  "countr_zero x = length (takeWhile (\<lambda>i. \<not> bit x i) [0..<64])"

definition prefixToCopy :: "64 word \<Rightarrow> nat" where
  "prefixToCopy msk =
     (if msk = 0 then 0
      else if msk = - 1 then 64
      else
        let leading_zeroes = clzll msk
        in if msk = drop_bit leading_zeroes (push_bit leading_zeroes (- 1)) then 64 - leading_zeroes else 0xFF)"

definition suffixToCopy :: "64 word \<Rightarrow> nat" where
  "suffixToCopy msk =
     (let prefix_to_copy = prefixToCopy (NOT msk) in if prefix_to_copy \<ge> 64 then prefix_to_copy else 64 - prefix_to_copy)"

lemma bit_foldl_or:
  "bit (foldl (\<lambda>res i. res OR push_bit i (if P i then 1 else 0)) (x :: 64 word) is) n \<longleftrightarrow> bit x n \<or> n < 64 \<and> n \<in> set is \<and> P n"
proof (induction "is" arbitrary: x)
  case (Cons i "is")
  have "bit (push_bit i (if P i then 1 else 0) :: 64 word) n \<longleftrightarrow> n < 64 \<and> n = i \<and> P i"
    by (cases "P i") (auto simp: bit_exp_iff)
  then show ?case
    using Cons.IH by (auto simp: bit_or_iff)
qed simp

lemma bit_bytes64MaskToBits64Mask:
  assumes "n < 64"
  shows "bit (bytes64MaskToBits64Mask bs) n \<longleftrightarrow> bs ! n \<noteq> 0"
  using assms bit_foldl_or [of "\<lambda>i. 0 = bs ! i" 0 "[0..<64]" n]
  by (auto simp: bytes64MaskToBits64Mask_def bit_not_iff)

lemma length_takeWhile_first:
  assumes "x \<in> set xs" and "\<not> P x"
  shows "length (takeWhile P xs) < length xs" and "\<not> P (xs ! length (takeWhile P xs))"
    and "j < length (takeWhile P xs) \<Longrightarrow> P (xs ! j)"
  using assms
proof (induction xs arbitrary: j)
  case (Cons y xs)
  {
    case 1
    then show ?case
      using Cons.IH(1) by auto
  next
    case 2
    then show ?case
      using Cons.IH(2) by auto
  next
    case 3
    then show ?case
      using Cons.IH(3) by (cases j) (auto split: if_splits)
  }
qed simp_all

lemma some_bit:
  assumes "msk \<noteq> (0 :: 64 word)"
  obtains i where "i < 64" and "bit msk i"
  using assms bit_word_eqI [of msk 0] by auto

lemma clzll_spec:
  assumes "msk \<noteq> 0"
  shows "clzll msk < 64" and "bit msk (63 - clzll msk)" and "63 - clzll msk < n \<Longrightarrow> n < 64 \<Longrightarrow> \<not> bit msk n"
proof -
  obtain i where i: "i \<in> set (rev [0..<64])" "\<not> \<not> bit msk i"
    using some_bit [OF assms] by auto
  note first = length_takeWhile_first [where P = "\<lambda>i. \<not> bit msk i", OF i, folded clzll_def]
  have nth: "rev [0..<64] ! j = 63 - j" if "j < 64" for j
    using that by (simp add: rev_nth)
  show lt: "clzll msk < 64"
    using first(1) by simp
  show "bit msk (63 - clzll msk)"
    using first(2) nth [OF lt] by simp
  show "\<not> bit msk n" if "63 - clzll msk < n" "n < 64"
    using first(3) [of "63 - n"] nth [of "63 - n"] that lt by simp
qed

lemma countr_zero_spec:
  assumes "msk \<noteq> 0"
  shows "countr_zero msk < 64" and "bit msk (countr_zero msk)" and "n < countr_zero msk \<Longrightarrow> \<not> bit msk n"
proof -
  obtain i where i: "i \<in> set [0..<64]" "\<not> \<not> bit msk i"
    using some_bit [OF assms] by auto
  note first = length_takeWhile_first [where P = "\<lambda>i. \<not> bit msk i", OF i, folded countr_zero_def]
  show lt: "countr_zero msk < 64"
    using first(1) by simp
  show "bit msk (countr_zero msk)"
    using first(2) lt by simp
  show "\<not> bit msk n" if "n < countr_zero msk"
    using first(3) [OF that] that lt by simp
qed

text \<open>The block copies happen exactly for masks of one run of ones.\<close>

lemma prefixToCopy_spec:
  assumes "prefixToCopy msk \<noteq> 0xFF" and "n < 64"
  shows "prefixToCopy msk \<le> 64" and "bit msk n \<longleftrightarrow> n < prefixToCopy msk"
proof -
  have "prefixToCopy msk \<le> 64 \<and> (bit msk n \<longleftrightarrow> n < prefixToCopy msk)"
  proof (cases "msk = 0 \<or> msk = - 1")
    case False
    let ?z = "clzll msk"
    have "msk = drop_bit ?z (push_bit ?z (- 1))" "prefixToCopy msk = 64 - ?z"
      using assms(1) False by (auto simp: prefixToCopy_def Let_def split: if_splits)
    moreover have "bit (drop_bit ?z (push_bit ?z (- 1)) :: 64 word) n \<longleftrightarrow> n < 64 - ?z"
      using assms(2) by (auto simp: bit_drop_bit_eq bit_push_bit_iff bit_not_iff bit_mask_iff)
    ultimately show ?thesis
      by simp
  qed (use assms(2) in \<open>auto simp: prefixToCopy_def\<close>)
  then show "prefixToCopy msk \<le> 64" "bit msk n \<longleftrightarrow> n < prefixToCopy msk"
    by simp_all
qed

lemma suffixToCopy_spec:
  assumes "suffixToCopy msk \<noteq> 0xFF" and "msk \<noteq> 0" and "n < 64"
  shows "suffixToCopy msk \<le> 64" and "bit msk n \<longleftrightarrow> 64 - suffixToCopy msk \<le> n"
proof -
  let ?p = "prefixToCopy (NOT msk)"
  have "?p \<noteq> 0xFF"
    using assms(1) by (auto simp: suffixToCopy_def Let_def split: if_splits)
  note p = prefixToCopy_spec [OF this]
  have "?p \<noteq> 64"
  proof
    assume "?p = 64"
    then have "\<not> bit msk i" if "i < 64" for i
      using p(2) [OF that] that by (simp add: bit_not_iff)
    then show False
      using some_bit [OF assms(2)] by metis
  qed
  then have "suffixToCopy msk = 64 - ?p" "?p < 64"
    using p(1) [OF assms(3)] by (simp_all add: suffixToCopy_def)
  then show "suffixToCopy msk \<le> 64" "bit msk n \<longleftrightarrow> 64 - suffixToCopy msk \<le> n"
    using p(2) [OF assms(3)] assms(3) by (auto simp: bit_not_iff)
qed

text \<open>Subtracting one turns the lowest one into a zero, and the zeros below it into ones.\<close>

lemma bit_blsr:
  assumes "msk \<noteq> 0"
  shows "bit (blsr msk) n \<longleftrightarrow> bit msk n \<and> n \<noteq> countr_zero msk"
proof -
  define z where "z = countr_zero msk"
  define h where "h = msk AND NOT (mask (Suc z))"
  note c = countr_zero_spec [OF assms, folded z_def]
  have h: "bit h i \<longleftrightarrow> bit msk i \<and> i \<noteq> z" for i
  proof (cases "i < 64")
    case True
    then show ?thesis
      using c(3) [of i] by (auto simp: h_def bit_and_iff bit_not_iff bit_mask_iff)
  qed (auto simp: h_def bit_and_iff dest: bit_imp_le_length)
  have below: "\<not> bit h i" if "i < z" for i
    using h c(3) [OF that] by simp
  have "msk = h OR 2 ^ z"
    using h c(1,2) by (intro bit_word_eqI) (auto simp: bit_or_iff bit_exp_iff)
  moreover have "h AND 2 ^ z = 0" "h AND mask z = 0"
    using h below by (auto intro!: bit_word_eqI simp: bit_and_iff bit_exp_iff bit_mask_iff)
  ultimately have "msk - 1 = h OR mask z"
    by (simp add: mask_eq_exp_minus_1 flip: disjunctive_add_eq_or)
  then have "bit (blsr msk) n \<longleftrightarrow> bit msk n \<and> (bit h n \<or> n < z)"
    by (auto simp: blsr_def bit_and_iff bit_or_iff bit_mask_iff dest: bit_imp_le_length)
  then show ?thesis
    using h c(3) by (auto simp: z_def)
qed

section \<open>Filtering\<close>

text \<open>
  An inserter appends elements of the source array, named by their positions, to the result.  Its
  state has whatever it writes to.
\<close>

record 's inserter =
  insertSingle :: "nat \<Rightarrow> 's \<Rightarrow> 's"
  insertRange :: "nat \<Rightarrow> nat \<Rightarrow> 's \<Rightarrow> 's"

definition ResultInserter :: "'a list \<Rightarrow> 'a list inserter" where
  "ResultInserter data =
     \<lparr>insertSingle = (\<lambda>i container. container @ [data ! i]),
      insertRange = (\<lambda>b e container. container @ take (e - b) (drop b data))\<rparr>"

text \<open>The array that is read and written, and the size of the result at its front.\<close>

definition InPlaceResultInserter :: "('a list \<times> nat) inserter" where
  "InPlaceResultInserter =
     \<lparr>insertSingle = (\<lambda>i (arr, container_size). (arr[container_size := arr ! i], container_size + 1)),
      insertRange = (\<lambda>b e (arr, container_size).
        (take container_size arr @ take (e - b) (drop b arr) @ drop (container_size + (e - b)) arr, container_size + (e - b)))\<rparr>"

lemma card_bits_blsr:
  assumes "msk \<noteq> 0"
  shows "card {i. bit (blsr msk) i} < card {i. bit msk i}"
proof -
  have fin: "finite {i. bit (x :: 64 word) i}" for x
    by (rule finite_subset [of _ "{..<64}"]) (auto dest: bit_imp_le_length)
  have "{i. bit (blsr msk) i} = {i. bit msk i} - {countr_zero msk}"
    by (auto simp: bit_blsr [OF assms])
  then show ?thesis
    using card_Diff1_less [OF fin, of "countr_zero msk" msk] countr_zero_spec(2) [OF assms] by simp
qed

function insert_bits :: "'s inserter \<Rightarrow> nat \<Rightarrow> 64 word \<Rightarrow> 's \<Rightarrow> 's" where
  "insert_bits I data_pos msk s =
     (if msk = 0 then s
      else
        let index = countr_zero msk
        in insert_bits I data_pos (blsr msk) (insertSingle I (data_pos + index) s))"
  by pat_completeness auto
termination
  by (relation "measure (\<lambda>(I, data_pos, msk, s). card {i. bit msk i})") (auto simp: card_bits_blsr)

declare insert_bits.simps [simp del]

definition filter_block :: "'s inserter \<Rightarrow> byte list \<Rightarrow> nat \<Rightarrow> 's \<Rightarrow> 's" where
  "filter_block I bytes64 data_pos s =
     (let msk = bytes64MaskToBits64Mask bytes64; prefix_to_copy = prefixToCopy msk
      in if 0xFF \<noteq> prefix_to_copy then insertRange I data_pos (data_pos + prefix_to_copy) s
         else
           let suffix_to_copy = suffixToCopy msk
           in if 0xFF \<noteq> suffix_to_copy then insertRange I (data_pos + 64 - suffix_to_copy) (data_pos + 64) s
              else insert_bits I data_pos msk s)"

function doFilterAligned :: "'s inserter \<Rightarrow> byte list \<Rightarrow> nat \<Rightarrow> nat \<Rightarrow> 's \<Rightarrow> 's" where
  "doFilterAligned I filt pos end_aligned s =
     (if pos < end_aligned then doFilterAligned I filt (pos + 64) end_aligned (filter_block I (take 64 (drop pos filt)) pos s)
      else s)"
  by pat_completeness auto
termination
  by (relation "measure (\<lambda>(I, filt, pos, end_aligned, s). end_aligned - pos)") auto

function filter_tail :: "'s inserter \<Rightarrow> byte list \<Rightarrow> nat \<Rightarrow> 's \<Rightarrow> 's" where
  "filter_tail I filt pos s =
     (if pos < length filt then filter_tail I filt (pos + 1) (if filt ! pos \<noteq> 0 then insertSingle I pos s else s) else s)"
  by pat_completeness auto
termination
  by (relation "measure (\<lambda>(I, filt, pos, s). length filt - pos)") auto

declare doFilterAligned.simps [simp del] filter_tail.simps [simp del]

definition vector_filter :: "byte list \<Rightarrow> 'a list \<Rightarrow> 'a list result" where
  "vector_filter filt data =
     (if length data \<noteq> length filt then Inl SIZES_OF_COLUMNS_DOESNT_MATCH
      else
        let aligned = length data div 64 * 64; I = ResultInserter data
        in Inr (filter_tail I filt aligned (doFilterAligned I filt 0 aligned [])))"

definition vector_filter_in_place :: "byte list \<Rightarrow> 'a list \<Rightarrow> 'a list result" where
  "vector_filter_in_place filt data =
     (if length data \<noteq> length filt then Inl SIZES_OF_COLUMNS_DOESNT_MATCH
      else
        let aligned = length data div 64 * 64; I = InPlaceResultInserter;
            (arr, result_size) = filter_tail I filt aligned (doFilterAligned I filt 0 aligned (data, 0))
        in Inr (take result_size arr))"

section \<open>The contract of an inserter\<close>

lemma filter_less_upt: "(m :: nat) \<le> n \<Longrightarrow> filter (\<lambda>i. i < m) [0..<n] = [0..<m]"
  by (induction n) (auto simp: le_Suc_eq)

lemma filter_ge_upt: "(m :: nat) \<le> n \<Longrightarrow> filter (\<lambda>i. m \<le> i) [0..<n] = [m..<n]"
  by (induction n) (auto simp: le_Suc_eq)

lemma upt_slice:
  assumes "p + b \<le> length data"
  shows "map (\<lambda>i. data ! (p + i)) [a..<b] = take (b - a) (drop (p + a) data)"
  using assms by (intro nth_equalityI) (auto simp: add.assoc)

text \<open>The rows from one position up to another that pass the filter.\<close>

definition selected :: "byte list \<Rightarrow> 'a list \<Rightarrow> nat \<Rightarrow> nat \<Rightarrow> 'a list" where
  "selected filt data lo hi = map ((!) data) (filter (\<lambda>i. filt ! i \<noteq> 0) [lo..<hi])"

text \<open>
  While the rows before \<open>p\<close> are done, the inserter is \<open>ready p\<close>: it can append rows from \<open>p\<close> on as the
  source had them at first.
\<close>

lemma selected_append: "lo \<le> mid \<Longrightarrow> mid \<le> hi \<Longrightarrow> selected filt data lo mid @ selected filt data mid hi = selected filt data lo hi"
  unfolding selected_def by (metis filter_append le_add_diff_inverse map_append upt_add_eq_append)

locale result_inserter =
  fixes I :: "'s inserter" and data :: "'a list" and contents :: "'s \<Rightarrow> 'a list" and ready :: "nat \<Rightarrow> 's \<Rightarrow> bool"
  assumes range_law: "ready p s \<Longrightarrow> p \<le> b \<Longrightarrow> b \<le> e \<Longrightarrow> e \<le> length data \<Longrightarrow>
      ready e (insertRange I b e s) \<and> contents (insertRange I b e s) = contents s @ take (e - b) (drop b data)"
    and single_law: "ready p s \<Longrightarrow> p \<le> i \<Longrightarrow> i < length data \<Longrightarrow>
      ready (Suc i) (insertSingle I i s) \<and> contents (insertSingle I i s) = contents s @ [data ! i]"
    and skip_law: "ready p s \<Longrightarrow> p \<le> q \<Longrightarrow> ready q s"
begin

lemma insert_bits_correct:
  assumes "ready (p + q) s" and "p + 64 \<le> length data" and "q \<le> 64" and "\<And>i. i < q \<Longrightarrow> \<not> bit msk i"
  shows "ready (p + 64) (insert_bits I p msk s)
    \<and> contents (insert_bits I p msk s) = contents s @ map (\<lambda>i. data ! (p + i)) (filter (bit msk) [q..<64])"
  using assms(1,3,4)
proof (induction "card {i. bit msk i}" arbitrary: msk q s rule: less_induct)
  case less
  show ?case
  proof (cases "msk = 0")
    case True
    then show ?thesis
      using skip_law [OF less.prems(1), of "p + 64"] less.prems(2) by (simp add: insert_bits.simps)
  next
    case False
    let ?z = "countr_zero msk"
    note z = countr_zero_spec [OF False]
    have q: "q \<le> ?z"
      using less.prems(3) z(2) by (meson leI)
    let ?s = "insertSingle I (p + ?z) s"
    have s: "ready (Suc (p + ?z)) ?s" "contents ?s = contents s @ [data ! (p + ?z)]"
      using single_law [OF less.prems(1), of "p + ?z"] q z(1) assms(2) by auto
    have "filter (bit msk) [q..<64] = filter (bit msk) ([q..<?z] @ [?z..<64])"
      using q z(1) by (metis less_imp_le_nat upt_add_eq_append le_add_diff_inverse)
    also have "\<dots> = ?z # filter (bit msk) [Suc ?z..<64]"
      using z by (simp add: upt_conv_Cons filter_empty_conv)
    also have "filter (bit msk) [Suc ?z..<64] = filter (bit (blsr msk)) [Suc ?z..<64]"
      by (intro filter_cong) (auto simp: bit_blsr [OF False])
    finally have bits: "filter (bit msk) [q..<64] = ?z # filter (bit (blsr msk)) [Suc ?z..<64]" .
    have "\<not> bit (blsr msk) i" if "i < Suc ?z" for i
      using that z(3) by (auto simp: bit_blsr [OF False] less_Suc_eq)
    then show ?thesis
      using less.hyps [OF card_bits_blsr [OF False], of "Suc ?z" ?s] s z(1) bits False
      by (simp add: insert_bits.simps [of I p msk] Let_def)
  qed
qed

lemma filter_block_correct:
  assumes "ready p s" and "p + 64 \<le> length data" and "p + 64 \<le> length filt"
  shows "ready (p + 64) (filter_block I (take 64 (drop p filt)) p s)
    \<and> contents (filter_block I (take 64 (drop p filt)) p s) = contents s @ selected filt data p (p + 64)"
proof -
  let ?m = "bytes64MaskToBits64Mask (take 64 (drop p filt))"
  have bit: "bit ?m i \<longleftrightarrow> filt ! (p + i) \<noteq> 0" if "i < 64" for i
    using that assms(3) by (simp add: bit_bytes64MaskToBits64Mask)
  have "[p..<p + 64] = map ((+) p) [0..<64]"
    by (intro nth_equalityI) simp_all
  then have "selected filt data p (p + 64) = map (\<lambda>i. data ! (p + i)) (filter (\<lambda>i. filt ! (p + i) \<noteq> 0) [0..<64])"
    by (simp add: selected_def filter_map comp_def del: upt_Suc)
  also have "filter (\<lambda>i. filt ! (p + i) \<noteq> 0) [0..<64] = filter (bit ?m) [0..<64]"
    by (intro filter_cong) (auto simp: bit)
  finally have sel: "selected filt data p (p + 64) = map (\<lambda>i. data ! (p + i)) (filter (bit ?m) [0..<64])" .
  consider (prefix) "prefixToCopy ?m \<noteq> 0xFF" | (suffix) "prefixToCopy ?m = 0xFF" "suffixToCopy ?m \<noteq> 0xFF"
    | (bits) "prefixToCopy ?m = 0xFF" "suffixToCopy ?m = 0xFF"
    by blast
  then show ?thesis
  proof cases
    case prefix
    let ?L = "prefixToCopy ?m"
    note L = prefixToCopy_spec [OF prefix]
    have le: "?L \<le> 64"
      using L(1) [of 0] by simp
    have "filter (bit ?m) [0..<64] = [0..<?L]"
      using filter_less_upt [OF le] L(2) by (metis (no_types, lifting) atLeastLessThan_iff filter_cong set_upt)
    then have "selected filt data p (p + 64) = take ?L (drop p data)"
      using upt_slice [of p ?L data 0] le assms(2) unfolding sel by simp
    then show ?thesis
      using range_law [OF assms(1), of p "p + ?L"] prefix le assms(2) skip_law [of "p + ?L" _ "p + 64"]
      by (auto simp: filter_block_def Let_def)
  next
    case suffix
    let ?S = "suffixToCopy ?m"
    have "?m \<noteq> 0"
      using suffix(1) by (auto simp: prefixToCopy_def)
    note S = suffixToCopy_spec [OF suffix(2) this]
    have le: "?S \<le> 64"
      using S(1) [of 0] by simp
    have "filter (bit ?m) [0..<64] = [64 - ?S..<64]"
      using filter_ge_upt [of "64 - ?S" 64] S(2) by (metis (no_types, lifting) atLeastLessThan_iff diff_le_self filter_cong set_upt)
    then have "selected filt data p (p + 64) = take ?S (drop (p + (64 - ?S)) data)"
      using upt_slice [of p 64 data "64 - ?S"] le assms(2) unfolding sel by simp
    then show ?thesis
      using range_law [OF assms(1), of "p + 64 - ?S" "p + 64"] suffix le assms(2) by (auto simp: filter_block_def Let_def)
  next
    case bits
    then show ?thesis
      using insert_bits_correct [of p 0 s ?m] assms sel by (simp add: filter_block_def Let_def)
  qed
qed

lemma doFilterAligned_correct:
  assumes "ready p s" and "64 dvd e - p" and "p \<le> e" and "e \<le> length data" and "length filt = length data"
  shows "ready e (doFilterAligned I filt p e s) \<and> contents (doFilterAligned I filt p e s) = contents s @ selected filt data p e"
  using assms(1-3)
proof (induction "e - p" arbitrary: p s rule: less_induct)
  case less
  show ?case
  proof (cases "p < e")
    case True
    then have le: "p + 64 \<le> e"
      using less.prems(2) by (auto dest: dvd_imp_le)
    let ?s = "filter_block I (take 64 (drop p filt)) p s"
    have block: "ready (p + 64) ?s" "contents ?s = contents s @ selected filt data p (p + 64)"
      using filter_block_correct [OF less.prems(1), of filt] le assms(4,5) by simp_all
    have "64 dvd e - (p + 64)"
      using less.prems(2) le by (metis diff_diff_left dvd_diff_nat dvd_refl)
    then have "ready e (doFilterAligned I filt (p + 64) e ?s)"
      "contents (doFilterAligned I filt (p + 64) e ?s) = contents ?s @ selected filt data (p + 64) e"
      using less.hyps [of "p + 64" ?s] block(1) le by simp_all
    then show ?thesis
      using True block(2) selected_append [of p "p + 64" e filt data] le by (simp add: doFilterAligned.simps [of I filt p])
  next
    case False
    then show ?thesis
      using less.prems by (simp add: doFilterAligned.simps [of I filt e e] selected_def)
  qed
qed

lemma filter_tail_correct:
  assumes "ready p s" and "p \<le> length data" and "length filt = length data"
  shows "contents (filter_tail I filt p s) = contents s @ selected filt data p (length data)"
  using assms(1,2)
proof (induction "length data - p" arbitrary: p s rule: less_induct)
  case less
  show ?case
  proof (cases "p < length data")
    case True
    let ?s = "if filt ! p \<noteq> 0 then insertSingle I p s else s"
    have s: "ready (Suc p) ?s" "contents ?s = contents s @ selected filt data p (Suc p)"
      using single_law [OF less.prems(1) le_refl True] skip_law [OF less.prems(1), of "Suc p"] by (simp_all add: selected_def)
    have "contents (filter_tail I filt (Suc p) ?s) = contents ?s @ selected filt data (Suc p) (length data)"
      using less.hyps [of "Suc p" ?s] s(1) True by simp
    then show ?thesis
      using True s(2) selected_append [of p "Suc p" "length data" filt data] assms(3) by (simp add: filter_tail.simps [of I filt p])
  next
    case False
    then show ?thesis
      using assms(3) less.prems(2) by (simp add: filter_tail.simps [of I filt "length data"] selected_def)
  qed
qed

lemma filter_loops_correct:
  assumes "ready 0 s" and "length filt = length data" and "e = length data div 64 * 64"
  shows "contents (filter_tail I filt e (doFilterAligned I filt 0 e s)) = contents s @ selected filt data 0 (length data)"
proof -
  have e: "64 dvd e - 0" "0 \<le> e" "e \<le> length data"
    by (simp_all add: assms(3))
  note aligned = doFilterAligned_correct [OF assms(1) e assms(2)]
  show ?thesis
    using filter_tail_correct [of e _ filt] aligned e(3) assms(2) selected_append [of 0 e "length data" filt data] by simp
qed

end

interpretation copying: result_inserter "ResultInserter data" data "\<lambda>container. container" "\<lambda>p container. True" for data :: "'a list"
  by unfold_locales (simp_all add: ResultInserter_def)

text \<open>In place, the result never gets ahead of the rows that are still to be read.\<close>

interpretation in_place: result_inserter InPlaceResultInserter data "\<lambda>(arr, n). take n arr"
    "\<lambda>p (arr, n). n \<le> p \<and> length arr = length data \<and> n \<le> length data \<and> drop p arr = drop p data" for data :: "'a list"
proof unfold_locales
  fix p q b e i :: nat and s :: "'a list \<times> nat"
  obtain arr n where s: "s = (arr, n)"
    by (cases s)
  assume "case s of (arr, n) \<Rightarrow> n \<le> p \<and> length arr = length data \<and> n \<le> length data \<and> drop p arr = drop p data"
  then have ready: "n \<le> p" "length arr = length data" "n \<le> length data" "drop p arr = drop p data"
    by (simp_all add: s)
  have same: "drop r arr = drop r data" if "p \<le> r" for r
    using ready(4) that by (metis drop_drop le_add_diff_inverse2)
  show "case s of (arr, n) \<Rightarrow> n \<le> q \<and> length arr = length data \<and> n \<le> length data \<and> drop q arr = drop q data" if "p \<le> q"
    using ready same [OF that] that by (simp add: s)
  show "(case insertRange InPlaceResultInserter b e s of (arr, n) \<Rightarrow> n \<le> e \<and> length arr = length data \<and> n \<le> length data \<and> drop e arr = drop e data)
      \<and> (case insertRange InPlaceResultInserter b e s of (arr, n) \<Rightarrow> take n arr) = (case s of (arr, n) \<Rightarrow> take n arr) @ take (e - b) (drop b data)"
    if be: "p \<le> b" "b \<le> e" "e \<le> length data"
  proof -
    obtain c where c: "e = b + c"
      using be(2) le_Suc_ex by blast
    then have "length (take c (drop b arr)) = c" "n + c \<le> e" "n + c \<le> length arr"
      using ready be by simp_all
    then show ?thesis
      using ready same [OF be(1)] same [of e] be by (simp add: s c InPlaceResultInserter_def drop_append)
  qed
  show "(case insertSingle InPlaceResultInserter i s of (arr, n) \<Rightarrow> n \<le> Suc i \<and> length arr = length data \<and> n \<le> length data \<and> drop (Suc i) arr = drop (Suc i) data)
      \<and> (case insertSingle InPlaceResultInserter i s of (arr, n) \<Rightarrow> take n arr) = (case s of (arr, n) \<Rightarrow> take n arr) @ [data ! i]"
    if "p \<le> i" "i < length data"
  proof -
    have "arr ! i = data ! i"
      using same [OF that(1)] that(2) ready(2) by (metis Cons_nth_drop_Suc list.inject)
    moreover have "n < length arr" "n < Suc i"
      using ready that by simp_all
    ultimately show ?thesis
      using ready same [of "Suc i"] that by (simp add: s InPlaceResultInserter_def take_Suc_conv_app_nth)
  qed
qed

section \<open>Both filters select the rows that pass\<close>

lemma selected_all:
  assumes "length filt = length data"
  shows "selected filt data 0 (length data) = map snd (filter (\<lambda>(f, x). f \<noteq> 0) (zip filt data))"
proof -
  have "zip filt data = map (\<lambda>i. (filt ! i, data ! i)) [0..<length data]"
    using assms by (intro nth_equalityI) simp_all
  then show ?thesis
    by (simp add: selected_def filter_map comp_def)
qed

lemma vector_filter_selects:
  assumes "length data = length filt"
  shows "vector_filter filt data = Inr (map snd (filter (\<lambda>(f, x). f \<noteq> 0) (zip filt data)))"
    and "vector_filter_in_place filt data = vector_filter filt data"
proof -
  have sel: "selected filt data 0 (length data) = map snd (filter (\<lambda>(f, x). f \<noteq> 0) (zip filt data))"
    using assms by (intro selected_all) simp
  define e where "e = length data div 64 * 64"
  note copy = copying.filter_loops_correct [OF TrueI assms [symmetric] e_def, of "[]"]
  have "case (data, 0) of (arr, n) \<Rightarrow> n \<le> 0 \<and> length arr = length data \<and> n \<le> length data \<and> drop 0 arr = drop 0 data"
    by simp
  note place = in_place.filter_loops_correct [OF this assms [symmetric] e_def]
  show "vector_filter filt data = Inr (map snd (filter (\<lambda>(f, x). f \<noteq> 0) (zip filt data)))"
    and "vector_filter_in_place filt data = vector_filter filt data"
    using copy place assms sel unfolding vector_filter_def vector_filter_in_place_def Let_def e_def
    by (simp_all add: case_prod_beta)
qed

text \<open>
  C7: Filtering a numeric column, into a new array as well as in place, gives exactly the rows whose
  byte in the filter is not zero, in their order, whatever the length; a filter of another length is
  refused.
\<close>

theorem vector_filter_correct:
  "vector_filter filt data =
     (if length data = length filt then Inr (map snd (filter (\<lambda>(f, x). f \<noteq> 0) (zip filt data))) else Inl SIZES_OF_COLUMNS_DOESNT_MATCH)
   \<and> vector_filter_in_place filt data = vector_filter filt data"
proof (cases "length data = length filt")
  case True
  then show ?thesis
    by (simp add: vector_filter_selects)
qed (simp add: vector_filter_def vector_filter_in_place_def)

end
