(* ===== verification/Columns_Count.thy ===== *)
theory Columns_Count
  imports Columns_Filter
begin

unbundle bit_operations_syntax

text \<open>
  Counting the rows of a filter, \<^verbatim>\<open>src/src/Columns/ColumnsCommon.cpp\<close>, 64 rows at a time; filtering and cutting
  numeric and constant columns; and the rows of a chunk whose columns are all filtered alike.
\<close>

section \<open>Counting\<close>

definition popcount :: "64 word \<Rightarrow> nat" where
  "popcount x = length (filter (bit x) [0..<64])"

definition toBits64 :: "byte list \<Rightarrow> 64 word" where
  "toBits64 bytes64 = NOT (foldl (\<lambda>res i. res OR push_bit i (if bytes64 ! i = 0 then 1 else 0)) 0 [0..<64])"

text \<open>The loop over blocks of 64 rows, with the mask of a block as a function of its position, and the loop over the rest.\<close>

function count_blocks :: "(nat \<Rightarrow> 64 word) \<Rightarrow> nat \<Rightarrow> nat \<Rightarrow> nat \<Rightarrow> nat" where
  "count_blocks bits pos end_pos64 count =
     (if pos < end_pos64 then count_blocks bits (pos + 64) end_pos64 (count + popcount (bits pos)) else count)"
  by pat_completeness auto
termination
  by (relation "measure (\<lambda>(bits, pos, end_pos64, count). end_pos64 - pos)") auto

function count_rows :: "(nat \<Rightarrow> bool) \<Rightarrow> nat \<Rightarrow> nat \<Rightarrow> nat \<Rightarrow> nat" where
  "count_rows test pos end_pos count =
     (if pos < end_pos then count_rows test (pos + 1) end_pos (count + (if test pos then 1 else 0)) else count)"
  by pat_completeness auto
termination
  by (relation "measure (\<lambda>(test, pos, end_pos, count). end_pos - pos)") auto

declare count_blocks.simps [simp del] count_rows.simps [simp del]

definition countBytesInFilter :: "byte list \<Rightarrow> nat \<Rightarrow> nat \<Rightarrow> nat" where
  "countBytesInFilter filt start end_pos =
     (let end_pos64 = start + (end_pos - start) div 64 * 64
      in count_rows (\<lambda>pos. filt ! pos \<noteq> 0) end_pos64 end_pos
           (count_blocks (\<lambda>pos. toBits64 (take 64 (drop pos filt))) start end_pos64 0))"

definition countBytesInFilterWithNull :: "byte list \<Rightarrow> byte list \<Rightarrow> nat \<Rightarrow> nat \<Rightarrow> nat" where
  "countBytesInFilterWithNull filt null_map start end_pos =
     (let end_pos64 = start + (end_pos - start) div 64 * 64
      in count_rows (\<lambda>pos. (filt ! pos AND NOT (null_map ! pos)) \<noteq> 0) end_pos64 end_pos
           (count_blocks (\<lambda>pos. toBits64 (take 64 (drop pos filt)) AND NOT (toBits64 (take 64 (drop pos null_map)))) start end_pos64 0))"

definition memoryIsByte :: "byte list \<Rightarrow> nat \<Rightarrow> nat \<Rightarrow> byte \<Rightarrow> bool" where
  "memoryIsByte data start end_pos byte =
     (let size = end_pos - start
      in if size = 0 then True
         else data ! start = byte \<and> take (size - 1) (drop start data) = take (size - 1) (drop (start + 1) data))"

definition memoryIsZero :: "byte list \<Rightarrow> nat \<Rightarrow> nat \<Rightarrow> bool" where
  "memoryIsZero data start end_pos = memoryIsByte data start end_pos 0"

lemma bit_toBits64:
  assumes "p + 64 \<le> length bs" and "i < 64"
  shows "bit (toBits64 (take 64 (drop p bs))) i \<longleftrightarrow> bs ! (p + i) \<noteq> 0"
proof -
  have "toBits64 (take 64 (drop p bs)) = bytes64MaskToBits64Mask (take 64 (drop p bs))"
    by (simp add: toBits64_def bytes64MaskToBits64Mask_def eq_commute [of 0])
  then show ?thesis
    using assms by (simp add: bit_bytes64MaskToBits64Mask)
qed

lemma count_rows_correct: "count_rows test p e n = n + length (filter test [p..<e])"
proof (induction test p e n rule: count_rows.induct)
  case (1 test p e n)
  then show ?case
    by (cases "p < e") (simp_all add: count_rows.simps [of test p e] upt_conv_Cons)
qed

lemma popcount_block:
  assumes "\<And>i. i < 64 \<Longrightarrow> bit x i \<longleftrightarrow> test (p + i)"
  shows "popcount x = length (filter test [p..<p + 64])"
proof -
  have upt: "[p..<p + 64] = map ((+) p) [0..<64]"
    by (intro nth_equalityI) simp_all
  have "filter (bit x) [0..<64] = filter (test \<circ> (+) p) [0..<64]"
    by (intro filter_cong) (auto simp: assms)
  then show ?thesis
    unfolding popcount_def upt filter_map by simp
qed

lemma count_blocks_correct:
  assumes "64 dvd e - p" and "p \<le> e" and "\<And>q i. p \<le> q \<Longrightarrow> q + 64 \<le> e \<Longrightarrow> i < 64 \<Longrightarrow> bit (bits q) i \<longleftrightarrow> test (q + i)"
  shows "count_blocks bits p e n = n + length (filter test [p..<e])"
  using assms
proof (induction bits p e n rule: count_blocks.induct)
  case (1 bits p e n)
  show ?case
  proof (cases "p < e")
    case True
    then have le: "p + 64 \<le> e"
      using "1.prems"(1) by (auto dest: dvd_imp_le)
    have "64 dvd e - (p + 64)"
      using "1.prems"(1) by (metis diff_diff_left dvd_diff_nat dvd_refl)
    then have "count_blocks bits (p + 64) e (n + popcount (bits p)) = n + popcount (bits p) + length (filter test [p + 64..<e])"
      using "1.IH" [OF True] le "1.prems"(3) by simp
    moreover have "popcount (bits p) = length (filter test [p..<p + 64])"
      using popcount_block [of "bits p" test p] "1.prems"(3) [of p] le by simp
    moreover have "[p..<e] = [p..<p + 64] @ [p + 64..<e]"
      using le by (metis le_add1 le_add_diff_inverse upt_add_eq_append)
    ultimately show ?thesis
      using True by (simp add: count_blocks.simps [of bits p])
  qed (use "1.prems"(2) in \<open>simp add: count_blocks.simps [of bits e e]\<close>)
qed

lemma count_loops_correct:
  assumes "start \<le> e" and e64: "e64 = start + (e - start) div 64 * 64"
    and "\<And>q i. start \<le> q \<Longrightarrow> q + 64 \<le> e \<Longrightarrow> i < 64 \<Longrightarrow> bit (bits q) i \<longleftrightarrow> test (q + i)"
  shows "count_rows test e64 e (count_blocks bits start e64 0) = length (filter test [start..<e])"
proof -
  have le: "start \<le> e64" "e64 \<le> e" "64 dvd e64 - start"
    using assms(1) by (simp_all add: e64)
  then have "count_blocks bits start e64 0 = length (filter test [start..<e64])"
    using count_blocks_correct [of e64 start bits test 0] assms(3) by simp
  moreover have "[start..<e] = [start..<e64] @ [e64..<e]"
    using le by (metis le_add_diff_inverse upt_add_eq_append)
  ultimately show ?thesis
    by (simp add: count_rows_correct)
qed

lemma countBytesInFilter_rows:
  assumes "start \<le> e" and "e \<le> length filt"
  shows "countBytesInFilter filt start e = length (filter (\<lambda>i. filt ! i \<noteq> 0) [start..<e])"
  unfolding countBytesInFilter_def Let_def using assms
  by (intro count_loops_correct [OF assms(1) refl]) (simp add: bit_toBits64)

text \<open>
  C39: The optimised counters of a filter are exact: \<^verbatim>\<open>countBytesInFilter\<close> counts the bytes that are not
  zero, for any bytes, and \<^verbatim>\<open>countBytesInFilterWithNull\<close> those whose null byte is zero, for filters and null
  maps of zeros and ones.
\<close>

theorem count_bytes_correct:
  assumes "start \<le> e" and "e \<le> length filt" and "e \<le> length null_map"
  shows "countBytesInFilter filt start e = length (filter (\<lambda>i. filt ! i \<noteq> 0) [start..<e])
    \<and> ((\<forall>i < e. filt ! i \<in> {0, 1} \<and> null_map ! i \<in> {0, 1}) \<longrightarrow>
       countBytesInFilterWithNull filt null_map start e = length (filter (\<lambda>i. filt ! i \<noteq> 0 \<and> null_map ! i = 0) [start..<e]))"
proof (intro conjI impI)
  show "countBytesInFilter filt start e = length (filter (\<lambda>i. filt ! i \<noteq> 0) [start..<e])"
    by (rule countBytesInFilter_rows [OF assms(1,2)])
  assume bin: "\<forall>i < e. filt ! i \<in> {0, 1} \<and> null_map ! i \<in> {0, 1}"
  let ?test = "\<lambda>i. (filt ! i AND NOT (null_map ! i)) \<noteq> 0"
  have test: "?test i \<longleftrightarrow> filt ! i \<noteq> 0 \<and> null_map ! i = 0" if "i < e" for i
    using bin that by fastforce
  have "countBytesInFilterWithNull filt null_map start e = length (filter ?test [start..<e])"
    unfolding countBytesInFilterWithNull_def Let_def using assms test
    by (intro count_loops_correct [OF assms(1) refl]) (auto simp: bit_toBits64 bit_and_iff bit_not_iff)
  also have "filter ?test [start..<e] = filter (\<lambda>i. filt ! i \<noteq> 0 \<and> null_map ! i = 0) [start..<e]"
    using test by (intro filter_cong) auto
  finally show "countBytesInFilterWithNull filt null_map start e = length (filter (\<lambda>i. filt ! i \<noteq> 0 \<and> null_map ! i = 0) [start..<e])" .
qed

theorem count_bytes_correct_witness:
  "countBytesInFilter [1, 0, 2] 0 3 = 2 \<and> countBytesInFilterWithNull [1, 0, 1] [1, 0, 0] 0 3 = 1"
  using count_bytes_correct [of 0 3 "[1, 0, 2]" "[0, 0, 0]"] count_bytes_correct [of 0 3 "[1, 0, 1]" "[1, 0, 0]"]
  by (simp add: upt_rec less_Suc_eq numeral_3_eq_3)

text \<open>With other bytes the two loops disagree: a row counts in the rest, but not in a block.\<close>

lemma count_with_null_depends_on_position:
  shows "countBytesInFilterWithNull [2] [1] 0 1 = 1"
    and "countBytesInFilterWithNull (replicate 64 2) (replicate 64 1) 0 64 = 0"
proof -
  show "countBytesInFilterWithNull [2] [1] 0 1 = 1"
    by (simp add: countBytesInFilterWithNull_def count_rows_correct count_blocks.simps)
  let ?bits = "\<lambda>pos. toBits64 (take 64 (drop pos (replicate 64 2))) AND NOT (toBits64 (take 64 (drop pos (replicate 64 1))))"
  have "bit (toBits64 (replicate 64 1)) i" if "i < 64" for i
    using bit_toBits64 [of 0 "replicate 64 1" i] that by simp
  then have "count_blocks ?bits 0 64 0 = 0"
    using count_blocks_correct [of 64 0 ?bits "\<lambda>_. False" 0] by (auto simp: bit_and_iff bit_not_iff)
  then show "countBytesInFilterWithNull (replicate 64 2) (replicate 64 1) 0 64 = 0"
    by (simp add: countBytesInFilterWithNull_def count_rows_correct)
qed

lemma memoryIsByte_correct:
  assumes "end_pos \<le> length data"
  shows "memoryIsByte data start end_pos byte \<longleftrightarrow> (\<forall>i \<in> {start..<end_pos}. data ! i = byte)"
proof (cases "end_pos - start")
  case (Suc n)
  have shifted: "take n (drop start data) = take n (drop (start + 1) data) \<longleftrightarrow> (\<forall>j < n. data ! (start + j) = data ! (start + Suc j))"
    using assms Suc by (auto simp: list_eq_iff_nth_eq)
  have "(\<forall>i \<in> {start..<end_pos}. data ! i = byte) \<longleftrightarrow> (\<forall>j < Suc n. data ! (start + j) = byte)"
  proof (intro iffI ballI allI impI)
    fix i
    assume "\<forall>j < Suc n. data ! (start + j) = byte" "i \<in> {start..<end_pos}"
    moreover from this(2) have "i = start + (i - start)" "i - start < Suc n"
      using Suc by auto
    ultimately show "data ! i = byte"
      by metis
  qed (use Suc in auto)
  also have "\<dots> \<longleftrightarrow> data ! start = byte \<and> (\<forall>j < n. data ! (start + j) = data ! (start + Suc j))"
  proof
    assume first: "data ! start = byte \<and> (\<forall>j < n. data ! (start + j) = data ! (start + Suc j))"
    have "data ! (start + j) = byte" if "j < Suc n" for j
      using that first by (induction j) auto
    then show "\<forall>j < Suc n. data ! (start + j) = byte"
      by blast
  qed auto
  finally show ?thesis
    using Suc shifted by (simp add: memoryIsByte_def)
qed (simp add: memoryIsByte_def)

section \<open>Columns\<close>

fun vcol_filter :: "byte list \<Rightarrow> vcol \<Rightarrow> vcol result" where
  "vcol_filter filt (ColumnVector xs) = res_map ColumnVector (vector_filter filt xs)"
| "vcol_filter filt (ColumnConst x s) =
     (if s \<noteq> length filt then Inl SIZES_OF_COLUMNS_DOESNT_MATCH else Inr (ColumnConst x (countBytesInFilter filt 0 (length filt))))"
| "vcol_filter filt _ = Inl LOGICAL_ERROR"

definition vcol_cut :: "nat \<Rightarrow> nat \<Rightarrow> vcol \<Rightarrow> vcol result" where
  "vcol_cut start len c = res_bind (vcol_cloneEmpty c) (\<lambda>res. vcol_insertRangeFrom res c start len)"

text \<open>What a filter does to a list of rows.\<close>

definition filter_rows :: "byte list \<Rightarrow> 'a list \<Rightarrow> 'a list" where
  "filter_rows filt xs = map snd (filter (\<lambda>(f, x). f \<noteq> 0) (zip filt xs))"

lemma filter_rows_map: "filter_rows filt (map g xs) = map g (filter_rows filt xs)"
  by (simp add: filter_rows_def zip_map2 filter_map comp_def case_prod_unfold)

lemma length_filter_rows:
  assumes "length xs = length filt"
  shows "length (filter_rows filt xs) = length (filter (\<lambda>f. f \<noteq> 0) filt)"
  using assms by (induction xs filt rule: list_induct2) (simp_all add: filter_rows_def)

lemma filter_rows_replicate:
  assumes "length filt = n"
  shows "filter_rows filt (replicate n x) = replicate (countBytesInFilter filt 0 n) x"
proof -
  have "filter (\<lambda>f. f \<noteq> 0) filt = map ((!) filt) (filter (\<lambda>i. filt ! i \<noteq> 0) [0..<n])"
    using filter_map [of "\<lambda>f. f \<noteq> 0" "(!) filt" "[0..<n]"] map_nth [of filt] assms by (simp add: comp_def)
  then have "countBytesInFilter filt 0 n = length (filter (\<lambda>f. f \<noteq> 0) filt)"
    using countBytesInFilter_rows [of 0 n filt] assms by simp
  moreover have "filter_rows filt (replicate n x) = replicate (length (filter_rows filt (replicate n x))) x"
    by (rule replicate_eqI) (auto simp: filter_rows_def dest!: set_zip_rightD)
  ultimately show ?thesis
    using length_filter_rows [of "replicate n x" filt] assms by simp
qed

text \<open>Columns that can be filtered and cut.\<close>

locale filtered_columns = columns +
  fixes filter_col :: "byte list \<Rightarrow> 'a \<Rightarrow> 'a result" and cut_col :: "nat \<Rightarrow> nat \<Rightarrow> 'a \<Rightarrow> 'a result"
  assumes filter_law: "good c \<Longrightarrow> length filt = length (vals c) \<Longrightarrow>
      \<exists>d. filter_col filt c = Inr d \<and> good d \<and> kind d = kind c \<and> vals d = filter_rows filt (vals c)"
    and cut_law: "plain c \<Longrightarrow> start + len \<le> length (vals c) \<Longrightarrow>
      \<exists>d. cut_col start len c = Inr d \<and> plain d \<and> kind d = kind c \<and> vals d = take len (drop start (vals c))"

interpretation vec_rows: filtered_columns "vcol_ops k Z reserved" "vcol_good k" "vcol_plain k" vcol_values "\<lambda>_. ()" "lz4_lossless Z"
    vcol_filter vcol_cut
  for k :: nat and Z :: lz4 and reserved :: "int list \<Rightarrow> 64 word"
proof unfold_locales
  fix c :: vcol and filt :: "byte list" and start len :: nat
  show "\<exists>d. vcol_filter filt c = Inr d \<and> vcol_good k d \<and> () = () \<and> vcol_values d = filter_rows filt (vcol_values c)"
    if "vcol_good k c" "length filt = length (vcol_values c)"
    using that by (cases c) (auto simp: vector_filter_selects filter_rows_def [symmetric] filter_rows_replicate, auto simp: filter_rows_def dest!: set_zip_rightD)
  show "\<exists>d. vcol_cut start len c = Inr d \<and> vcol_plain k d \<and> () = () \<and> vcol_values d = take len (drop start (vcol_values c))"
    if "vcol_plain k c" "start + len \<le> length (vcol_values c)"
    using that mod_less_eq_dividend [of "start + len" "2 ^ 64"]
    by (cases c) (auto simp: vcol_cut_def vcol_cloneEmpty_def dest!: in_set_takeD in_set_dropD)
qed

end
