(* ===== verification/HashTable_Probing.thy ===== *)
theory HashTable_Probing
  imports Chdb_Prelude "HOL-Library.Log_Nat"
begin

unbundle bit_operations_syntax

text \<open>
  Cells, size policy and probing of the open-addressing hash table of
  \<^verbatim>\<open>src/src/Common/HashTable/HashTable.h\<close> and \<^verbatim>\<open>HashMap.h\<close>.  A cell is a key with a mapped value; a cell whose
  key is zero is empty, and whatever its mapped value is stays in memory.  The hash function is a
  parameter.
\<close>

section \<open>Cells\<close>

type_synonym ('k, 'v) cell = "'k \<times> 'v"

definition isZero :: "('k::zero, 'v) cell \<Rightarrow> bool" where
  "isZero c \<longleftrightarrow> fst c = 0"

definition setZero :: "('k::zero, 'v) cell \<Rightarrow> ('k, 'v) cell" where
  "setZero c = (0, snd c)"

definition keyEquals :: "('k::zero, 'v) cell \<Rightarrow> 'k \<Rightarrow> bool" where
  "keyEquals c x \<longleftrightarrow> fst c = x"

definition getHash :: "('k \<Rightarrow> 64 word) \<Rightarrow> ('k::zero, 'v) cell \<Rightarrow> 64 word" where
  "getHash hash c = hash (fst c)"

section \<open>The grower\<close>

text \<open>\<^verbatim>\<open>HashTableGrowerWithPrecalculation\<close>; positions in the buffer are natural numbers.\<close>

record grower =
  size_degree :: nat
  precalculated_mask :: "64 word"
  precalculated_max_fill :: nat

definition max_size_degree :: nat where
  "max_size_degree = 23"

definition increaseSizeDegree :: "nat \<Rightarrow> grower \<Rightarrow> grower" where
  "increaseSizeDegree delta g =
     g\<lparr>size_degree := size_degree g + delta,
       precalculated_mask := push_bit (size_degree g + delta) 1 - 1,
       precalculated_max_fill := 2 ^ (size_degree g + delta - 1)\<rparr>"

definition new_grower :: "nat \<Rightarrow> grower" where
  "new_grower initial_size_degree =
     \<lparr>size_degree = initial_size_degree, precalculated_mask = push_bit initial_size_degree 1 - 1,
      precalculated_max_fill = 2 ^ (initial_size_degree - 1)\<rparr>"

definition bufSize :: "grower \<Rightarrow> nat" where
  "bufSize g = 2 ^ size_degree g"

definition place :: "grower \<Rightarrow> 64 word \<Rightarrow> nat" where
  "place g x = unat (x AND precalculated_mask g)"

definition next_place :: "grower \<Rightarrow> nat \<Rightarrow> nat" where
  "next_place g pos = unat ((word_of_nat pos + 1) AND precalculated_mask g)"

definition grower_overflow :: "grower \<Rightarrow> nat \<Rightarrow> bool" where
  "grower_overflow g elems \<longleftrightarrow> elems > precalculated_max_fill g"

definition increaseSize :: "grower \<Rightarrow> grower" where
  "increaseSize g = increaseSizeDegree (if size_degree g \<ge> max_size_degree then 1 else 2) g"

text \<open>\<^verbatim>\<open>floorlog 2 n - 1\<close> is the logarithm of \<open>n\<close> rounded down.\<close>

definition grower_set :: "nat \<Rightarrow> nat \<Rightarrow> grower \<Rightarrow> grower" where
  "grower_set initial_size_degree num_elems g =
     increaseSizeDegree 0
       (g\<lparr>size_degree :=
            (if num_elems \<le> 1 then initial_size_degree
             else if initial_size_degree > (floorlog 2 (num_elems - 1) - 1) + 2 then initial_size_degree
             else (floorlog 2 (num_elems - 1) - 1) + 2)\<rparr>)"

definition grower_ok :: "grower \<Rightarrow> bool" where
  "grower_ok g \<longleftrightarrow> 1 \<le> size_degree g \<and> size_degree g \<le> 63
     \<and> precalculated_mask g = push_bit (size_degree g) 1 - 1 \<and> precalculated_max_fill g = 2 ^ (size_degree g - 1)"

lemma place_mod:
  assumes "grower_ok g"
  shows "place g x = unat x mod bufSize g"
proof -
  have "precalculated_mask g = mask (size_degree g)"
    using assms by (simp add: grower_ok_def mask_eq_exp_minus_1 push_bit_eq_mult)
  then have "place g x = take_bit (size_degree g) (unat x)"
    by (simp add: place_def flip: take_bit_eq_mask unsigned_take_bit_eq)
  then show ?thesis
    by (simp add: take_bit_eq_mod bufSize_def)
qed

lemma place_less: "grower_ok g \<Longrightarrow> place g x < bufSize g"
  by (simp add: place_mod bufSize_def)

lemma next_place_mod:
  assumes "grower_ok g" and "p < bufSize g"
  shows "next_place g p = (if Suc p = bufSize g then 0 else Suc p)"
proof -
  have le: "bufSize g \<le> 2 ^ 63"
    using assms(1) power_increasing [of "size_degree g" 63 "2::nat"] by (simp add: grower_ok_def bufSize_def)
  have suc: "unat (word_of_nat (Suc p) :: 64 word) = Suc p"
    using assms(2) le by (simp add: unat_of_nat take_bit_nat_eq_self del: of_nat_Suc)
  have "next_place g p = place g (word_of_nat (Suc p))"
    by (simp add: next_place_def place_def add.commute)
  also have "\<dots> = Suc p mod bufSize g"
    by (simp only: place_mod [OF assms(1)] suc)
  finally show ?thesis
    using assms(2) by simp
qed

section \<open>Probing\<close>

partial_function (option) findCell :: "grower \<Rightarrow> ('k::zero, 'v) cell list \<Rightarrow> 'k \<Rightarrow> nat \<Rightarrow> nat option" where
  "findCell g buf x place_value =
     (if \<not> isZero (buf ! place_value) \<and> \<not> keyEquals (buf ! place_value) x
      then findCell g buf x (next_place g place_value)
      else Some place_value)"

text \<open>\<open>c\<close> lies on the way from \<open>h\<close> to \<open>p\<close>, going up and around the end of the buffer.\<close>

definition between :: "nat \<Rightarrow> nat \<Rightarrow> nat \<Rightarrow> bool" where
  "between h c p \<longleftrightarrow> (if h \<le> p then h \<le> c \<and> c \<le> p else h \<le> c \<or> c \<le> p)"

definition stops_at :: "('k::zero, 'v) cell list \<Rightarrow> 'k \<Rightarrow> nat \<Rightarrow> bool" where
  "stops_at buf x c \<longleftrightarrow> isZero (buf ! c) \<or> keyEquals (buf ! c) x"

lemma findCell_unfold:
  "findCell g buf x p = (if stops_at buf x p then Some p else findCell g buf x (next_place g p))"
  by (subst findCell.simps) (simp add: stops_at_def)

definition dist :: "nat \<Rightarrow> nat \<Rightarrow> nat \<Rightarrow> nat" where
  "dist n h p = (if h \<le> p then p - h else p + n - h)"

lemma findCell_first:
  assumes "grower_ok g" and "p < bufSize g" and "q < bufSize g" and "stops_at buf x q"
    and "\<And>c. c < bufSize g \<Longrightarrow> between p c q \<Longrightarrow> c = q \<or> \<not> stops_at buf x c"
  shows "findCell g buf x p = Some q"
  using assms(2,5)
proof (induction "dist (bufSize g) p q" arbitrary: p rule: less_induct)
  case less
  show ?case
  proof (cases "p = q")
    case True
    then show ?thesis
      using assms(4) by (simp add: findCell_unfold)
  next
    case False
    let ?p = "if Suc p = bufSize g then 0 else Suc p"
    have p: "?p < bufSize g" "dist (bufSize g) ?p q < dist (bufSize g) p q"
      and between: "\<And>c. c < bufSize g \<Longrightarrow> between ?p c q \<Longrightarrow> between p c q"
      using False less.prems(1) assms(3) by (auto simp: dist_def between_def split: if_splits)
    have "\<not> stops_at buf x p"
      using less.prems(2) [of p] less.prems(1) False by (auto simp: between_def)
    then have "findCell g buf x p = findCell g buf x ?p"
      by (subst findCell_unfold) (simp add: next_place_mod [OF assms(1) less.prems(1)])
    also have "\<dots> = Some q"
      using less.hyps [OF p(2) p(1)] less.prems(2) between by blast
    finally show ?thesis .
  qed
qed

text \<open>The first cell at which a search stops_at, in the order of probing.\<close>

lemma first_stop:
  assumes "p < n" and "\<exists>q < n. P q"
  obtains q where "q < n" and "P q" and "\<And>c. c < n \<Longrightarrow> between p c q \<Longrightarrow> c = q \<or> \<not> P c"
proof -
  define D where "D q = dist n p q" for q
  have ex: "\<exists>q. q < n \<and> P q"
    using assms(2) by blast
  define q where "q = arg_min D (\<lambda>q. q < n \<and> P q)"
  have q: "q < n" "P q" "\<And>c. c < n \<Longrightarrow> P c \<Longrightarrow> D q \<le> D c"
    using arg_min_natI [of "\<lambda>q. q < n \<and> P q" _ D] arg_min_nat_le [of "\<lambda>q. q < n \<and> P q" _ D] ex unfolding q_def by blast+
  have "c = q" if "c < n" "between p c q" "P c" for c
    using q(3) [OF that(1,3)] that(1,2) assms(1) q(1) by (auto simp: D_def dist_def between_def split: if_splits)
  with q that show thesis
    by blast
qed

section \<open>The invariant of probing\<close>

definition home :: "('k \<Rightarrow> 64 word) \<Rightarrow> nat \<Rightarrow> ('k::zero, 'v) cell \<Rightarrow> nat" where
  "home hash n c = unat (getHash hash c) mod n"

text \<open>Every element is found from its place: no cell on the way to it is empty.\<close>

definition probing :: "('k \<Rightarrow> 64 word) \<Rightarrow> ('k::zero, 'v) cell list \<Rightarrow> bool" where
  "probing hash buf \<longleftrightarrow> (\<forall>p < length buf. \<not> isZero (buf ! p) \<longrightarrow>
     (\<forall>c < length buf. between (home hash (length buf) (buf ! p)) c p \<longrightarrow> \<not> isZero (buf ! c)))"

definition unique_keys :: "('k::zero, 'v) cell list \<Rightarrow> bool" where
  "unique_keys buf \<longleftrightarrow> (\<forall>p < length buf. \<forall>q < length buf.
     \<not> isZero (buf ! p) \<and> fst (buf ! p) = fst (buf ! q) \<longrightarrow> p = q)"

end
