(* ===== verification/HashTable_Resize.thy ===== *)
theory HashTable_Resize
  imports HashTable_Probing
begin

text \<open>
  Growing the buffer of the hash table in place, \<^verbatim>\<open>resize\<close> and \<^verbatim>\<open>reinsert\<close> of
  \<^verbatim>\<open>src/src/Common/HashTable/HashTable.h\<close>: the cells of the old half are visited in order, then the run of
  cells right after it, and each element moves to the first free cell from its new place.
\<close>

section \<open>Reinsertion\<close>

definition reinsert :: "('k \<Rightarrow> 64 word) \<Rightarrow> grower \<Rightarrow> ('k::zero, 'v) cell list \<Rightarrow> nat \<Rightarrow> ('k, 'v) cell list option" where
  "reinsert hash g buf i =
     (let x = buf ! i; place_value = place g (getHash hash x)
      in if i = place_value then Some buf
         else map_option (\<lambda>q. if \<not> isZero (buf ! q) then buf else buf[q := x, i := setZero x]) (findCell g buf (fst x) place_value))"

fun resize_cells :: "('k \<Rightarrow> 64 word) \<Rightarrow> grower \<Rightarrow> nat list \<Rightarrow> ('k::zero, 'v) cell list \<Rightarrow> ('k, 'v) cell list option" where
  "resize_cells hash g [] buf = Some buf"
| "resize_cells hash g (i # is) buf =
     Option.bind (if \<not> isZero (buf ! i) then reinsert hash g buf i else Some buf) (resize_cells hash g is)"

fun resize_tail :: "('k \<Rightarrow> 64 word) \<Rightarrow> grower \<Rightarrow> nat list \<Rightarrow> ('k::zero, 'v) cell list \<Rightarrow> ('k, 'v) cell list option" where
  "resize_tail hash g [] buf = Some buf"
| "resize_tail hash g (i # is) buf =
     (if \<not> isZero (buf ! i) then Option.bind (reinsert hash g buf i) (resize_tail hash g is) else Some buf)"

text \<open>The two loops, over the cells \<open>0..<old_size\<close> and from \<open>old_size\<close> on.\<close>

definition rehash :: "('k \<Rightarrow> 64 word) \<Rightarrow> grower \<Rightarrow> nat \<Rightarrow> ('k::zero, 'v) cell list \<Rightarrow> ('k, 'v) cell list option" where
  "rehash hash g old_size buf =
     Option.bind (resize_cells hash g [0..<old_size] buf) (resize_tail hash g [old_size..<bufSize g])"

section \<open>Moving one element\<close>

definition elements :: "('k::zero, 'v) cell list \<Rightarrow> ('k, 'v) cell set" where
  "elements buf = {c \<in> set buf. \<not> isZero c}"

definition move :: "('k::zero, 'v) cell list \<Rightarrow> nat \<Rightarrow> nat \<Rightarrow> ('k, 'v) cell list" where
  "move buf i q = (if q = i then buf else buf[q := buf ! i, i := setZero (buf ! i)])"

lemma isZero_setZero [simp]: "isZero (setZero c)"
  by (simp add: isZero_def setZero_def)

lemma move_length [simp]: "length (move buf i q) = length buf"
  by (simp add: move_def)

lemma move_nth:
  assumes "i < length buf" and "q < length buf" and "c < length buf"
  shows "move buf i q ! c = (if c = q then buf ! i else if c = i then setZero (buf ! i) else buf ! c)"
  using assms by (auto simp: move_def nth_list_update)

lemma elements_iff: "c \<in> elements buf \<longleftrightarrow> \<not> isZero c \<and> (\<exists>p < length buf. buf ! p = c)"
  by (auto simp: elements_def in_set_conv_nth)

lemma move_elements:
  assumes "i < length buf" and "q < length buf" and "q = i \<or> isZero (buf ! q)" and "\<not> isZero (buf ! i)"
  shows "elements (move buf i q) = elements buf"
proof (cases "q = i")
  case False
  have "move buf i q ! p \<in> elements buf" if "p < length buf" "\<not> isZero (move buf i q ! p)" for p
    using assms False that by (auto simp: elements_iff move_nth split: if_splits)
  then have "elements (move buf i q) \<subseteq> elements buf"
    by (metis elements_iff move_length subsetI)
  moreover have "buf ! p \<in> elements (move buf i q)" if "p < length buf" "\<not> isZero (buf ! p)" for p
    using assms False that by (auto simp: elements_iff move_nth intro!: exI [of _ "if p = i then q else p"])
  then have "elements buf \<subseteq> elements (move buf i q)"
    by (metis elements_iff subsetI)
  ultimately show ?thesis
    by blast
qed (simp add: move_def)

lemma move_unique:
  assumes "i < length buf" and "q < length buf" and "q = i \<or> isZero (buf ! q)" and "unique_keys buf"
  shows "unique_keys (move buf i q)"
  using assms by (cases "q = i") (auto simp: unique_keys_def move_nth move_def [of buf i i] isZero_def setZero_def)

lemma reinsert_spec:
  assumes "grower_ok g" and "length buf = bufSize g" and "unique_keys buf" and "i < length buf" and "\<not> isZero (buf ! i)"
  obtains q where "reinsert hash g buf i = Some (move buf i q)" and "q < length buf" and "q = i \<or> isZero (buf ! q)"
    and "q = i \<or> \<not> between (home hash (length buf) (buf ! i)) i q"
    and "\<And>c. c < length buf \<Longrightarrow> between (home hash (length buf) (buf ! i)) c q \<Longrightarrow> c = q \<or> \<not> isZero (buf ! c)"
proof -
  let ?x = "buf ! i"
  let ?h = "home hash (length buf) ?x"
  have h: "place g (getHash hash ?x) = ?h" "?h < length buf"
    using assms(1,2) place_less [OF assms(1)] by (simp_all add: home_def place_mod)
  have stop: "stops_at buf (fst ?x) c \<longleftrightarrow> isZero (buf ! c) \<or> c = i" if "c < length buf" for c
    using that assms(3,4,5) by (auto simp: stops_at_def keyEquals_def unique_keys_def)
  then obtain q where q: "q < length buf" "stops_at buf (fst ?x) q"
    "\<And>c. c < length buf \<Longrightarrow> between ?h c q \<Longrightarrow> c = q \<or> \<not> stops_at buf (fst ?x) c"
    using first_stop [of ?h "length buf" "stops_at buf (fst ?x)"] h(2) assms(4) by blast
  show thesis
  proof (cases "i = ?h")
    case True
    then show ?thesis
      using that [of i] h assms(4) by (auto simp: reinsert_def move_def between_def)
  next
    case False
    have "findCell g buf (fst ?x) ?h = Some q"
      using findCell_first [OF assms(1)] h(2) q assms(2) by metis
    then have "reinsert hash g buf i = Some (move buf i q)"
      using False h(1) stop [OF q(1)] q(2) assms(5) by (auto simp: reinsert_def Let_def move_def)
    then show ?thesis
      using that [of q] q stop assms(4) by blast
  qed
qed

section \<open>Room for the elements\<close>

lemma finite_elements [simp]: "finite (elements buf)"
  by (simp add: elements_def)

lemma empty_cell:
  assumes "unique_keys buf" and "card (elements buf) < card A" and "A \<subseteq> {..<length buf}"
  obtains c where "c \<in> A" and "isZero (buf ! c)"
proof (rule ccontr)
  assume "\<not> thesis"
  then have full: "\<not> isZero (buf ! c)" if "c \<in> A" for c
    using that \<open>\<And>c. c \<in> A \<Longrightarrow> isZero (buf ! c) \<Longrightarrow> thesis\<close> by blast
  have "x = y" if "x \<in> A" "y \<in> A" "buf ! x = buf ! y" for x y
    using assms(1,3) full [OF that(1)] that unfolding unique_keys_def by (metis lessThan_iff subsetD)
  then have "inj_on ((!) buf) A"
    by (rule inj_onI)
  moreover have "(!) buf ` A \<subseteq> elements buf"
    using assms(3) full unfolding elements_def by (auto intro!: nth_mem)
  ultimately have "card A \<le> card (elements buf)"
    using card_inj_on_le by (meson finite_elements)
  then show False
    using assms(2) by simp
qed

lemma free_cell:
  assumes "unique_keys buf" and "card (elements buf) < length buf - n"
  obtains e where "n \<le> e" and "e < length buf" and "isZero (buf ! e)"
proof -
  have "{n..<length buf} \<subseteq> {..<length buf}"
    by auto
  then obtain e where "e \<in> {n..<length buf}" "isZero (buf ! e)"
    using empty_cell [of buf "{n..<length buf}"] assms by auto
  then show thesis
    using that [of e] by simp
qed

section \<open>The two loops\<close>

text \<open>
  During the first loop: the cells not yet visited are those of the old buffer, what is before is found
  from its new place without passing an unvisited cell, and what is after the old buffer is preceded,
  from its place or from the end of the old buffer, by full cells.
\<close>

definition found_at :: "('k \<Rightarrow> 64 word) \<Rightarrow> ('k::zero, 'v) cell list \<Rightarrow> nat \<Rightarrow> bool" where
  "found_at hash buf p \<longleftrightarrow> (\<forall>c < length buf. between (home hash (length buf) (buf ! p)) c p \<longrightarrow> \<not> isZero (buf ! c))"

definition run_to :: "('k \<Rightarrow> 64 word) \<Rightarrow> ('k::zero, 'v) cell list \<Rightarrow> nat \<Rightarrow> nat \<Rightarrow> bool" where
  "run_to hash buf i p \<longleftrightarrow> home hash (length buf) (buf ! p) \<le> p
     \<and> (\<forall>c. home hash (length buf) (buf ! p) \<le> c \<and> i \<le> c \<and> c \<le> p \<longrightarrow> \<not> isZero (buf ! c))"

definition first_inv :: "('k \<Rightarrow> 64 word) \<Rightarrow> ('k::zero, 'v) cell list \<Rightarrow> nat \<Rightarrow> nat \<Rightarrow> ('k, 'v) cell list \<Rightarrow> bool" where
  "first_inv hash old n i buf \<longleftrightarrow> unique_keys buf \<and> elements buf = elements old
     \<and> (\<forall>j. i \<le> j \<and> j < n \<longrightarrow> buf ! j = old ! j)
     \<and> (\<forall>p < i. \<not> isZero (buf ! p) \<longrightarrow> found_at hash buf p
          \<and> (p < home hash (length buf) (buf ! p) \<longrightarrow> n \<le> home hash (length buf) (buf ! p)))
     \<and> (\<forall>p. n \<le> p \<and> p < length buf \<and> \<not> isZero (buf ! p) \<longrightarrow> run_to hash buf n p)"

definition second_inv :: "('k \<Rightarrow> 64 word) \<Rightarrow> ('k::zero, 'v) cell list \<Rightarrow> nat \<Rightarrow> ('k, 'v) cell list \<Rightarrow> bool" where
  "second_inv hash old i buf \<longleftrightarrow> unique_keys buf \<and> elements buf = elements old
     \<and> (\<exists>m. i \<le> m \<and> m < length buf \<and> isZero (buf ! m))
     \<and> (\<forall>p < i. \<not> isZero (buf ! p) \<longrightarrow> found_at hash buf p)
     \<and> (\<forall>p. i \<le> p \<and> p < length buf \<and> \<not> isZero (buf ! p) \<longrightarrow> run_to hash buf i p)"

lemma move_full:
  assumes "i < length buf" and "q < length buf" and "c < length buf" and "\<not> isZero (buf ! i)" and "q = i \<or> isZero (buf ! q)"
  shows "isZero (move buf i q ! c) \<longleftrightarrow> c \<noteq> q \<and> (c = i \<or> isZero (buf ! c))"
  using assms by (auto simp: move_nth)

lemma second_step:
  assumes inv: "second_inv hash old i buf" and "grower_ok g" and len: "length buf = bufSize g" and i: "i < length buf"
    and full: "\<not> isZero (buf ! i)"
  shows "\<exists>buf'. reinsert hash g buf i = Some buf' \<and> length buf' = length buf \<and> second_inv hash old (Suc i) buf'"
proof -
  let ?N = "length buf"
  let ?h = "\<lambda>p. home hash ?N (buf ! p)"
  have I: "unique_keys buf" "elements buf = elements old"
    and before: "\<And>p. p < i \<Longrightarrow> \<not> isZero (buf ! p) \<Longrightarrow> found_at hash buf p"
    and after: "\<And>p. i \<le> p \<Longrightarrow> p < ?N \<Longrightarrow> \<not> isZero (buf ! p) \<Longrightarrow> run_to hash buf i p"
    using inv by (auto simp: second_inv_def)
  obtain m where m: "i < m" "m < ?N" "isZero (buf ! m)"
    using inv full by (auto simp: second_inv_def le_less)
  obtain q where q: "reinsert hash g buf i = Some (move buf i q)" "q < ?N" "q = i \<or> isZero (buf ! q)"
    "q = i \<or> \<not> between (?h i) i q" "\<And>c. c < ?N \<Longrightarrow> between (?h i) c q \<Longrightarrow> c = q \<or> \<not> isZero (buf ! c)"
    using reinsert_spec [OF assms(2) len I(1) i full] by metis
  have hi: "?h i \<le> i"
    using after [of i] i full by (simp add: run_to_def)
  have qi: "q \<le> i"
    using q(4) hi by (auto simp: between_def split: if_splits)
  let ?b = "move buf i q"
  note full_iff = move_full [OF i q(2) _ full q(3)]
  have bq: "?b ! q = buf ! i"
    using i q(2) by (simp add: move_nth)
  have "found_at hash ?b q"
    unfolding found_at_def bq move_length
    using q(4,5) full_iff by metis
  moreover have "found_at hash ?b p" if p: "p < i" "p \<noteq> q" "\<not> isZero (?b ! p)" for p
  proof -
    have pf: "\<not> isZero (buf ! p)" "?b ! p = buf ! p"
      using p i q(2) by (auto simp: full_iff move_nth)
    have found: "\<And>c. c < ?N \<Longrightarrow> between (?h p) c p \<Longrightarrow> \<not> isZero (buf ! c)"
      using before [OF p(1) pf(1)] by (simp add: found_at_def)
    have "\<not> between (?h p) i p"
      using found [of m] m p(1) by (auto simp: between_def split: if_splits)
    then show ?thesis
      unfolding found_at_def pf(2) move_length using found full_iff by metis
  qed
  moreover have "run_to hash ?b (Suc i) p" if p: "i < p" "p < ?N" "\<not> isZero (?b ! p)" for p
  proof -
    have pf: "\<not> isZero (buf ! p)" "?b ! p = buf ! p"
      using p i q(2) qi by (auto simp: full_iff move_nth)
    then show ?thesis
      using after [of p] p(1,2) by (auto simp: run_to_def full_iff)
  qed
  moreover have "Suc i \<le> m \<and> m < ?N \<and> isZero (?b ! m)"
    using m qi by (auto simp: full_iff)
  ultimately have "second_inv hash old (Suc i) ?b"
    using I move_unique [OF i q(2,3) I(1)] move_elements [OF i q(2,3) full] qi
    unfolding second_inv_def by (auto simp: less_Suc_eq full_iff i)
  then show ?thesis
    using q(1) by simp
qed

lemma second_loop:
  assumes "second_inv hash old i buf" and "grower_ok g" and "length buf = bufSize g" and "i \<le> length buf"
  shows "\<exists>buf'. resize_tail hash g [i..<bufSize g] buf = Some buf' \<and> length buf' = bufSize g
    \<and> unique_keys buf' \<and> elements buf' = elements old \<and> probing hash buf'"
  using assms(1,3,4)
proof (induction "bufSize g - i" arbitrary: i buf)
  case 0
  then show ?case
    by (auto simp: second_inv_def)
next
  case (Suc k)
  then have i: "i < length buf" "[i..<bufSize g] = i # [Suc i..<bufSize g]"
    by (simp_all add: upt_conv_Cons)
  show ?case
  proof (cases "isZero (buf ! i)")
    case True
    have "found_at hash buf p" if "p < length buf" "\<not> isZero (buf ! p)" for p
    proof (cases "p < i")
      case False
      then have "run_to hash buf i p"
        using Suc.prems(1) that by (simp add: second_inv_def)
      then show ?thesis
        using True False by (auto simp: run_to_def found_at_def between_def not_less intro: le_cases [of i])
    qed (use Suc.prems(1) that in \<open>simp add: second_inv_def\<close>)
    then show ?thesis
      using True Suc.prems i(2) by (auto simp: second_inv_def probing_def found_at_def)
  next
    case False
    obtain buf' where b: "reinsert hash g buf i = Some buf'" "length buf' = length buf" "second_inv hash old (Suc i) buf'"
      using second_step [OF Suc.prems(1) assms(2) Suc.prems(2) i(1) False] by blast
    show ?thesis
      using Suc.hyps(1) [of "Suc i" buf'] Suc.hyps(2) Suc.prems(2) b i False by simp
  qed
qed

lemma home_mod:
  assumes "n dvd m"
  shows "home hash m c mod n = home hash n c"
  using assms by (simp add: home_def mod_mod_cancel)

lemma first_step:
  assumes inv: "first_inv hash old n i buf" and "grower_ok g" and len: "length buf = bufSize g" and n: "n dvd length buf" "i < n" "n < length buf"
    and old: "probing hash old" "length old = n" and e: "n \<le> e" "e < length buf" "isZero (buf ! e)" and full: "\<not> isZero (buf ! i)"
  shows "\<exists>buf'. reinsert hash g buf i = Some buf' \<and> length buf' = length buf \<and> first_inv hash old n (Suc i) buf'"
proof -
  let ?N = "length buf"
  let ?h = "\<lambda>p. home hash ?N (buf ! p)"
  have i: "i < ?N"
    using n by simp
  have I: "unique_keys buf" "elements buf = elements old" "\<And>j. i \<le> j \<Longrightarrow> j < n \<Longrightarrow> buf ! j = old ! j"
    and before: "\<And>p. p < i \<Longrightarrow> \<not> isZero (buf ! p) \<Longrightarrow> found_at hash buf p \<and> (p < ?h p \<longrightarrow> n \<le> ?h p)"
    and after: "\<And>p. n \<le> p \<Longrightarrow> p < ?N \<Longrightarrow> \<not> isZero (buf ! p) \<Longrightarrow> run_to hash buf n p"
    using inv unfolding first_inv_def by auto
  obtain q where q: "reinsert hash g buf i = Some (move buf i q)" "q < ?N" "q = i \<or> isZero (buf ! q)"
    "q = i \<or> \<not> between (?h i) i q" "\<And>c. c < ?N \<Longrightarrow> between (?h i) c q \<Longrightarrow> c = q \<or> \<not> isZero (buf ! c)"
    using reinsert_spec [OF assms(2) len I(1) i full] by metis
  have chain: "\<not> isZero (buf ! c)" if "i < ?h i" "?h i < n" "?h i \<le> c" "c < n" for c
  proof -
    have h: "home hash n (old ! i) = ?h i" "\<not> isZero (old ! i)"
      using home_mod [OF n(1), of hash "buf ! i"] that(2) I(3) [of i] n(2) full by simp_all
    have "between (?h i) c i"
      using that by (simp add: between_def)
    then have "\<not> isZero (old ! c)"
      using old(1) h that(4) n(2) unfolding probing_def old(2) by metis
    then show ?thesis
      using I(3) [of c] that by simp
  qed
  have no_wrap: "n \<le> q" if "i < ?h i" "?h i < n"
  proof (rule ccontr)
    assume "\<not> n \<le> q"
    then show False
      using q(5) [of e] e chain [of q] q(3,4) that by (auto simp: between_def split: if_splits)
  qed
  have q_cases: "q \<le> i \<or> n \<le> q \<and> ?h i \<le> q"
    using q(4) no_wrap by (auto simp: between_def split: if_splits)
  have far: "n \<le> ?h i" if "q < ?h i" "q \<le> i"
  proof (rule ccontr)
    assume "\<not> n \<le> ?h i"
    then show False
      using no_wrap q(4) that n(2) by (cases "i < ?h i") (auto simp: between_def)
  qed
  let ?b = "move buf i q"
  note full_iff = move_full [OF i q(2) _ full q(3)]
  have bq: "?b ! q = buf ! i"
    using i q(2) by (simp add: move_nth)
  have found_q: "found_at hash ?b q"
    unfolding found_at_def bq move_length using q(4,5) full_iff by metis
  have other: "\<not> isZero (buf ! p)" "?b ! p = buf ! p" if "p < ?N" "p \<noteq> q" "\<not> isZero (?b ! p)" for p
    using that i q(2) by (auto simp: move_nth split: if_splits)
  have "found_at hash ?b p \<and> (p < home hash ?N (?b ! p) \<longrightarrow> n \<le> home hash ?N (?b ! p))"
    if p: "p < Suc i" "\<not> isZero (?b ! p)" for p
  proof (cases "p = q")
    case True
    then show ?thesis
      using found_q bq far p(1) by simp
  next
    case False
    have pf: "\<not> isZero (buf ! p)" "?b ! p = buf ! p" "p < i"
      using other [of p] p False i q(2) by (auto simp: move_nth less_Suc_eq)
    have f: "found_at hash buf p" "p < ?h p \<longrightarrow> n \<le> ?h p"
      using before [OF pf(3,1)] by auto
    then have "\<not> between (?h p) i p"
      using pf(3) n(2) by (auto simp: between_def not_le)
    then show ?thesis
      using f unfolding found_at_def pf(2) move_length using full_iff by metis
  qed
  moreover have "run_to hash ?b n p" if p: "n \<le> p" "p < ?N" "\<not> isZero (?b ! p)" for p
  proof (cases "p = q")
    case True
    then show ?thesis
      using found_q q_cases p(1) n(2) q(2) bq by (auto simp: run_to_def found_at_def between_def)
  next
    case False
    then show ?thesis
      using after [OF p(1,2)] other [OF p(2) False p(3)] n(2) p(2) by (auto simp: run_to_def full_iff)
  qed
  moreover have "?b ! j = old ! j" if "Suc i \<le> j" "j < n" for j
    using I(3) [of j] that q_cases n(3) q(2) i by (auto simp: move_nth)
  ultimately have "first_inv hash old n (Suc i) ?b"
    using I(2) move_unique [OF i q(2,3) I(1)] move_elements [OF i q(2,3) full] unfolding first_inv_def by simp
  then show ?thesis
    using q(1) by simp
qed

lemma first_loop:
  assumes "first_inv hash old n i buf" and "grower_ok g" and "length buf = bufSize g" and "n dvd bufSize g" and "i \<le> n"
    and "n < bufSize g" and "probing hash old" and "length old = n" and "card (elements old) < bufSize g - n"
  shows "\<exists>buf'. resize_cells hash g [i..<n] buf = Some buf' \<and> length buf' = bufSize g \<and> first_inv hash old n n buf'"
  using assms(1,3,5)
proof (induction "n - i" arbitrary: i buf)
  case (Suc k)
  then have i: "i < n" "[i..<n] = i # [Suc i..<n]"
    by (simp_all add: upt_conv_Cons)
  show ?case
  proof (cases "isZero (buf ! i)")
    case True
    then have "first_inv hash old n (Suc i) buf"
      using Suc.prems(1) by (auto simp: first_inv_def less_Suc_eq)
    then show ?thesis
      using Suc.hyps(1) [of "Suc i" buf] Suc.hyps(2) Suc.prems(2) True i by simp
  next
    case False
    obtain e where e: "n \<le> e" "e < length buf" "isZero (buf ! e)"
      using free_cell [of buf n] Suc.prems(1,2) assms(9) unfolding first_inv_def by metis
    obtain buf' where b: "reinsert hash g buf i = Some buf'" "length buf' = length buf" "first_inv hash old n (Suc i) buf'"
      using first_step [OF Suc.prems(1) assms(2) Suc.prems(2) _ i(1) _ assms(7,8) e False] assms(4,6) Suc.prems(2) by auto
    show ?thesis
      using Suc.hyps(1) [of "Suc i" buf'] Suc.hyps(2) Suc.prems(2) b i False by simp
  qed
qed auto

text \<open>
  Growing a buffer of \<open>n\<close> cells to a multiple of it rehashes all elements in place, whatever the hash
  function, as long as the elements leave a free cell in the new part.
\<close>

lemma rehash_correct:
  assumes "grower_ok g" and "probing hash old" and "unique_keys old" and n: "length old = n" "n dvd bufSize g" "n < bufSize g"
    and zeros: "list_all isZero zeros" "n + length zeros = bufSize g" and "card (elements old) < bufSize g - n"
  shows "\<exists>buf. rehash hash g n (old @ zeros) = Some buf \<and> length buf = bufSize g
    \<and> unique_keys buf \<and> elements buf = elements old \<and> probing hash buf"
proof -
  have zero: "isZero ((old @ zeros) ! p)" if "n \<le> p" "p < bufSize g" for p
    using that zeros n(1) by (auto simp: nth_append list_all_length)
  have "elements (old @ zeros) = elements old"
    using zeros(1) by (auto simp: elements_def list_all_iff)
  moreover have "unique_keys (old @ zeros)"
  proof -
    have "p < n" if "p < bufSize g" "\<not> isZero ((old @ zeros) ! p)" for p
      using zero that not_less by blast
    moreover have "q < n" if "q < bufSize g" "\<not> isZero ((old @ zeros) ! p)" "fst ((old @ zeros) ! p) = fst ((old @ zeros) ! q)" for p q
      using zero that by (metis isZero_def not_less)
    ultimately show ?thesis
      using assms(3) n(1) zeros(2) unfolding unique_keys_def by (smt (verit) length_append nth_append)
  qed
  ultimately have "first_inv hash old n 0 (old @ zeros)"
    using zero n(1) zeros(2) by (auto simp: first_inv_def nth_append)
  then obtain buf1 where b1: "resize_cells hash g [0..<n] (old @ zeros) = Some buf1" "length buf1 = bufSize g" "first_inv hash old n n buf1"
    using first_loop [OF _ assms(1) _ n(2) _ n(3) assms(2) n(1) assms(9), of 0 "old @ zeros"] n(1) zeros(2) by auto
  obtain e where "n \<le> e" "e < length buf1" "isZero (buf1 ! e)"
    using free_cell [of buf1 n] b1(2,3) assms(9) unfolding first_inv_def by metis
  then have "second_inv hash old n buf1"
    using b1(3) by (auto simp: first_inv_def second_inv_def)
  then show ?thesis
    using second_loop [OF _ assms(1) b1(2)] b1(1,2) n(3) by (auto simp: rehash_def)
qed

end
