(* ===== verification/HashTable_Erase.thy ===== *)
theory HashTable_Erase
  imports HashTable_Resize
begin

text \<open>
  Deletion without tombstones, the loop of \<^verbatim>\<open>erase\<close> in \<^verbatim>\<open>src/src/Common/HashTable/HashTable.h\<close>: elements of the
  chain after the freed cell move back into it when the freed cell is on the way from their place.
\<close>

partial_function (option) erase_loop ::
    "('k \<Rightarrow> 64 word) \<Rightarrow> grower \<Rightarrow> ('k::zero, 'v) cell list \<Rightarrow> nat \<Rightarrow> nat \<Rightarrow> (('k, 'v) cell list \<times> nat) option" where
  "erase_loop hash g buf erased_key_position position =
     (let next_position = next_place g position
      in if isZero (buf ! next_position) then Some (buf, erased_key_position)
         else
           let optimal_position = place g (getHash hash (buf ! next_position))
           in if optimal_position = next_position then erase_loop hash g buf erased_key_position next_position
              else if next_position > erased_key_position \<and> optimal_position > erased_key_position \<and> optimal_position < next_position
              then erase_loop hash g buf erased_key_position next_position
              else if next_position < erased_key_position \<and> (optimal_position > erased_key_position \<or> optimal_position < next_position)
              then erase_loop hash g buf erased_key_position next_position
              else erase_loop hash g (buf[erased_key_position := buf ! next_position]) next_position next_position)"

definition erase_cell :: "('k \<Rightarrow> 64 word) \<Rightarrow> grower \<Rightarrow> ('k::zero, 'v) cell list \<Rightarrow> nat \<Rightarrow> ('k, 'v) cell list option" where
  "erase_cell hash g buf pos =
     map_option (\<lambda>(buf', erased). buf'[erased := setZero (buf' ! erased)]) (erase_loop hash g buf pos pos)"

section \<open>Correctness\<close>

definition hole :: "('k::zero, 'v) cell list \<Rightarrow> nat \<Rightarrow> ('k, 'v) cell list" where
  "hole buf e = buf[e := setZero (buf ! e)]"

lemma hole_nth: "c < length buf \<Longrightarrow> hole buf e ! c = (if c = e then setZero (buf ! e) else buf ! c)"
  by (simp add: hole_def nth_list_update)

lemma hole_length [simp]: "length (hole buf e) = length buf"
  by (simp add: hole_def)

lemma hole_unique: "unique_keys buf \<Longrightarrow> unique_keys (hole buf e)"
  by (auto simp: unique_keys_def hole_nth isZero_def setZero_def)

lemma hole_elements:
  assumes "unique_keys buf" and "e < length buf" and "\<not> isZero (buf ! e)"
  shows "elements (hole buf e) = elements buf - {buf ! e}"
proof -
  have other: "buf ! p \<noteq> buf ! e" if "p < length buf" "p \<noteq> e" for p
    using assms that unfolding unique_keys_def by metis
  have "c \<in> elements (hole buf e) \<longleftrightarrow> c \<in> elements buf \<and> c \<noteq> buf ! e" for c
  proof
    assume "c \<in> elements (hole buf e)"
    then obtain p where p: "p < length buf" "hole buf e ! p = c" "\<not> isZero c"
      unfolding elements_iff by auto
    then have "p \<noteq> e"
      using isZero_setZero hole_nth by metis
    then show "c \<in> elements buf \<and> c \<noteq> buf ! e"
      using other [of p] p by (auto simp: hole_nth elements_def)
  next
    assume "c \<in> elements buf \<and> c \<noteq> buf ! e"
    then obtain p where "p < length buf" "buf ! p = c" "\<not> isZero c" "p \<noteq> e"
      unfolding elements_iff by auto
    then show "c \<in> elements (hole buf e)"
      unfolding elements_iff by (auto simp: hole_nth intro!: exI [of _ p])
  qed
  then show ?thesis
    by blast
qed

text \<open>
  The cells from the hole at \<open>e\<close> to \<open>j\<close> are full, and the elements after the hole in this stretch do not
  need it; all elements are found if the hole counts as full.
\<close>

definition erase_inv :: "('k \<Rightarrow> 64 word) \<Rightarrow> ('k::zero, 'v) cell set \<Rightarrow> ('k, 'v) cell list \<Rightarrow> nat \<Rightarrow> nat \<Rightarrow> bool" where
  "erase_inv hash E buf e j \<longleftrightarrow> e < length buf \<and> j < length buf
     \<and> (\<forall>c < length buf. between e c j \<longrightarrow> \<not> isZero (buf ! c))
     \<and> unique_keys (hole buf e) \<and> elements (hole buf e) = E
     \<and> (\<forall>p < length buf. p \<noteq> e \<and> \<not> isZero (buf ! p) \<longrightarrow> found_at hash buf p)
     \<and> (\<forall>p < length buf. p \<noteq> e \<and> between e p j \<longrightarrow> \<not> between (home hash (length buf) (buf ! p)) e p)"

abbreviation succ_place :: "nat \<Rightarrow> nat \<Rightarrow> nat" where
  "succ_place n p \<equiv> (if Suc p = n then 0 else Suc p)"

lemma between_past:
  assumes "between h e p" and "p \<noteq> e" and "\<not> between e p j" and "j < n" "p < n" "e < n"
  shows "between h (succ_place n j) p"
  using assms by (auto simp: between_def split: if_splits)

lemma between_succ:
  assumes "between e c (succ_place n j)" and "succ_place n j \<noteq> e" and "j < n" "c < n" "e < n"
  shows "c = succ_place n j \<or> between e c j"
  using assms by (auto simp: between_def split: if_splits)

lemma between_prefix:
  assumes "between h c e" and "between h e p"
  shows "between h c p"
  using assms by (auto simp: between_def split: if_splits)

lemma all_between:
  assumes "c < n" and "j < n" and "succ_place n j = e"
  shows "between e c j"
  using assms by (auto simp: between_def split: if_splits)

lemma erase_invD:
  assumes "erase_inv hash E buf e j"
  shows "e < length buf" and "j < length buf"
    and "c < length buf \<Longrightarrow> between e c j \<Longrightarrow> \<not> isZero (buf ! c)"
    and "unique_keys (hole buf e)" and "elements (hole buf e) = E"
    and "p < length buf \<Longrightarrow> p \<noteq> e \<Longrightarrow> \<not> isZero (buf ! p) \<Longrightarrow> found_at hash buf p"
    and "p < length buf \<Longrightarrow> p \<noteq> e \<Longrightarrow> between e p j \<Longrightarrow> \<not> between (home hash (length buf) (buf ! p)) e p"
  using assms unfolding erase_inv_def by blast+

lemma erase_end:
  assumes inv: "erase_inv hash E buf e j" and zero: "isZero (buf ! succ_place (length buf) j)"
  shows "probing hash (hole buf e)"
proof -
  let ?N = "length buf"
  note D = erase_invD [OF inv]
  have succ: "succ_place ?N j < ?N"
    using D(2) by auto
  have avoid: "\<not> between (home hash ?N (buf ! p)) e p" if p: "p < ?N" "p \<noteq> e" "\<not> isZero (buf ! p)" for p
  proof
    assume b: "between (home hash ?N (buf ! p)) e p"
    then have "\<not> between e p j"
      using D(7) [OF p(1,2)] by blast
    then have "between (home hash ?N (buf ! p)) (succ_place ?N j) p"
      using between_past [OF b p(2) _ D(2) p(1) D(1)] by blast
    then show False
      using D(6) [OF p] zero succ unfolding found_at_def by blast
  qed
  have "\<not> isZero (hole buf e ! c)"
    if "p < ?N" "\<not> isZero (hole buf e ! p)" "c < ?N" "between (home hash ?N (hole buf e ! p)) c p" for p c
  proof -
    have p: "p \<noteq> e" "hole buf e ! p = buf ! p"
      using that isZero_setZero hole_nth by metis+
    then show ?thesis
      using that avoid [of p] D(6) [of p] by (metis found_at_def hole_nth)
  qed
  then show ?thesis
    by (simp add: probing_def)
qed

lemma erase_skip:
  assumes inv: "erase_inv hash E buf e j" and n: "n = succ_place (length buf) j" "n \<noteq> e" and full: "\<not> isZero (buf ! n)"
    and stay: "\<not> between (home hash (length buf) (buf ! n)) e n"
  shows "erase_inv hash E buf e n"
proof -
  note D = erase_invD [OF inv]
  have n_less: "n < length buf"
    using D(2) n(1) by auto
  have "c = n \<or> between e c j" if "c < length buf" "between e c n" for c
    using between_succ [of e c j "length buf", folded n(1), OF that(2) n(2) D(2) that(1) D(1)] .
  then show ?thesis
    using D n_less full stay unfolding erase_inv_def by metis
qed

lemma erase_move:
  assumes inv: "erase_inv hash E buf e j" and n: "n = succ_place (length buf) j" "n \<noteq> e" and full: "\<not> isZero (buf ! n)"
    and moved: "between (home hash (length buf) (buf ! n)) e n"
  shows "erase_inv hash E (buf[e := buf ! n]) n n"
proof -
  let ?b = "buf[e := buf ! n]"
  note D = erase_invD [OF inv]
  have n_less: "n < length buf"
    using D(2) n(1) by auto
  have e_full: "\<not> isZero (buf ! e)"
    using D(1,3) by (simp add: between_def)
  have full_iff: "isZero (?b ! c) \<longleftrightarrow> isZero (buf ! c)" if "c < length buf" for c
    using full e_full D(1) by (auto simp: nth_list_update)
  have "hole ?b n = move (hole buf e) n e"
    using n(2) n_less D(1) by (simp add: hole_def move_def nth_list_update list_update_swap)
  then have "unique_keys (hole ?b n) \<and> elements (hole ?b n) = E"
    using move_unique [of n "hole buf e" e] move_elements [of n "hole buf e" e] D(1,4,5) n_less n(2) full
    by (simp add: hole_nth)
  moreover have "found_at hash ?b p" if p: "p < length buf" "p \<noteq> n" "\<not> isZero (?b ! p)" for p
  proof (cases "p = e")
    case True
    have "found_at hash buf n"
      using D(6) [OF n_less n(2) full] .
    then show ?thesis
      using True D(1) between_prefix [OF _ moved] full_iff by (simp add: found_at_def)
  next
    case False
    then have "found_at hash buf p"
      using D(6) [OF p(1) False] p full_iff by simp
    then show ?thesis
      using False full_iff by (simp add: found_at_def)
  qed
  moreover have "c = n" if "between n c n" for c
    using that by (simp add: between_def)
  ultimately show ?thesis
    using n_less full n(2) D(1) unfolding erase_inv_def by (auto simp: nth_list_update)
qed

lemma erase_loop_correct:
  assumes "erase_inv hash E buf e j" and "grower_ok g" and "length buf = bufSize g" and "z < length buf" and "isZero (buf ! z)"
  shows "\<exists>buf' e'. erase_loop hash g buf e j = Some (buf', e') \<and> length buf' = length buf
    \<and> unique_keys (hole buf' e') \<and> elements (hole buf' e') = E \<and> probing hash (hole buf' e')"
  using assms(1,3-5)
proof (induction "dist (length buf) j z" arbitrary: buf e j rule: less_induct)
  case less
  note D = erase_invD [OF less.prems(1)]
  define n where "n = succ_place (length buf) j"
  have n: "next_place g j = n" "n < length buf"
    using next_place_mod [OF assms(2), of j] D(2) less.prems(2) by (auto simp: n_def)
  have e_full: "\<not> isZero (buf ! e)"
    using D(1,3) by (simp add: between_def)
  have ne: "n \<noteq> e"
    using all_between [OF less.prems(3) D(2), of e] D(3) [OF less.prems(3)] less.prems(4) unfolding n_def by blast
  show ?case
  proof (cases "isZero (buf ! n)")
    case True
    then show ?thesis
      using erase_end [OF less.prems(1)] D(4,5) n(1) by (subst erase_loop.simps) (simp add: n_def)
  next
    case False
    let ?h = "home hash (length buf) (buf ! n)"
    have h: "place g (getHash hash (buf ! n)) = ?h"
      using place_mod [OF assms(2)] less.prems(2) by (simp add: home_def)
    have near: "dist (length buf) n z < dist (length buf) j z"
    proof -
      have "between e j j"
        by (simp add: between_def)
      then have "z \<noteq> j"
        using D(3) [OF D(2)] less.prems(4) by blast
      then show ?thesis
        using False less.prems(3,4) D(2) by (auto simp: dist_def n_def split: if_splits)
    qed
    have loop: "erase_loop hash g buf e j =
        (if \<not> between ?h e n then erase_loop hash g buf e n else erase_loop hash g (buf[e := buf ! n]) n n)"
      using ne False h by (subst erase_loop.simps) (auto simp: n(1) between_def Let_def)
    show ?thesis
    proof (cases "between ?h e n")
      case True
      have "isZero (buf[e := buf ! n] ! z)"
        using less.prems(4) e_full D(1) by (auto simp: nth_list_update)
      then show ?thesis
        using less.hyps [OF _ erase_move [OF less.prems(1) n_def ne False True]] near less.prems(2,3) loop True by simp
    next
      case stay: False
      then show ?thesis
        using less.hyps [OF near erase_skip [OF less.prems(1) n_def ne False stay]] less.prems loop by simp
    qed
  qed
qed

lemma erase_cell_correct:
  assumes "grower_ok g" and "length buf = bufSize g" and "unique_keys buf" and "probing hash buf"
    and "e < length buf" and "\<not> isZero (buf ! e)" and "card (elements buf) < length buf"
  shows "\<exists>buf'. erase_cell hash g buf e = Some buf' \<and> length buf' = length buf \<and> unique_keys buf'
    \<and> elements buf' = elements buf - {buf ! e} \<and> probing hash buf'"
proof -
  have "between e c e \<longleftrightarrow> c = e" for c
    by (auto simp: between_def)
  moreover have "found_at hash buf p" if "p < length buf" "\<not> isZero (buf ! p)" for p
    using assms(4) that by (simp add: probing_def found_at_def)
  ultimately have inv: "erase_inv hash (elements buf - {buf ! e}) buf e e"
    using assms(5,6) hole_unique [OF assms(3)] hole_elements [OF assms(3,5,6)] unfolding erase_inv_def by metis
  obtain z where z: "z < length buf" "isZero (buf ! z)"
    using free_cell [of buf 0] assms(3,7) by auto
  show ?thesis
    using erase_loop_correct [OF inv assms(1,2) z] by (auto simp: erase_cell_def hole_def)
qed

end
