(* ===== verification/HashTable.thy ===== *)
theory HashTable
  imports HashTable_Erase IO_Binary
begin

text \<open>
  The operations of the hash table of \<^verbatim>\<open>src/src/Common/HashTable/HashTable.h\<close> with the cells of \<^verbatim>\<open>HashMap.h\<close>.
  Memory that is allocated anew is zero; a value that the code leaves uninitialised keeps what is in
  memory.  \<open>None\<close> is a loop that does not end.
\<close>

section \<open>Table\<close>

text \<open>
  The parameters of the template: the hash function, the size of a cell, the initial size, and the
  allocator, which may throw.
\<close>

record 'k ht_types =
  key_hash :: "'k \<Rightarrow> 64 word"
  sizeof_cell :: nat
  initial_size_degree :: nat
  can_allocate :: "nat \<Rightarrow> bool"

record ('k, 'v) ht =
  m_size :: nat
  buf :: "('k, 'v) cell list"
  ht_grower :: grower
  has_zero :: bool
  zero_mapped :: 'v

text \<open>A \<^verbatim>\<open>LookupResult\<close>: the cell of the zero key, or a position in the buffer.\<close>

datatype slot = ZeroSlot | Slot nat

definition setHasZero :: "('k, 'v::zero) ht \<Rightarrow> ('k, 'v) ht" where
  "setHasZero t = t\<lparr>has_zero := True, zero_mapped := 0\<rparr>"

definition clearHasZero :: "('k, 'v) ht \<Rightarrow> ('k, 'v) ht" where
  "clearHasZero t = t\<lparr>has_zero := False\<rparr>"

definition slot_mapped :: "('k, 'v) ht \<Rightarrow> slot \<Rightarrow> 'v" where
  "slot_mapped t s = (case s of ZeroSlot \<Rightarrow> zero_mapped t | Slot p \<Rightarrow> snd (buf t ! p))"

definition setMapped :: "slot \<Rightarrow> 'v \<Rightarrow> ('k, 'v) ht \<Rightarrow> ('k, 'v) ht" where
  "setMapped s v t =
     (case s of ZeroSlot \<Rightarrow> t\<lparr>zero_mapped := v\<rparr> | Slot p \<Rightarrow> t\<lparr>buf := (buf t)[p := (fst (buf t ! p), v)]\<rparr>)"

definition allocCheckOverflow :: "'k ht_types \<Rightarrow> nat \<Rightarrow> nat result" where
  "allocCheckOverflow T buffer_size =
     (if 2 ^ 64 \<le> buffer_size * sizeof_cell T then Inl CANNOT_ALLOCATE_MEMORY else Inr (buffer_size * sizeof_cell T))"

definition ht_alloc :: "'k ht_types \<Rightarrow> nat \<Rightarrow> unit result" where
  "ht_alloc T buffer_size =
     res_bind (allocCheckOverflow T buffer_size) (\<lambda>bytes. if can_allocate T bytes then Inr () else Inl CANNOT_ALLOCATE_MEMORY)"

definition new_HashTable :: "'k ht_types \<Rightarrow> grower \<Rightarrow> ('k::zero, 'v::zero) ht result" where
  "new_HashTable T g =
     res_map (\<lambda>_. \<lparr>m_size = 0, buf = replicate (bufSize g) (0, 0), ht_grower = g, has_zero = False, zero_mapped = 0\<rparr>)
       (ht_alloc T (bufSize g))"

section \<open>Growing\<close>

definition grower_setBufSize :: "nat \<Rightarrow> grower \<Rightarrow> grower" where
  "grower_setBufSize buf_size g = increaseSizeDegree 0 (g\<lparr>size_degree := floorlog 2 (buf_size - 1)\<rparr>)"

definition grow :: "'k ht_types \<Rightarrow> grower \<Rightarrow> ('k::zero, 'v::zero) ht \<Rightarrow> ('k, 'v) ht result option" where
  "grow T new_g t =
     (let old_size = bufSize (ht_grower t)
      in case ht_alloc T (bufSize new_g) of
           Inl e \<Rightarrow> Some (Inl e)
         | Inr _ \<Rightarrow>
             let t' = t\<lparr>buf := buf t @ replicate (bufSize new_g - old_size) (0, 0), ht_grower := new_g\<rparr>
             in if m_size t' = 0 then Some (Inr t')
                else map_option (\<lambda>b. Inr (t'\<lparr>buf := b\<rparr>)) (rehash (key_hash T) new_g old_size (buf t')))"

definition resize :: "'k ht_types \<Rightarrow> nat \<Rightarrow> nat \<Rightarrow> ('k::zero, 'v::zero) ht \<Rightarrow> ('k, 'v) ht result option" where
  "resize T for_num_elems for_buf_size t =
     (let g = ht_grower t; old_size = bufSize g
      in if for_num_elems \<noteq> 0 then
           (let new_g = grower_set (initial_size_degree T) for_num_elems g
            in if bufSize new_g \<le> old_size then Some (Inr t) else grow T new_g t)
         else if for_buf_size \<noteq> 0 then
           (let new_g = grower_setBufSize for_buf_size g
            in if bufSize new_g \<le> old_size then Some (Inr t) else grow T new_g t)
         else grow T (increaseSize g) t)"

definition ht_reserve :: "'k ht_types \<Rightarrow> nat \<Rightarrow> ('k::zero, 'v::zero) ht \<Rightarrow> ('k, 'v) ht result option" where
  "ht_reserve T num_elements t = resize T num_elements 0 t"

section \<open>Insertion\<close>

definition emplaceIfZero :: "'k \<Rightarrow> ('k::zero, 'v::zero) ht \<Rightarrow> (slot \<times> bool \<times> ('k, 'v) ht) option" where
  "emplaceIfZero x t =
     (if x = 0 then
        Some (ZeroSlot, \<not> has_zero t, if has_zero t then t else setHasZero (t\<lparr>m_size := m_size t + 1\<rparr>))
      else None)"

text \<open>If the table cannot grow, the new key is taken out again and the exception goes on.\<close>

definition emplaceNonZeroImpl :: "'k ht_types \<Rightarrow> nat \<Rightarrow> 'k \<Rightarrow> 64 word \<Rightarrow> ('k::zero, 'v::zero) ht
    \<Rightarrow> ((slot \<times> bool) result \<times> ('k, 'v) ht) option" where
  "emplaceNonZeroImpl T place_value key hash_value t =
     (if \<not> isZero (buf t ! place_value) then Some (Inr (Slot place_value, False), t)
      else
        let t1 = t\<lparr>buf := (buf t)[place_value := (key, snd (buf t ! place_value))], m_size := m_size t + 1\<rparr>
        in if grower_overflow (ht_grower t1) (m_size t1) then
             (case resize T 0 0 t1 of
                None \<Rightarrow> None
              | Some (Inl e) \<Rightarrow>
                  Some (Inl e, t1\<lparr>m_size := m_size t1 - 1, buf := (buf t1)[place_value := setZero (buf t1 ! place_value)]\<rparr>)
              | Some (Inr t2) \<Rightarrow>
                  map_option (\<lambda>new_place. (Inr (Slot new_place, True), t2))
                    (findCell (ht_grower t2) (buf t2) key (place (ht_grower t2) hash_value)))
           else Some (Inr (Slot place_value, True), t1))"

definition emplaceNonZero :: "'k ht_types \<Rightarrow> 'k \<Rightarrow> 64 word \<Rightarrow> ('k::zero, 'v::zero) ht \<Rightarrow> ((slot \<times> bool) result \<times> ('k, 'v) ht) option" where
  "emplaceNonZero T key hash_value t =
     Option.bind (findCell (ht_grower t) (buf t) key (place (ht_grower t) hash_value))
       (\<lambda>place_value. emplaceNonZeroImpl T place_value key hash_value t)"

definition emplace_hashed :: "'k ht_types \<Rightarrow> 'k \<Rightarrow> 64 word \<Rightarrow> ('k::zero, 'v::zero) ht \<Rightarrow> ((slot \<times> bool) result \<times> ('k, 'v) ht) option" where
  "emplace_hashed T key hash_value t =
     (case emplaceIfZero key t of
        Some (s, inserted, t') \<Rightarrow> Some (Inr (s, inserted), t')
      | None \<Rightarrow> emplaceNonZero T key hash_value t)"

definition emplace :: "'k ht_types \<Rightarrow> 'k \<Rightarrow> ('k::zero, 'v::zero) ht \<Rightarrow> ((slot \<times> bool) result \<times> ('k, 'v) ht) option" where
  "emplace T key t = emplace_hashed T key (key_hash T key) t"

definition ht_insert :: "'k ht_types \<Rightarrow> 'k \<times> 'v \<Rightarrow> ('k::zero, 'v::zero) ht \<Rightarrow> ((slot \<times> bool) result \<times> ('k, 'v) ht) option" where
  "ht_insert T x t =
     map_option (\<lambda>(r, t'). case r of
         Inr (s, True) \<Rightarrow> (r, setMapped s (snd x) t')
       | _ \<Rightarrow> (r, t')) (emplace T (fst x) t)"

definition insertIfNotPresent :: "'k ht_types \<Rightarrow> 'k \<Rightarrow> 'v \<Rightarrow> ('k::zero, 'v::zero) ht \<Rightarrow> (unit result \<times> ('k, 'v) ht) option" where
  "insertIfNotPresent T x v t =
     map_option (\<lambda>(r, t'). case r of
         Inl e \<Rightarrow> (Inl e, t')
       | Inr (s, inserted) \<Rightarrow> (Inr (), if inserted then setMapped s v (setMapped s 0 t') else t')) (emplace T x t)"

text \<open>\<^verbatim>\<open>operator[]\<close> gives a reference to the mapped value, which is initialised if the key is new.\<close>

definition ht_at :: "'k ht_types \<Rightarrow> 'k \<Rightarrow> ('k::zero, 'v::zero) ht \<Rightarrow> (slot result \<times> ('k, 'v) ht) option" where
  "ht_at T x t =
     map_option (\<lambda>(r, t'). case r of
         Inl e \<Rightarrow> (Inl e, t')
       | Inr (s, inserted) \<Rightarrow> (Inr s, if inserted then setMapped s 0 t' else t')) (emplace T x t)"

section \<open>Lookup and deletion\<close>

definition find_hashed :: "'k \<Rightarrow> 64 word \<Rightarrow> ('k::zero, 'v) ht \<Rightarrow> slot option option" where
  "find_hashed x hash_value t =
     (if x = 0 then Some (if has_zero t then Some ZeroSlot else None)
      else map_option (\<lambda>p. if \<not> isZero (buf t ! p) then Some (Slot p) else None)
             (findCell (ht_grower t) (buf t) x (place (ht_grower t) hash_value)))"

definition ht_find :: "'k ht_types \<Rightarrow> 'k \<Rightarrow> ('k::zero, 'v) ht \<Rightarrow> slot option option" where
  "ht_find T x t = find_hashed x (key_hash T x) t"

definition ht_has :: "'k ht_types \<Rightarrow> 'k \<Rightarrow> ('k::zero, 'v) ht \<Rightarrow> bool option" where
  "ht_has T x t =
     (if x = 0 then Some (has_zero t)
      else map_option (\<lambda>p. \<not> isZero (buf t ! p)) (findCell (ht_grower t) (buf t) x (place (ht_grower t) (key_hash T x))))"

definition ht_erase :: "'k ht_types \<Rightarrow> 'k \<Rightarrow> ('k::zero, 'v) ht \<Rightarrow> (bool \<times> ('k, 'v) ht) option" where
  "ht_erase T x t =
     (if x = 0 then
        Some (if has_zero t then (True, clearHasZero (t\<lparr>m_size := m_size t - 1\<rparr>)) else (False, t))
      else
        Option.bind (findCell (ht_grower t) (buf t) x (place (ht_grower t) (key_hash T x))) (\<lambda>pos.
          if isZero (buf t ! pos) then Some (False, t)
          else map_option (\<lambda>b. (True, t\<lparr>buf := b, m_size := m_size t - 1\<rparr>)) (erase_cell (key_hash T) (ht_grower t) (buf t) pos)))"

definition ht_clear :: "('k::zero, 'v::zero) ht \<Rightarrow> ('k, 'v) ht" where
  "ht_clear t = (clearHasZero t)\<lparr>m_size := 0, buf := replicate (bufSize (ht_grower t)) (0, 0)\<rparr>"

end
