(* ===== verification/HashTable_Map.thy ===== *)
theory HashTable_Map
  imports HashTable
begin

text \<open>
  The hash table of theory \<^verbatim>\<open>HashTable\<close> implements a finite map: invariant of the table, its abstraction, and a
  refinement lemma for each operation, including the operations that fail because memory is short.
\<close>

section \<open>Invariant and abstraction\<close>

definition types_ok :: "'k ht_types \<Rightarrow> bool" where
  "types_ok T \<longleftrightarrow> 2 \<le> sizeof_cell T \<and> 1 \<le> initial_size_degree T \<and> initial_size_degree T \<le> 62"

definition buf_ok :: "('k \<Rightarrow> 64 word) \<Rightarrow> grower \<Rightarrow> ('k::zero, 'v) cell list \<Rightarrow> bool" where
  "buf_ok hash g b \<longleftrightarrow> grower_ok g \<and> length b = bufSize g \<and> unique_keys b \<and> probing hash b"

definition ht_ok :: "'k ht_types \<Rightarrow> ('k::zero, 'v) ht \<Rightarrow> bool" where
  "ht_ok T t \<longleftrightarrow> buf_ok (key_hash T) (ht_grower t) (buf t)
     \<and> m_size t = card (elements (buf t)) + (if has_zero t then 1 else 0)
     \<and> card (elements (buf t)) \<le> precalculated_max_fill (ht_grower t)
     \<and> bufSize (ht_grower t) * sizeof_cell T < 2 ^ 64"

definition ht_map :: "('k::zero, 'v) ht \<Rightarrow> 'k \<rightharpoonup> 'v" where
  "ht_map t k = (if k = 0 then (if has_zero t then Some (zero_mapped t) else None) else map_of (buf t) k)"

lemma map_of_elements:
  assumes "unique_keys b" and "k \<noteq> 0"
  shows "map_of b k = Some v \<longleftrightarrow> (k, v) \<in> elements b"
proof
  assume "map_of b k = Some v"
  then show "(k, v) \<in> elements b"
    using assms(2) by (auto simp: elements_def isZero_def dest: map_of_SomeD)
next
  assume kv: "(k, v) \<in> elements b"
  then obtain w where w: "map_of b k = Some w"
    using weak_map_of_SomeI [of k v b] by (auto simp: elements_def)
  then have "(k, w) \<in> set b"
    by (rule map_of_SomeD)
  then obtain p q where "p < length b" "b ! p = (k, v)" "q < length b" "b ! q = (k, w)"
    using kv by (auto simp: elements_def in_set_conv_nth)
  then have "p = q"
    using assms unfolding unique_keys_def isZero_def by (metis fst_conv)
  then show "map_of b k = Some v"
    using w \<open>b ! p = (k, v)\<close> \<open>b ! q = (k, w)\<close> by simp
qed

lemma map_of_elements_cong:
  assumes "unique_keys b" and "unique_keys b'" and "k \<noteq> 0" and "\<And>v. (k, v) \<in> elements b \<longleftrightarrow> (k, v) \<in> elements b'"
  shows "map_of b k = map_of b' k"
  using assms map_of_elements [of b k] map_of_elements [of b' k] by (metis not_Some_eq)

lemma all_zero:
  assumes "\<And>p. p < length b \<Longrightarrow> isZero (b ! p)"
  shows "elements b = {}" and "unique_keys b" and "probing hash b"
proof -
  show "elements b = {}"
    using assms by (metis elements_iff equals0I)
  show "unique_keys b" "probing hash b"
    using assms by (simp_all add: unique_keys_def probing_def)
qed

lemma between_total: "between h p q \<or> between h q p"
  by (auto simp: between_def)

lemma find_spec:
  assumes "buf_ok hash g b" and "card (elements b) < bufSize g" and "x \<noteq> 0"
  obtains p where "findCell g b x (place g (hash x)) = Some p" and "p < length b"
    and "if isZero (b ! p) then map_of b x = None
         \<and> (\<forall>c < length b. between (unat (hash x) mod length b) c p \<longrightarrow> c = p \<or> \<not> isZero (b ! c))
         else fst (b ! p) = x \<and> map_of b x = Some (snd (b ! p))"
proof -
  have ok: "grower_ok g" "length b = bufSize g" "unique_keys b" "probing hash b"
    using assms(1) by (simp_all add: buf_ok_def)
  let ?h = "unat (hash x) mod length b"
  have h: "place g (hash x) = ?h" "?h < length b"
    using place_mod [OF ok(1)] place_less [OF ok(1)] ok(2) by simp_all
  obtain z where "z < length b" "isZero (b ! z)"
    using free_cell [of b 0] ok(2,3) assms(2) by auto
  then obtain q where q: "q < length b" "stops_at b x q" "\<And>c. c < length b \<Longrightarrow> between ?h c q \<Longrightarrow> c = q \<or> \<not> stops_at b x c"
    using first_stop [of ?h "length b" "stops_at b x"] h(2) by (auto simp: stops_at_def)
  have find: "findCell g b x (place g (hash x)) = Some q"
    using findCell_first [OF ok(1) _ _ q(2)] q(1,3) h ok(2) by simp
  show thesis
  proof (cases "isZero (b ! q)")
    case True
    have "(x, v) \<notin> elements b" for v
    proof
      assume "(x, v) \<in> elements b"
      then obtain p where p: "p < length b" "b ! p = (x, v)" "\<not> isZero (b ! p)"
        by (auto simp: elements_iff)
      have "\<not> between ?h q p"
        using ok(4) p True q(1) by (auto simp: probing_def home_def getHash_def)
      then have "between ?h p q"
        using between_total by blast
      then show False
        using q(3) [OF p(1)] p True by (auto simp: stops_at_def keyEquals_def)
    qed
    then have "map_of b x = None"
      using map_of_elements [OF ok(3) assms(3)] by (metis not_Some_eq)
    moreover have "c = q \<or> \<not> isZero (b ! c)" if "c < length b" "between ?h c q" for c
      using q(3) [OF that] by (auto simp: stops_at_def)
    ultimately show thesis
      using that [OF find q(1)] True by simp
  next
    case False
    then have k: "fst (b ! q) = x"
      using q(2) by (simp add: stops_at_def keyEquals_def)
    have "(x, snd (b ! q)) \<in> elements b"
      using k False q(1) by (auto simp: elements_def)
    then have "map_of b x = Some (snd (b ! q))"
      using map_of_elements [OF ok(3) assms(3)] by simp
    then show thesis
      using that [OF find q(1)] False k by simp
  qed
qed

lemma put_new:
  assumes "buf_ok hash g b" and "x \<noteq> 0" and p: "p < length b" "isZero (b ! p)" and "map_of b x = None"
    and path: "\<forall>c < length b. between (unat (hash x) mod length b) c p \<longrightarrow> c = p \<or> \<not> isZero (b ! c)"
  shows "buf_ok hash g (b[p := (x, v)])" and "elements (b[p := (x, v)]) = insert (x, v) (elements b)"
    and "card (elements (b[p := (x, v)])) = Suc (card (elements b))"
proof -
  let ?b = "b[p := (x, v)]"
  have ok: "grower_ok g" "length b = bufSize g" "unique_keys b" "probing hash b"
    using assms(1) by (simp_all add: buf_ok_def)
  have new: "fst (b ! q) \<noteq> x" if "q < length b" for q
    using assms(5) that by (auto simp: map_of_eq_None_iff)
  have full: "isZero (?b ! c) \<longleftrightarrow> c \<noteq> p \<and> isZero (b ! c)" if "c < length b" for c
    using that p assms(2) by (auto simp: nth_list_update isZero_def)
  have "i = j" if "i < length b" "j < length b" "\<not> isZero (?b ! i)" "fst (?b ! i) = fst (?b ! j)" for i j
  proof (cases "i = p \<or> j = p")
    case True
    then show ?thesis
      using that new p(1) by (auto simp: nth_list_update split: if_splits)
  next
    case False
    then show ?thesis
      using that ok(3) unfolding unique_keys_def by simp
  qed
  then have "unique_keys ?b"
    by (simp add: unique_keys_def)
  have "\<not> isZero (?b ! c)"
    if "q < length b" "\<not> isZero (?b ! q)" "c < length b" "between (home hash (length b) (?b ! q)) c q" for q c
  proof (cases "q = p")
    case True
    then show ?thesis
      using that path full p(1) by (simp add: home_def getHash_def)
  next
    case False
    then have "?b ! q = b ! q"
      by simp
    then have "\<not> isZero (b ! c)"
      using that ok(4) unfolding probing_def by metis
    then show ?thesis
      using full that(3) by blast
  qed
  then have "probing hash ?b"
    by (simp add: probing_def)
  with \<open>unique_keys ?b\<close> show "buf_ok hash g ?b"
    using ok(1,2) by (simp add: buf_ok_def)
  show el: "elements ?b = insert (x, v) (elements b)"
  proof -
    have "c \<in> elements ?b \<longleftrightarrow> c = (x, v) \<or> c \<in> elements b" for c
    proof
      assume "c \<in> elements ?b"
      then show "c = (x, v) \<or> c \<in> elements b"
        using set_update_subset_insert [of b p "(x, v)"] by (auto simp: elements_def)
    next
      assume "c = (x, v) \<or> c \<in> elements b"
      then show "c \<in> elements ?b"
      proof
        assume "c = (x, v)"
        then show ?thesis
          using p(1) assms(2) by (auto simp: elements_def isZero_def set_update_memI)
      next
        assume "c \<in> elements b"
        then obtain q where "q < length b" "b ! q = c" "\<not> isZero c"
          by (auto simp: elements_iff)
        moreover from this have "p \<noteq> q"
          using p(2) by blast
        ultimately show ?thesis
          by (auto simp: elements_iff intro!: exI [of _ q])
      qed
    qed
    then show ?thesis
      by blast
  qed
  have "(x, v) \<notin> elements b"
    using new unfolding elements_iff by (metis fst_conv)
  then show "card (elements ?b) = Suc (card (elements b))"
    by (simp add: el)
qed

section \<open>Growing\<close>

lemma grower_ok_degree:
  assumes "1 \<le> d" and "d \<le> 63"
  shows "grower_ok (increaseSizeDegree 0 (g\<lparr>size_degree := d\<rparr>))" and "bufSize (increaseSizeDegree 0 (g\<lparr>size_degree := d\<rparr>)) = 2 ^ d"
    and "precalculated_max_fill (increaseSizeDegree 0 (g\<lparr>size_degree := d\<rparr>)) = 2 ^ (d - 1)"
  using assms by (simp_all add: grower_ok_def increaseSizeDegree_def bufSize_def)

lemma increaseSize_as_set:
  "increaseSize g = increaseSizeDegree 0 (g\<lparr>size_degree := size_degree g + (if size_degree g \<ge> max_size_degree then 1 else 2)\<rparr>)"
  by (simp add: increaseSize_def increaseSizeDegree_def)

lemma degree_bound:
  assumes "2 ^ d * s < (2 :: nat) ^ 64" and "2 \<le> s"
  shows "d \<le> 62"
proof (rule ccontr)
  assume "\<not> d \<le> 62"
  then have "(2 :: nat) ^ 63 \<le> 2 ^ d"
    by (intro power_increasing) simp_all
  then have "(2 :: nat) ^ 63 * 2 \<le> 2 ^ d * s"
    using assms(2) by (intro mult_mono) simp_all
  then show False
    using assms(1) by simp
qed

text \<open>Growing keeps the elements, whatever the load up to one element above the limit.\<close>

lemma grow_correct:
  fixes t :: "('k::zero, 'v::zero) ht"
  assumes "types_ok T" and ok: "buf_ok (key_hash T) (ht_grower t) (buf t)"
    and size: "m_size t = card (elements (buf t)) + (if has_zero t then 1 else 0)"
    and d': "size_degree (ht_grower t) < d'" "d' \<le> 63" and new: "new_g = increaseSizeDegree 0 (g\<lparr>size_degree := d'\<rparr>)"
    and room: "card (elements (buf t)) < 2 ^ d' - bufSize (ht_grower t)" "card (elements (buf t)) \<le> 2 ^ (d' - 1)"
  obtains "grow T new_g t = Some (Inl CANNOT_ALLOCATE_MEMORY)" and "ht_alloc T (2 ^ d') = Inl CANNOT_ALLOCATE_MEMORY"
  | t' where "grow T new_g t = Some (Inr t')" and "ht_ok T t'" and "elements (buf t') = elements (buf t)"
      and "has_zero t' = has_zero t" and "zero_mapped t' = zero_mapped t" and "ht_grower t' = new_g"
proof (cases "ht_alloc T (2 ^ d')")
  case (Inl e)
  then have "e = CANNOT_ALLOCATE_MEMORY"
    by (auto simp: ht_alloc_def allocCheckOverflow_def split: if_splits)
  then show thesis
    using that(1) Inl d' by (simp add: grow_def new grower_ok_degree)
next
  case (Inr u)
  let ?n = "bufSize (ht_grower t)"
  have b: "grower_ok (ht_grower t)" "length (buf t) = ?n" "unique_keys (buf t)" "probing (key_hash T) (buf t)"
    using ok by (simp_all add: buf_ok_def)
  have g: "grower_ok new_g" "bufSize new_g = 2 ^ d'" "precalculated_max_fill new_g = 2 ^ (d' - 1)"
    using d' unfolding new by (simp_all add: grower_ok_degree)
  have n: "?n dvd bufSize new_g" "?n < bufSize new_g"
    using d' g(2) by (simp_all add: bufSize_def le_imp_power_dvd)
  have alloc: "2 ^ d' * sizeof_cell T < 2 ^ 64"
    using Inr by (auto simp: ht_alloc_def allocCheckOverflow_def res_Inr_iff split: if_splits)
  let ?zeros = "replicate (bufSize new_g - ?n) (0, 0) :: ('k, 'v) cell list"
  have zeros: "list_all isZero ?zeros"
    by (simp add: isZero_def list_all_length)
  obtain b' where b': "rehash (key_hash T) new_g ?n (buf t @ ?zeros) = Some b'" "length b' = bufSize new_g"
    "unique_keys b'" "elements b' = elements (buf t)" "probing (key_hash T) b'"
    using rehash_correct [OF g(1) b(4,3,2) n zeros] n(2) room(1) g(2) by auto
  show thesis
  proof (cases "m_size t = 0")
    case True
    then have none: "elements (buf t) = {}"
      using size by simp
    have "isZero (buf t ! p)" if "p < ?n" for p
      using that none b(2) by (metis elements_iff empty_iff)
    then have z: "isZero ((buf t @ ?zeros) ! p)" if "p < bufSize new_g" for p
      using that b(2) by (auto simp: nth_append isZero_def)
    have "elements (buf t @ ?zeros) = {}" "buf_ok (key_hash T) new_g (buf t @ ?zeros)"
      using all_zero [of "buf t @ ?zeros"] z g(1) b(2) n(2) by (simp_all add: buf_ok_def)
    then show thesis
      using that(2) True Inr g(2,3) size alloc none by (auto simp: grow_def ht_ok_def)
  next
    case False
    let ?t = "t\<lparr>buf := b', ht_grower := new_g\<rparr>"
    have "grow T new_g t = Some (Inr ?t)"
      using False Inr b'(1) g(2) by (simp add: grow_def Let_def)
    moreover have "ht_ok T ?t"
      unfolding ht_ok_def using g b' size room(2) alloc by (simp add: buf_ok_def)
    ultimately show thesis
      using that(2) [of ?t] b'(4) by simp
  qed
qed

section \<open>Slots\<close>

definition slot_of :: "('k::zero, 'v) ht \<Rightarrow> 'k \<Rightarrow> slot \<Rightarrow> bool" where
  "slot_of t x s \<longleftrightarrow> (case s of ZeroSlot \<Rightarrow> x = 0 \<and> has_zero t | Slot p \<Rightarrow> x \<noteq> 0 \<and> p < length (buf t) \<and> fst (buf t ! p) = x)"

lemma card_elements:
  assumes "unique_keys b"
  shows "card (elements b) = card {p. p < length b \<and> \<not> isZero (b ! p)}"
proof -
  have "c \<in> elements b \<longleftrightarrow> c \<in> (!) b ` {p. p < length b \<and> \<not> isZero (b ! p)}" for c
    unfolding elements_iff image_iff by blast
  then have "elements b = (!) b ` {p. p < length b \<and> \<not> isZero (b ! p)}"
    by blast
  moreover have "inj_on ((!) b) {p. p < length b \<and> \<not> isZero (b ! p)}"
    using assms unfolding unique_keys_def by (intro inj_onI) auto
  ultimately show ?thesis
    by (simp add: card_image)
qed

lemma same_keys:
  assumes "buf_ok hash g b" and "length b' = length b" and "\<And>p. p < length b \<Longrightarrow> fst (b' ! p) = fst (b ! p)"
  shows "buf_ok hash g b'" and "card (elements b') = card (elements b)"
proof -
  have zero: "isZero (b' ! p) \<longleftrightarrow> isZero (b ! p)" if "p < length b" for p
    using assms(3) [OF that] by (simp add: isZero_def)
  have home: "home hash n (b' ! p) = home hash n (b ! p)" if "p < length b" for p n
    using assms(3) [OF that] by (simp add: home_def getHash_def)
  have ok: "grower_ok g" "length b = bufSize g" "unique_keys b" "probing hash b"
    using assms(1) by (simp_all add: buf_ok_def)
  have u: "unique_keys b'"
    using ok(3) zero assms(2,3) unfolding unique_keys_def by simp
  moreover have "probing hash b'"
    using ok(4) zero home assms(2) unfolding probing_def by simp
  ultimately show "buf_ok hash g b'"
    using ok assms(2) by (simp add: buf_ok_def)
  have "{p. p < length b' \<and> \<not> isZero (b' ! p)} = {p. p < length b \<and> \<not> isZero (b ! p)}"
    using zero assms(2) by auto
  then show "card (elements b') = card (elements b)"
    by (simp add: card_elements [OF u] card_elements [OF ok(3)])
qed

lemma map_of_update:
  assumes "unique_keys b" and "p < length b" and "fst (b ! p) = x" and "x \<noteq> 0"
  shows "map_of (b[p := (x, v)]) = (map_of b)(x \<mapsto> v)"
  using assms
proof (induction b arbitrary: p)
  case (Cons c b)
  have u: "unique_keys b"
    using Cons.prems(1) unfolding unique_keys_def by (metis Suc_inject Suc_less_eq length_Cons nth_Cons_Suc)
  show ?case
  proof (cases p)
    case 0
    then show ?thesis
      using Cons.prems(3) by auto
  next
    case (Suc q)
    then have "fst c \<noteq> x"
      using Cons.prems unfolding unique_keys_def isZero_def
      by (metis One_nat_def Zero_not_Suc length_greater_0_conv list.discI nth_Cons_0)
    then show ?thesis
      using Cons.IH [OF u, of q] Cons.prems Suc by auto
  qed
qed simp

lemma setMapped_correct:
  assumes "ht_ok T t" and "slot_of t x s"
  shows "ht_ok T (setMapped s v t)" and "ht_map (setMapped s v t) = (ht_map t)(x \<mapsto> v)" and "slot_of (setMapped s v t) x s"
proof -
  show "ht_ok T (setMapped s v t)"
  proof (cases s)
    case (Slot p)
    then show ?thesis
      using assms same_keys [of "key_hash T" "ht_grower t" "buf t" "(buf t)[p := (fst (buf t ! p), v)]"]
      by (auto simp: ht_ok_def setMapped_def slot_of_def nth_list_update)
  qed (use assms(1) in \<open>simp add: ht_ok_def setMapped_def\<close>)
  show "ht_map (setMapped s v t) = (ht_map t)(x \<mapsto> v)"
  proof (cases s)
    case (Slot p)
    have "map_of ((buf t)[p := (x, v)]) = (map_of (buf t))(x \<mapsto> v)"
      using map_of_update [of "buf t" p x v] assms Slot by (simp add: ht_ok_def buf_ok_def slot_of_def)
    then show ?thesis
      using assms(2) Slot by (auto simp: ht_map_def setMapped_def slot_of_def fun_eq_iff)
  qed (use assms(2) in \<open>auto simp: ht_map_def setMapped_def slot_of_def fun_eq_iff\<close>)
  show "slot_of (setMapped s v t) x s"
    using assms(2) by (auto simp: slot_of_def setMapped_def split: slot.splits)
qed

lemma slot_mapped:
  assumes "ht_ok T t" and "slot_of t x s"
  shows "ht_map t x = Some (slot_mapped t s)"
proof (cases s)
  case (Slot p)
  then have "(x, snd (buf t ! p)) \<in> elements (buf t)"
    using assms(2) by (auto simp: slot_of_def elements_def isZero_def)
  then show ?thesis
    using map_of_elements [of "buf t" x] assms Slot by (simp add: ht_map_def slot_of_def slot_mapped_def ht_ok_def buf_ok_def)
qed (use assms(2) in \<open>simp add: ht_map_def slot_of_def slot_mapped_def\<close>)

section \<open>Operations\<close>

lemma ht_okD:
  assumes "types_ok T" and "ht_ok T t"
  shows "buf_ok (key_hash T) (ht_grower t) (buf t)" and "unique_keys (buf t)"
    and "precalculated_max_fill (ht_grower t) = 2 ^ (size_degree (ht_grower t) - 1)"
    and "1 \<le> size_degree (ht_grower t)" and "size_degree (ht_grower t) \<le> 62"
    and "card (elements (buf t)) < bufSize (ht_grower t)"
proof -
  show "buf_ok (key_hash T) (ht_grower t) (buf t)" "unique_keys (buf t)"
    using assms(2) by (simp_all add: ht_ok_def buf_ok_def)
  show fill: "precalculated_max_fill (ht_grower t) = 2 ^ (size_degree (ht_grower t) - 1)" and d: "1 \<le> size_degree (ht_grower t)"
    using assms(2) by (simp_all add: ht_ok_def buf_ok_def grower_ok_def)
  show "size_degree (ht_grower t) \<le> 62"
    using degree_bound [of "size_degree (ht_grower t)" "sizeof_cell T"] assms by (simp add: ht_ok_def types_ok_def bufSize_def)
  have "card (elements (buf t)) \<le> 2 ^ (size_degree (ht_grower t) - 1)"
    using assms(2) fill by (simp add: ht_ok_def)
  also have "\<dots> < 2 ^ size_degree (ht_grower t)"
    using d by (intro power_strict_increasing) simp_all
  finally show "card (elements (buf t)) < bufSize (ht_grower t)"
    by (simp add: bufSize_def)
qed

lemma elements_insert_map:
  assumes "unique_keys b" and "unique_keys b'" and "elements b' = insert (x, v) (elements b)" and "map_of b x = None"
    and "k \<noteq> 0" and "x \<noteq> 0"
  shows "map_of b' k = (if k = x then Some v else map_of b k)"
proof (cases "k = x")
  case False
  then show ?thesis
    using map_of_elements_cong [OF assms(2,1,5)] assms(3) by simp
qed (use map_of_elements [OF assms(2,6), of v] assms(3) in simp)

lemma room_for_one:
  assumes "1 \<le> d" and "if 23 \<le> d then d' = d + 1 else d' = d + 2" and "c \<le> Suc (2 ^ (d - 1))"
  shows "c < 2 ^ d' - (2 :: nat) ^ d" and "c \<le> 2 ^ (d' - 1)"
proof -
  obtain e where e: "d = Suc e"
    using assms(1) by (cases d) auto
  define P where "P = (2 :: nat) ^ e"
  have P: "1 \<le> P" "23 \<le> d \<Longrightarrow> 2 \<le> P"
    using e power_increasing [of 1 e "2 :: nat"] by (simp_all add: P_def)
  have pow: "2 ^ d = 2 * P" "2 ^ (d - 1) = P" "2 ^ d' = (if 23 \<le> d then 4 * P else 8 * P)"
    "2 ^ (d' - 1) = (if 23 \<le> d then 2 * P else 4 * P)"
    using assms(2) e by (auto simp: P_def)
  show "c < 2 ^ d' - (2 :: nat) ^ d" "c \<le> 2 ^ (d' - 1)"
    using assms(3) P unfolding pow by (cases "23 \<le> d"; simp)+
qed

text \<open>A new key in the empty cell where the search for it ended.\<close>

definition put_at :: "('k, 'v) ht \<Rightarrow> nat \<Rightarrow> 'k \<Rightarrow> ('k, 'v) ht" where
  "put_at t p x = t\<lparr>buf := (buf t)[p := (x, snd (buf t ! p))], m_size := m_size t + 1\<rparr>"

definition free_place :: "'k ht_types \<Rightarrow> ('k::zero, 'v) ht \<Rightarrow> 'k \<Rightarrow> nat \<Rightarrow> bool" where
  "free_place T t x p \<longleftrightarrow> x \<noteq> 0 \<and> p < length (buf t) \<and> isZero (buf t ! p) \<and> map_of (buf t) x = None
     \<and> (\<forall>c < length (buf t). between (unat (key_hash T x) mod length (buf t)) c p \<longrightarrow> c = p \<or> \<not> isZero (buf t ! c))"

lemma put_at_facts:
  assumes "types_ok T" and "ht_ok T t" and "free_place T t x p"
  shows "buf_ok (key_hash T) (ht_grower (put_at t p x)) (buf (put_at t p x))"
    and "elements (buf (put_at t p x)) = insert (x, snd (buf t ! p)) (elements (buf t))"
    and "card (elements (buf (put_at t p x))) = Suc (card (elements (buf t)))"
    and "m_size (put_at t p x) = card (elements (buf (put_at t p x))) + (if has_zero (put_at t p x) then 1 else 0)"
    and "m_size (put_at t p x) = Suc (m_size t)" and "ht_grower (put_at t p x) = ht_grower t"
    and "has_zero (put_at t p x) = has_zero t" and "zero_mapped (put_at t p x) = zero_mapped t"
proof -
  have f: "x \<noteq> 0" "p < length (buf t)" "isZero (buf t ! p)" "map_of (buf t) x = None"
    "\<forall>c < length (buf t). between (unat (key_hash T x) mod length (buf t)) c p \<longrightarrow> c = p \<or> \<not> isZero (buf t ! c)"
    using assms(3) by (simp_all add: free_place_def)
  note new = put_new [OF ht_okD(1) [OF assms(1,2)] f, of "snd (buf t ! p)"]
  show "buf_ok (key_hash T) (ht_grower (put_at t p x)) (buf (put_at t p x))"
    and "elements (buf (put_at t p x)) = insert (x, snd (buf t ! p)) (elements (buf t))"
    and "card (elements (buf (put_at t p x))) = Suc (card (elements (buf t)))"
    and "m_size (put_at t p x) = card (elements (buf (put_at t p x))) + (if has_zero (put_at t p x) then 1 else 0)"
    and "m_size (put_at t p x) = Suc (m_size t)" and "ht_grower (put_at t p x) = ht_grower t"
    and "has_zero (put_at t p x) = has_zero t" and "zero_mapped (put_at t p x) = zero_mapped t"
    using new assms(2) by (simp_all add: put_at_def ht_ok_def)
qed

lemma put_at_map:
  assumes "types_ok T" and "ht_ok T t" and "free_place T t x p" and "unique_keys (buf t')"
    and "elements (buf t') = elements (buf (put_at t p x))" and "has_zero t' = has_zero t" and "zero_mapped t' = zero_mapped t"
  shows "ht_map t' = (ht_map t)(x \<mapsto> snd (buf t ! p))"
proof -
  have f: "x \<noteq> 0" "map_of (buf t) x = None"
    using assms(3) by (simp_all add: free_place_def)
  show ?thesis
    using elements_insert_map [OF ht_okD(2) [OF assms(1,2)] assms(4) _ f(2) _ f(1)] put_at_facts(2) [OF assms(1-3)] assms(5-7) f(1)
    by (auto simp: ht_map_def fun_eq_iff)
qed

lemma put_at_undo:
  assumes "free_place T t x p"
  shows "(put_at t p x)\<lparr>m_size := m_size (put_at t p x) - 1, buf := (buf (put_at t p x))[p := setZero (buf (put_at t p x) ! p)]\<rparr> = t"
proof -
  have "setZero (x, snd (buf t ! p)) = buf t ! p" "p < length (buf t)"
    using assms by (simp_all add: free_place_def setZero_def isZero_def prod_eq_iff)
  then show ?thesis
    by (simp add: put_at_def)
qed

lemma emplace_grows:
  fixes t :: "('k::zero, 'v::zero) ht"
  assumes "types_ok T" and "ht_ok T t" and free: "free_place T t x p" and over: "grower_overflow (ht_grower t) (Suc (m_size t))"
  obtains (added) s w t' where "emplaceNonZeroImpl T p x (key_hash T x) t = Some (Inr (s, True), t')" and "ht_ok T t'"
      and "slot_of t' x s" and "ht_map t' = (ht_map t)(x \<mapsto> w)"
      and "precalculated_max_fill (ht_grower t) \<le> precalculated_max_fill (ht_grower t')"
  | (failed) "emplaceNonZeroImpl T p x (key_hash T x) t = Some (Inl CANNOT_ALLOCATE_MEMORY, t)"
      and "ht_alloc T (bufSize (increaseSize (ht_grower t))) = Inl CANNOT_ALLOCATE_MEMORY"
proof -
  let ?g = "ht_grower t" and ?t1 = "put_at t p x"
  note D = ht_okD [OF assms(1,2)] and t1 = put_at_facts [OF assms(1,2) free]
  have x: "x \<noteq> 0" "isZero (buf t ! p)"
    using free by (simp_all add: free_place_def)
  define d' where "d' = size_degree ?g + (if size_degree ?g \<ge> max_size_degree then 1 else 2)"
  have g': "increaseSize ?g = increaseSizeDegree 0 (?g\<lparr>size_degree := d'\<rparr>)"
    by (simp add: increaseSize_as_set d'_def)
  have d': "size_degree (ht_grower ?t1) < d'" "d' \<le> 63" "1 \<le> d'"
    using D(4,5) t1(6) by (auto simp: d'_def max_size_degree_def)
  have "card (elements (buf ?t1)) \<le> Suc (2 ^ (size_degree ?g - 1))"
    using t1(3) assms(2) D(3) by (simp add: ht_ok_def)
  then have room: "card (elements (buf ?t1)) < 2 ^ d' - bufSize (ht_grower ?t1)" "card (elements (buf ?t1)) \<le> 2 ^ (d' - 1)"
    using room_for_one [OF D(4), of d'] t1(6) by (auto simp: bufSize_def d'_def max_size_degree_def)
  have step: "emplaceNonZeroImpl T p x (key_hash T x) t = (case grow T (increaseSize ?g) ?t1 of
      None \<Rightarrow> None
    | Some (Inl e) \<Rightarrow> Some (Inl e, t)
    | Some (Inr t2) \<Rightarrow> map_option (\<lambda>new_place. (Inr (Slot new_place, True), t2))
          (findCell (ht_grower t2) (buf t2) x (place (ht_grower t2) (key_hash T x))))"
    unfolding emplaceNonZeroImpl_def Let_def put_at_def [symmetric] put_at_undo [OF free]
    using x(2) over t1(5,6) by (simp add: resize_def)
  show thesis
  proof (rule grow_correct [OF assms(1) t1(1,4) d'(1,2) g' room])
    assume "grow T (increaseSize ?g) ?t1 = Some (Inl CANNOT_ALLOCATE_MEMORY)" "ht_alloc T (2 ^ d') = Inl CANNOT_ALLOCATE_MEMORY"
    then show thesis
      using failed step d'(2,3) by (simp add: g' grower_ok_degree)
  next
    fix t2
    assume t2: "grow T (increaseSize ?g) ?t1 = Some (Inr t2)" "ht_ok T t2" "elements (buf t2) = elements (buf ?t1)"
      "has_zero t2 = has_zero ?t1" "zero_mapped t2 = zero_mapped ?t1" "ht_grower t2 = increaseSize ?g"
    have fill: "precalculated_max_fill ?g \<le> precalculated_max_fill (ht_grower t2)"
      using D(3) d' t1(6) by (simp add: t2(6) g' grower_ok_degree)
    note D2 = ht_okD [OF assms(1) t2(2)]
    obtain q where q: "findCell (ht_grower t2) (buf t2) x (place (ht_grower t2) (key_hash T x)) = Some q" "q < length (buf t2)"
      "if isZero (buf t2 ! q) then map_of (buf t2) x = None else fst (buf t2 ! q) = x"
      using find_spec [OF D2(1,6) x(1)] by (metis (no_types))
    have m: "ht_map t2 = (ht_map t)(x \<mapsto> snd (buf t ! p))"
      using put_at_map [OF assms(1,2) free D2(2) t2(3)] t2(4,5) t1(7,8) by simp
    then have "map_of (buf t2) x = Some (snd (buf t ! p))"
      using x(1) by (metis fun_upd_same ht_map_def)
    then have "slot_of t2 x (Slot q)"
      using q(2,3) x(1) by (auto simp: slot_of_def split: if_splits)
    then show thesis
      using added [OF _ t2(2) _ m fill] step t2(1) q(1) by simp
  qed
qed

lemma emplace_zero:
  fixes t :: "('k::zero, 'v::zero) ht"
  assumes "ht_ok T t"
  obtains (present) s where "emplace T 0 t = Some (Inr (s, False), t)" and "slot_of t 0 s"
  | (added) s w t' where "emplace T 0 t = Some (Inr (s, True), t')" and "ht_ok T t'" and "slot_of t' 0 s" and "ht_map t 0 = None"
      and "ht_map t' = (ht_map t)(0 \<mapsto> w)" and "precalculated_max_fill (ht_grower t) \<le> precalculated_max_fill (ht_grower t')"
proof (cases "has_zero t")
  case True
  then show thesis
    using present [of ZeroSlot] by (simp add: emplace_def emplace_hashed_def emplaceIfZero_def slot_of_def)
next
  case False
  let ?t = "setHasZero (t\<lparr>m_size := m_size t + 1\<rparr>)"
  have "ht_ok T ?t" "ht_map ?t = (ht_map t)(0 \<mapsto> 0)" "ht_map t 0 = None"
    using assms False by (auto simp: ht_ok_def ht_map_def setHasZero_def fun_eq_iff)
  then show thesis
    using added [of ZeroSlot ?t 0] False by (simp add: emplace_def emplace_hashed_def emplaceIfZero_def setHasZero_def slot_of_def)
qed

lemma emplace_correct:
  fixes t :: "('k::zero, 'v::zero) ht"
  assumes "types_ok T" and "ht_ok T t"
  obtains (present) s where "emplace T x t = Some (Inr (s, False), t)" and "slot_of t x s"
  | (added) s w t' where "emplace T x t = Some (Inr (s, True), t')" and "ht_ok T t'" and "slot_of t' x s" and "ht_map t x = None"
      and "ht_map t' = (ht_map t)(x \<mapsto> w)" and "precalculated_max_fill (ht_grower t) \<le> precalculated_max_fill (ht_grower t')"
  | (failed) "emplace T x t = Some (Inl CANNOT_ALLOCATE_MEMORY, t)" and "ht_map t x = None"
      and "precalculated_max_fill (ht_grower t) \<le> m_size t" and "ht_alloc T (bufSize (increaseSize (ht_grower t))) = Inl CANNOT_ALLOCATE_MEMORY"
proof (cases "x = 0")
  case True
  show thesis
    by (rule emplace_zero [OF assms(2)]) (use present added True in auto)
next
  case False
  note D = ht_okD [OF assms]
  obtain p where p: "findCell (ht_grower t) (buf t) x (place (ht_grower t) (key_hash T x)) = Some p" "p < length (buf t)"
    and cell: "if isZero (buf t ! p) then map_of (buf t) x = None
         \<and> (\<forall>c < length (buf t). between (unat (key_hash T x) mod length (buf t)) c p \<longrightarrow> c = p \<or> \<not> isZero (buf t ! c))
         else fst (buf t ! p) = x \<and> map_of (buf t) x = Some (snd (buf t ! p))"
    using find_spec [OF D(1,6) False] by blast
  have emplace: "emplace T x t = emplaceNonZeroImpl T p x (key_hash T x) t"
    using False p(1) by (simp add: emplace_def emplace_hashed_def emplaceIfZero_def emplaceNonZero_def)
  show thesis
  proof (cases "isZero (buf t ! p)")
    case full: False
    then show thesis
      using present [of "Slot p"] emplace cell p(2) False by (simp add: emplaceNonZeroImpl_def slot_of_def)
  next
    case True
    then have free: "free_place T t x p" and none: "ht_map t x = None"
      using cell p(2) False by (simp_all add: free_place_def ht_map_def)
    note t1 = put_at_facts [OF assms free]
    show thesis
    proof (cases "grower_overflow (ht_grower t) (Suc (m_size t))")
      case fits: False
      then have "emplace T x t = Some (Inr (Slot p, True), put_at t p x)"
        using True by (simp add: emplace emplaceNonZeroImpl_def put_at_def)
      moreover have "ht_ok T (put_at t p x)"
        using t1 fits assms(2) by (simp add: ht_ok_def grower_overflow_def)
      moreover have "slot_of (put_at t p x) x (Slot p)"
        using p(2) False by (simp add: slot_of_def put_at_def)
      ultimately show thesis
        using added [OF _ _ _ none put_at_map [OF assms free]] t1 by (simp add: buf_ok_def)
    next
      case over: True
      show thesis
        by (rule emplace_grows [OF assms free over])
           (use added none failed emplace over in \<open>auto simp: grower_overflow_def\<close>)
    qed
  qed
qed

lemma lookup_cell:
  assumes "types_ok T" and "ht_ok T t" and "x \<noteq> 0"
  obtains p where "findCell (ht_grower t) (buf t) x (place (ht_grower t) (key_hash T x)) = Some p" and "p < length (buf t)"
    and "isZero (buf t ! p)" and "map_of (buf t) x = None"
  | p where "findCell (ht_grower t) (buf t) x (place (ht_grower t) (key_hash T x)) = Some p" and "p < length (buf t)"
    and "\<not> isZero (buf t ! p)" and "fst (buf t ! p) = x" and "map_of (buf t) x = Some (snd (buf t ! p))"
  using find_spec [OF ht_okD(1,6) [OF assms(1,2)] assms(3)] by (metis (no_types))

lemma find_correct:
  assumes "types_ok T" and "ht_ok T t"
  shows "\<exists>r. ht_find T x t = Some r \<and> map_option (slot_mapped t) r = ht_map t x \<and> (\<forall>s. r = Some s \<longrightarrow> slot_of t x s)"
    and "ht_has T x t = Some (ht_map t x \<noteq> None)"
proof -
  show "\<exists>r. ht_find T x t = Some r \<and> map_option (slot_mapped t) r = ht_map t x \<and> (\<forall>s. r = Some s \<longrightarrow> slot_of t x s)"
  proof (cases "x = 0")
    case False
    show ?thesis
      by (rule lookup_cell [OF assms False])
         (use False in \<open>simp_all add: ht_find_def find_hashed_def ht_map_def slot_mapped_def slot_of_def\<close>)
  qed (simp add: ht_find_def find_hashed_def ht_map_def slot_mapped_def slot_of_def)
  show "ht_has T x t = Some (ht_map t x \<noteq> None)"
  proof (cases "x = 0")
    case False
    show ?thesis
      by (rule lookup_cell [OF assms False]) (use False in \<open>simp_all add: ht_has_def ht_map_def\<close>)
  qed (simp add: ht_has_def ht_map_def)
qed

lemma erase_correct:
  assumes "types_ok T" and "ht_ok T t"
  shows "\<exists>t'. ht_erase T x t = Some (ht_map t x \<noteq> None, t') \<and> ht_ok T t' \<and> ht_map t' = (ht_map t)(x := None)"
proof (cases "x = 0")
  case True
  then show ?thesis
    using assms(2) by (auto simp: ht_erase_def clearHasZero_def ht_ok_def ht_map_def fun_eq_iff)
next
  case False
  note D = ht_okD [OF assms]
  obtain p where p: "findCell (ht_grower t) (buf t) x (place (ht_grower t) (key_hash T x)) = Some p" "p < length (buf t)"
    and cell: "if isZero (buf t ! p) then map_of (buf t) x = None else fst (buf t ! p) = x \<and> map_of (buf t) x = Some (snd (buf t ! p))"
    using lookup_cell [OF assms False] by metis
  show ?thesis
  proof (cases "isZero (buf t ! p)")
    case True
    then have "ht_map t x = None"
      using cell False by (simp add: ht_map_def)
    then show ?thesis
      using True p(1) False assms(2) by (auto simp: ht_erase_def)
  next
    case full: False
    have ok: "grower_ok (ht_grower t)" "length (buf t) = bufSize (ht_grower t)" "probing (key_hash T) (buf t)"
      using D(1) by (simp_all add: buf_ok_def)
    obtain b where b: "erase_cell (key_hash T) (ht_grower t) (buf t) p = Some b" "length b = length (buf t)" "unique_keys b"
      "elements b = elements (buf t) - {buf t ! p}" "probing (key_hash T) b"
      using erase_cell_correct [OF ok(1,2) D(2) ok(3) p(2) full] D(6) ok(2) by auto
    have in_el: "buf t ! p \<in> elements (buf t)"
      using full p(2) by (auto simp: elements_def)
    then have card: "card (elements b) = card (elements (buf t)) - 1" "0 < card (elements (buf t))"
      by (simp add: b(4) card_Diff_singleton) (metis \<open>buf t ! p \<in> elements (buf t)\<close> card_gt_0_iff empty_iff finite_elements)
    let ?t = "t\<lparr>buf := b, m_size := m_size t - 1\<rparr>"
    have key: "fst (buf t ! p) = x" "map_of (buf t) x = Some (snd (buf t ! p))"
      using cell unfolding if_not_P [OF full] by blast+
    have "map_of b k = map_of (buf t) k" if "k \<noteq> 0" "k \<noteq> x" for k
    proof (rule map_of_elements_cong [OF b(3) D(2) that(1)])
      fix v
      have "(k, v) \<noteq> buf t ! p"
        using key(1) that(2) by (metis fst_conv)
      then show "(k, v) \<in> elements b \<longleftrightarrow> (k, v) \<in> elements (buf t)"
        by (simp add: b(4))
    qed
    moreover have "map_of b x = None"
    proof -
      have "(x, v) = buf t ! p" if "(x, v) \<in> elements (buf t)" for v
        using map_of_elements [OF D(2) False, of v] that key by (simp add: prod_eq_iff)
      then have "(x, v) \<notin> elements b" for v
        unfolding b(4) by blast
      then show ?thesis
        using map_of_elements [OF b(3) False] by (metis not_Some_eq)
    qed
    ultimately have "ht_map ?t = (ht_map t)(x := None)"
      using False by (auto simp: ht_map_def fun_eq_iff)
    moreover have "ht_ok T ?t"
    proof -
      have "buf_ok (key_hash T) (ht_grower t) b"
        using b(2,3,5) ok by (simp add: buf_ok_def)
      then show ?thesis
        using assms(2) card by (simp add: ht_ok_def) linarith
    qed
    moreover have "ht_erase T x t = Some (True, ?t)" "ht_map t x \<noteq> None"
      using b(1) p(1) full False key(2) by (simp_all add: ht_erase_def ht_map_def)
    ultimately show ?thesis
      by simp
  qed
qed

lemma clear_correct:
  assumes "types_ok T" and "ht_ok T t"
  shows "ht_ok T (ht_clear t)" and "ht_map (ht_clear t) = Map.empty"
proof -
  let ?b = "replicate (bufSize (ht_grower t)) (0, 0) :: ('a, 'b) cell list"
  have z: "isZero (?b ! p)" if "p < length ?b" for p
    using that by (simp add: isZero_def)
  note empty = all_zero [of ?b, OF z]
  show "ht_ok T (ht_clear t)"
    unfolding ht_ok_def using assms(2) empty by (simp add: ht_clear_def clearHasZero_def ht_ok_def buf_ok_def)
  have "map_of ?b k = None" if "k \<noteq> 0" for k
    using map_of_elements [OF empty(2) that] empty(1) by (metis empty_iff not_Some_eq)
  then show "ht_map (ht_clear t) = Map.empty"
    by (auto simp: ht_map_def ht_clear_def clearHasZero_def fun_eq_iff)
qed

section \<open>Construction and reservation\<close>

lemma new_grower_ok: "1 \<le> d \<Longrightarrow> d \<le> 63 \<Longrightarrow> grower_ok (new_grower d)"
  by (simp add: new_grower_def grower_ok_def)

lemma empty_table_ok:
  fixes t :: "('k::zero, 'v::zero) ht"
  assumes "grower_ok g" and "ht_alloc T (bufSize g) = Inr ()"
    and t: "t = \<lparr>m_size = 0, buf = replicate (bufSize g) (0, 0), ht_grower = g, has_zero = False, zero_mapped = z\<rparr>"
  shows "ht_ok T t" and "ht_map t = Map.empty"
proof -
  let ?b = "replicate (bufSize g) (0, 0) :: ('k, 'v) cell list"
  have z: "isZero (?b ! p)" if "p < length ?b" for p
    using that by (simp add: isZero_def)
  note empty = all_zero [of ?b, OF z]
  have "bufSize g * sizeof_cell T < 2 ^ 64"
    using assms(2) by (auto simp: ht_alloc_def allocCheckOverflow_def res_Inr_iff split: if_splits)
  then show "ht_ok T t"
    using assms(1) empty by (simp add: ht_ok_def buf_ok_def t)
  have "map_of ?b k = None" if "k \<noteq> 0" for k
    using map_of_elements [OF empty(2) that] empty(1) by (metis empty_iff not_Some_eq)
  then show "ht_map t = Map.empty"
    by (auto simp: ht_map_def t fun_eq_iff)
qed

lemma new_HashTable_correct:
  assumes "types_ok T" and "new_HashTable T (new_grower (initial_size_degree T)) = Inr t"
  shows "ht_ok T t" and "ht_map t = Map.empty"
proof -
  let ?g = "new_grower (initial_size_degree T)"
  have "grower_ok ?g"
    using assms(1) by (intro new_grower_ok) (simp_all add: types_ok_def)
  moreover have "ht_alloc T (bufSize ?g) = Inr ()"
    "t = \<lparr>m_size = 0, buf = replicate (bufSize ?g) (0, 0), ht_grower = ?g, has_zero = False, zero_mapped = 0\<rparr>"
    using assms(2) by (auto simp: new_HashTable_def res_Inr_iff)
  ultimately show "ht_ok T t" "ht_map t = Map.empty"
    by (blast intro: empty_table_ok)+
qed

lemma same_elements_map:
  assumes "ht_ok T t" and "ht_ok T t'" and "elements (buf t') = elements (buf t)" and "has_zero t' = has_zero t"
    and "zero_mapped t' = zero_mapped t"
  shows "ht_map t' = ht_map t"
proof (rule ext)
  fix k
  have "unique_keys (buf t)" "unique_keys (buf t')"
    using assms(1,2) by (simp_all add: ht_ok_def buf_ok_def)
  then show "ht_map t' k = ht_map t k"
    using map_of_elements_cong [of "buf t'" "buf t" k] assms(3-5) by (simp add: ht_map_def)
qed

text \<open>The degree that \<^verbatim>\<open>set\<close> chooses is enough for the elements at load one half.\<close>

lemma grower_set_degree:
  assumes "types_ok T" and "n \<le> 2 ^ 48"
  obtains d where "grower_set (initial_size_degree T) n g = increaseSizeDegree 0 (g\<lparr>size_degree := d\<rparr>)"
    and "1 \<le> d" and "d \<le> 62" and "n \<le> 2 ^ (d - 1)"
proof (cases "n \<le> 1")
  case True
  then have "n \<le> 2 ^ (initial_size_degree T - 1)"
    using one_le_power [of "2 :: nat" "initial_size_degree T - 1"] by linarith
  then show thesis
    using that [of "initial_size_degree T"] True assms(1) by (simp add: grower_set_def types_ok_def)
next
  case False
  define e where "e = floorlog 2 (n - 1) - 1"
  have pos: "1 < (2 :: nat)" "0 < n - 1"
    using False by simp_all
  have "floorlog 2 (n - 1) \<noteq> 0"
    using pos by (simp add: floorlog_eq_zero_iff)
  then have "n - 1 < 2 ^ floorlog 2 (n - 1)" "floorlog 2 (n - 1) = e + 1"
    using floorlog_bounds [OF pos(2,1)] by (simp_all add: e_def)
  then have e: "n \<le> 2 ^ (e + 1)"
    by simp
  have "floorlog 2 (n - 1) \<le> 48"
    using assms(2) pos by (intro floorlog_leI) simp_all
  then have "e \<le> 48"
    by (simp add: e_def)
  have set: "grower_set (initial_size_degree T) n g
      = increaseSizeDegree 0 (g\<lparr>size_degree := (if initial_size_degree T > e + 2 then initial_size_degree T else e + 2)\<rparr>)"
    using False by (simp add: grower_set_def e_def)
  show thesis
  proof (cases "initial_size_degree T > e + 2")
    case True
    have "(2 :: nat) ^ (e + 1) \<le> 2 ^ (initial_size_degree T - 1)"
      using True by (intro power_increasing) simp_all
    then have "n \<le> 2 ^ (initial_size_degree T - 1)"
      using e by simp
    then show thesis
      using that [of "initial_size_degree T"] True assms(1) set by (simp add: types_ok_def)
  next
    case less: False
    then show thesis
      using that [of "e + 2"] e \<open>e \<le> 48\<close> set by simp
  qed
qed

lemma room_for_degree:
  assumes "1 \<le> d" and "d < d'" and "c \<le> 2 ^ (d - 1)"
  shows "c < 2 ^ d' - (2 :: nat) ^ d" and "c \<le> 2 ^ (d' - 1)"
proof -
  obtain e f where e: "d = Suc e" "d' = Suc (Suc e) + f"
    using assms(1,2) by (metis Suc_le_D One_nat_def less_iff_Suc_add add_Suc_right add_Suc plus_1_eq_Suc)
  define P where "P = (2 :: nat) ^ e"
  have P: "1 \<le> P" "c \<le> P"
    using assms(3) e(1) by (simp_all add: P_def)
  have F: "P \<le> P * 2 ^ f"
    by simp
  have pow: "2 ^ d = 2 * P" "2 ^ d' = 4 * (P * 2 ^ f)" "2 ^ (d' - 1) = 2 * (P * 2 ^ f)"
    by (simp_all add: e P_def power_add)
  show "c < 2 ^ d' - (2 :: nat) ^ d" "c \<le> 2 ^ (d' - 1)"
    using P F unfolding pow by linarith+
qed

lemma reserve_correct:
  fixes t :: "('k::zero, 'v::zero) ht"
  assumes "types_ok T" and "ht_ok T t" and "n \<le> 2 ^ 48"
  obtains (ready) t' where "ht_reserve T n t = Some (Inr t')" and "ht_ok T t'" and "ht_map t' = ht_map t"
      and "n \<le> precalculated_max_fill (ht_grower t')"
  | (failed) "ht_reserve T n t = Some (Inl CANNOT_ALLOCATE_MEMORY)"
proof -
  note D = ht_okD [OF assms(1,2)]
  let ?g = "ht_grower t"
  let ?d = "size_degree ?g"
  have fill: "card (elements (buf t)) \<le> 2 ^ (?d - 1)"
    using assms(2) D(3) by (simp add: ht_ok_def)
  have size: "m_size t = card (elements (buf t)) + (if has_zero t then 1 else 0)"
    using assms(2) by (simp add: ht_ok_def)
  have grown: thesis if "?d < d'" "d' \<le> 63" "n \<le> 2 ^ (d' - 1)"
    "ht_reserve T n t = grow T (increaseSizeDegree 0 (?g\<lparr>size_degree := d'\<rparr>)) t" for d'
    by (rule grow_correct [OF assms(1) D(1) size that(1,2) refl room_for_degree [OF D(4) that(1) fill, folded bufSize_def]])
       (use that(1,3,4) ready failed same_elements_map [OF assms(2)] grower_ok_degree(3) [OF _ that(2)] in auto)
  show thesis
  proof (cases "n = 0")
    case True
    show thesis
      by (rule grown [of "?d + (if ?d \<ge> max_size_degree then 1 else 2)"])
         (use True D(5) in \<open>auto simp: ht_reserve_def resize_def increaseSize_as_set max_size_degree_def Let_def\<close>)
  next
    case False
    then obtain d where d: "grower_set (initial_size_degree T) n ?g = increaseSizeDegree 0 (?g\<lparr>size_degree := d\<rparr>)"
      "1 \<le> d" "d \<le> 62" "n \<le> 2 ^ (d - 1)"
      using grower_set_degree [OF assms(1,3)] by metis
    have size_d: "bufSize (increaseSizeDegree 0 (?g\<lparr>size_degree := d\<rparr>)) = 2 ^ d"
      using d(2,3) by (intro grower_ok_degree) simp_all
    show thesis
    proof (cases "?d < d")
      case True
      then show thesis
        by (rule grown [OF _ _ d(4)]) (use d(1,3) False True size_d in \<open>simp_all add: ht_reserve_def resize_def bufSize_def\<close>)
    next
      case less: False
      have "(2 :: nat) ^ (d - 1) \<le> 2 ^ (?d - 1)"
        using less by (intro power_increasing) simp_all
      with d(4) have "n \<le> 2 ^ (?d - 1)"
        by (rule order_trans)
      then show thesis
        using ready [of t] assms(2) d(1) False less size_d D(3) by (simp add: ht_reserve_def resize_def bufSize_def)
    qed
  qed
qed

end
