(* ===== verification/HashTable_History.thy ===== *)
theory HashTable_History
  imports HashTable_Map
begin

text \<open>
  Sequences of operations on the hash table of theory \<^verbatim>\<open>HashTable\<close>.  A client sees a finite map: every answer
  of the table is the answer of the map, and an operation that runs out of memory leaves the map as
  it was.
\<close>

section \<open>Operations and answers\<close>

text \<open>\<open>Assign k v\<close> is \<^verbatim>\<open>table[k] = v\<close>.\<close>

datatype ('k, 'v) table_op =
    Find 'k | Has 'k | Insert 'k 'v | InsertIfNotPresent 'k 'v | Assign 'k 'v | Erase 'k | Clear | Reserve nat | Size

datatype 'v table_out =
    Found "'v option" | Answer bool | Inserted bool | Done | Count nat | Threw error_code

definition size_out :: "('k, 'v) ht \<Rightarrow> 'v table_out" where
  "size_out t = Count (m_size t)"

fun table_step :: "'k ht_types \<Rightarrow> ('k, 'v) table_op \<Rightarrow> ('k::zero, 'v::zero) ht \<Rightarrow> ('v table_out \<times> ('k, 'v) ht) option" where
  "table_step T (Find k) t = map_option (\<lambda>r. (Found (map_option (slot_mapped t) r), t)) (ht_find T k t)"
| "table_step T (Has k) t = map_option (\<lambda>b. (Answer b, t)) (ht_has T k t)"
| "table_step T (Insert k v) t =
     map_option (\<lambda>(r, t'). (case r of Inl e \<Rightarrow> Threw e | Inr (s, inserted) \<Rightarrow> Inserted inserted, t')) (ht_insert T (k, v) t)"
| "table_step T (InsertIfNotPresent k v) t =
     map_option (\<lambda>(r, t'). (case r of Inl e \<Rightarrow> Threw e | Inr _ \<Rightarrow> Done, t')) (insertIfNotPresent T k v t)"
| "table_step T (Assign k v) t =
     map_option (\<lambda>(r, t'). case r of Inl e \<Rightarrow> (Threw e, t') | Inr s \<Rightarrow> (Done, setMapped s v t')) (ht_at T k t)"
| "table_step T (Erase k) t = map_option (\<lambda>(b, t'). (Answer b, t')) (ht_erase T k t)"
| "table_step T Clear t = Some (Done, ht_clear t)"
| "table_step T (Reserve n) t =
     map_option (\<lambda>r. case r of Inl e \<Rightarrow> (Threw e, t) | Inr t' \<Rightarrow> (Done, t')) (ht_reserve T n t)"
| "table_step T Size t = Some (size_out t, t)"

fun run_steps :: "('o \<Rightarrow> 's \<Rightarrow> ('r \<times> 's) option) \<Rightarrow> 'o list \<Rightarrow> 's \<Rightarrow> ('r list \<times> 's) option" where
  "run_steps step [] s = Some ([], s)"
| "run_steps step (c # cs) s =
     Option.bind (step c s) (\<lambda>(r, s'). map_option (\<lambda>(rs, s''). (r # rs, s'')) (run_steps step cs s'))"

section \<open>The map a client sees\<close>

fun map_answer :: "('k, 'v) table_op \<Rightarrow> ('k \<rightharpoonup> 'v) \<Rightarrow> 'v table_out" where
  "map_answer (Find k) m = Found (m k)"
| "map_answer (Has k) m = Answer (m k \<noteq> None)"
| "map_answer (Insert k v) m = Inserted (m k = None)"
| "map_answer (InsertIfNotPresent k v) m = Done"
| "map_answer (Assign k v) m = Done"
| "map_answer (Erase k) m = Answer (m k \<noteq> None)"
| "map_answer Clear m = Done"
| "map_answer (Reserve n) m = Done"
| "map_answer Size m = Count (card (dom m))"

fun map_update :: "('k, 'v) table_op \<Rightarrow> ('k \<rightharpoonup> 'v) \<Rightarrow> ('k \<rightharpoonup> 'v)" where
  "map_update (Insert k v) m = (if m k = None then m(k \<mapsto> v) else m)"
| "map_update (InsertIfNotPresent k v) m = (if m k = None then m(k \<mapsto> v) else m)"
| "map_update (Assign k v) m = m(k \<mapsto> v)"
| "map_update (Erase k) m = m(k := None)"
| "map_update Clear m = Map.empty"
| "map_update _ m = m"

text \<open>Only an operation that may need memory may fail, and only for want of it.\<close>

fun may_fail :: "('k, 'v) table_op \<Rightarrow> ('k \<rightharpoonup> 'v) \<Rightarrow> bool" where
  "may_fail (Insert k v) m \<longleftrightarrow> m k = None"
| "may_fail (InsertIfNotPresent k v) m \<longleftrightarrow> m k = None"
| "may_fail (Assign k v) m \<longleftrightarrow> m k = None"
| "may_fail (Reserve n) m \<longleftrightarrow> True"
| "may_fail _ m \<longleftrightarrow> False"

fun map_explains :: "('k, 'v) table_op list \<Rightarrow> 'v table_out list \<Rightarrow> ('k \<rightharpoonup> 'v) \<Rightarrow> ('k \<rightharpoonup> 'v) \<Rightarrow> bool" where
  "map_explains [] [] m m' \<longleftrightarrow> m' = m"
| "map_explains (c # cs) (r # rs) m m' \<longleftrightarrow>
     r = map_answer c m \<and> map_explains cs rs (map_update c m) m'
     \<or> r = Threw CANNOT_ALLOCATE_MEMORY \<and> may_fail c m \<and> map_explains cs rs m m'"
| "map_explains _ _ m m' \<longleftrightarrow> False"

locale map_store =
  fixes good :: "'s \<Rightarrow> bool"
    and abs_map :: "'s \<Rightarrow> 'k \<rightharpoonup> 'v"
    and step :: "('k, 'v) table_op \<Rightarrow> 's \<Rightarrow> ('v table_out \<times> 's) option"
    and usable :: "('k, 'v) table_op \<Rightarrow> bool"
  assumes step_law: "good s \<Longrightarrow> usable c \<Longrightarrow>
      \<exists>r s'. step c s = Some (r, s') \<and> good s' \<and> map_explains [c] [r] (abs_map s) (abs_map s')"
begin

lemma map_explains_Cons:
  assumes "map_explains [c] [r] m m1" and "map_explains cs rs m1 m'"
  shows "map_explains (c # cs) (r # rs) m m'"
  using assms by auto

lemma run_law:
  assumes "good s" and "list_all usable cs"
  shows "\<exists>rs s'. run_steps step cs s = Some (rs, s') \<and> good s' \<and> map_explains cs rs (abs_map s) (abs_map s')"
  using assms
proof (induction cs arbitrary: s)
  case (Cons c cs)
  then obtain r s1 where 1: "step c s = Some (r, s1)" "good s1" "map_explains [c] [r] (abs_map s) (abs_map s1)"
    using step_law [of s c] by auto
  then obtain rs s' where "run_steps step cs s1 = Some (rs, s')" "good s'" "map_explains cs rs (abs_map s1) (abs_map s')"
    using Cons.IH [of s1] Cons.prems(2) by auto
  then show ?case
    using 1 map_explains_Cons [OF 1(3)] by auto
qed simp

end

section \<open>The table is a map store\<close>

lemma inj_fst_elements:
  assumes "unique_keys b"
  shows "inj_on fst (elements b)"
proof (rule inj_onI)
  fix c d
  assume cd: "c \<in> elements b" "d \<in> elements b" "fst c = fst d"
  then have "fst c \<noteq> 0"
    by (auto simp: elements_def isZero_def)
  then have "map_of b (fst c) = Some (snd c)" "map_of b (fst c) = Some (snd d)"
    using map_of_elements [OF assms] cd by (metis prod.collapse)+
  then show "c = d"
    using cd(3) by (simp add: prod_eq_iff)
qed

lemma dom_ht_map:
  assumes "ht_ok T t"
  shows "card (dom (ht_map t)) = m_size t" and "finite (dom (ht_map t))"
proof -
  have u: "unique_keys (buf t)" and size: "m_size t = card (elements (buf t)) + (if has_zero t then 1 else 0)"
    using assms by (simp_all add: ht_ok_def buf_ok_def)
  let ?D = "fst ` elements (buf t)"
  have nz: "0 \<notin> ?D"
    by (auto simp: elements_def isZero_def)
  have "k \<in> dom (ht_map t) \<longleftrightarrow> k \<in> (if has_zero t then insert 0 ?D else ?D)" for k
  proof (cases "k = 0")
    case False
    then show ?thesis
      using map_of_elements [OF u False] by (force simp: ht_map_def dom_def image_iff)
  qed (use nz in \<open>auto simp: ht_map_def dom_def\<close>)
  then have dom: "dom (ht_map t) = (if has_zero t then insert 0 ?D else ?D)"
    by blast
  have inj: "inj_on fst (elements (buf t))"
    by (rule inj_fst_elements [OF u])
  show "card (dom (ht_map t)) = m_size t" "finite (dom (ht_map t))"
    using nz by (simp_all add: dom size card_image [OF inj] finite_elements)
qed

lemma insert_step:
  assumes "types_ok T" and "ht_ok T t"
  obtains (success) t' where "table_step T (Insert k v) t = Some (Inserted (ht_map t k = None), t')"
      and "table_step T (InsertIfNotPresent k v) t = Some (Done, t')" and "ht_ok T t'"
      and "ht_map t' = (if ht_map t k = None then (ht_map t)(k \<mapsto> v) else ht_map t)"
  | (failed) "table_step T (Insert k v) t = Some (Threw CANNOT_ALLOCATE_MEMORY, t)" and "ht_map t k = None"
      and "table_step T (InsertIfNotPresent k v) t = Some (Threw CANNOT_ALLOCATE_MEMORY, t)"
      and "emplace T k t = Some (Inl CANNOT_ALLOCATE_MEMORY, t)"
proof (cases rule: emplace_correct [OF assms, of k, case_names present added failed])
  case (present s)
  then show thesis
    using success [of t] assms(2) slot_mapped [OF assms(2) present(2)] by (simp add: ht_insert_def insertIfNotPresent_def)
next
  case (added s w t')
  note S = setMapped_correct [OF added(2,3)]
  have twice: "setMapped s v (setMapped s u t') = setMapped s v t'" for u
    using added(3) by (cases s) (simp_all add: setMapped_def slot_of_def)
  show thesis
    using success [of "setMapped s v t'"] S(1,2) [of v] added(1,4,5) twice by (simp add: ht_insert_def insertIfNotPresent_def)
next
  case failed
  then show thesis
    using that(2) by (simp add: ht_insert_def insertIfNotPresent_def)
qed

lemma assign_step:
  assumes "types_ok T" and "ht_ok T t"
  obtains (success) t' where "table_step T (Assign k v) t = Some (Done, t')" and "ht_ok T t'" and "ht_map t' = (ht_map t)(k \<mapsto> v)"
  | (failed) "table_step T (Assign k v) t = Some (Threw CANNOT_ALLOCATE_MEMORY, t)" and "ht_map t k = None"
      and "emplace T k t = Some (Inl CANNOT_ALLOCATE_MEMORY, t)"
proof (cases rule: emplace_correct [OF assms, of k, case_names present added failed])
  case (present s)
  then show thesis
    using success [of "setMapped s v t"] setMapped_correct(1,2) [OF assms(2) present(2)] by (simp add: ht_at_def)
next
  case (added s w t')
  note S = setMapped_correct [OF added(2,3), of 0]
  show thesis
    using success [of "setMapped s v (setMapped s 0 t')"] setMapped_correct(1,2) [OF S(1,3)] S(2) added(1,5) by (simp add: ht_at_def)
next
  case failed
  then show thesis
    using that(2) by (simp add: ht_at_def)
qed

fun op_in_range :: "('k, 'v) table_op \<Rightarrow> bool" where
  "op_in_range (Reserve n) \<longleftrightarrow> n \<le> 2 ^ 48"
| "op_in_range _ \<longleftrightarrow> True"

interpretation hash_map: map_store "\<lambda>t. types_ok T \<and> ht_ok T t" ht_map "table_step T" op_in_range
  for T :: "'k::zero ht_types"
proof
  fix t :: "('k, 'v::zero) ht" and c :: "('k, 'v) table_op"
  assume ok: "types_ok T \<and> ht_ok T t" and c: "op_in_range c"
  then have T: "types_ok T" and t: "ht_ok T t"
    by simp_all
  show "\<exists>r t'. table_step T c t = Some (r, t') \<and> (types_ok T \<and> ht_ok T t') \<and> map_explains [c] [r] (ht_map t) (ht_map t')"
  proof (cases c)
    case (Insert k v)
    show ?thesis
      by (rule insert_step [OF T t, of k v]) (use T t Insert in auto)
  next
    case (InsertIfNotPresent k v)
    show ?thesis
      by (rule insert_step [OF T t, of k v]) (use T t InsertIfNotPresent in auto)
  next
    case (Assign k v)
    show ?thesis
      by (rule assign_step [OF T t, of k v]) (use T t Assign in auto)
  next
    case (Reserve n)
    show ?thesis
      by (rule reserve_correct [OF T t, of n]) (use T t c Reserve in auto)
  next
    case (Find k)
    obtain r where "ht_find T k t = Some r" "map_option (slot_mapped t) r = ht_map t k"
      using find_correct(1) [OF T t, of k] by blast
    then show ?thesis
      using T t Find by auto
  next
    case (Erase k)
    then show ?thesis
      using erase_correct [OF T t, of k] T by auto
  qed (use find_correct(2) [OF T t] clear_correct [OF T t] dom_ht_map(1) [OF t] T t in \<open>auto simp: size_out_def\<close>)
qed

text \<open>
  C2: Starting from a new table, every sequence of lookups, insertions, assignments, deletions,
  clearings and reservations (of at most \<open>2 ^ 48\<close> elements) terminates, and its answers are the answers
  of a finite map.  The only exception is want of memory, only where the map gets a new key or
  memory is reserved, and it leaves the map as it was.
\<close>

theorem hashtable_refines_map:
  fixes cs :: "('k::zero, 'v::zero) table_op list"
  assumes "types_ok T" and "new_HashTable T (new_grower (initial_size_degree T)) = Inr t" and "list_all op_in_range cs"
  shows "\<exists>rs t'. run_steps (table_step T) cs t = Some (rs, t') \<and> ht_ok T t' \<and> map_explains cs rs Map.empty (ht_map t')"
  using hash_map.run_law [of T t cs] new_HashTable_correct [OF assms(1,2)] assms(1,3) by auto

definition example_types :: "int ht_types" where
  "example_types = \<lparr>key_hash = word_of_int, sizeof_cell = 16, initial_size_degree = 1, can_allocate = (\<lambda>_. True)\<rparr>"

theorem hashtable_refines_map_witness:
  "\<exists>t rs t'. new_HashTable example_types (new_grower (initial_size_degree example_types)) = Inr t
     \<and> run_steps (table_step example_types) [Insert 3 30, Insert 7 (70 :: int), Erase 3, Find 7, Size] t = Some (rs, t')
     \<and> ht_ok example_types t'
     \<and> map_explains [Insert 3 30, Insert 7 70, Erase 3, Find 7, Size] rs Map.empty (ht_map t')"
proof -
  have "types_ok example_types"
    by (simp add: types_ok_def example_types_def)
  moreover obtain t :: "(int, int) ht" where
    t: "new_HashTable example_types (new_grower (initial_size_degree example_types)) = Inr t"
    by (simp add: new_HashTable_def ht_alloc_def allocCheckOverflow_def example_types_def new_grower_def bufSize_def)
  ultimately show ?thesis
    using hashtable_refines_map [of example_types t "[Insert 3 30, Insert 7 70, Erase 3, Find 7, Size]"]
    by (simp del: map_explains.simps)
qed

section \<open>Runs with enough memory\<close>

lemma emplace_succeeds:
  assumes "types_ok T" and "ht_ok T t" and "\<And>n. can_allocate T n" and "8 * m_size t * sizeof_cell T < 2 ^ 64"
  shows "emplace T k t \<noteq> Some (Inl e, t')"
proof (cases rule: emplace_correct [OF assms(1,2), of k, case_names present added failed])
  case failed
  let ?g = "ht_grower t"
  have "2 ^ 64 \<le> bufSize (increaseSize ?g) * sizeof_cell T"
    using failed(4) assms(3) by (auto simp: ht_alloc_def allocCheckOverflow_def split: if_splits)
  moreover have "bufSize (increaseSize ?g) \<le> 4 * bufSize ?g"
    by (simp add: increaseSize_def increaseSizeDegree_def bufSize_def)
  moreover have "bufSize ?g = 2 * 2 ^ (size_degree ?g - 1)"
    using ht_okD(4) [OF assms(1,2)] by (cases "size_degree ?g") (simp_all add: bufSize_def)
  then have "4 * bufSize ?g \<le> 8 * m_size t"
    using failed(3) ht_okD(3) [OF assms(1,2)] by simp
  ultimately have "2 ^ 64 \<le> 8 * m_size t * sizeof_cell T"
    by (meson le_trans mult_le_mono1)
  then show ?thesis
    using assms(4) by simp
qed simp_all

fun map_answers :: "('k, 'v) table_op list \<Rightarrow> ('k \<rightharpoonup> 'v) \<Rightarrow> 'v table_out list" where
  "map_answers [] m = []"
| "map_answers (c # cs) m = map_answer c m # map_answers cs (map_update c m)"

fun no_reserve :: "('k, 'v) table_op \<Rightarrow> bool" where
  "no_reserve (Reserve n) \<longleftrightarrow> False"
| "no_reserve _ \<longleftrightarrow> True"

lemma map_update_card:
  assumes "finite (dom m)"
  shows "finite (dom (map_update c m))" and "card (dom (map_update c m)) \<le> Suc (card (dom m))"
  using assms by (cases c; simp add: card_insert_if card_Diff_singleton_if le_SucI)+

lemma step_succeeds:
  assumes "types_ok T" and "ht_ok T t" and "\<And>n. can_allocate T n" and "8 * m_size t * sizeof_cell T < 2 ^ 64" and "no_reserve c"
  shows "\<exists>t'. table_step T c t = Some (map_answer c (ht_map t), t') \<and> ht_ok T t' \<and> ht_map t' = map_update c (ht_map t)"
proof -
  have "op_in_range c"
    using assms(5) by (cases c) simp_all
  then obtain r t' where r: "table_step T c t = Some (r, t')" "ht_ok T t'" "map_explains [c] [r] (ht_map t) (ht_map t')"
    using hash_map.step_law [of T t c] assms(1,2) by blast
  note full = emplace_succeeds [OF assms(1-4)]
  show ?thesis
  proof (cases c)
    case (Insert k v)
    show ?thesis
      by (rule insert_step [OF assms(1,2), of k v]) (use Insert full in auto)
  next
    case (InsertIfNotPresent k v)
    show ?thesis
      by (rule insert_step [OF assms(1,2), of k v]) (use InsertIfNotPresent full in auto)
  next
    case (Assign k v)
    show ?thesis
      by (rule assign_step [OF assms(1,2), of k v]) (use Assign full in auto)
  qed (use r assms(5) in auto)
qed

text \<open>
  C14: If memory is always given, and eight cells for each operation fit into the address space,
  then a sequence without reservations throws no exception: its answers and its final contents are
  exactly those of a finite map.
\<close>

theorem hashtable_run_equals_map:
  fixes cs :: "('k::zero, 'v::zero) table_op list"
  assumes "types_ok T" and "new_HashTable T (new_grower (initial_size_degree T)) = Inr t"
    and "\<And>n. can_allocate T n" and "8 * length cs * sizeof_cell T < 2 ^ 64" and "list_all no_reserve cs"
  shows "\<exists>t'. run_steps (table_step T) cs t = Some (map_answers cs Map.empty, t')
    \<and> ht_map t' = fold map_update cs Map.empty"
proof -
  have "\<exists>t'. run_steps (table_step T) cs t = Some (map_answers cs (ht_map t), t') \<and> ht_map t' = fold map_update cs (ht_map t)"
    if "ht_ok T t" "8 * (m_size t + length cs) * sizeof_cell T < 2 ^ 64" "list_all no_reserve cs" for cs and t :: "('k, 'v) ht"
    using that
  proof (induction cs arbitrary: t)
    case (Cons c cs)
    have "8 * m_size t * sizeof_cell T \<le> 8 * (m_size t + length (c # cs)) * sizeof_cell T"
      by simp
    then have "8 * m_size t * sizeof_cell T < 2 ^ 64"
      using Cons.prems(2) by (rule le_less_trans)
    then obtain t' where t': "table_step T c t = Some (map_answer c (ht_map t), t')" "ht_ok T t'" "ht_map t' = map_update c (ht_map t)"
      using step_succeeds [OF assms(1) Cons.prems(1) assms(3), of c] Cons.prems(3) by auto
    have "finite (dom (ht_map t))"
      by (rule dom_ht_map(2) [OF Cons.prems(1)])
    then have "m_size t' \<le> Suc (m_size t)"
      using map_update_card(2) [of "ht_map t" c] dom_ht_map(1) [OF t'(2)] dom_ht_map(1) [OF Cons.prems(1)] t'(3) by simp
    then have "8 * (m_size t' + length cs) * sizeof_cell T \<le> 8 * (m_size t + length (c # cs)) * sizeof_cell T"
      by (intro mult_le_mono1) simp
    then have "8 * (m_size t' + length cs) * sizeof_cell T < 2 ^ 64"
      using Cons.prems(2) by (rule le_less_trans)
    then show ?case
      using Cons.IH [OF t'(2)] Cons.prems(3) t' by auto
  qed simp
  from this [of t cs] show ?thesis
    using new_HashTable_correct [OF assms(1,2)] dom_ht_map(1) [of T t] assms(4,5) by simp
qed

theorem hashtable_run_equals_map_witness:
  "\<exists>t t' :: (int, int) ht. new_HashTable example_types (new_grower (initial_size_degree example_types)) = Inr t
     \<and> run_steps (table_step example_types) [Insert 3 30, Insert 7 70, Insert 0 5, Erase 3, Find 7, Insert 7 71, Size] t
         = Some ([Inserted True, Inserted True, Inserted True, Answer True, Found (Some 70), Inserted False, Count 2], t')"
proof -
  let ?cs = "[Insert 3 30, Insert 7 70, Insert 0 5, Erase 3, Find 7, Insert 7 71, Size] :: (int, int) table_op list"
  have "types_ok example_types"
    by (simp add: types_ok_def example_types_def)
  moreover obtain t :: "(int, int) ht" where
    "new_HashTable example_types (new_grower (initial_size_degree example_types)) = Inr t"
    by (simp add: new_HashTable_def ht_alloc_def allocCheckOverflow_def example_types_def new_grower_def bufSize_def)
  moreover have "can_allocate example_types n" "8 * length ?cs * sizeof_cell example_types < 2 ^ 64" "list_all no_reserve ?cs" for n
    by (simp_all add: example_types_def)
  moreover have "map_answers ?cs Map.empty
      = [Inserted True, Inserted True, Inserted True, Answer True, Found (Some 70), Inserted False, Count 2]"
    by simp
  ultimately show ?thesis
    using hashtable_run_equals_map [of example_types t ?cs] by (metis (no_types, lifting))
qed

end
