(* ===== verification/HashTable_Serial.thy ===== *)
theory HashTable_Serial
  imports HashTable_History
begin

text \<open>
  Iteration over a hash table, merging one table into another, and the binary form of a table:
  \<^verbatim>\<open>iterator\<close>, \<^verbatim>\<open>begin\<close>, \<^verbatim>\<open>write\<close> and \<^verbatim>\<open>read\<close> of \<^verbatim>\<open>src/src/Common/HashTable/HashTable.h\<close>, \<^verbatim>\<open>mergeToViaEmplace\<close> of \<^verbatim>\<open>HashMap.h\<close>.  How
  one key and one mapped value are written is a parameter, as it depends on their types.
\<close>

section \<open>Iteration\<close>

function skip_empty :: "('k::zero, 'v) cell list \<Rightarrow> nat \<Rightarrow> nat" where
  "skip_empty b p = (if p < length b \<and> isZero (b ! p) then skip_empty b (Suc p) else p)"
  by pat_completeness auto
termination
  by (relation "measure (\<lambda>(b, p). length b - p)") auto

declare skip_empty.simps [simp del]

definition ht_begin :: "('k::zero, 'v) ht \<Rightarrow> slot" where
  "ht_begin t = (if has_zero t then ZeroSlot else Slot (skip_empty (buf t) 0))"

definition ht_end :: "('k::zero, 'v) ht \<Rightarrow> slot" where
  "ht_end t = Slot (bufSize (ht_grower t))"

definition ht_next :: "('k::zero, 'v) ht \<Rightarrow> slot \<Rightarrow> slot" where
  "ht_next t s =
     (case s of
        ZeroSlot \<Rightarrow> Slot (skip_empty (buf t) 0)
      | Slot p \<Rightarrow> Slot (skip_empty (buf t) (if isZero (buf t ! p) then 0 else Suc p)))"

definition slot_cell :: "('k::zero, 'v) ht \<Rightarrow> slot \<Rightarrow> ('k, 'v) cell" where
  "slot_cell t s = (case s of ZeroSlot \<Rightarrow> (0, zero_mapped t) | Slot p \<Rightarrow> buf t ! p)"

partial_function (option) iterate_from :: "('k::zero, 'v) ht \<Rightarrow> slot \<Rightarrow> slot list option" where
  "iterate_from t s =
     (if s = ht_end t then Some [] else Option.bind (iterate_from t (ht_next t s)) (\<lambda>ss. Some (s # ss)))"

definition ht_iterate :: "('k::zero, 'v) ht \<Rightarrow> slot list option" where
  "ht_iterate t = iterate_from t (ht_begin t)"

text \<open>The cells of a table in the order of iteration.\<close>

definition ht_cells :: "('k::zero, 'v) ht \<Rightarrow> ('k, 'v) cell list" where
  "ht_cells t = (if has_zero t then [(0, zero_mapped t)] else []) @ filter (\<lambda>c. \<not> isZero c) (buf t)"

lemma skip_empty_spec:
  assumes "p \<le> length b"
  shows "skip_empty b p \<le> length b" and "filter (\<lambda>c. \<not> isZero c) (drop p b) = filter (\<lambda>c. \<not> isZero c) (drop (skip_empty b p) b)"
    and "skip_empty b p < length b \<Longrightarrow> \<not> isZero (b ! skip_empty b p)" and "p \<le> skip_empty b p"
  using assms
proof (induction b p rule: skip_empty.induct)
  case (1 b p)
  {
    case 1
    then show ?case
      using "1.IH"(1) by (subst skip_empty.simps) auto
  next
    case 2
    then show ?case
      using "1.IH"(2) by (subst skip_empty.simps) (auto simp: Cons_nth_drop_Suc [symmetric])
  next
    case 3
    then show ?case
      using "1.IH"(3) by (subst (asm) skip_empty.simps, subst skip_empty.simps) (auto split: if_splits)
  next
    case 4
    then show ?case
      using "1.IH"(4) by (subst skip_empty.simps) (auto dest: Suc_leD)
  }
qed

lemma iterate_from_slot:
  assumes "length (buf t) = bufSize (ht_grower t)" and "p \<le> length (buf t)"
  shows "\<exists>ss. iterate_from t (Slot (skip_empty (buf t) p)) = Some ss
    \<and> map (slot_cell t) ss = filter (\<lambda>c. \<not> isZero c) (drop p (buf t))
    \<and> (\<forall>s \<in> set ss. slot_of t (fst (slot_cell t s)) s)"
  using assms(2)
proof (induction "length (buf t) - p" arbitrary: p rule: less_induct)
  case less
  let ?q = "skip_empty (buf t) p"
  note q = skip_empty_spec [OF less.prems]
  show ?case
  proof (cases "?q = length (buf t)")
    case True
    then show ?thesis
      using q(2) assms(1) by (subst iterate_from.simps) (simp add: ht_end_def)
  next
    case False
    then have full: "?q < length (buf t)" "\<not> isZero (buf t ! ?q)"
      using q(1,3) by auto
    have shorter: "length (buf t) - Suc ?q < length (buf t) - p"
      using q(4) full(1) by linarith
    obtain ss where ss: "iterate_from t (Slot (skip_empty (buf t) (Suc ?q))) = Some ss"
      "map (slot_cell t) ss = filter (\<lambda>c. \<not> isZero c) (drop (Suc ?q) (buf t))"
      "\<forall>s \<in> set ss. slot_of t (fst (slot_cell t s)) s"
      using less.hyps [OF shorter] full(1) by auto
    have "iterate_from t (Slot ?q) = Some (Slot ?q # ss)"
      using False full ss(1) assms(1) by (subst iterate_from.simps) (simp add: ht_end_def ht_next_def)
    moreover have "filter (\<lambda>c. \<not> isZero c) (drop p (buf t)) = buf t ! ?q # map (slot_cell t) ss"
      using full ss(2) unfolding q(2) by (simp add: Cons_nth_drop_Suc [symmetric])
    moreover have "slot_of t (fst (slot_cell t (Slot ?q))) (Slot ?q)"
      using full by (simp add: slot_of_def slot_cell_def isZero_def)
    ultimately show ?thesis
      using ss(3) by (simp add: slot_cell_def)
  qed
qed

lemma iterate_cells:
  assumes "ht_ok T t"
  shows "\<exists>ss. ht_iterate t = Some ss \<and> map (slot_cell t) ss = ht_cells t \<and> (\<forall>s \<in> set ss. slot_of t (fst (slot_cell t s)) s)"
proof -
  have "length (buf t) = bufSize (ht_grower t)"
    using assms by (simp add: ht_ok_def buf_ok_def)
  then obtain ss where ss: "iterate_from t (Slot (skip_empty (buf t) 0)) = Some ss"
    "map (slot_cell t) ss = filter (\<lambda>c. \<not> isZero c) (buf t)" "\<forall>s \<in> set ss. slot_of t (fst (slot_cell t s)) s"
    using iterate_from_slot [of t 0] by auto
  show ?thesis
  proof (cases "has_zero t")
    case True
    then have "ht_iterate t = Some (ZeroSlot # ss)"
      using ss(1) by (simp add: ht_iterate_def ht_begin_def iterate_from.simps [of t ZeroSlot] ht_end_def ht_next_def)
    then show ?thesis
      using ss(2,3) True by (simp add: ht_cells_def slot_cell_def slot_of_def)
  qed (use ss in \<open>simp add: ht_iterate_def ht_begin_def ht_cells_def\<close>)
qed

lemma table_cells:
  assumes "ht_ok T t"
  shows "distinct (map fst (ht_cells t))" and "map_of (ht_cells t) = ht_map t" and "length (ht_cells t) = m_size t"
proof -
  have u: "unique_keys (buf t)" and size: "m_size t = card (elements (buf t)) + (if has_zero t then 1 else 0)"
    using assms by (simp_all add: ht_ok_def buf_ok_def)
  let ?f = "filter (\<lambda>c. \<not> isZero c) (buf t)"
  have set: "set ?f = elements (buf t)"
    by (auto simp: elements_def in_set_conv_nth)
  have len: "length ?f = card (elements (buf t))"
    by (simp add: length_filter_conv_card card_elements [OF u])
  then have "card (set (map fst ?f)) = length (map fst ?f)"
    unfolding set_map set by (simp add: card_image [OF inj_fst_elements [OF u]])
  then have d: "distinct (map fst ?f)"
    by (rule card_distinct)
  have nz: "0 \<notin> fst ` set ?f"
    by (auto simp: isZero_def)
  show "distinct (map fst (ht_cells t))"
    using d nz by (auto simp: ht_cells_def)
  show "map_of (ht_cells t) = ht_map t"
  proof (rule ext)
    fix k
    show "map_of (ht_cells t) k = ht_map t k"
    proof (cases "k = 0")
      case True
      have "map_of ?f 0 = None"
        using nz by (simp add: map_of_eq_None_iff)
      then show ?thesis
        using True by (simp add: ht_cells_def ht_map_def)
    next
      case False
      have "map_of ?f k = Some v \<longleftrightarrow> map_of (buf t) k = Some v" for v
        using d set map_of_elements [OF u False] by (simp add: map_of_eq_Some_iff)
      then have "map_of ?f k = map_of (buf t) k"
        by (metis not_None_eq)
      then show ?thesis
        using False by (simp add: ht_cells_def ht_map_def)
    qed
  qed
  show "length (ht_cells t) = m_size t"
    using size len by (simp add: ht_cells_def)
qed

section \<open>Merging\<close>

text \<open>
  \<open>func dst src emplaced\<close> is the new mapped value of the destination.  The code passes a reference to the
  mapped value of the source as well; a function that changes it is not modelled.
\<close>

fun merge_cells :: "'k ht_types \<Rightarrow> ('v \<Rightarrow> 'v \<Rightarrow> bool \<Rightarrow> 'v) \<Rightarrow> ('k, 'v) cell list \<Rightarrow> ('k::zero, 'v::zero) ht \<Rightarrow> (unit result \<times> ('k, 'v) ht) option" where
  "merge_cells T func [] that = Some (Inr (), that)"
| "merge_cells T func (c # cs) that =
     (case emplace_hashed T (fst c) (getHash (key_hash T) c) that of
        None \<Rightarrow> None
      | Some (Inl e, that') \<Rightarrow> Some (Inl e, that')
      | Some (Inr (res_it, inserted), that') \<Rightarrow>
          merge_cells T func cs (setMapped res_it (func (slot_mapped that' res_it) (snd c) inserted) that'))"

definition mergeToViaEmplace :: "'k ht_types \<Rightarrow> ('v \<Rightarrow> 'v \<Rightarrow> bool \<Rightarrow> 'v) \<Rightarrow> ('k, 'v) ht \<Rightarrow> ('k::zero, 'v::zero) ht \<Rightarrow> (unit result \<times> ('k, 'v) ht) option" where
  "mergeToViaEmplace T func t that = Option.bind (ht_iterate t) (\<lambda>ss. merge_cells T func (map (slot_cell t) ss) that)"

definition merged :: "('v \<Rightarrow> 'v \<Rightarrow> bool \<Rightarrow> 'v::zero) \<Rightarrow> ('k \<rightharpoonup> 'v) \<Rightarrow> ('k \<rightharpoonup> 'v) \<Rightarrow> 'k \<rightharpoonup> 'v" where
  "merged func src dst k =
     (case src k of
        None \<Rightarrow> dst k
      | Some v \<Rightarrow> Some (case dst k of None \<Rightarrow> func 0 v True | Some w \<Rightarrow> func w v False))"

lemma merged_Cons:
  assumes "k \<notin> fst ` set cs"
  shows "merged func (map_of ((k, v) # cs)) dst
    = merged func (map_of cs) (dst(k \<mapsto> (case dst k of None \<Rightarrow> func 0 v True | Some w \<Rightarrow> func w v False)))"
proof -
  have "map_of cs k = None"
    using assms by (simp add: map_of_eq_None_iff)
  then show ?thesis
    by (auto simp: merged_def fun_eq_iff split: option.splits)
qed

lemma merge_cells_correct:
  fixes that :: "('k::zero, 'v::zero) ht"
  assumes "types_ok T" and "ht_ok T that" and "distinct (map fst cs)" and ignores: "\<And>w v. func w v True = func 0 v True"
  shows "\<exists>r that'. merge_cells T func cs that = Some (r, that') \<and> ht_ok T that'
    \<and> (r = Inr () \<and> ht_map that' = merged func (map_of cs) (ht_map that)
       \<or> r = Inl CANNOT_ALLOCATE_MEMORY \<and> (\<exists>i < length cs. ht_map that' = merged func (map_of (take i cs)) (ht_map that)))"
  using assms(2,3)
proof (induction cs arbitrary: that)
  case Nil
  then show ?case
    by (simp add: merged_def fun_eq_iff)
next
  case (Cons c cs)
  obtain k v where c: "c = (k, v)"
    by (cases c)
  have new: "k \<notin> fst ` set cs"
    using Cons.prems(2) c by auto
  have emplace: "emplace_hashed T (fst c) (getHash (key_hash T) c) that = emplace T k that"
    by (simp add: c getHash_def emplace_def)
  have go_on: ?case if "merge_cells T func (c # cs) that = merge_cells T func cs d" "ht_ok T d"
    "ht_map d = (ht_map that)(k \<mapsto> (case ht_map that k of None \<Rightarrow> func 0 v True | Some w \<Rightarrow> func w v False))" for d
  proof -
    have "k \<notin> fst ` set (take i cs)" for i
      using new set_take_subset [of i cs] by blast
    then have merged: "merged func (map_of (take i cs)) (ht_map d) = merged func (map_of (take (Suc i) (c # cs))) (ht_map that)" for i
      using merged_Cons [of k "take i cs" func v "ht_map that"] that(3) by (simp add: c)
    have "merged func (map_of cs) (ht_map d) = merged func (map_of (c # cs)) (ht_map that)"
      using merged [of "length cs"] by simp
    then show ?thesis
      using Cons.IH [OF that(2)] Cons.prems(2) merged that(1) by (metis (no_types) Suc_less_eq distinct.simps(2) length_Cons list.simps(9))
  qed
  show ?case
  proof (cases rule: emplace_correct [OF assms(1) Cons.prems(1), of k, case_names present added failed])
    case (present s)
    note m = slot_mapped [OF Cons.prems(1) present(2)] and S = setMapped_correct [OF Cons.prems(1) present(2)]
    show ?thesis
      by (rule go_on [of "setMapped s (func (slot_mapped that s) v False) that"]) (use present(1) emplace m S(1,2) in \<open>simp_all add: c\<close>)
  next
    case (added s w d)
    note S = setMapped_correct [OF added(2,3)]
    show ?thesis
      by (rule go_on [of "setMapped s (func (slot_mapped d s) v True) d"])
         (use added emplace S(1,2) ignores [of "slot_mapped d s" v] in \<open>simp_all add: c\<close>)
  next
    case failed
    then show ?thesis
      using emplace Cons.prems(1) by (auto simp: merged_def fun_eq_iff intro!: exI [of _ 0])
  qed
qed

lemma example_table:
  obtains t :: "(int, int) ht" where "types_ok example_types" and "ht_ok example_types t" and "ht_map t = [3 \<mapsto> 30]"
proof -
  have T: "types_ok example_types"
    by (simp add: types_ok_def example_types_def)
  obtain t0 :: "(int, int) ht" where new: "new_HashTable example_types (new_grower (initial_size_degree example_types)) = Inr t0"
    by (simp add: new_HashTable_def ht_alloc_def allocCheckOverflow_def example_types_def new_grower_def bufSize_def)
  note t0 = new_HashTable_correct [OF T new]
  have "m_size t0 = 0"
    using dom_ht_map(1) [OF t0(1)] t0(2) by simp
  then obtain t where "ht_ok example_types t" "ht_map t = map_update (Insert 3 30) (ht_map t0)"
    using step_succeeds [OF T t0(1), of "Insert 3 30"] by (auto simp: example_types_def)
  then show thesis
    using that T t0(2) by simp
qed

text \<open>
  C20: Merging a table into another either ends with every cell of the source combined with the
  destination by the given function, called with \<open>True\<close> exactly for the keys that are new there, or
  runs out of memory after some of the cells, with a destination that is still a well-formed table.
  The function is one that leaves the value of the source alone and does not look at the value of the
  destination when the key is new there, where that value is not initialised.
\<close>

theorem hashtable_merge_correct:
  fixes t that :: "('k::zero, 'v::zero) ht"
  assumes "types_ok T" and "ht_ok T t" and "ht_ok T that" and "\<And>w v. func w v True = func 0 v True"
  shows "\<exists>r that'. mergeToViaEmplace T func t that = Some (r, that') \<and> ht_ok T that'
    \<and> (r = Inr () \<and> ht_map that' = merged func (ht_map t) (ht_map that)
       \<or> r = Inl CANNOT_ALLOCATE_MEMORY
         \<and> (\<exists>i < m_size t. ht_map that' = merged func (map_of (take i (ht_cells t))) (ht_map that)))"
proof -
  obtain ss where ss: "ht_iterate t = Some ss" "map (slot_cell t) ss = ht_cells t"
    using iterate_cells [OF assms(2)] by blast
  have "mergeToViaEmplace T func t that = merge_cells T func (ht_cells t) that"
    by (simp add: mergeToViaEmplace_def ss)
  then show ?thesis
    using merge_cells_correct [where func = func, OF assms(1,3) table_cells(1) [OF assms(2)] assms(4)] table_cells(2,3) [OF assms(2)] by simp
qed

theorem hashtable_merge_correct_witness:
  "\<exists>t that r (that' :: (int, int) ht). ht_map t = [3 \<mapsto> 30] \<and> ht_map that = [3 \<mapsto> 30]
     \<and> mergeToViaEmplace example_types (\<lambda>w v emplaced. if emplaced then v else w + v) t that = Some (r, that')
     \<and> (r = Inr () \<and> ht_map that' 3 = Some 60 \<or> r = Inl CANNOT_ALLOCATE_MEMORY)"
proof -
  obtain t :: "(int, int) ht" where t: "types_ok example_types" "ht_ok example_types t" "ht_map t = [3 \<mapsto> 30]"
    by (rule example_table)
  let ?f = "\<lambda>w v emplaced. if emplaced then v else w + v :: int"
  have three: "merged ?f (ht_map t) (ht_map t) 3 = Some 60"
    by (simp add: merged_def t(3))
  obtain r that' where r: "mergeToViaEmplace example_types ?f t t = Some (r, that')"
    "r = Inr () \<and> ht_map that' = merged ?f (ht_map t) (ht_map t) \<or> r = Inl CANNOT_ALLOCATE_MEMORY"
    using hashtable_merge_correct [OF t(1,2,2), of ?f] by auto
  then have "r = Inr () \<and> ht_map that' 3 = Some 60 \<or> r = Inl CANNOT_ALLOCATE_MEMORY"
    using three by auto
  then show ?thesis
    using r(1) t(3) by blast
qed

section \<open>Binary form\<close>

record ('k, 'v) cell_io =
  write_key :: "'k \<Rightarrow> byte list"
  read_key :: "byte list \<Rightarrow> ('k \<times> byte list) result"
  write_mapped :: "'v \<Rightarrow> byte list"
  read_mapped :: "byte list \<Rightarrow> ('v \<times> byte list) result"

definition cell_write :: "('k, 'v) cell_io \<Rightarrow> ('k, 'v) cell \<Rightarrow> byte list" where
  "cell_write IO c = write_key IO (fst c) @ write_mapped IO (snd c)"

definition cell_read :: "('k, 'v) cell_io \<Rightarrow> byte list \<Rightarrow> (('k, 'v) cell \<times> byte list) result" where
  "cell_read IO rb =
     res_bind (read_key IO rb) (\<lambda>(k, rb). res_map (\<lambda>(v, rb). ((k, v), rb)) (read_mapped IO rb))"

definition ht_write :: "('k, 'v) cell_io \<Rightarrow> ('k::zero, 'v) ht \<Rightarrow> byte list" where
  "ht_write IO t =
     writeVarUInt (word_of_nat (m_size t)) @ (if has_zero t then cell_write IO (0, zero_mapped t) else [])
     @ concat (map (cell_write IO) (filter (\<lambda>c. \<not> isZero c) (buf t)))"

fun read_cells :: "'k ht_types \<Rightarrow> ('k, 'v) cell_io \<Rightarrow> nat \<Rightarrow> byte list \<Rightarrow> ('k::zero, 'v::zero) ht \<Rightarrow> (byte list result \<times> ('k, 'v) ht) option" where
  "read_cells T IO 0 rb t = Some (Inr rb, t)"
| "read_cells T IO (Suc n) rb t =
     (case cell_read IO rb of
        Inl e \<Rightarrow> Some (Inl e, t)
      | Inr (x, rb') \<Rightarrow>
          (case ht_insert T x t of
             None \<Rightarrow> None
           | Some (Inl e, t') \<Rightarrow> Some (Inl e, t')
           | Some (Inr _, t') \<Rightarrow> read_cells T IO n rb' t'))"

text \<open>The result is the rest of the input; a table whose buffer was freed has no cells.\<close>

definition ht_read :: "'k ht_types \<Rightarrow> ('k, 'v) cell_io \<Rightarrow> byte list \<Rightarrow> ('k::zero, 'v::zero) ht \<Rightarrow> (byte list result \<times> ('k, 'v) ht) option" where
  "ht_read T IO rb t =
     (let t = (clearHasZero t)\<lparr>m_size := 0\<rparr>
      in case readVarUInt rb of
           Inl e \<Rightarrow> Some (Inl e, t)
         | Inr (new_size, rb) \<Rightarrow>
             if unat new_size > 100000000000 then Some (Inl TOO_LARGE_ARRAY_SIZE, t)
             else
               let new_g = grower_set (initial_size_degree T) (unat new_size) (ht_grower t)
               in case ht_alloc T (bufSize new_g) of
                    Inl e \<Rightarrow> Some (Inl e, t\<lparr>buf := []\<rparr>)
                  | Inr _ \<Rightarrow> read_cells T IO (unat new_size) rb (t\<lparr>buf := replicate (bufSize new_g) (0, 0), ht_grower := new_g\<rparr>))"

definition cell_io_ok :: "('k, 'v) cell_io \<Rightarrow> 'k \<Rightarrow> 'v \<Rightarrow> bool" where
  "cell_io_ok IO k v \<longleftrightarrow> (\<forall>rest. read_key IO (write_key IO k @ rest) = Inr (k, rest)
     \<and> read_mapped IO (write_mapped IO v @ rest) = Inr (v, rest))"

lemma cell_read_write:
  assumes "cell_io_ok IO (fst c) (snd c)"
  shows "cell_read IO (cell_write IO c @ rest) = Inr (c, rest)"
  using assms by (simp add: cell_io_ok_def cell_read_def cell_write_def)

lemma insert_new_fits:
  assumes "types_ok T" and "ht_ok T t" and "ht_map t (fst c) = None" and "m_size t < precalculated_max_fill (ht_grower t)"
  shows "\<exists>s t'. ht_insert T c t = Some (Inr (s, True), t') \<and> ht_ok T t' \<and> ht_map t' = (ht_map t)(fst c \<mapsto> snd c)
    \<and> m_size t' = Suc (m_size t) \<and> precalculated_max_fill (ht_grower t) \<le> precalculated_max_fill (ht_grower t')"
proof (cases rule: emplace_correct [OF assms(1,2), of "fst c", case_names present added failed])
  case (present s)
  then show ?thesis
    using slot_mapped [OF assms(2) present(2)] assms(3) by simp
next
  case (added s w t')
  let ?t = "setMapped s (snd c) t'"
  note S = setMapped_correct [OF added(2,3), of "snd c"]
  have m: "ht_map ?t = (ht_map t)(fst c \<mapsto> snd c)"
    using S(2) added(5) by simp
  have "m_size ?t = Suc (m_size t)"
    using dom_ht_map [OF S(1)] dom_ht_map [OF assms(2)] assms(3) unfolding m by (simp add: card_insert_if domIff)
  moreover have "ht_grower ?t = ht_grower t'"
    by (simp add: setMapped_def split: slot.split)
  ultimately show ?thesis
    using added(1,6) S(1) m by (simp add: ht_insert_def)
next
  case failed
  then show ?thesis
    using assms(4) by simp
qed

lemma read_cells_write:
  fixes t :: "('k::zero, 'v::zero) ht"
  assumes "types_ok T" and "ht_ok T t" and "m_size t + length cs \<le> precalculated_max_fill (ht_grower t)"
    and "distinct (map fst cs)" and "\<And>k. k \<in> fst ` set cs \<Longrightarrow> ht_map t k = None" and "\<And>k v. (k, v) \<in> set cs \<Longrightarrow> cell_io_ok IO k v"
  shows "\<exists>t'. read_cells T IO (length cs) (concat (map (cell_write IO) cs) @ rest) t = Some (Inr rest, t')
    \<and> ht_ok T t' \<and> ht_map t' = ht_map t ++ map_of cs"
  using assms(2-6)
proof (induction cs arbitrary: t)
  case (Cons c cs)
  have "cell_io_ok IO (fst c) (snd c)"
    using Cons.prems(5) [of "fst c" "snd c"] by simp
  then have read: "cell_read IO (cell_write IO c @ concat (map (cell_write IO) cs) @ rest) = Inr (c, concat (map (cell_write IO) cs) @ rest)"
    by (rule cell_read_write)
  obtain s t1 where t1: "ht_insert T c t = Some (Inr (s, True), t1)" "ht_ok T t1" "ht_map t1 = (ht_map t)(fst c \<mapsto> snd c)"
    "m_size t1 = Suc (m_size t)" "precalculated_max_fill (ht_grower t) \<le> precalculated_max_fill (ht_grower t1)"
    using insert_new_fits [OF assms(1) Cons.prems(1), of c] Cons.prems(2,4) by auto
  have "ht_map t1 k = None" if "k \<in> fst ` set cs" for k
  proof -
    have "k \<noteq> fst c"
      using that Cons.prems(3) by (cases "k = fst c") simp_all
    then show ?thesis
      using that Cons.prems(4) [of k] t1(3) by simp
  qed
  then obtain t' where "read_cells T IO (length cs) (concat (map (cell_write IO) cs) @ rest) t1 = Some (Inr rest, t')"
    "ht_ok T t'" "ht_map t' = ht_map t1 ++ map_of cs"
    using Cons.IH [OF t1(2)] Cons.prems(2,3,5) t1(4,5) by auto
  moreover have "fst c \<notin> dom (map_of cs)"
    using Cons.prems(3) by (simp add: dom_map_of_conv_image_fst)
  ultimately show ?case
    using read t1(1,3) by (auto simp: map_add_def fun_eq_iff domIff split: option.splits)
qed (use assms(1) in simp)

text \<open>
  C18: Reading back the bytes that \<^verbatim>\<open>write\<close> made of a table of at most \<open>10 ^ 11\<close> elements, into any table
  and with anything behind them, gives a table with the same contents and consumes exactly these
  bytes, if the first allocation succeeds; no other allocation is made.
\<close>

theorem hashtable_write_read:
  fixes t t0 :: "('k::zero, 'v::zero) ht"
  assumes "types_ok T" and "ht_ok T t" and "m_size t \<le> 100000000000"
    and "\<And>k v. ht_map t k = Some v \<Longrightarrow> cell_io_ok IO k v"
    and "ht_alloc T (bufSize (grower_set (initial_size_degree T) (m_size t) (ht_grower t0))) = Inr ()"
  shows "\<exists>t'. ht_read T IO (ht_write IO t @ rest) t0 = Some (Inr rest, t') \<and> ht_ok T t' \<and> ht_map t' = ht_map t"
proof -
  let ?g = "grower_set (initial_size_degree T) (m_size t) (ht_grower t0)"
  let ?t = "((clearHasZero t0)\<lparr>m_size := 0\<rparr>)\<lparr>buf := replicate (bufSize ?g) (0, 0), ht_grower := ?g\<rparr>"
  note C = table_cells [OF assms(2)]
  have n: "unat (word_of_nat (m_size t) :: 64 word) = m_size t"
    using assms(3) by (simp add: unat_of_nat take_bit_nat_eq_self)
  obtain d where d: "?g = increaseSizeDegree 0 ((ht_grower t0)\<lparr>size_degree := d\<rparr>)" "1 \<le> d" "d \<le> 62" "m_size t \<le> 2 ^ (d - 1)"
    by (rule grower_set_degree [OF assms(1), of "m_size t" "ht_grower t0"]) (use assms(3) in auto)
  then have g: "grower_ok ?g" "m_size t \<le> precalculated_max_fill ?g"
    using grower_ok_degree [of d "ht_grower t0"] by simp_all
  have t: "ht_ok T ?t" "ht_map ?t = Map.empty"
    using empty_table_ok [OF g(1) assms(5), of ?t "zero_mapped t0"] by (simp_all add: clearHasZero_def)
  have io: "cell_io_ok IO k v" if "(k, v) \<in> set (ht_cells t)" for k v
    using assms(4) [of k v] map_of_is_SomeI [OF C(1) that] by (simp add: C(2))
  have read: "ht_read T IO (ht_write IO t @ rest) t0
      = read_cells T IO (length (ht_cells t)) (concat (map (cell_write IO) (ht_cells t)) @ rest) ?t"
    using n assms(3,5) C(3) by (simp add: ht_read_def ht_write_def ht_cells_def clearHasZero_def Let_def)
  show ?thesis
    using read_cells_write [OF assms(1) t(1) _ C(1) _ io, of rest] g(2) C(2,3) t(2) unfolding read by simp
qed

definition int_cell_io :: "(int, int) cell_io" where
  "int_cell_io = \<lparr>write_key = writeIntBinary UInt64, read_key = readIntBinary UInt64,
     write_mapped = writeIntBinary UInt64, read_mapped = readIntBinary UInt64\<rparr>"

theorem hashtable_write_read_witness:
  "\<exists>t t' :: (int, int) ht. ht_map t = [3 \<mapsto> 30]
     \<and> ht_read example_types int_cell_io (ht_write int_cell_io t @ [1, 2]) t = Some (Inr [1, 2], t') \<and> ht_map t' = [3 \<mapsto> 30]"
proof -
  obtain t :: "(int, int) ht" where t: "types_ok example_types" "ht_ok example_types t" "ht_map t = [3 \<mapsto> 30]"
    by (rule example_table)
  have size: "m_size t = 1"
    using dom_ht_map(1) [OF t(2)] t(3) by simp
  have io: "cell_io_ok int_cell_io k v" if "ht_map t k = Some v" for k v
    using that t(3) by (auto simp: cell_io_ok_def int_cell_io_def binary_io machine_type_def in_range_def int_lo_def int_hi_def split: if_splits)
  have "ht_alloc example_types (bufSize (grower_set (initial_size_degree example_types) (m_size t) (ht_grower t))) = Inr ()"
    by (simp add: size grower_set_def increaseSizeDegree_def example_types_def ht_alloc_def allocCheckOverflow_def bufSize_def)
  then show ?thesis
    using hashtable_write_read [OF t(1,2) _ io, of t "[1, 2]"] size t(3) by auto
qed

text \<open>
  A read that throws because of the announced size has already set the size to zero, but not
  emptied the buffer: the keys are still found in a table that says it is empty.
\<close>

lemma failed_read_keeps_cells:
  assumes "readVarUInt rb = Inr (n, rest)" and "unat n > 100000000000" and "k \<noteq> 0"
  shows "\<exists>t'. ht_read T IO rb t = Some (Inl TOO_LARGE_ARRAY_SIZE, t') \<and> m_size t' = 0 \<and> ht_has T k t' = ht_has T k t"
  using assms by (simp add: ht_read_def clearHasZero_def ht_has_def Let_def)

end
