(* ===== verification/Distinct_Set.thy ===== *)
theory Distinct_Set
  imports HashTable_Serial
begin

text \<open>
  The set of keys behind \<^verbatim>\<open>DISTINCT\<close>: limits on its size (\<^verbatim>\<open>src/src/QueryPipeline/SizeLimits.cpp\<close>), the choice of its
  representation (\<^verbatim>\<open>src/src/Interpreters/SetVariants.cpp\<close>), and keys of one number in a hash set behind a cache
  of the last key (\<^verbatim>\<open>src/src/Common/ColumnsHashingImpl.h\<close>).  A hash set is the hash table with no mapped values.
\<close>

section \<open>Size limits\<close>

datatype OverflowMode = THROW | BREAK | ANY

record SizeLimits =
  max_rows :: nat
  max_bytes :: nat
  overflow_mode :: OverflowMode

definition softCheck :: "SizeLimits \<Rightarrow> nat \<Rightarrow> nat \<Rightarrow> bool" where
  "softCheck L rows bytes \<longleftrightarrow>
     \<not> ((max_rows L \<noteq> 0 \<and> rows \<ge> max_rows L) \<or> (max_bytes L \<noteq> 0 \<and> bytes \<ge> max_bytes L))"

definition check_limits :: "SizeLimits \<Rightarrow> nat \<Rightarrow> nat \<Rightarrow> error_code \<Rightarrow> error_code \<Rightarrow> bool result" where
  "check_limits L rows bytes too_many_rows_code too_many_bytes_code =
     (if overflow_mode L = THROW then
        if max_rows L \<noteq> 0 \<and> rows > max_rows L then Inl too_many_rows_code
        else if max_bytes L \<noteq> 0 \<and> bytes > max_bytes L then Inl too_many_bytes_code
        else Inr True
      else Inr (softCheck L rows bytes))"

definition hasLimits :: "SizeLimits \<Rightarrow> bool" where
  "hasLimits L \<longleftrightarrow> max_rows L \<noteq> 0 \<or> max_bytes L \<noteq> 0"

text \<open>An overflow mode is one byte; a byte that is none of the modes is kept as it is.\<close>

definition mode_byte :: "OverflowMode \<Rightarrow> byte" where
  "mode_byte m = (case m of THROW \<Rightarrow> 0 | BREAK \<Rightarrow> 1 | ANY \<Rightarrow> 2)"

definition checkAllowedOwerflowMode :: "byte \<Rightarrow> error_code \<Rightarrow> unit result" where
  "checkAllowedOwerflowMode m code = (if m = mode_byte BREAK \<or> m = mode_byte THROW then Inr () else Inl code)"

definition limits_serialize :: "64 word \<Rightarrow> 64 word \<Rightarrow> byte \<Rightarrow> byte list result" where
  "limits_serialize rows bytes mode =
     res_map (\<lambda>_. writeVarUInt rows @ writeVarUInt bytes @ [mode]) (checkAllowedOwerflowMode mode LOGICAL_ERROR)"

definition limits_deserialize :: "byte \<Rightarrow> byte list \<Rightarrow> ((64 word \<times> 64 word \<times> byte) \<times> byte list) result" where
  "limits_deserialize old_mode rb =
     res_bind (checkAllowedOwerflowMode old_mode INCORRECT_DATA) (\<lambda>_.
     res_bind (readVarUInt rb) (\<lambda>(rows, rb).
     res_bind (readVarUInt rb) (\<lambda>(bytes, rb).
     res_map (\<lambda>(mode, rb). ((rows, bytes, hd mode), rb)) (readStrict 1 rb))))"

lemma limits_roundtrip:
  assumes "limits_serialize rows bytes mode = Inr rb" and "old_mode \<in> {mode_byte BREAK, mode_byte THROW}"
  shows "limits_deserialize old_mode (rb @ rest) = Inr ((rows, bytes, mode), rest)"
  using assms by (auto simp: limits_serialize_def limits_deserialize_def res_Inr_iff checkAllowedOwerflowMode_def readStrict_def)

text \<open>The mode that is read is not checked, only the one that it replaces.\<close>

lemma limits_deserialize_any_mode:
  "limits_deserialize (mode_byte THROW) (writeVarUInt rows @ writeVarUInt bytes @ [mode] @ rest) = Inr ((rows, bytes, mode), rest)"
  by (simp add: limits_deserialize_def checkAllowedOwerflowMode_def readStrict_def)

section \<open>The choice of a method\<close>

datatype set_type =
    EMPTY | key8 | key16 | key32 | key64 | key_string | key_fixed_string | keys128 | keys256
  | nullable_keys128 | nullable_keys256 | hashed









section \<open>Keys of one number\<close>

instantiation unit :: zero
begin

definition zero_unit :: unit where
  "zero_unit = ()"

instance ..

end

type_synonym 'k hash_set = "('k, unit) ht"

text \<open>\<^verbatim>\<open>LastElementCache\<close>: the key that was looked for last, and whether it is in the set.\<close>

record 'k last_element_cache =
  cache_empty :: bool
  cache_found :: bool
  cache_misses :: nat
  cache_value :: 'k

definition new_cache :: "'k::zero last_element_cache" where
  "new_cache = \<lparr>cache_empty = True, cache_found = False, cache_misses = 0, cache_value = 0\<rparr>"

definition onNewValue :: "bool \<Rightarrow> 'k last_element_cache \<Rightarrow> 'k last_element_cache" where
  "onNewValue is_found c = c\<lparr>cache_empty := False, cache_found := is_found, cache_misses := cache_misses c + 1\<rparr>"

definition emplaceImpl :: "'k ht_types \<Rightarrow> 'k \<Rightarrow> 'k last_element_cache \<Rightarrow> 'k::zero hash_set
    \<Rightarrow> (bool result \<times> 'k last_element_cache \<times> 'k hash_set) option" where
  "emplaceImpl T key cache t =
     (if cache_found cache \<and> cache_value cache = key then Some (Inr False, cache, t)
      else
        map_option (\<lambda>(r, t'). case r of
            Inl e \<Rightarrow> (Inl e, cache, t')
          | Inr (it, inserted) \<Rightarrow> (Inr inserted, (onNewValue True cache)\<lparr>cache_value := fst (slot_cell t' it)\<rparr>, t')) (emplace T key t))"

definition findKeyImpl :: "'k ht_types \<Rightarrow> 'k \<Rightarrow> 'k last_element_cache \<Rightarrow> 'k::zero hash_set \<Rightarrow> (bool \<times> 'k last_element_cache) option" where
  "findKeyImpl T key cache t =
     (if \<not> cache_empty cache \<and> cache_value cache = key then Some (cache_found cache, cache)
      else map_option (\<lambda>it. (it \<noteq> None, (onNewValue (it \<noteq> None) cache)\<lparr>cache_value := key\<rparr>)) (ht_find T key t))"

definition resetCache :: "'k last_element_cache \<Rightarrow> 'k last_element_cache" where
  "resetCache c = c\<lparr>cache_empty := True, cache_found := False, cache_misses := 0\<rparr>"

text \<open>What the cache says is true of the set.\<close>

definition cache_ok :: "'k last_element_cache \<Rightarrow> 'k::zero hash_set \<Rightarrow> bool" where
  "cache_ok c t \<longleftrightarrow> (cache_found c \<longrightarrow> \<not> cache_empty c)
     \<and> (\<not> cache_empty c \<longrightarrow> (cache_found c \<longleftrightarrow> cache_value c \<in> dom (ht_map t)))"

lemma cache_ok_new: "cache_ok new_cache t" and cache_ok_reset: "cache_ok (resetCache c) t"
  by (simp_all add: cache_ok_def new_cache_def resetCache_def)

lemma slot_key: "slot_of t x s \<Longrightarrow> fst (slot_cell t s) = x"
  by (auto simp: slot_of_def slot_cell_def split: slot.splits)

lemma emplaceImpl_correct:
  assumes "types_ok T" and "ht_ok T t" and "cache_ok c t"
  obtains (success) c' t' where "emplaceImpl T k c t = Some (Inr (k \<notin> dom (ht_map t)), c', t')" and "ht_ok T t'" and "cache_ok c' t'"
      and "dom (ht_map t') = insert k (dom (ht_map t))" and "precalculated_max_fill (ht_grower t) \<le> precalculated_max_fill (ht_grower t')"
  | (failed) "emplaceImpl T k c t = Some (Inl CANNOT_ALLOCATE_MEMORY, c, t)" and "k \<notin> dom (ht_map t)"
      and "emplace T k t = Some (Inl CANNOT_ALLOCATE_MEMORY, t)"
proof (cases "cache_found c \<and> cache_value c = k")
  case True
  then have "k \<in> dom (ht_map t)"
    using assms(3) by (auto simp: cache_ok_def)
  then show thesis
    using success [of c t] True assms(2,3) by (simp add: emplaceImpl_def insert_absorb)
next
  case miss: False
  show thesis
  proof (cases rule: emplace_correct [OF assms(1,2), of k, case_names present added failed])
    case (present s)
    have k: "k \<in> dom (ht_map t)" "fst (slot_cell t s) = k"
      using slot_mapped [OF assms(2) present(2)] slot_key [OF present(2)] by auto
    let ?c = "(onNewValue True c)\<lparr>cache_value := k\<rparr>"
    have "emplaceImpl T k c t = Some (Inr False, ?c, t)"
      unfolding emplaceImpl_def if_not_P [OF miss] using present(1) k(2) by simp
    moreover have "cache_ok ?c t"
      using k(1) by (simp add: cache_ok_def onNewValue_def)
    ultimately show thesis
      using success [of ?c t] assms(2) k(1) by (simp add: insert_absorb)
  next
    case (added s w t')
    have k: "k \<notin> dom (ht_map t)" "fst (slot_cell t' s) = k" "dom (ht_map t') = insert k (dom (ht_map t))"
      using added(4,5) slot_key [OF added(3)] by (auto simp: domIff)
    let ?c = "(onNewValue True c)\<lparr>cache_value := k\<rparr>"
    have "emplaceImpl T k c t = Some (Inr True, ?c, t')"
      unfolding emplaceImpl_def if_not_P [OF miss] using added(1) k(2) by simp
    moreover have "cache_ok ?c t'"
      using k(3) by (simp add: cache_ok_def onNewValue_def)
    ultimately show thesis
      using success [of ?c t'] added(2,6) k(1,3) by simp
  next
    case failed
    then show thesis
      using that(2) miss unfolding emplaceImpl_def if_not_P [OF miss] by (simp add: domIff)
  qed
qed

lemma findKeyImpl_correct:
  assumes "types_ok T" and "ht_ok T t" and "cache_ok c t"
  shows "\<exists>c'. findKeyImpl T k c t = Some (k \<in> dom (ht_map t), c') \<and> cache_ok c' t"
proof (cases "\<not> cache_empty c \<and> cache_value c = k")
  case True
  then show ?thesis
    using assms(3) by (auto simp: findKeyImpl_def cache_ok_def)
next
  case False
  obtain it where "ht_find T k t = Some it" "map_option (slot_mapped t) it = ht_map t k"
    using find_correct(1) [OF assms(1,2), of k] by blast
  moreover from this(2) have "it \<noteq> None \<longleftrightarrow> k \<in> dom (ht_map t)"
    by (auto simp: domIff)
  ultimately show ?thesis
    unfolding findKeyImpl_def if_not_P [OF False] by (simp add: cache_ok_def onNewValue_def)
qed

section \<open>The filter of new keys\<close>

text \<open>Each row comes with whether it is a candidate; a row that is none is taken for a duplicate.\<close>

fun filter_loop :: "'k ht_types \<Rightarrow> ('k \<times> bool) list \<Rightarrow> 'k last_element_cache \<Rightarrow> 'k::zero hash_set
    \<Rightarrow> (byte list result \<times> 'k last_element_cache \<times> 'k hash_set) option" where
  "filter_loop T [] cache t = Some (Inr [], cache, t)"
| "filter_loop T ((key, candidate) # rows) cache t =
     (if \<not> candidate then map_option (\<lambda>(r, s). (res_map (Cons 0) r, s)) (filter_loop T rows cache t)
      else
        case emplaceImpl T key cache t of
          None \<Rightarrow> None
        | Some (Inl e, s) \<Rightarrow> Some (Inl e, s)
        | Some (Inr inserted, cache', t') \<Rightarrow>
            map_option (\<lambda>(r, s). (res_map (Cons (if inserted then 1 else 0)) r, s)) (filter_loop T rows cache' t'))"

definition buildFilter :: "'k ht_types \<Rightarrow> 'k list \<Rightarrow> byte list option \<Rightarrow> 'k::zero hash_set \<Rightarrow> (byte list result \<times> 'k hash_set) option" where
  "buildFilter T keys m t =
     map_option (\<lambda>(r, cache, t'). (r, t'))
       (filter_loop T (zip keys (case m of None \<Rightarrow> replicate (length keys) True | Some bs \<Rightarrow> map (\<lambda>b. b \<noteq> 0) bs)) new_cache t)"

text \<open>A row is new if its key is neither in the set nor in an earlier row.\<close>

fun new_flags :: "'k set \<Rightarrow> 'k list \<Rightarrow> bool list" where
  "new_flags S [] = []"
| "new_flags S (k # ks) = (k \<notin> S) # new_flags (insert k S) ks"

fun skips_only_seen :: "'k set \<Rightarrow> ('k \<times> bool) list \<Rightarrow> bool" where
  "skips_only_seen S [] \<longleftrightarrow> True"
| "skips_only_seen S ((k, candidate) # rows) \<longleftrightarrow> (candidate \<or> k \<in> S) \<and> skips_only_seen (insert k S) rows"

lemma filter_loop_correct:
  assumes "types_ok T" and "ht_ok T t" and "cache_ok c t" and "skips_only_seen (dom (ht_map t)) rows"
  shows "\<exists>r c' t'. filter_loop T rows c t = Some (r, c', t') \<and> ht_ok T t'
    \<and> (r = Inr (map (\<lambda>b. if b then 1 else 0) (new_flags (dom (ht_map t)) (map fst rows)))
         \<and> dom (ht_map t') = dom (ht_map t) \<union> fst ` set rows
         \<and> precalculated_max_fill (ht_grower t) \<le> precalculated_max_fill (ht_grower t')
       \<or> r = Inl CANNOT_ALLOCATE_MEMORY \<and> dom (ht_map t') \<subseteq> dom (ht_map t) \<union> fst ` set rows
         \<and> (\<exists>k. emplace T k t' = Some (Inl CANNOT_ALLOCATE_MEMORY, t')))"
  using assms(2-4)
proof (induction rows arbitrary: c t)
  case (Cons row rows)
  obtain k candidate where row: "row = (k, candidate)"
    by (cases row)
  show ?case
  proof (cases candidate)
    case False
    then have "k \<in> dom (ht_map t)"
      using Cons.prems(3) row by simp
    then have ins: "insert k (dom (ht_map t)) = dom (ht_map t)"
      by (rule insert_absorb)
    have "skips_only_seen (dom (ht_map t)) rows"
      using Cons.prems(3) row ins by simp
    then show ?thesis
      using Cons.IH [OF Cons.prems(1,2)] False row ins by (fastforce simp: Un_insert_right Un_insert_left [symmetric])
  next
    case True
    show ?thesis
    proof (cases rule: emplaceImpl_correct [OF assms(1) Cons.prems(1,2), of k, case_names success failed])
      case (success c' t')
      then have "skips_only_seen (dom (ht_map t')) rows"
        using Cons.prems(3) row by simp
      from Cons.IH [OF success(2,3) this] show ?thesis
        using success(1,4,5) True row by fastforce
    next
      case failed
      then show ?thesis
        using True row Cons.prems(1) by auto
    qed
  qed
qed simp

lemma buildFilter_correct:
  assumes "types_ok T" and "ht_ok T t"
    and "case m of None \<Rightarrow> True | Some bs \<Rightarrow> length bs = length keys \<and> skips_only_seen (dom (ht_map t)) (zip keys (map (\<lambda>b. b \<noteq> 0) bs))"
  obtains (success) t' where "buildFilter T keys m t = Some (Inr (map (\<lambda>b. if b then 1 else 0) (new_flags (dom (ht_map t)) keys)), t')"
      and "ht_ok T t'" and "dom (ht_map t') = dom (ht_map t) \<union> set keys"
      and "precalculated_max_fill (ht_grower t) \<le> precalculated_max_fill (ht_grower t')"
  | (failed) t' where "buildFilter T keys m t = Some (Inl CANNOT_ALLOCATE_MEMORY, t')" and "ht_ok T t'"
      and "\<not> ((\<forall>n. can_allocate T n) \<and> 8 * (m_size t + length keys) * sizeof_cell T < 2 ^ 64)"
proof -
  let ?rows = "zip keys (case m of None \<Rightarrow> replicate (length keys) True | Some bs \<Rightarrow> map (\<lambda>b. b \<noteq> 0) bs)"
  have all: "skips_only_seen S (zip ks (replicate (length ks) True))" for S and ks :: "'a list"
    by (induction ks arbitrary: S) simp_all
  have rows: "map fst ?rows = keys" "skips_only_seen (dom (ht_map t)) ?rows"
    using assms(3) all by (auto split: option.splits)
  then have keys: "fst ` set ?rows = set keys"
    by (metis list.set_map)
  obtain r c' t' where r: "filter_loop T ?rows new_cache t = Some (r, c', t')" "ht_ok T t'"
    "r = Inr (map (\<lambda>b. if b then 1 else 0) (new_flags (dom (ht_map t)) keys)) \<and> dom (ht_map t') = dom (ht_map t) \<union> set keys
       \<and> precalculated_max_fill (ht_grower t) \<le> precalculated_max_fill (ht_grower t')
     \<or> r = Inl CANNOT_ALLOCATE_MEMORY \<and> dom (ht_map t') \<subseteq> dom (ht_map t) \<union> set keys
       \<and> (\<exists>k. emplace T k t' = Some (Inl CANNOT_ALLOCATE_MEMORY, t'))"
    using filter_loop_correct [OF assms(1,2) cache_ok_new rows(2)] unfolding rows(1) keys by blast
  have build: "buildFilter T keys m t = Some (r, t')"
    using r(1) by (simp add: buildFilter_def)
  show thesis
  proof (cases "r = Inl CANNOT_ALLOCATE_MEMORY")
    case True
    then obtain k where k: "dom (ht_map t') \<subseteq> dom (ht_map t) \<union> set keys" "emplace T k t' = Some (Inl CANNOT_ALLOCATE_MEMORY, t')"
      using r(3) by auto
    have "card (dom (ht_map t')) \<le> card (dom (ht_map t) \<union> set keys)"
      using k(1) dom_ht_map(2) [OF assms(2)] by (intro card_mono) simp_all
    also have "\<dots> \<le> card (dom (ht_map t)) + length keys"
      using card_Un_le [of "dom (ht_map t)" "set keys"] card_length [of keys] by linarith
    finally have "m_size t' \<le> m_size t + length keys"
      using dom_ht_map(1) [OF r(2)] dom_ht_map(1) [OF assms(2)] by simp
    then have more: "8 * m_size t' * sizeof_cell T \<le> 8 * (m_size t + length keys) * sizeof_cell T"
      by (intro mult_le_mono) simp_all
    have "\<not> ((\<forall>n. can_allocate T n) \<and> 8 * (m_size t + length keys) * sizeof_cell T < 2 ^ 64)"
    proof
      assume mem: "(\<forall>n. can_allocate T n) \<and> 8 * (m_size t + length keys) * sizeof_cell T < 2 ^ 64"
      then have "8 * m_size t' * sizeof_cell T < 2 ^ 64"
        using more by (meson le_less_trans)
      then show False
        using emplace_succeeds [OF assms(1) r(2)] mem k(2) by blast
    qed
    then show thesis
      using failed [of t'] True r(2) build by simp
  next
    case False
    then show thesis
      using success [of t'] r(2,3) build by blast
  qed
qed

section \<open>Rows of a dictionary\<close>

text \<open>
  The state of \<^verbatim>\<open>buildLowCardinalityMask\<close> for one dictionary of a column with low cardinality: which of its
  entries were seen, and how many.  The mask is empty if no row has a new entry.
\<close>

record lc_dict_state =
  seen_indices :: "bool list"
  seen_count :: nat

fun lc_loop :: "nat list \<Rightarrow> lc_dict_state \<Rightarrow> byte list \<times> lc_dict_state" where
  "lc_loop [] st = ([], st)"
| "lc_loop (idx # idxs) st =
     (if \<not> seen_indices st ! idx then
        let (m, st') = lc_loop idxs (st\<lparr>seen_indices := (seen_indices st)[idx := True], seen_count := seen_count st + 1\<rparr>)
        in (1 # m, st')
      else let (m, st') = lc_loop idxs st in (0 # m, st'))"

definition buildLowCardinalityMask :: "nat \<Rightarrow> nat list \<Rightarrow> lc_dict_state \<Rightarrow> (byte list \<times> nat) \<times> lc_dict_state" where
  "buildLowCardinalityMask dict_size idxs st =
     (let st = (if length (seen_indices st) \<noteq> dict_size
                then st\<lparr>seen_indices := take dict_size (seen_indices st) @ replicate (dict_size - length (seen_indices st)) False\<rparr>
                else st)
      in if seen_count st = dict_size then (([], 0), st)
         else
           let (m, st') = lc_loop idxs st
           in ((if list_all (\<lambda>b. b = 0) m then [] else m, seen_count st' - seen_count st), st'))"

text \<open>Entries that were seen are in the set, and the count is right.\<close>

definition lc_ok :: "'k list \<Rightarrow> 'k set \<Rightarrow> lc_dict_state \<Rightarrow> bool" where
  "lc_ok dictionary S st \<longleftrightarrow> length (seen_indices st) = length dictionary
     \<and> seen_count st = length (filter id (seen_indices st))
     \<and> (\<forall>i < length dictionary. seen_indices st ! i \<longrightarrow> dictionary ! i \<in> S)"

definition new_lc_state :: lc_dict_state where
  "new_lc_state = \<lparr>seen_indices = [], seen_count = 0\<rparr>"

lemma filter_update:
  assumes "i < length bs" and "\<not> bs ! i"
  shows "length (filter id (bs[i := True])) = Suc (length (filter id bs))"
proof -
  have "bs = take i bs @ bs ! i # drop (Suc i) bs"
    using assms(1) by (rule id_take_nth_drop)
  then have "filter id bs = filter id (take i bs) @ filter id (drop (Suc i) bs)"
    using assms(2) by (metis filter.simps(2) filter_append id_apply)
  then show ?thesis
    using assms(1) by (simp add: upd_conv_take_nth_drop)
qed

lemma lc_loop_correct:
  assumes "lc_ok D S st" and "\<forall>i \<in> set idxs. i < length D" and "lc_loop idxs st = (m, st')"
  shows "length m = length idxs \<and> skips_only_seen S (zip (map ((!) D) idxs) (map (\<lambda>b. b \<noteq> 0) m))
    \<and> lc_ok D (S \<union> (!) D ` set idxs) st'"
  using assms
proof (induction idxs arbitrary: S st m)
  case (Cons idx idxs)
  have idx: "idx < length D"
    using Cons.prems(2) by simp
  show ?case
  proof (cases "seen_indices st ! idx")
    case True
    then obtain m' where m': "lc_loop idxs st = (m', st')" "m = 0 # m'"
      using Cons.prems(3) by (auto split: prod.splits)
    have "D ! idx \<in> S"
      using True idx Cons.prems(1) by (simp add: lc_ok_def)
    then have "insert (D ! idx) S = S"
      by (rule insert_absorb)
    then show ?thesis
      using Cons.IH [OF Cons.prems(1) _ m'(1)] Cons.prems(2) m'(2) \<open>D ! idx \<in> S\<close> by (simp add: insert_absorb)
  next
    case False
    let ?st = "st\<lparr>seen_indices := (seen_indices st)[idx := True], seen_count := seen_count st + 1\<rparr>"
    obtain m' where m': "lc_loop idxs ?st = (m', st')" "m = 1 # m'"
      using False Cons.prems(3) by (auto split: prod.splits)
    have "length (filter id ((seen_indices st)[idx := True])) = Suc (length (filter id (seen_indices st)))"
      using False idx Cons.prems(1) filter_update [of idx "seen_indices st"] by (simp add: lc_ok_def)
    then have "lc_ok D (insert (D ! idx) S) ?st"
      using Cons.prems(1) idx by (auto simp: lc_ok_def nth_list_update)
    then show ?thesis
      using Cons.IH [of "insert (D ! idx) S" ?st m'] Cons.prems(2) m' by simp
  qed
qed simp

lemma all_skipped:
  assumes "skips_only_seen S rows" and "\<forall>r \<in> set rows. \<not> snd r"
  shows "fst ` set rows \<subseteq> S"
  using assms
proof (induction rows arbitrary: S)
  case (Cons row rows)
  then have "fst row \<in> S"
    by (cases row) simp
  then show ?case
    using Cons.IH [of S] Cons.prems by (cases row) (auto simp: insert_absorb)
qed simp

lemma all_seen:
  assumes "length (filter id bs) = length bs" and "i < length bs"
  shows "bs ! i"
proof -
  have "filter id bs = bs"
    using assms(1) by (metis length_filter_less filter_True less_irrefl)
  then show ?thesis
    using assms(2) by (metis filter_id_conv id_apply nth_mem)
qed

lemma lc_mask_correct:
  assumes "lc_ok D S st \<or> st = new_lc_state" and "\<forall>i \<in> set idxs. i < length D"
    and "buildLowCardinalityMask (length D) idxs st = ((m, n), st')"
  shows "lc_ok D (S \<union> (!) D ` set idxs) st'"
    and "if m = [] then (!) D ` set idxs \<subseteq> S
      else length m = length idxs \<and> skips_only_seen S (zip (map ((!) D) idxs) (map (\<lambda>b. b \<noteq> 0) m))"
proof -
  define st1 where "st1 = (if length (seen_indices st) \<noteq> length D
    then st\<lparr>seen_indices := take (length D) (seen_indices st) @ replicate (length D - length (seen_indices st)) False\<rparr> else st)"
  have ok: "lc_ok D S st1"
    using assms(1) by (auto simp: st1_def lc_ok_def new_lc_state_def)
  have "lc_ok D (S \<union> (!) D ` set idxs) st' \<and> (if m = [] then (!) D ` set idxs \<subseteq> S
      else length m = length idxs \<and> skips_only_seen S (zip (map ((!) D) idxs) (map (\<lambda>b. b \<noteq> 0) m)))"
  proof (cases "seen_count st1 = length D")
    case True
    then have r: "m = []" "st' = st1"
      using assms(3) unfolding buildLowCardinalityMask_def Let_def st1_def [symmetric] by simp_all
    have "seen_indices st1 ! i" if "i < length D" for i
      using all_seen [of "seen_indices st1" i] ok True that by (simp add: lc_ok_def)
    then have "(!) D ` set idxs \<subseteq> S"
      using ok assms(2) by (auto simp: lc_ok_def)
    then show ?thesis
      using r ok by (simp add: Un_absorb2)
  next
    case False
    obtain m1 where loop: "lc_loop idxs st1 = (m1, st')" and m: "m = (if list_all (\<lambda>b. b = 0) m1 then [] else m1)"
      using assms(3) False unfolding buildLowCardinalityMask_def Let_def st1_def [symmetric] by (auto split: prod.splits)
    note L = lc_loop_correct [OF ok assms(2) loop]
    show ?thesis
    proof (cases "list_all (\<lambda>b. b = 0) m1")
      case True
      let ?rows = "zip (map ((!) D) idxs) (map (\<lambda>b. b \<noteq> 0) m1)"
      have "\<forall>r \<in> set ?rows. \<not> snd r"
        using True by (auto simp: list_all_iff dest!: set_zip_rightD)
      moreover have "fst ` set ?rows = (!) D ` set idxs"
        using L by (metis length_map list.set_map map_fst_zip)
      ultimately show ?thesis
        using all_skipped [of S ?rows] L m True by simp
    next
      case some: False
      then have "m1 \<noteq> []"
        by auto
      then show ?thesis
        using L m some by simp
    qed
  qed
  then show "lc_ok D (S \<union> (!) D ` set idxs) st'"
    and "if m = [] then (!) D ` set idxs \<subseteq> S
      else length m = length idxs \<and> skips_only_seen S (zip (map ((!) D) idxs) (map (\<lambda>b. b \<noteq> 0) m))"
    by blast+
qed

lemma new_flags_seen: "set ks \<subseteq> S \<Longrightarrow> True \<notin> set (new_flags S ks)"
  by (induction ks) (auto simp: insert_absorb)

text \<open>
  C28: Skipping rows by their index in the dictionary does not change the result of \<^verbatim>\<open>DISTINCT\<close>: if the mask
  is empty, no row of the chunk is new; otherwise the filter built with the mask marks exactly the
  rows whose key is neither in the set nor in an earlier row, as it does without the mask, unless
  memory runs out.  What is remembered of the dictionary stays true of the set.
\<close>

theorem low_cardinality_mask_safe:
  assumes "types_ok T" and "ht_ok T t" and "lc_ok D (dom (ht_map t)) st \<or> st = new_lc_state"
    and "\<forall>i \<in> set idxs. i < length D" and "buildLowCardinalityMask (length D) idxs st = ((m, n), st')"
    and "\<forall>b. can_allocate T b" and "8 * (m_size t + length idxs) * sizeof_cell T < 2 ^ 64"
  shows "if m = [] then True \<notin> set (new_flags (dom (ht_map t)) (map ((!) D) idxs)) \<and> lc_ok D (dom (ht_map t)) st'
    else \<exists>t' t''. buildFilter T (map ((!) D) idxs) (Some m) t
          = Some (Inr (map (\<lambda>b. if b then 1 else 0) (new_flags (dom (ht_map t)) (map ((!) D) idxs))), t')
        \<and> buildFilter T (map ((!) D) idxs) None t
          = Some (Inr (map (\<lambda>b. if b then 1 else 0) (new_flags (dom (ht_map t)) (map ((!) D) idxs))), t'')
        \<and> dom (ht_map t') = dom (ht_map t'') \<and> ht_ok T t' \<and> lc_ok D (dom (ht_map t')) st'"
proof -
  let ?keys = "map ((!) D) idxs"
  note M = lc_mask_correct [OF assms(3-5)]
  have mem: "(\<forall>b. can_allocate T b) \<and> 8 * (m_size t + length ?keys) * sizeof_cell T < 2 ^ 64"
    using assms(6,7) by simp
  have build: "\<exists>t'. buildFilter T ?keys mm t = Some (Inr (map (\<lambda>b. if b then 1 else 0) (new_flags (dom (ht_map t)) ?keys)), t')
      \<and> ht_ok T t' \<and> dom (ht_map t') = dom (ht_map t) \<union> set ?keys"
    if "case mm of None \<Rightarrow> True | Some bs \<Rightarrow> length bs = length ?keys \<and> skips_only_seen (dom (ht_map t)) (zip ?keys (map (\<lambda>b. b \<noteq> 0) bs))" for mm
    by (rule buildFilter_correct [OF assms(1,2) that]) (use mem in auto)
  show ?thesis
  proof (cases "m = []")
    case True
    then have "set ?keys \<subseteq> dom (ht_map t)"
      using M(2) by simp
    then show ?thesis
      using True M(1) new_flags_seen [of ?keys "dom (ht_map t)"] by (simp add: Un_absorb2)
  next
    case False
    then show ?thesis
      using build [of "Some m"] build [of None] M by auto
  qed
qed

theorem low_cardinality_mask_safe_witness:
  "\<exists>(t :: int hash_set) t'. new_HashTable example_types (new_grower (initial_size_degree example_types)) = Inr t
     \<and> buildLowCardinalityMask 2 [0, 1, 0] new_lc_state = (([1, 1, 0], 2), \<lparr>seen_indices = [True, True], seen_count = 2\<rparr>)
     \<and> buildFilter example_types [10, 20, 10] (Some [1, 1, 0]) t = Some (Inr [1, 1, 0], t')"
proof -
  have T: "types_ok example_types"
    by (simp add: types_ok_def example_types_def)
  obtain t :: "int hash_set" where new: "new_HashTable example_types (new_grower (initial_size_degree example_types)) = Inr t"
    by (simp add: new_HashTable_def ht_alloc_def allocCheckOverflow_def example_types_def new_grower_def bufSize_def)
  note t = new_HashTable_correct [OF T new]
  have lc: "buildLowCardinalityMask 2 [0, 1, 0] new_lc_state = (([1, 1, 0], 2), \<lparr>seen_indices = [True, True], seen_count = 2\<rparr>)"
    by (simp add: buildLowCardinalityMask_def new_lc_state_def numeral_2_eq_2)
  then have lc': "buildLowCardinalityMask (length [10 :: int, 20]) [0, 1, 0] new_lc_state = (([1, 1, 0], 2), \<lparr>seen_indices = [True, True], seen_count = 2\<rparr>)"
    by (simp add: numeral_2_eq_2)
  have "m_size t = 0"
    using dom_ht_map(1) [OF t(1)] t(2) by simp
  then show ?thesis
    using low_cardinality_mask_safe [OF T t(1) disjI2 [OF refl] _ lc'] new lc t(2) by (auto simp: example_types_def)
qed

end
