(* ===== verification/Distinct_Transform.thy ===== *)
theory Distinct_Transform
  imports Distinct_Set Columns_Count "HOL-Library.Sublist"
begin

text \<open>
  \<^verbatim>\<open>DISTINCT\<close> over a stream of chunks, \<^verbatim>\<open>src/src/Processors/Transforms/DistinctTransform.cpp\<close> driven by
  \<^verbatim>\<open>src/src/Processors/ISimpleTransform.cpp\<close>, for one numeric key column of four or eight bytes: chunks of columns
  are filtered by the hash set of theory \<^verbatim>\<open>Distinct_Set\<close>.
\<close>

section \<open>The transform\<close>

record distinct_config =
  set_size_limits :: SizeLimits
  limit_hint :: nat
  key_column_pos :: "nat option"

text \<open>The set is created with the first rows; \<open>no_more_data_needed\<close> is set by \<^verbatim>\<open>stopReading\<close>.\<close>

record distinct_state =
  set_data :: "int hash_set option"
  no_more_data_needed :: bool

definition new_distinct :: distinct_state where
  "new_distinct = \<lparr>set_data = None, no_more_data_needed = False\<rparr>"

fun map_columns :: "('c \<Rightarrow> 'd result) \<Rightarrow> 'c list \<Rightarrow> 'd list result" where
  "map_columns f [] = Inr []"
| "map_columns f (c # cs) = res_bind (f c) (\<lambda>d. res_map (Cons d) (map_columns f cs))"

fun getRawData :: "vcol \<Rightarrow> int list result" where
  "getRawData (ColumnVector xs) = Inr xs"
| "getRawData (ColumnConst x n) = Inr [x]"
| "getRawData _ = Inl NOT_IMPLEMENTED"

definition detached :: "'c chunk \<Rightarrow> 'c chunk" where
  "detached ch = ch\<lparr>chunk_columns := [], chunk_num_rows := 0\<rparr>"

definition init_set :: "int ht_types \<Rightarrow> distinct_state \<Rightarrow> int hash_set result" where
  "init_set T st =
     (case set_data st of None \<Rightarrow> new_HashTable T (new_grower (initial_size_degree T)) | Some t \<Rightarrow> Inr t)"

definition getTotalByteCount :: "int ht_types \<Rightarrow> int hash_set \<Rightarrow> nat" where
  "getTotalByteCount T t = bufSize (ht_grower t) * sizeof_cell T"

definition transform_only_const :: "vcol column_ops \<Rightarrow> vcol chunk \<Rightarrow> distinct_state \<Rightarrow> (vcol chunk result \<times> distinct_state) option" where
  "transform_only_const C ch st =
     (case res_bind (map_columns (vcol_cut 0 1) (chunk_columns ch)) (\<lambda>columns. chunk_setColumns C columns 1 (detached ch)) of
        Inl e \<Rightarrow> Some (Inl e, st)
      | Inr out \<Rightarrow> Some (Inr out, st\<lparr>no_more_data_needed := True\<rparr>))"

definition transform_filtered :: "int ht_types \<Rightarrow> vcol column_ops \<Rightarrow> distinct_config \<Rightarrow> vcol chunk \<Rightarrow> nat \<Rightarrow> byte list \<Rightarrow> int hash_set
    \<Rightarrow> distinct_state \<Rightarrow> vcol chunk result \<times> distinct_state" where
  "transform_filtered T C cfg ch old_set_size filt t st =
     (let new_set_size = m_size t
      in if new_set_size = old_set_size then (Inr (detached ch), st)
         else
           case check_limits (set_size_limits cfg) new_set_size (getTotalByteCount T t) SET_SIZE_LIMIT_EXCEEDED SET_SIZE_LIMIT_EXCEEDED of
             Inl e \<Rightarrow> (Inl e, st)
           | Inr ok \<Rightarrow>
               if \<not> ok then (Inr (detached ch), st)
               else
                 case res_bind (map_columns (vcol_filter filt) (chunk_columns ch))
                        (\<lambda>columns. chunk_setColumns C columns (new_set_size - old_set_size) (detached ch)) of
                   Inl e \<Rightarrow> (Inl e, st)
                 | Inr out \<Rightarrow>
                     (Inr out, if limit_hint cfg \<noteq> 0 \<and> new_set_size \<ge> limit_hint cfg then st\<lparr>no_more_data_needed := True\<rparr> else st))"

definition distinct_transform :: "int ht_types \<Rightarrow> vcol column_ops \<Rightarrow> distinct_config \<Rightarrow> vcol chunk \<Rightarrow> distinct_state
    \<Rightarrow> (vcol chunk result \<times> distinct_state) option" where
  "distinct_transform T C cfg ch st =
     (if \<not> 0 < chunk_num_rows ch then Some (Inr ch, st)
      else
        case res_bind (removeSpecialColumnRepresentations C ch) (convertToFullIfConst C) of
          Inl e \<Rightarrow> Some (Inl e, st)
        | Inr ch \<Rightarrow>
            (case key_column_pos cfg of
               None \<Rightarrow> transform_only_const C ch st
             | Some pos \<Rightarrow>
                 (case res_bind (getRawData (chunk_columns ch ! pos)) (\<lambda>keys. res_map (Pair keys) (init_set T st)) of
                    Inl e \<Rightarrow> Some (Inl e, st)
                  | Inr (keys, t) \<Rightarrow>
                      map_option (\<lambda>(r, t').
                          let st' = st\<lparr>set_data := Some t'\<rparr>
                          in case r of
                               Inl e \<Rightarrow> (Inl e, st')
                             | Inr filt \<Rightarrow> transform_filtered T C cfg ch (m_size t) filt t' st')
                        (buildFilter T keys None t))))"

text \<open>
  \<^verbatim>\<open>prepare\<close> and \<^verbatim>\<open>work\<close> with a consumer that takes all output, until the input ends, no more is needed or an
  exception is passed on: the chunks pushed before, the exception and the last state.  Empty chunks are
  not pushed.
\<close>

fun distinct_run :: "int ht_types \<Rightarrow> vcol column_ops \<Rightarrow> distinct_config \<Rightarrow> vcol chunk list \<Rightarrow> distinct_state
    \<Rightarrow> (vcol chunk list \<times> error_code option \<times> distinct_state) option" where
  "distinct_run T C cfg [] st = Some ([], None, st)"
| "distinct_run T C cfg (ch # chs) st =
     (if no_more_data_needed st then Some ([], None, st)
      else
        case distinct_transform T C cfg ch st of
          None \<Rightarrow> None
        | Some (Inl e, st') \<Rightarrow> Some ([], Some e, st')
        | Some (Inr out, st') \<Rightarrow>
            map_option (\<lambda>(outs, r). (if chunk_empty out then outs else out # outs, r)) (distinct_run T C cfg chs st'))"

section \<open>Rows\<close>

definition chunk_rows :: "vcol chunk \<Rightarrow> int list list" where
  "chunk_rows ch = map (\<lambda>i. map (\<lambda>c. vcol_values c ! i) (chunk_columns ch)) [0..<chunk_num_rows ch]"

definition chunk_good :: "nat \<Rightarrow> nat \<Rightarrow> vcol chunk \<Rightarrow> bool" where
  "chunk_good k w ch \<longleftrightarrow> length (chunk_columns ch) = w
     \<and> (\<forall>c \<in> set (chunk_columns ch). vcol_good k c \<and> length (vcol_values c) = chunk_num_rows ch)"

text \<open>The rows whose key is neither in the set nor in an earlier row.\<close>

fun first_rows :: "('r \<Rightarrow> 'k) \<Rightarrow> 'k set \<Rightarrow> 'r list \<Rightarrow> 'r list" where
  "first_rows key S [] = []"
| "first_rows key S (r # rs) = (if key r \<in> S then first_rows key S rs else r # first_rows key (insert (key r) S) rs)"

lemma first_rows_append: "first_rows key S (xs @ ys) = first_rows key S xs @ first_rows key (S \<union> key ` set xs) ys"
  by (induction xs arbitrary: S) (auto simp: insert_absorb)

lemma filter_rows_Cons: "filter_rows (f # fs) (x # xs) = (if f \<noteq> 0 then x # filter_rows fs xs else filter_rows fs xs)"
  by (simp add: filter_rows_def)

lemma filter_new_flags: "filter_rows (map (\<lambda>b. if b then 1 else 0) (new_flags S (map key rows))) rows = first_rows key S rows"
proof (induction rows arbitrary: S)
  case (Cons r rows)
  then show ?case
    by (auto simp: filter_rows_Cons insert_absorb)
qed (simp add: filter_rows_def)

lemma length_new_flags [simp]: "length (new_flags S ks) = length ks"
  by (induction ks arbitrary: S) simp_all

lemma map_columns_all:
  assumes "\<And>c. c \<in> set cs \<Longrightarrow> \<exists>d. f c = Inr d \<and> P c d"
  shows "\<exists>ds. map_columns f cs = Inr ds \<and> list_all2 P cs ds"
  using assms
proof (induction cs)
  case (Cons c cs)
  obtain d where "f c = Inr d" "P c d"
    using Cons.prems [of c] by auto
  moreover obtain ds where "map_columns f cs = Inr ds" "list_all2 P cs ds"
    using Cons by auto
  ultimately show ?case
    by simp
qed simp

lemma filter_rows_nth:
  assumes "length xs = n"
  shows "filter_rows filt xs = map ((!) xs) (filter_rows filt [0..<n])"
  using filter_rows_map [of filt "(!) xs" "[0..<n]"] map_nth [of xs] assms by simp

lemma filtered_chunk:
  assumes "chunk_good k w ch" and "length filt = chunk_num_rows ch" and "n = length (filter_rows filt (chunk_rows ch))"
  obtains out where "res_bind (map_columns (vcol_filter filt) (chunk_columns ch))
        (\<lambda>columns. chunk_setColumns (vcol_ops k Z reserved) columns n (detached ch)) = Inr out"
    and "chunk_good k w out" and "chunk_rows out = filter_rows filt (chunk_rows ch)" and "chunk_consistent (vcol_ops k Z reserved) out"
proof -
  let ?N = "chunk_num_rows ch" and ?P = "\<lambda>c d. vcol_good k d \<and> vcol_values d = filter_rows filt (vcol_values c)"
  have good: "vcol_good k c" "length (vcol_values c) = ?N" if "c \<in> set (chunk_columns ch)" for c
    using assms(1) that by (simp_all add: chunk_good_def)
  have "\<exists>d. vcol_filter filt c = Inr d \<and> ?P c d" if "c \<in> set (chunk_columns ch)" for c
    using vec_rows.filter_law [of k c filt] good [OF that] assms(2) by auto
  then obtain ds where ds: "map_columns (vcol_filter filt) (chunk_columns ch) = Inr ds" "list_all2 ?P (chunk_columns ch) ds"
    using map_columns_all [of "chunk_columns ch" "vcol_filter filt" ?P] by blast
  define js where "js = filter_rows filt [0..<?N]"
  have rows: "filter_rows filt (chunk_rows ch) = map (\<lambda>i. map (\<lambda>c. vcol_values c ! i) (chunk_columns ch)) js"
    by (simp add: chunk_rows_def js_def filter_rows_map)
  then have n: "length js = n"
    using assms(3) by simp
  have len: "length ds = length (chunk_columns ch)"
    using ds(2) by (simp add: list_all2_lengthD)
  have d: "vcol_good k (ds ! j)" "vcol_values (ds ! j) = map ((!) (vcol_values (chunk_columns ch ! j))) js" if "j < length ds" for j
    using list_all2_nthD2 [OF ds(2) that] good [of "chunk_columns ch ! j"] that len
      filter_rows_nth [of "vcol_values (chunk_columns ch ! j)" ?N filt] by (simp_all add: js_def)
  let ?out = "(detached ch)\<lparr>chunk_columns := ds, chunk_num_rows := n\<rparr>"
  have all: "vcol_good k c \<and> length (vcol_values c) = n" if "c \<in> set ds" for c
    using that d n by (metis in_set_conv_nth length_map)
  then have "chunk_consistent (vcol_ops k Z reserved) ?out" "chunk_good k w ?out"
    using vec.size_law [of k _ Z reserved] assms(1) len by (auto simp: chunk_consistent_def chunk_good_def list_all_iff)
  moreover have "map (\<lambda>d. vcol_values d ! i) ds = map (\<lambda>c. vcol_values c ! (js ! i)) (chunk_columns ch)" if "i < n" for i
    using that d n len by (intro nth_equalityI) simp_all
  then have "chunk_rows ?out = filter_rows filt (chunk_rows ch)"
    unfolding rows using n by (intro nth_equalityI) (simp_all add: chunk_rows_def)
  ultimately show thesis
    using that [of ?out] ds(1) by (simp add: chunk_setColumns_def checkNumRows_iff)
qed

lemma full_chunk:
  assumes "chunk_good k w ch"
  obtains full where "res_bind (removeSpecialColumnRepresentations (vcol_ops k Z reserved) ch) (convertToFullIfConst (vcol_ops k Z reserved)) = Inr full"
    and "chunk_good k w full" and "chunk_rows full = chunk_rows ch" and "chunk_num_rows full = chunk_num_rows ch"
    and "list_all (vcol_plain k) (chunk_columns full)"
proof -
  let ?f = vcol_convertToFullColumnIfConst
  let ?full = "ch\<lparr>chunk_columns := map ?f (chunk_columns ch)\<rparr>"
  have f: "vcol_plain k (?f c)" "vcol_values (?f c) = vcol_values c" "vcol_good k (?f c)" "vcol_size c = chunk_num_rows ch"
    "vcol_size (?f c) = chunk_num_rows ch" if "c \<in> set (chunk_columns ch)" for c
    using assms that by (cases c; fastforce simp: chunk_good_def)+
  have "res_bind (removeSpecialColumnRepresentations (vcol_ops k Z reserved) ch) (convertToFullIfConst (vcol_ops k Z reserved)) = Inr ?full"
    using f by (auto simp: removeSpecialColumnRepresentations_def convertToFullIfConst_def chunk_setColumns_def checkNumRowsIsConsistent_def
        vcol_ops_def list_all_iff)
  moreover have "chunk_good k w ?full" "list_all (vcol_plain k) (chunk_columns ?full)" "chunk_rows ?full = chunk_rows ch"
    using assms f by (auto simp: chunk_good_def chunk_rows_def list_all_iff)
  ultimately show thesis
    using that by simp
qed

section \<open>One chunk\<close>

lemma key_column:
  assumes "chunk_good k w ch" and "p < w"
  shows "vcol_values (chunk_columns ch ! p) = map (\<lambda>row. row ! p) (chunk_rows ch)"
  using assms by (intro nth_equalityI) (auto simp: chunk_rows_def chunk_good_def)

lemma card_first_rows:
  assumes "finite S"
  shows "card (S \<union> key ` set rows) = card S + length (first_rows key S rows)"
  using assms
proof (induction rows arbitrary: S)
  case (Cons r rows)
  show ?case
    using Cons.IH [of S] Cons.IH [of "insert (key r) S"] Cons.prems by (auto simp: insert_absorb)
qed simp

definition set_ok :: "int ht_types \<Rightarrow> int set \<Rightarrow> distinct_state \<Rightarrow> bool" where
  "set_ok T S st \<longleftrightarrow> (case set_data st of None \<Rightarrow> S = {} | Some t \<Rightarrow> ht_ok T t \<and> dom (ht_map t) = S)"

text \<open>The set has reached a limit in a mode that does not throw: nothing is passed on any more.\<close>

definition blocked :: "int ht_types \<Rightarrow> distinct_config \<Rightarrow> distinct_state \<Rightarrow> bool" where
  "blocked T cfg st \<longleftrightarrow> overflow_mode (set_size_limits cfg) \<noteq> THROW
     \<and> (case set_data st of None \<Rightarrow> False | Some t \<Rightarrow> \<not> softCheck (set_size_limits cfg) (m_size t) (getTotalByteCount T t))"

definition enough_memory :: "int ht_types \<Rightarrow> nat \<Rightarrow> bool" where
  "enough_memory T n \<longleftrightarrow> (\<forall>b. can_allocate T b) \<and> 2 ^ initial_size_degree T * sizeof_cell T < 2 ^ 64 \<and> 8 * n * sizeof_cell T < 2 ^ 64"

lemma init_set_correct:
  assumes "types_ok T" and "set_ok T S st"
  obtains (ready) t where "init_set T st = Inr t" and "ht_ok T t" and "dom (ht_map t) = S" and "set_data st = Some t \<or> S = {}"
  | (failed) "init_set T st = Inl CANNOT_ALLOCATE_MEMORY" and "\<not> enough_memory T n"
proof (cases "set_data st")
  case (Some t)
  then show thesis
    using ready [of t] assms(2) by (simp add: init_set_def set_ok_def)
next
  case None
  then have S: "S = {}"
    using assms(2) by (simp add: set_ok_def)
  show thesis
  proof (cases "new_HashTable T (new_grower (initial_size_degree T)) :: int hash_set result")
    case (Inr t)
    then show thesis
      using ready [of t] new_HashTable_correct [OF assms(1) Inr] None S by (simp add: init_set_def)
  next
    case (Inl e)
    then have "e = CANNOT_ALLOCATE_MEMORY" "\<not> enough_memory T n"
      by (auto simp: new_HashTable_def ht_alloc_def allocCheckOverflow_def enough_memory_def new_grower_def bufSize_def split: if_splits)
    then show thesis
      using failed Inl None by (simp add: init_set_def)
  qed
qed

lemma check_limits_cases:
  obtains (ok) "check_limits L rows bytes e e = Inr True" and "overflow_mode L = THROW \<or> softCheck L rows bytes"
  | (break) "check_limits L rows bytes e e = Inr False" and "overflow_mode L \<noteq> THROW" and "\<not> softCheck L rows bytes"
  | (throw) "check_limits L rows bytes e e = Inl e" and "overflow_mode L = THROW" and "hasLimits L"
proof (cases "overflow_mode L = THROW")
  case True
  then show thesis
    using ok throw by (cases "max_rows L \<noteq> 0 \<and> rows > max_rows L"; cases "max_bytes L \<noteq> 0 \<and> bytes > max_bytes L")
      (simp_all add: check_limits_def hasLimits_def)
next
  case False
  then show thesis
    using ok break by (cases "softCheck L rows bytes") (simp_all add: check_limits_def)
qed

lemma detached_rows: "chunk_rows (detached ch) = []" "chunk_consistent C (detached ch)"
  by (simp_all add: chunk_rows_def detached_def chunk_consistent_def)

text \<open>
  What a chunk becomes: the rows that are new, or nothing because the set reached a limit, or an
  exception.
\<close>

definition passed_on :: "int ht_types \<Rightarrow> distinct_config \<Rightarrow> int set \<Rightarrow> vcol chunk \<Rightarrow> int list list \<Rightarrow> distinct_state \<Rightarrow> distinct_state \<Rightarrow> bool" where
  "passed_on T cfg S out new st st' \<longleftrightarrow>
     (chunk_rows out = new \<and> (new \<noteq> [] \<longrightarrow> \<not> blocked T cfg st') \<or> chunk_rows out = [] \<and> blocked T cfg st')
     \<and> (no_more_data_needed st' \<longleftrightarrow> no_more_data_needed st \<or> chunk_rows out \<noteq> [] \<and> limit_hint cfg \<noteq> 0 \<and> card S \<ge> limit_hint cfg)"

lemma transform_filtered_correct:
  assumes "chunk_good k w ch" and "ht_ok T t'" and "dom (ht_map t') = S \<union> key ` set (chunk_rows ch)" and "finite S"
    and "filt = map (\<lambda>b. if b then 1 else 0) (new_flags S (map key (chunk_rows ch)))" and "set_data st = Some t'"
  obtains (passed) out st' where "transform_filtered T (vcol_ops k Z reserved) cfg ch (card S) filt t' st = (Inr out, st')"
      and "set_data st' = Some t'" and "chunk_consistent (vcol_ops k Z reserved) out"
      and "passed_on T cfg (S \<union> key ` set (chunk_rows ch)) out (first_rows key S (chunk_rows ch)) st st'"
  | (thrown) "transform_filtered T (vcol_ops k Z reserved) cfg ch (card S) filt t' st = (Inl SET_SIZE_LIMIT_EXCEEDED, st)"
      and "overflow_mode (set_size_limits cfg) = THROW" and "hasLimits (set_size_limits cfg)"
proof -
  let ?rows = "chunk_rows ch" and ?C = "vcol_ops k Z reserved" and ?S = "S \<union> key ` set (chunk_rows ch)"
  let ?new = "first_rows key S ?rows"
  have new: "filter_rows filt ?rows = ?new" "length filt = chunk_num_rows ch"
    by (simp_all add: assms(5) filter_new_flags) (simp add: chunk_rows_def)
  have size: "m_size t' = card S + length ?new" "m_size t' = card ?S"
    using dom_ht_map(1) [OF assms(2)] card_first_rows [OF assms(4), of key ?rows] assms(3) by simp_all
  show thesis
  proof (cases "?new = []")
    case True
    then show thesis
      using passed [of "detached ch" st] assms(6) size(1)
      by (simp add: detached_rows transform_filtered_def passed_on_def)
  next
    case False
    then have more: "m_size t' \<noteq> card S"
      using size(1) by simp
    show thesis
    proof (cases rule: check_limits_cases [of "set_size_limits cfg" "m_size t'" "getTotalByteCount T t'" SET_SIZE_LIMIT_EXCEEDED])
      case ok
      obtain out where out: "res_bind (map_columns (vcol_filter filt) (chunk_columns ch))
          (\<lambda>columns. chunk_setColumns ?C columns (length ?new) (detached ch)) = Inr out"
        "chunk_rows out = ?new" "chunk_consistent ?C out"
        using filtered_chunk [OF assms(1) new(2), of "length ?new" Z reserved] new(1) by metis
      let ?st = "if limit_hint cfg \<noteq> 0 \<and> m_size t' \<ge> limit_hint cfg then st\<lparr>no_more_data_needed := True\<rparr> else st"
      have "transform_filtered T ?C cfg ch (card S) filt t' st = (Inr out, ?st)"
        using ok(1) out(1) more size(1) by (simp add: transform_filtered_def)
      moreover have "\<not> blocked T cfg ?st"
        using ok(2) assms(6) by (auto simp: blocked_def)
      ultimately show thesis
        using passed [of out ?st] out(2,3) assms(6) size(2) False by (auto simp: passed_on_def)
    next
      case break
      then show thesis
        using passed [of "detached ch" st] assms(6) more
        by (simp add: detached_rows transform_filtered_def passed_on_def blocked_def)
    next
      case throw
      then show thesis
        using thrown more by (simp add: transform_filtered_def)
    qed
  qed
qed

definition failed_with :: "int ht_types \<Rightarrow> distinct_config \<Rightarrow> nat \<Rightarrow> error_code \<Rightarrow> bool" where
  "failed_with T cfg n e \<longleftrightarrow> e = CANNOT_ALLOCATE_MEMORY \<and> \<not> enough_memory T n
     \<or> e = SET_SIZE_LIMIT_EXCEEDED \<and> overflow_mode (set_size_limits cfg) = THROW \<and> hasLimits (set_size_limits cfg)"

lemma blocked_grows:
  assumes "ht_ok T t" and "ht_ok T t'" and "dom (ht_map t) \<subseteq> dom (ht_map t')"
    and "precalculated_max_fill (ht_grower t) \<le> precalculated_max_fill (ht_grower t')"
    and "set_data st = Some t" and "set_data st' = Some t'" and "blocked T cfg st"
  shows "blocked T cfg st'"
proof -
  have "m_size t \<le> m_size t'"
    using card_mono [OF dom_ht_map(2) [OF assms(2)] assms(3)] dom_ht_map(1) [OF assms(1)] dom_ht_map(1) [OF assms(2)] by simp
  moreover have "bufSize (ht_grower u) = 2 * precalculated_max_fill (ht_grower u)" if "ht_ok T u" for u :: "int hash_set"
    using that by (cases "size_degree (ht_grower u)") (auto simp: ht_ok_def buf_ok_def grower_ok_def bufSize_def)
  then have "getTotalByteCount T t \<le> getTotalByteCount T t'"
    using assms(1,2,4) by (simp add: getTotalByteCount_def)
  ultimately show ?thesis
    using assms(5-7) by (auto simp: blocked_def softCheck_def)
qed

lemma distinct_step:
  assumes "types_ok T" and "key_column_pos cfg = Some p" and "p < w" and "chunk_good k w ch" and "set_ok T S st"
  obtains (passed) out st' where "distinct_transform T (vcol_ops k Z reserved) cfg ch st = Some (Inr out, st')"
      and "set_ok T (S \<union> (\<lambda>row. row ! p) ` set (chunk_rows ch)) st'" and "chunk_consistent (vcol_ops k Z reserved) out"
      and "passed_on T cfg (S \<union> (\<lambda>row. row ! p) ` set (chunk_rows ch)) out (first_rows (\<lambda>row. row ! p) S (chunk_rows ch)) st st'"
      and "blocked T cfg st \<Longrightarrow> blocked T cfg st'"
  | (failed) e st' where "distinct_transform T (vcol_ops k Z reserved) cfg ch st = Some (Inl e, st')"
      and "failed_with T cfg (card S + length (chunk_rows ch)) e"
proof (cases "0 < chunk_num_rows ch")
  case False
  moreover from False have "chunk_rows ch = []" "chunk_consistent (vcol_ops k Z reserved) ch"
    using assms(4) vec.size_law [of k _ Z reserved] by (auto simp: chunk_rows_def chunk_consistent_def chunk_good_def list_all_iff)
  ultimately show thesis
    using passed [of ch st] assms(5) by (simp add: distinct_transform_def passed_on_def)
next
  case True
  let ?C = "vcol_ops k Z reserved" and ?key = "\<lambda>row. row ! p"
  obtain full where full: "res_bind (removeSpecialColumnRepresentations ?C ch) (convertToFullIfConst ?C) = Inr full"
    "chunk_good k w full" "chunk_rows full = chunk_rows ch" "list_all (vcol_plain k) (chunk_columns full)"
    using full_chunk [OF assms(4), of Z reserved] by metis
  have "vcol_plain k (chunk_columns full ! p)"
    using full(2,4) assms(3) by (simp add: chunk_good_def list_all_length)
  then have keys: "getRawData (chunk_columns full ! p) = Inr (map ?key (chunk_rows ch))"
    using key_column [OF full(2) assms(3)] full(3) by (cases "chunk_columns full ! p") simp_all
  show thesis
  proof (cases rule: init_set_correct [where n = "card S + length (chunk_rows ch)", OF assms(1,5), case_names ready failed])
    case no_set: failed
    then show thesis
      using that(2) True full(1) keys assms(2) by (simp add: distinct_transform_def failed_with_def)
  next
    case (ready t)
    have S: "finite S" "m_size t = card S"
      using dom_ht_map [OF ready(2)] ready(3) by simp_all
    note start = True full(1) keys ready(1) assms(2)
    have mask: "case None of None \<Rightarrow> True | Some bs \<Rightarrow> length bs = length (map ?key (chunk_rows ch))
        \<and> skips_only_seen (dom (ht_map t)) (zip (map ?key (chunk_rows ch)) (map (\<lambda>b. b \<noteq> 0) bs))"
      by simp
    show thesis
    proof (cases rule: buildFilter_correct [OF assms(1) ready(2) mask, case_names success failed])
      case no_memory: (failed t')
      then show thesis
        using that(2) start S(2) by (auto simp: distinct_transform_def failed_with_def enough_memory_def)
    next
      case (success t')
      let ?st = "st\<lparr>set_data := Some t'\<rparr>" and ?S = "S \<union> ?key ` set (chunk_rows ch)"
      let ?filt = "map (\<lambda>b. if b then 1 else 0) (new_flags S (map ?key (chunk_rows ch))) :: byte list"
      have dom: "dom (ht_map t') = S \<union> ?key ` set (chunk_rows full)"
        using success(3) ready(3) full(3) by simp
      have tr: "distinct_transform T ?C cfg ch st = Some (transform_filtered T ?C cfg full (card S) ?filt t' ?st)"
        using start success(1) ready(3) S(2) by (simp add: distinct_transform_def)
      have grows: "blocked T cfg st'" if "blocked T cfg st" "set_data st' = Some t'" for st'
      proof -
        have "set_data st = Some t"
          using that(1) ready(4) assms(5) init_set_def ready(1) by (auto simp: blocked_def init_set_def split: option.splits)
        then show ?thesis
          using blocked_grows [OF ready(2) success(2) _ success(4) _ that(2,1)] success(3) by auto
      qed
      show thesis
      proof (cases rule: transform_filtered_correct [where st = ?st and cfg = cfg and Z = Z and reserved = reserved,
            OF full(2) success(2) dom S(1) refl, unfolded full(3), case_names data passed thrown])
        case data
        then show ?case
          by simp
      next
        case (passed out st')
        then show thesis
          using that(1) [of out st'] tr grows success(2) dom full(3) by (simp add: set_ok_def passed_on_def)
      next
        case thrown
        then show thesis
          using that(2) tr by (simp add: failed_with_def)
      qed
    qed
  qed
qed

section \<open>All chunks\<close>

abbreviation all_rows :: "vcol chunk list \<Rightarrow> int list list" where
  "all_rows chs \<equiv> concat (map chunk_rows chs)"

lemma enough_memory_less:
  assumes "enough_memory T n" and "m \<le> n"
  shows "enough_memory T m"
  using assms le_less_trans [OF mult_le_mono1 [of "8 * m" "8 * n" "sizeof_cell T"]] by (auto simp: enough_memory_def)

lemma failed_with_more: "failed_with T cfg m e \<Longrightarrow> m \<le> n \<Longrightarrow> failed_with T cfg n e"
  using enough_memory_less by (auto simp: failed_with_def)

lemma chunk_empty_rows: "chunk_empty out \<Longrightarrow> chunk_rows out = []"
  by (simp add: chunk_empty_def chunk_rows_def)

text \<open>What a run from any state pushes, and why it can end early.\<close>

definition run_ok :: "int ht_types \<Rightarrow> distinct_config \<Rightarrow> (int list \<Rightarrow> int) \<Rightarrow> int set \<Rightarrow> distinct_state \<Rightarrow> int list list
    \<Rightarrow> vcol chunk list \<Rightarrow> error_code option \<Rightarrow> bool" where
  "run_ok T cfg key S st rows outs err \<longleftrightarrow>
     prefix (all_rows outs) (first_rows key S rows)
     \<and> (blocked T cfg st \<longrightarrow> all_rows outs = [])
     \<and> (\<forall>e. err = Some e \<longrightarrow> failed_with T cfg (card S + length rows) e)
     \<and> (err = None \<and> \<not> hasLimits (set_size_limits cfg) \<longrightarrow> all_rows outs = first_rows key S rows
          \<or> limit_hint cfg \<noteq> 0 \<and> limit_hint cfg \<le> card S + length (all_rows outs))"

lemma no_limits_not_blocked: "\<not> hasLimits (set_size_limits cfg) \<Longrightarrow> \<not> blocked T cfg st"
  by (auto simp: hasLimits_def blocked_def softCheck_def split: option.splits)

lemma run_ok_step:
  assumes pass: "passed_on T cfg S' out (first_rows key S new) st st'" and S': "S' = S \<union> key ` set new" "finite S"
    and grows: "blocked T cfg st \<Longrightarrow> blocked T cfg st'" and more: "\<not> no_more_data_needed st"
    and rest: "\<not> no_more_data_needed st' \<Longrightarrow> run_ok T cfg key S' st' rows outs err"
      "no_more_data_needed st' \<Longrightarrow> outs = [] \<and> err = None"
  shows "run_ok T cfg key S st (new @ rows) (if chunk_empty out then outs else out # outs) err"
proof -
  let ?new = "first_rows key S new"
  have outs: "all_rows (if chunk_empty out then outs else out # outs) = chunk_rows out @ all_rows outs"
    by (simp add: chunk_empty_rows)
  have card: "card S' = card S + length ?new"
    using card_first_rows [OF S'(2), of key new] S'(1) by simp
  have len: "length ?new \<le> length new"
    using card card_Un_le [of S "key ` set new"] card_image_le [of "set new" key] card_length [of new] S'(1) by simp
  have out: "chunk_rows out = ?new \<and> (?new \<noteq> [] \<longrightarrow> \<not> blocked T cfg st') \<or> chunk_rows out = [] \<and> blocked T cfg st'"
    and stop: "no_more_data_needed st' \<longleftrightarrow> chunk_rows out \<noteq> [] \<and> limit_hint cfg \<noteq> 0 \<and> limit_hint cfg \<le> card S'"
    using pass more by (auto simp: passed_on_def)
  show ?thesis
  proof (cases "no_more_data_needed st'")
    case True
    then have "chunk_rows out = ?new" "outs = []" "err = None" "?new \<noteq> []"
      using out stop rest(2) by auto
    then show ?thesis
      using True stop out grows card unfolding run_ok_def outs by (auto simp: first_rows_append)
  next
    case False
    note r = rest(1) [OF False, unfolded run_ok_def]
    have fail: "failed_with T cfg (card S + length (new @ rows)) e" if "err = Some e" for e
      using r that len card by (auto intro: failed_with_more)
    show ?thesis
    proof (cases "chunk_rows out = ?new")
      case True
      then show ?thesis
        using r fail out grows card unfolding run_ok_def outs by (auto simp: first_rows_append S'(1))
    next
      case False
      then have b: "chunk_rows out = []" "blocked T cfg st'"
        using out by auto
      then have "hasLimits (set_size_limits cfg)" "all_rows outs = []"
        using r no_limits_not_blocked by blast+
      then show ?thesis
        using b fail unfolding run_ok_def outs by (simp del: concat_eq_Nil_conv)
    qed
  qed
qed

lemma distinct_run_correct:
  assumes "types_ok T" and "key_column_pos cfg = Some p" and "p < w"
    and "list_all (chunk_good k w) chs" and "set_ok T S st" and "finite S" and "\<not> no_more_data_needed st"
  shows "\<exists>outs err st'. distinct_run T (vcol_ops k Z reserved) cfg chs st = Some (outs, err, st')
    \<and> list_all (chunk_consistent (vcol_ops k Z reserved)) outs \<and> run_ok T cfg (\<lambda>row. row ! p) S st (all_rows chs) outs err"
  using assms(4-7)
proof (induction chs arbitrary: S st)
  case Nil
  then show ?case
    by (simp add: run_ok_def)
next
  case (Cons ch chs)
  let ?C = "vcol_ops k Z reserved" and ?key = "\<lambda>row :: int list. row ! p"
  have good: "chunk_good k w ch"
    using Cons.prems(1) by simp
  show ?case
  proof (cases rule: distinct_step [where Z = Z and reserved = reserved, OF assms(1-3) good Cons.prems(2), case_names passed failed])
    case (passed out st')
    let ?S = "S \<union> ?key ` set (chunk_rows ch)"
    obtain outs err st'' where run: "distinct_run T ?C cfg chs st' = Some (outs, err, st'')"
      "list_all (chunk_consistent ?C) outs"
      "\<not> no_more_data_needed st' \<Longrightarrow> run_ok T cfg ?key ?S st' (all_rows chs) outs err"
      "no_more_data_needed st' \<Longrightarrow> outs = [] \<and> err = None"
    proof (cases "no_more_data_needed st'")
      case True
      then show thesis
        using that by (cases chs) auto
    next
      case False
      then show thesis
        using that Cons.IH [OF _ passed(2)] Cons.prems(1,3) by auto
    qed
    have "run_ok T cfg ?key S st (chunk_rows ch @ all_rows chs) (if chunk_empty out then outs else out # outs) err"
      by (rule run_ok_step [OF passed(4) refl Cons.prems(3) passed(5) Cons.prems(4) run(3,4)])
    then show ?thesis
      using passed(1,3) run(1,2) Cons.prems(4) by simp
  next
    case (failed e st')
    have "failed_with T cfg (card S + length (all_rows (ch # chs))) e"
      using failed(2) by (rule failed_with_more) simp
    then show ?thesis
      using failed(1) Cons.prems(4) by (simp add: run_ok_def)
  qed
qed

text \<open>C3: \<^verbatim>\<open>DISTINCT\<close> on one numeric key column keeps the first row of every key, in the order of the input.  For
  chunks with the same columns, all of their declared number of rows, the transform stops, pushes
  consistent chunks, and the rows pushed are a prefix of the first occurrences among all rows of the
  input.  They are all of the first occurrences, or at least as many as the limit hint asks for, unless
  a limit on the size of the set is configured or an exception is passed on; and the only exceptions
  are a lack of memory and, in the throwing mode with a limit, \<^verbatim>\<open>SET_SIZE_LIMIT_EXCEEDED\<close>.\<close>

theorem distinct_first_occurrences:
  assumes "types_ok T" and "key_column_pos cfg = Some p" and "p < w" and "list_all (chunk_good k w) chs"
  shows "\<exists>outs err st. distinct_run T (vcol_ops k Z reserved) cfg chs new_distinct = Some (outs, err, st)
    \<and> list_all (chunk_consistent (vcol_ops k Z reserved)) outs
    \<and> prefix (all_rows outs) (first_rows (\<lambda>row. row ! p) {} (all_rows chs))
    \<and> (\<forall>e. err = Some e \<longrightarrow> e = CANNOT_ALLOCATE_MEMORY \<and> \<not> enough_memory T (length (all_rows chs))
         \<or> e = SET_SIZE_LIMIT_EXCEEDED \<and> overflow_mode (set_size_limits cfg) = THROW \<and> hasLimits (set_size_limits cfg))
    \<and> (err = None \<and> \<not> hasLimits (set_size_limits cfg) \<longrightarrow>
         all_rows outs = first_rows (\<lambda>row. row ! p) {} (all_rows chs)
         \<or> limit_hint cfg \<noteq> 0 \<and> limit_hint cfg \<le> length (all_rows outs))"
proof -
  have "set_ok T {} new_distinct" "\<not> no_more_data_needed new_distinct"
    by (simp_all add: new_distinct_def set_ok_def)
  then obtain outs err st where "distinct_run T (vcol_ops k Z reserved) cfg chs new_distinct = Some (outs, err, st)"
    "list_all (chunk_consistent (vcol_ops k Z reserved)) outs"
    "run_ok T cfg (\<lambda>row. row ! p) {} new_distinct (all_rows chs) outs err"
    using distinct_run_correct [OF assms, of "{}" new_distinct Z reserved] by auto
  then show ?thesis
    unfolding run_ok_def failed_with_def by (intro exI [of _ outs] exI [of _ err] exI [of _ st]) simp
qed

theorem distinct_first_occurrences_witness:
  "\<exists>outs st. distinct_run example_types (vcol_ops 8 \<lparr>LZ4_COMPRESSBOUND = id, LZ4_compress_default = \<lambda>_ _. None, LZ4_decompress_safe = \<lambda>_ _. None\<rparr> (\<lambda>_. 0))
       \<lparr>set_size_limits = \<lparr>max_rows = 0, max_bytes = 0, overflow_mode = THROW\<rparr>, limit_hint = 0, key_column_pos = Some 0\<rparr>
       [\<lparr>chunk_columns = [ColumnVector [1, 2, 1], ColumnVector [5, 6, 7]], chunk_num_rows = 3\<rparr>,
        \<lparr>chunk_columns = [ColumnVector [2, 3], ColumnConst 8 2], chunk_num_rows = 2\<rparr>]
       new_distinct = Some (outs, None, st)
     \<and> all_rows outs = [[1, 5], [2, 6], [3, 8]]"
proof -
  let ?Z = "\<lparr>LZ4_COMPRESSBOUND = id, LZ4_compress_default = \<lambda>_ _. None, LZ4_decompress_safe = \<lambda>_ _. None\<rparr>"
  let ?cfg = "\<lparr>set_size_limits = \<lparr>max_rows = 0, max_bytes = 0, overflow_mode = THROW\<rparr>, limit_hint = 0, key_column_pos = Some 0\<rparr>"
  let ?chs = "[\<lparr>chunk_columns = [ColumnVector [1, 2, 1], ColumnVector [5, 6, 7]], chunk_num_rows = 3\<rparr>,
        \<lparr>chunk_columns = [ColumnVector [2, 3], ColumnConst 8 2], chunk_num_rows = 2\<rparr>]"
  have T: "types_ok example_types"
    by (simp add: types_ok_def example_types_def)
  have rows: "all_rows ?chs = [[1, 5], [2, 6], [1, 7], [2, 8], [3, 8]]"
    by (simp add: chunk_rows_def upt_rec numeral_eq_Suc)
  have mem: "enough_memory example_types (length (all_rows ?chs))" and limits: "\<not> hasLimits (set_size_limits ?cfg)"
    unfolding rows by (simp_all add: example_types_def enough_memory_def hasLimits_def)
  have good: "list_all (chunk_good 8 2) ?chs"
    by (simp add: chunk_good_def)
  obtain outs err st where run: "distinct_run example_types (vcol_ops 8 ?Z (\<lambda>_. 0)) ?cfg ?chs new_distinct = Some (outs, err, st)"
    "\<forall>e. err = Some e \<longrightarrow> e = CANNOT_ALLOCATE_MEMORY \<and> \<not> enough_memory example_types (length (all_rows ?chs))
       \<or> e = SET_SIZE_LIMIT_EXCEEDED \<and> overflow_mode (set_size_limits ?cfg) = THROW \<and> hasLimits (set_size_limits ?cfg)"
    "err = None \<and> \<not> hasLimits (set_size_limits ?cfg) \<longrightarrow>
       all_rows outs = first_rows (\<lambda>row. row ! 0) {} (all_rows ?chs) \<or> limit_hint ?cfg \<noteq> 0 \<and> limit_hint ?cfg \<le> length (all_rows outs)"
    using distinct_first_occurrences [OF T _ _ good, of ?cfg 0 ?Z "\<lambda>_. 0"] by auto
  have none: "err = None"
    using run(2) mem limits by (cases err) blast+
  then have "all_rows outs = [[1, 5], [2, 6], [3, 8]]"
    using run(3) unfolding rows by (simp add: hasLimits_def)
  then show ?thesis
    using run(1) none by blast
qed

end
