(* ===== verification/QueryCache_Squash.thy ===== *)
theory QueryCache_Squash
  imports Columns_Chunk
begin

text \<open>
  How a writer of the query result cache shapes the chunks of a result before it stores them, and how
  a reader restores them: \<^verbatim>\<open>QueryResultCacheWriter::finalizeWrite\<close> and the constructor of
  \<^verbatim>\<open>QueryResultCacheReader\<close> in \<^verbatim>\<open>src/src/Interpreters/Cache/QueryResultCache.cpp\<close>.
\<close>

section \<open>Squashing\<close>

definition materialize :: "'c column_ops \<Rightarrow> 'c chunk \<Rightarrow> 'c chunk result" where
  "materialize C ch = res_bind (removeSpecialColumnRepresentations C ch) (convertToFullIfConst C)"

definition squash_fresh :: "'c column_ops \<Rightarrow> nat \<Rightarrow> 'c chunk \<Rightarrow> 'c chunk list \<Rightarrow> nat \<Rightarrow> ('c chunk list \<times> nat) result" where
  "squash_fresh C max_block_size ch squashed remaining =
     (if remaining = 0 then
        res_bind (chunk_cloneEmptyColumns C ch) (\<lambda>cols.
          res_map (\<lambda>empty_chunk. (squashed @ [empty_chunk], max_block_size)) (chunk_create C cols 0))
      else Inr (squashed, remaining))"

text \<open>One pass of the inner loop; the result has the chunks, the rows processed and the rows that still fit.\<close>

definition squash_piece :: "'c column_ops \<Rightarrow> nat \<Rightarrow> 'c chunk \<Rightarrow> nat \<Rightarrow> 'c chunk list \<Rightarrow> nat \<Rightarrow> ('c chunk list \<times> nat \<times> nat) result" where
  "squash_piece C max_block_size ch processed squashed remaining =
     res_bind (squash_fresh C max_block_size ch squashed remaining) (\<lambda>(squashed, remaining).
       let n = min (chunk_num_rows ch - processed) remaining
       in res_map (\<lambda>back. (butlast squashed @ [back], processed + n, remaining - n))
            (chunk_append_range C (last squashed) ch processed n))"

text \<open>The loop never ends when it cannot make progress; then its value is \<open>None\<close>.\<close>

partial_function (option) squash_loop ::
    "'c column_ops \<Rightarrow> nat \<Rightarrow> 'c chunk \<Rightarrow> nat \<Rightarrow> 'c chunk list \<Rightarrow> nat \<Rightarrow> ('c chunk list \<times> nat) result option" where
  "squash_loop C max_block_size ch processed squashed remaining =
     (let r = squash_piece C max_block_size ch processed squashed remaining
      in if isl r then Some (Inl (projl r))
         else if fst (snd (projr r)) = chunk_num_rows ch then Some (Inr (fst (projr r), snd (snd (projr r))))
         else squash_loop C max_block_size ch (fst (snd (projr r))) (fst (projr r)) (snd (snd (projr r))))"

fun squash_chunks :: "'c column_ops \<Rightarrow> nat \<Rightarrow> 'c chunk list \<Rightarrow> 'c chunk list \<Rightarrow> nat \<Rightarrow> 'c chunk list result option" where
  "squash_chunks C max_block_size [] squashed remaining = Some (Inr squashed)"
| "squash_chunks C max_block_size (ch # chs) squashed remaining =
     (case materialize C ch of
        Inl e \<Rightarrow> Some (Inl e)
      | Inr ch' \<Rightarrow>
          if chunk_num_rows ch' = 0 then squash_chunks C max_block_size chs squashed remaining
          else (case squash_loop C max_block_size ch' 0 squashed remaining of
                  None \<Rightarrow> None
                | Some (Inl e) \<Rightarrow> Some (Inl e)
                | Some (Inr (squashed', remaining')) \<Rightarrow> squash_chunks C max_block_size chs squashed' remaining'))"

section \<open>Compression\<close>

fun compress_columns :: "'c column_ops \<Rightarrow> 'c list \<Rightarrow> 'c list result" where
  "compress_columns C [] = Inr []"
| "compress_columns C (c # cs) = res_bind (col_compress C False c) (\<lambda>d. res_map (Cons d) (compress_columns C cs))"

fun compress_chunks :: "'c column_ops \<Rightarrow> 'c chunk list \<Rightarrow> 'c chunk list result" where
  "compress_chunks C [] = Inr []"
| "compress_chunks C (ch # chs) =
     res_bind (compress_columns C (chunk_columns ch)) (\<lambda>cols.
     res_bind (chunk_create C cols (chunk_num_rows ch)) (\<lambda>ch'. res_map (Cons ch') (compress_chunks C chs)))"

fun decompress_columns :: "'c column_ops \<Rightarrow> 'c list \<Rightarrow> 'c list result" where
  "decompress_columns C [] = Inr []"
| "decompress_columns C (c # cs) = res_bind (col_decompress C c) (\<lambda>d. res_map (Cons d) (decompress_columns C cs))"

fun decompress_chunks :: "'c column_ops \<Rightarrow> 'c chunk list \<Rightarrow> 'c chunk list result" where
  "decompress_chunks C [] = Inr []"
| "decompress_chunks C (ch # chs) =
     res_bind (decompress_columns C (chunk_columns ch)) (\<lambda>cols.
     res_bind (chunk_create C cols (chunk_num_rows ch)) (\<lambda>ch'. res_map (Cons ch') (decompress_chunks C chs)))"

section \<open>Contents\<close>

definition chunk_of :: "'c column_ops \<Rightarrow> ('c \<Rightarrow> bool) \<Rightarrow> ('c \<Rightarrow> 't) \<Rightarrow> 't list \<Rightarrow> 'c chunk \<Rightarrow> bool" where
  "chunk_of C P kind ks ch \<longleftrightarrow> list_all P (chunk_columns ch) \<and> map kind (chunk_columns ch) = ks \<and> chunk_consistent C ch"

definition column_rows :: "('c \<Rightarrow> 'a list) \<Rightarrow> nat \<Rightarrow> 'c chunk \<Rightarrow> 'a list" where
  "column_rows vals j ch = vals (chunk_columns ch ! j)"

definition column_of :: "('c \<Rightarrow> 'a list) \<Rightarrow> nat \<Rightarrow> 'c chunk list \<Rightarrow> 'a list" where
  "column_of vals j chs = concat (map (column_rows vals j) chs)"

lemma column_of_simps [simp]:
  "column_of vals j [] = []"
  "column_of vals j (ch # chs) = column_rows vals j ch @ column_of vals j chs"
  "column_of vals j (chs @ chs') = column_of vals j chs @ column_of vals j chs'"
  by (simp_all add: column_of_def)

text \<open>The chunks squashed so far: full ones, and a last one that still takes some rows.\<close>

definition squash_ok :: "'c column_ops \<Rightarrow> ('c \<Rightarrow> bool) \<Rightarrow> ('c \<Rightarrow> 't) \<Rightarrow> 't list \<Rightarrow> nat \<Rightarrow> 'c chunk list \<Rightarrow> nat \<Rightarrow> bool" where
  "squash_ok C plain kind ks max_block_size squashed remaining \<longleftrightarrow>
     (\<forall>ch \<in> set squashed. chunk_of C plain kind ks ch \<and> 0 < chunk_num_rows ch)
     \<and> (\<forall>ch \<in> set (butlast squashed). chunk_num_rows ch = max_block_size)
     \<and> (if squashed = [] then remaining = 0 else chunk_num_rows (last squashed) + remaining = max_block_size)"

lemma chunk_ofD:
  assumes "chunk_of C P kind ks ch"
  shows "length (chunk_columns ch) = length ks" and "c \<in> set (chunk_columns ch) \<Longrightarrow> P c"
    and "c \<in> set (chunk_columns ch) \<Longrightarrow> col_size C c = chunk_num_rows ch"
  using assms by (auto simp: chunk_of_def chunk_consistent_def list_all_iff)

context columns
begin

lemma column_length:
  assumes "chunk_of C P kind ks ch" and "\<And>c. P c \<Longrightarrow> good c" and "j < length ks"
  shows "length (column_rows vals j ch) = chunk_num_rows ch"
proof -
  have "chunk_columns ch ! j \<in> set (chunk_columns ch)"
    using chunk_ofD(1) [OF assms(1)] assms(3) by simp
  then show ?thesis
    using chunk_ofD(2,3) [OF assms(1)] assms(2) size_law by (metis column_rows_def)
qed

lemma setColumns_map:
  assumes "chunk_of C good kind ks ch" and "\<And>c. good c \<Longrightarrow> good (f c) \<and> vals (f c) = vals c \<and> kind (f c) = kind c"
  obtains ch' where "chunk_setColumns C (map f (chunk_columns ch)) (chunk_num_rows ch) ch = Inr ch'"
    and "chunk_columns ch' = map f (chunk_columns ch)" and "chunk_num_rows ch' = chunk_num_rows ch" and "chunk_of C good kind ks ch'"
proof
  let ?ch' = "ch\<lparr>chunk_columns := map f (chunk_columns ch), chunk_num_rows := chunk_num_rows ch\<rparr>"
  have "chunk_of C good kind ks ?ch'"
    using assms size_law by (auto simp: chunk_of_def chunk_consistent_def list_all_iff)
  then show "chunk_setColumns C (map f (chunk_columns ch)) (chunk_num_rows ch) ch = Inr ?ch'" "chunk_of C good kind ks ?ch'"
    by (simp_all add: chunk_setColumns_def checkNumRows_iff chunk_of_def)
qed simp_all

lemma materialize_plain:
  assumes "chunk_of C good kind ks ch"
  shows "\<exists>ch'. materialize C ch = Inr ch' \<and> chunk_of C plain kind ks ch' \<and> chunk_num_rows ch' = chunk_num_rows ch
    \<and> (\<forall>j < length ks. column_rows vals j ch' = column_rows vals j ch)"
proof -
  obtain ch1 where ch1: "removeSpecialColumnRepresentations C ch = Inr ch1"
    "chunk_columns ch1 = map (col_removeSpecialRepresentations C) (chunk_columns ch)" "chunk_num_rows ch1 = chunk_num_rows ch"
    using setColumns_map [OF assms special_law] unfolding removeSpecialColumnRepresentations_def by metis
  let ?cols = "map (\<lambda>c. col_convertToFullColumnIfConst C (col_removeSpecialRepresentations C c)) (chunk_columns ch)"
  let ?ch' = "ch1\<lparr>chunk_columns := ?cols, chunk_num_rows := chunk_num_rows ch\<rparr>"
  have full: "plain (col_convertToFullColumnIfConst C (col_removeSpecialRepresentations C c))
      \<and> vals (col_convertToFullColumnIfConst C (col_removeSpecialRepresentations C c)) = vals c
      \<and> kind (col_convertToFullColumnIfConst C (col_removeSpecialRepresentations C c)) = kind c" if "good c" for c
    using full_law [OF that] by (simp add: Let_def)
  then have of: "chunk_of C plain kind ks ?ch'"
    using assms size_law plain_good by (auto simp: chunk_of_def chunk_consistent_def list_all_iff)
  then have "convertToFullIfConst C ch1 = Inr ?ch'"
    by (simp add: convertToFullIfConst_def chunk_setColumns_def checkNumRows_iff chunk_of_def ch1(2,3) comp_def)
  moreover have "column_rows vals j ?ch' = column_rows vals j ch" if "j < length ks" for j
    using full chunk_ofD(1,2) [OF assms] that by (simp add: column_rows_def)
  ultimately show ?thesis
    using of ch1(1) by (auto simp: materialize_def)
qed

lemma fresh_chunk:
  assumes "chunk_of C plain kind ks ch"
  shows "\<exists>cols ch'. chunk_cloneEmptyColumns C ch = Inr cols \<and> chunk_create C cols 0 = Inr ch' \<and> chunk_of C plain kind ks ch'
    \<and> chunk_num_rows ch' = 0 \<and> (\<forall>j < length ks. column_rows vals j ch' = [])"
proof -
  have "\<exists>cols. foldr (\<lambda>c r. res_bind (col_cloneEmpty C c) (\<lambda>d. res_map (Cons d) r)) cs (Inr []) = Inr cols
      \<and> list_all (\<lambda>c. plain c \<and> vals c = []) cols \<and> map kind cols = map kind cs" if "list_all plain cs" for cs
    using that
  proof (induction cs)
    case (Cons c cs)
    then show ?case
      using empty_law [of c] by fastforce
  qed simp
  then obtain cols where cols: "chunk_cloneEmptyColumns C ch = Inr cols" "list_all (\<lambda>c. plain c \<and> vals c = []) cols" "map kind cols = ks"
    using assms by (auto simp: chunk_of_def chunk_cloneEmptyColumns_def)
  have "chunk_of C plain kind ks \<lparr>chunk_columns = cols, chunk_num_rows = 0\<rparr>"
    using cols(2,3) size_law plain_good by (auto simp: chunk_of_def chunk_consistent_def list_all_iff)
  moreover have "length cols = length ks"
    using cols(3) by (metis length_map)
  ultimately show ?thesis
    using cols by (auto simp: chunk_create_def checkNumRows_iff chunk_of_def column_rows_def list_all_length)
qed

lemma append_columns_rows:
  assumes "list_all plain cs" and "list_all plain ds" and "map kind cs = map kind ds"
    and "list_all (\<lambda>d. from + len \<le> length (vals d)) ds"
  shows "\<exists>es. append_columns C cs ds from len = Inr es \<and> list_all plain es \<and> map kind es = map kind cs
    \<and> (\<forall>j < length cs. vals (es ! j) = vals (cs ! j) @ take len (drop from (vals (ds ! j))))"
  using assms
proof (induction cs arbitrary: ds)
  case (Cons c cs)
  obtain d ds' where ds: "ds = d # ds'"
    using Cons.prems(3) by (cases ds) simp_all
  obtain e where e: "col_insertRangeFrom C c d from len = Inr e" "plain e" "kind e = kind c"
    "vals e = vals c @ take len (drop from (vals d))"
    using insert_law [of c d "from" len] Cons.prems ds by auto
  obtain es where es: "append_columns C cs ds' from len = Inr es" "list_all plain es" "map kind es = map kind cs"
    "\<forall>j < length cs. vals (es ! j) = vals (cs ! j) @ take len (drop from (vals (ds' ! j)))"
    using Cons.IH [of ds'] Cons.prems ds by auto
  have "vals ((e # es) ! j) = vals ((c # cs) ! j) @ take len (drop from (vals ((d # ds') ! j)))" if "j < length (c # cs)" for j
    using that e(4) es(4) by (cases j) simp_all
  then show ?case
    using e es ds by auto
qed simp

lemma append_range_rows:
  assumes ch: "chunk_of C plain kind ks ch" and other: "chunk_of C plain kind ks other" and "ks \<noteq> []"
    and len: "from + len \<le> chunk_num_rows other"
  shows "\<exists>ch'. chunk_append_range C ch other from len = Inr ch' \<and> chunk_of C plain kind ks ch'
    \<and> chunk_num_rows ch' = chunk_num_rows ch + len
    \<and> (\<forall>j < length ks. column_rows vals j ch' = column_rows vals j ch @ take len (drop from (column_rows vals j other)))"
proof -
  have n: "length (chunk_columns ch) = length ks" "length (chunk_columns other) = length ks"
    using chunk_ofD(1) [OF ch] chunk_ofD(1) [OF other] by simp_all
  have rows: "length (vals c) = chunk_num_rows other" if "c \<in> set (chunk_columns other)" for c
    using chunk_ofD(2,3) [OF other that] size_law plain_good by metis
  obtain es where es: "append_columns C (chunk_columns ch) (chunk_columns other) from len = Inr es" "list_all plain es"
    "map kind es = ks"
    "\<forall>j < length ks. vals (es ! j) = vals (chunk_columns ch ! j) @ take len (drop from (vals (chunk_columns other ! j)))"
    using append_columns_rows [of "chunk_columns ch" "chunk_columns other" "from" len] ch other n(1) len rows
    by (auto simp: chunk_of_def list_all_iff)
  have n': "length es = length ks"
    using es(3) by (metis length_map)
  have size: "col_size C (es ! j) = chunk_num_rows ch + len" if "j < length ks" for j
  proof -
    have "good (es ! j)"
      using es(2) n' that plain_good by (simp add: list_all_length)
    moreover have "length (vals (chunk_columns ch ! j)) = chunk_num_rows ch"
      using column_length [OF ch plain_good that] by (simp add: column_rows_def)
    moreover have "length (vals (chunk_columns other ! j)) = chunk_num_rows other"
      using column_length [OF other plain_good that] by (simp add: column_rows_def)
    ultimately show ?thesis
      using size_law es(4) that len by simp
  qed
  let ?ch' = "ch\<lparr>chunk_columns := es, chunk_num_rows := chunk_num_rows ch + len\<rparr>"
  have of: "chunk_of C plain kind ks ?ch'"
    using es(2,3) size n' by (auto simp: chunk_of_def chunk_consistent_def list_all_length)
  obtain e es' where "es = e # es'"
    using n' \<open>ks \<noteq> []\<close> by (cases es) auto
  moreover have "col_size C (es ! 0) = chunk_num_rows ch + len"
    using size \<open>ks \<noteq> []\<close> by simp
  ultimately have "chunk_append_range C ch other from len = Inr ?ch'"
    using es(1) of by (simp add: chunk_append_range_def chunk_setColumns_def checkNumRows_iff chunk_of_def)
  then show ?thesis
    using of es(4) by (auto simp: column_rows_def)
qed

lemma squash_piece_step:
  assumes ok: "squash_ok C plain kind ks m squashed remaining" and ch: "chunk_of C plain kind ks ch" and "ks \<noteq> []" and "0 < m"
    and processed: "processed < chunk_num_rows ch"
  obtains squashed' processed' remaining' where "squash_piece C m ch processed squashed remaining = Inr (squashed', processed', remaining')"
    and "squash_ok C plain kind ks m squashed' remaining'" and "processed < processed'" and "processed' \<le> chunk_num_rows ch"
    and "\<forall>j < length ks. column_of vals j squashed' =
      column_of vals j squashed @ take (processed' - processed) (drop processed (column_rows vals j ch))"
proof -
  obtain front lst r where fresh: "squash_fresh C m ch squashed remaining = Inr (front @ [lst], r)" "0 < r"
    and front: "\<forall>c \<in> set front. chunk_of C plain kind ks c \<and> chunk_num_rows c = m"
    and lst: "chunk_of C plain kind ks lst" "chunk_num_rows lst + r = m"
    and cols: "\<forall>j < length ks. column_of vals j (front @ [lst]) = column_of vals j squashed"
  proof (cases "remaining = 0")
    case True
    obtain e where e: "squash_fresh C m ch squashed remaining = Inr (squashed @ [e], m)" "chunk_of C plain kind ks e"
      "chunk_num_rows e = 0" "\<forall>j < length ks. column_rows vals j e = []"
      using fresh_chunk [OF ch] True by (auto simp: squash_fresh_def)
    have "chunk_num_rows c = m" if "c \<in> set squashed" for c
      using ok True that by (cases squashed rule: rev_cases) (auto simp: squash_ok_def)
    then show thesis
      using that [of squashed e m] e ok \<open>0 < m\<close> by (simp add: squash_ok_def)
  next
    case False
    then have "squashed \<noteq> []"
      using ok by (auto simp: squash_ok_def)
    then obtain front lst where sq: "squashed = front @ [lst]"
      by (metis append_butlast_last_id)
    then show thesis
      using that [of front lst remaining] ok False by (simp add: squash_ok_def squash_fresh_def)
  qed
  define n where "n = min (chunk_num_rows ch - processed) r"
  have n: "0 < n" "processed + n \<le> chunk_num_rows ch" "n \<le> r"
    using processed fresh(2) by (simp_all add: n_def)
  obtain lst' where lst': "chunk_append_range C lst ch processed n = Inr lst'" "chunk_of C plain kind ks lst'"
    "chunk_num_rows lst' = chunk_num_rows lst + n"
    "\<forall>j < length ks. column_rows vals j lst' = column_rows vals j lst @ take n (drop processed (column_rows vals j ch))"
    using append_range_rows [OF lst(1) ch \<open>ks \<noteq> []\<close> n(2)] by blast
  show thesis
  proof (rule that)
    show "squash_piece C m ch processed squashed remaining = Inr (front @ [lst'], processed + n, r - n)"
      using fresh(1) lst'(1) by (simp add: squash_piece_def Let_def n_def [symmetric])
    show "squash_ok C plain kind ks m (front @ [lst']) (r - n)"
      using front lst lst' n \<open>0 < m\<close> by (auto simp: squash_ok_def)
    show "processed < processed + n" "processed + n \<le> chunk_num_rows ch"
      using n by simp_all
    show "\<forall>j < length ks. column_of vals j (front @ [lst']) =
        column_of vals j squashed @ take (processed + n - processed) (drop processed (column_rows vals j ch))"
      using cols lst'(4) by simp
  qed
qed

lemma squash_loop_returns:
  assumes "squash_ok C plain kind ks m squashed remaining" and "chunk_of C plain kind ks ch" and "ks \<noteq> []" and "0 < m"
    and "processed < chunk_num_rows ch"
  shows "\<exists>squashed' remaining'. squash_loop C m ch processed squashed remaining = Some (Inr (squashed', remaining'))
    \<and> squash_ok C plain kind ks m squashed' remaining'
    \<and> (\<forall>j < length ks. column_of vals j squashed' = column_of vals j squashed @ drop processed (column_rows vals j ch))"
  using assms(1,5)
proof (induction "chunk_num_rows ch - processed" arbitrary: processed squashed remaining rule: less_induct)
  case less
  obtain squashed1 processed1 remaining1 where
    piece: "squash_piece C m ch processed squashed remaining = Inr (squashed1, processed1, remaining1)"
    "squash_ok C plain kind ks m squashed1 remaining1" "processed < processed1" "processed1 \<le> chunk_num_rows ch"
    "\<forall>j < length ks. column_of vals j squashed1 =
      column_of vals j squashed @ take (processed1 - processed) (drop processed (column_rows vals j ch))"
    using squash_piece_step [OF less.prems(1) assms(2-4) less.prems(2)] by metis
  have loop: "squash_loop C m ch processed squashed remaining =
      (if processed1 = chunk_num_rows ch then Some (Inr (squashed1, remaining1))
       else squash_loop C m ch processed1 squashed1 remaining1)"
    using piece(1) by (simp add: squash_loop.simps [of C m ch processed])
  show ?case
  proof (cases "processed1 = chunk_num_rows ch")
    case True
    have "take (processed1 - processed) (drop processed (column_rows vals j ch)) = drop processed (column_rows vals j ch)"
      if "j < length ks" for j
      using column_length [OF assms(2) plain_good that] True by simp
    then show ?thesis
      using True loop piece by auto
  next
    case False
    then have "chunk_num_rows ch - processed1 < chunk_num_rows ch - processed" "processed1 < chunk_num_rows ch"
      using piece(3,4) less.prems(2) by simp_all
    then obtain squashed2 remaining2 where
      "squash_loop C m ch processed1 squashed1 remaining1 = Some (Inr (squashed2, remaining2))"
      "squash_ok C plain kind ks m squashed2 remaining2"
      "\<forall>j < length ks. column_of vals j squashed2 = column_of vals j squashed1 @ drop processed1 (column_rows vals j ch)"
      using less.hyps [OF _ piece(2)] by blast
    moreover have "take (processed1 - processed) (drop processed xs) @ drop processed1 xs = drop processed xs" for xs :: "'a list"
      using append_take_drop_id [of "processed1 - processed" "drop processed xs"] piece(3) by simp
    ultimately show ?thesis
      using loop False piece(5) by simp
  qed
qed

lemma squash_chunks_returns:
  assumes "squash_ok C plain kind ks m squashed remaining" and "list_all (chunk_of C good kind ks) chs" and "ks \<noteq> []" and "0 < m"
  shows "\<exists>squashed' remaining'. squash_chunks C m chs squashed remaining = Some (Inr squashed')
    \<and> squash_ok C plain kind ks m squashed' remaining'
    \<and> (\<forall>j < length ks. column_of vals j squashed' = column_of vals j squashed @ column_of vals j chs)"
  using assms(1,2)
proof (induction chs arbitrary: squashed remaining)
  case (Cons ch chs)
  obtain ch' where ch': "materialize C ch = Inr ch'" "chunk_of C plain kind ks ch'" "chunk_num_rows ch' = chunk_num_rows ch"
    "\<forall>j < length ks. column_rows vals j ch' = column_rows vals j ch"
    using materialize_plain [of ks ch] Cons.prems(2) by auto
  show ?case
  proof (cases "chunk_num_rows ch' = 0")
    case True
    then have "column_rows vals j ch = []" if "j < length ks" for j
      using column_length [OF ch'(2) plain_good that] ch'(4) that by simp
    then show ?thesis
      using Cons.IH [OF Cons.prems(1)] Cons.prems(2) True ch'(1) by simp
  next
    case False
    then obtain squashed1 remaining1 where "squash_loop C m ch' 0 squashed remaining = Some (Inr (squashed1, remaining1))"
      "squash_ok C plain kind ks m squashed1 remaining1"
      "\<forall>j < length ks. column_of vals j squashed1 = column_of vals j squashed @ column_rows vals j ch'"
      using squash_loop_returns [OF Cons.prems(1) ch'(2) assms(3,4), of 0] by auto
    then show ?thesis
      using Cons.IH [of squashed1 remaining1] Cons.prems(2) False ch'(1,4) by simp
  qed
qed auto

lemma compress_columns_rows:
  assumes "list_all good cs" and "compress_columns C cs = Inr ds"
  shows "list_all2 (\<lambda>c d. col_size C d = length (vals c)) cs ds"
    and "faithful \<Longrightarrow> \<exists>es. decompress_columns C ds = Inr es \<and> list_all good es \<and> map vals es = map vals cs \<and> map kind es = map kind cs"
  using assms
proof (induction cs arbitrary: ds)
  case (Cons c cs)
  {
    case 1
    then show ?case
      using Cons.IH(1) compress_law [of c False] by (auto simp: res_Inr_iff)
  next
    case 2
    then obtain d ds' where ds: "ds = d # ds'" "col_compress C False c = Inr d" "compress_columns C cs = Inr ds'"
      by (auto simp: res_Inr_iff)
    then show ?case
      using Cons.IH(2) [OF 2(1) _ ds(3)] decompress_law [OF 2(1) _ ds(2)] 2(2) by fastforce
  }
qed simp_all

lemma compress_chunks_rows:
  assumes "faithful" and "list_all (chunk_of C good kind ks) chs" and "compress_chunks C chs = Inr compressed"
  shows "\<exists>ds. decompress_chunks C compressed = Inr ds \<and> list_all (chunk_of C good kind ks) ds
    \<and> map chunk_num_rows ds = map chunk_num_rows chs \<and> (\<forall>j < length ks. column_of vals j ds = column_of vals j chs)"
  using assms(2,3)
proof (induction chs arbitrary: compressed)
  case (Cons ch chs)
  obtain cols ch' rest where c: "compress_columns C (chunk_columns ch) = Inr cols" "chunk_create C cols (chunk_num_rows ch) = Inr ch'"
    "compress_chunks C chs = Inr rest" "compressed = ch' # rest"
    using Cons.prems(2) by (auto simp: res_Inr_iff)
  have ch: "chunk_of C good kind ks ch"
    using Cons.prems(1) by simp
  obtain es where es: "decompress_columns C cols = Inr es" "list_all good es" "map vals es = map vals (chunk_columns ch)"
    "map kind es = map kind (chunk_columns ch)"
    using compress_columns_rows(2) [OF _ c(1) assms(1)] ch by (auto simp: chunk_of_def)
  let ?e = "\<lparr>chunk_columns = es, chunk_num_rows = chunk_num_rows ch\<rparr>"
  have len: "length es = length (chunk_columns ch)"
    using es(3) by (metis length_map)
  have v: "vals (es ! j) = vals (chunk_columns ch ! j)" if "j < length es" for j
    using es(3) that len by (metis nth_map)
  have sz: "col_size C (es ! j) = chunk_num_rows ch" if "j < length es" for j
  proof -
    have "chunk_columns ch ! j \<in> set (chunk_columns ch)"
      using that len by simp
    then have "length (vals (chunk_columns ch ! j)) = chunk_num_rows ch"
      using chunk_ofD(2,3) [OF ch] size_law by metis
    then show ?thesis
      using size_law es(2) v that by (simp add: list_all_length)
  qed
  then have e: "chunk_of C good kind ks ?e"
    using ch es(2,4) by (auto simp: chunk_of_def chunk_consistent_def list_all_length)
  have "chunk_create C es (chunk_num_rows ch) = Inr ?e"
    using e by (simp add: chunk_create_def checkNumRows_iff chunk_of_def)
  moreover have "chunk_columns ch' = cols" "chunk_num_rows ch' = chunk_num_rows ch"
    using c(2) by (auto simp: chunk_create_def checkNumRows_iff)
  moreover have "column_rows vals j ?e = column_rows vals j ch" if "j < length ks" for j
    using v that len chunk_ofD(1) [OF ch] by (simp add: column_rows_def)
  moreover obtain ds where "decompress_chunks C rest = Inr ds" "list_all (chunk_of C good kind ks) ds"
    "map chunk_num_rows ds = map chunk_num_rows chs" "\<forall>j < length ks. column_of vals j ds = column_of vals j chs"
    using Cons.IH [OF _ c(3)] Cons.prems(1) by auto
  ultimately show ?case
    using c(4) es(1) e by auto
qed simp

text \<open>With blocks of no rows the loop makes no progress.\<close>

lemma squash_piece_zero:
  assumes "chunk_of C plain kind ks ch" and "ks \<noteq> []" and "processed \<le> chunk_num_rows ch"
  shows "\<exists>squashed'. squash_piece C 0 ch processed squashed 0 = Inr (squashed', processed, 0)"
proof -
  obtain e where "squash_fresh C 0 ch squashed 0 = Inr (squashed @ [e], 0)" "chunk_of C plain kind ks e"
    using fresh_chunk [OF assms(1)] by (auto simp: squash_fresh_def)
  then show ?thesis
    using append_range_rows [OF _ assms(1,2), of e processed 0] assms(3) by (auto simp: squash_piece_def Let_def)
qed

lemma squash_loop_zero:
  assumes "squash_loop C0 m ch processed squashed remaining = Some r"
  shows "C0 = C \<Longrightarrow> chunk_of C plain kind ks ch \<Longrightarrow> ks \<noteq> [] \<Longrightarrow> m = 0 \<Longrightarrow> remaining = 0 \<Longrightarrow>
    \<not> processed < chunk_num_rows ch"
proof (induction rule: squash_loop.raw_induct [OF _ assms])
  case (1 loop C0 m ch processed squashed remaining r)
  show ?case
  proof
    assume less: "processed < chunk_num_rows ch"
    obtain squashed' where "squash_piece C 0 ch processed squashed 0 = Inr (squashed', processed, 0)"
      using squash_piece_zero [OF "1.prems"(2,3)] less by fastforce
    then have "loop C 0 ch processed squashed' 0 = Some r"
      using "1.hyps" "1.prems"(1,4,5) less by (simp add: Let_def)
    then show False
      using "1.IH" [of C 0 ch processed squashed' 0 r] "1.prems" less by simp
  qed
qed

lemma squash_chunks_zero:
  assumes "list_all (chunk_of C good kind ks) chs" and "ks \<noteq> []" and "squash_chunks C 0 chs squashed 0 = Some r"
  shows "list_all (\<lambda>ch. chunk_num_rows ch = 0) chs"
  using assms(1,3)
proof (induction chs)
  case (Cons ch chs)
  obtain ch' where ch': "materialize C ch = Inr ch'" "chunk_of C plain kind ks ch'" "chunk_num_rows ch' = chunk_num_rows ch"
    using materialize_plain [of ks ch] Cons.prems(1) by auto
  have "chunk_num_rows ch' = 0"
  proof (rule ccontr)
    assume "chunk_num_rows ch' \<noteq> 0"
    then have "squash_loop C 0 ch' 0 squashed 0 = None"
      using squash_loop_zero [OF _ refl ch'(2) assms(2) refl refl, of 0 squashed] by (cases "squash_loop C 0 ch' 0 squashed 0") auto
    then show False
      using Cons.prems(2) ch'(1) \<open>chunk_num_rows ch' \<noteq> 0\<close> by simp
  qed
  then show ?case
    using Cons ch' by simp
qed simp

lemma squash_chunks_no_rows:
  assumes "list_all (chunk_of C good kind ks) chs" and "list_all (\<lambda>ch. chunk_num_rows ch = 0) chs"
  shows "squash_chunks C m chs squashed remaining = Some (Inr squashed)"
  using assms
proof (induction chs)
  case (Cons ch chs)
  then show ?case
    using materialize_plain [of ks ch] by auto
qed simp

lemma squash_terminates_iff:
  assumes "list_all (chunk_of C good kind ks) chs" and "ks \<noteq> []"
  shows "(\<exists>r. squash_chunks C m chs [] 0 = Some r) \<longleftrightarrow> 0 < m \<or> list_all (\<lambda>ch. chunk_num_rows ch = 0) chs"
proof (cases "m = 0")
  case True
  then show ?thesis
    using squash_chunks_zero [OF assms] squash_chunks_no_rows [OF assms(1)] by auto
next
  case False
  then show ?thesis
    using squash_chunks_returns [of ks m "[]" 0 chs] assms by (auto simp: squash_ok_def)
qed

end

section \<open>Properties\<close>

text \<open>C13: Squashing the chunks of a result returns, for every size of blocks except zero (with which it runs forever
  as soon as there is a row): it keeps the rows of every column in their order, every chunk it makes has
  at least one row, and all but the last have exactly \<^verbatim>\<open>max_block_size\<close> rows.\<close>

theorem squash_correct:
  assumes "list_all (chunk_of (vcol_ops k Z reserved) (vcol_good k) (\<lambda>_. ()) ks) chs" and "ks \<noteq> []"
  shows "((\<exists>r. squash_chunks (vcol_ops k Z reserved) m chs [] 0 = Some r) \<longleftrightarrow>
        0 < m \<or> list_all (\<lambda>ch. chunk_num_rows ch = 0) chs)
    \<and> (0 < m \<longrightarrow> (\<exists>squashed. squash_chunks (vcol_ops k Z reserved) m chs [] 0 = Some (Inr squashed)
        \<and> (\<forall>j < length ks. column_of vcol_values j squashed = column_of vcol_values j chs)
        \<and> (\<forall>ch \<in> set (butlast squashed). chunk_num_rows ch = m)
        \<and> (\<forall>ch \<in> set squashed. 0 < chunk_num_rows ch \<and> chunk_num_rows ch \<le> m)))"
proof (intro conjI impI)
  show "(\<exists>r. squash_chunks (vcol_ops k Z reserved) m chs [] 0 = Some r) \<longleftrightarrow>
      0 < m \<or> list_all (\<lambda>ch. chunk_num_rows ch = 0) chs"
    by (rule vec.squash_terminates_iff [OF assms])
  assume "0 < m"
  then obtain squashed remaining where sq: "squash_chunks (vcol_ops k Z reserved) m chs [] 0 = Some (Inr squashed)"
    "squash_ok (vcol_ops k Z reserved) (vcol_plain k) (\<lambda>_. ()) ks m squashed remaining"
    "\<forall>j < length ks. column_of vcol_values j squashed = column_of vcol_values j chs"
    using vec.squash_chunks_returns [OF _ assms, of m "[]" 0] by (auto simp: squash_ok_def)
  have "0 < chunk_num_rows ch \<and> chunk_num_rows ch \<le> m" if "ch \<in> set squashed" for ch
    using sq(2) that by (cases squashed rule: rev_cases) (auto simp: squash_ok_def)
  then show "\<exists>squashed. squash_chunks (vcol_ops k Z reserved) m chs [] 0 = Some (Inr squashed)
      \<and> (\<forall>j < length ks. column_of vcol_values j squashed = column_of vcol_values j chs)
      \<and> (\<forall>ch \<in> set (butlast squashed). chunk_num_rows ch = m)
      \<and> (\<forall>ch \<in> set squashed. 0 < chunk_num_rows ch \<and> chunk_num_rows ch \<le> m)"
    using sq by (auto simp: squash_ok_def)
qed

theorem squash_correct_witness:
  "\<exists>squashed. squash_chunks (vcol_ops 1 \<lparr>LZ4_COMPRESSBOUND = id, LZ4_compress_default = (\<lambda>bs n. None),
        LZ4_decompress_safe = (\<lambda>bs n. None)\<rparr> (\<lambda>_. 0)) 2
      [\<lparr>chunk_columns = [ColumnVector [1]], chunk_num_rows = 1\<rparr>, \<lparr>chunk_columns = [ColumnConst 7 2], chunk_num_rows = 2\<rparr>] [] 0
    = Some (Inr squashed) \<and> column_of vcol_values 0 squashed = [1, 7, 7]"
  using squash_correct [of 1 "\<lparr>LZ4_COMPRESSBOUND = id, LZ4_compress_default = (\<lambda>bs n. None), LZ4_decompress_safe = (\<lambda>bs n. None)\<rparr>"
      "\<lambda>_. 0" "[()]" "[\<lparr>chunk_columns = [ColumnVector [1]], chunk_num_rows = 1\<rparr>,
        \<lparr>chunk_columns = [ColumnConst 7 2], chunk_num_rows = 2\<rparr>]" 2]
  by (auto simp: chunk_of_def chunk_consistent_def vcol_ops_def column_rows_def numeral_2_eq_2)

end
