(* ===== verification/QueryCache.thy ===== *)
theory QueryCache
  imports QueryCache_Squash Cache_TTL
begin

text \<open>
  The query result cache, \<^verbatim>\<open>src/src/Interpreters/Cache/QueryResultCache.cpp\<close>: keys, entries, writers and
  readers over the thread-safe cache with the TTL policy, and the source that feeds a cached result
  into a pipeline.  Times are in microseconds, the tick of the clock; the functions get the time that
  \<^verbatim>\<open>system_clock::now\<close> returns as an argument.
\<close>

section \<open>Keys and entries\<close>

record ('h, 'u) qkey =
  ast_hash :: "64 word \<times> 64 word"
  key_header :: 'h
  user_id :: "'u option"
  current_user_roles :: "'u list"
  is_shared :: bool
  created_at :: int
  expires_at :: int
  is_compressed :: bool
  query_string :: string
  query_id :: string
  key_tag :: string
  is_subquery :: bool

record 'c entry =
  entry_chunks :: "'c chunk list"
  entry_totals :: "'c chunk option"
  entry_extremes :: "'c chunk option"

definition qkey_ident :: "('h, 'u) qkey \<Rightarrow> (64 word \<times> 64 word) \<times> bool" where
  "qkey_ident key = (ast_hash key, is_subquery key)"

definition EntryWeight :: "'c column_ops \<Rightarrow> 'c entry \<Rightarrow> 64 word" where
  "EntryWeight C e =
     sum_list (map (chunk_allocatedBytes C) (entry_chunks e))
     + (case entry_totals e of None \<Rightarrow> 0 | Some ch \<Rightarrow> chunk_allocatedBytes C ch)
     + (case entry_extremes e of None \<Rightarrow> 0 | Some ch \<Rightarrow> chunk_allocatedBytes C ch)"

definition IsStale :: "int \<Rightarrow> ('h, 'u) qkey \<Rightarrow> bool" where
  "IsStale now key \<longleftrightarrow> expires_at key < now"

definition qrc_types :: "'c column_ops \<Rightarrow> (('h, 'u) qkey, (64 word \<times> 64 word) \<times> bool, 'u, 'c entry) ttl_types" where
  "qrc_types C = \<lparr>key_ident = qkey_ident, key_user = user_id, entry_weight = EntryWeight C\<rparr>"

type_synonym ('h, 'u, 'c) result_cache = "(('h, 'u) qkey, 'u, 'c entry) ttl cache"

abbreviation qrc_policy :: "'c column_ops \<Rightarrow> int \<Rightarrow> ((('h, 'u) qkey, 'u, 'c entry) ttl, ('h, 'u) qkey, 'c entry) policy" where
  "qrc_policy C now \<equiv> TTLCachePolicy (qrc_types C) (IsStale now)"

section \<open>Writers\<close>

datatype ChunkType = Result | Totals | Extremes

record ('h, 'u, 'c) writer =
  w_key :: "('h, 'u) qkey"
  w_max_entry_size_in_bytes :: "64 word"
  w_max_entry_size_in_rows :: nat
  w_query_start_time :: int
  w_min_query_runtime :: int
  w_squash_partial_results :: bool
  w_max_block_size :: nat
  w_query_result :: "'c entry"
  w_skip_insert :: bool
  w_was_finalized :: bool

definition new_Entry :: "'c entry" where
  "new_Entry = \<lparr>entry_chunks = [], entry_totals = None, entry_extremes = None\<rparr>"

text \<open>Whether a lookup found an entry that has not expired.\<close>

definition found_live :: "int \<Rightarrow> (('h, 'u) qkey \<times> 'c entry option) option \<Rightarrow> bool" where
  "found_live now found = (case found of None \<Rightarrow> False | Some (entry_key, _) \<Rightarrow> \<not> IsStale now entry_key)"

definition new_QueryResultCacheWriter :: "'c column_ops \<Rightarrow> int \<Rightarrow> ('h, 'u, 'c) result_cache \<Rightarrow> ('h, 'u) qkey \<Rightarrow> 64 word \<Rightarrow> nat
    \<Rightarrow> int \<Rightarrow> bool \<Rightarrow> nat \<Rightarrow> (('h, 'u, 'c) writer \<times> ('h, 'u, 'c) result_cache) result" where
  "new_QueryResultCacheWriter C now cache key max_bytes max_rows min_runtime squash max_block =
     res_map (\<lambda>(found, cache').
        (\<lparr>w_key = key, w_max_entry_size_in_bytes = max_bytes, w_max_entry_size_in_rows = max_rows, w_query_start_time = now,
          w_min_query_runtime = min_runtime, w_squash_partial_results = squash, w_max_block_size = max_block,
          w_query_result = new_Entry, w_skip_insert = found_live now found, w_was_finalized = False\<rparr>, cache'))
       (cache_getWithKey (qrc_policy C now) key cache)"

text \<open>The copy constructor; the fields it does not name get their default values.\<close>

definition copy_QueryResultCacheWriter :: "int \<Rightarrow> ('h, 'u, 'c) writer \<Rightarrow> ('h, 'u, 'c) writer" where
  "copy_QueryResultCacheWriter now other =
     other\<lparr>w_query_start_time := now, w_query_result := new_Entry, w_skip_insert := False, w_was_finalized := False\<rparr>"

definition buffer_squashed :: "'c column_ops \<Rightarrow> 'c chunk \<Rightarrow> 'c chunk option \<Rightarrow> 'c chunk option result" where
  "buffer_squashed C ch buffered =
     res_bind (materialize C ch) (\<lambda>ch'.
       case buffered of None \<Rightarrow> Inr (Some ch') | Some b \<Rightarrow> res_map Some (chunk_append C b ch'))"

definition writer_buffer :: "'c column_ops \<Rightarrow> 'c chunk \<Rightarrow> ChunkType \<Rightarrow> ('h, 'u, 'c) writer \<Rightarrow> ('h, 'u, 'c) writer result" where
  "writer_buffer C ch chunk_type w =
     (if w_skip_insert w then Inr w
      else if chunk_empty ch then Inr w
      else let r = w_query_result w
           in (case chunk_type of
                 Result \<Rightarrow> Inr (w\<lparr>w_query_result := r\<lparr>entry_chunks := entry_chunks r @ [ch]\<rparr>\<rparr>)
               | Totals \<Rightarrow> res_map (\<lambda>b. w\<lparr>w_query_result := r\<lparr>entry_totals := b\<rparr>\<rparr>) (buffer_squashed C ch (entry_totals r))
               | Extremes \<Rightarrow> res_map (\<lambda>b. w\<lparr>w_query_result := r\<lparr>entry_extremes := b\<rparr>\<rparr>) (buffer_squashed C ch (entry_extremes r))))"

definition duration_in_milliseconds :: "int \<Rightarrow> int" where
  "duration_in_milliseconds d = (if d < 0 then - ((- d) div 1000) else d div 1000)"

definition count_rows_in_chunks :: "'c entry \<Rightarrow> nat" where
  "count_rows_in_chunks e =
     sum_list (map chunk_num_rows (entry_chunks e))
     + (case entry_totals e of None \<Rightarrow> 0 | Some ch \<Rightarrow> chunk_num_rows ch)
     + (case entry_extremes e of None \<Rightarrow> 0 | Some ch \<Rightarrow> chunk_num_rows ch)"

text \<open>
  \<^verbatim>\<open>finalizeWrite\<close> up to the insertion, which other threads can precede: the entry to insert, if any.
  \<open>None\<close> is a loop that does not end.
\<close>

definition shape_chunks :: "'c column_ops \<Rightarrow> ('h, 'u, 'c) writer \<Rightarrow> 'c chunk list result option" where
  "shape_chunks C w =
     (case (if w_squash_partial_results w then squash_chunks C (w_max_block_size w) (entry_chunks (w_query_result w)) [] 0
            else Some (Inr (entry_chunks (w_query_result w)))) of
        None \<Rightarrow> None
      | Some r \<Rightarrow> Some (if is_compressed (w_key w) then res_bind r (compress_chunks C) else r))"

definition finalize_prepare :: "'c column_ops \<Rightarrow> int \<Rightarrow> ('h, 'u, 'c) writer \<Rightarrow> ('h, 'u, 'c) result_cache
    \<Rightarrow> (('h, 'u, 'c) writer \<times> 'c entry option \<times> ('h, 'u, 'c) result_cache) result option" where
  "finalize_prepare C now w cache =
     (if w_skip_insert w then Some (Inr (w, None, cache))
      else if w_was_finalized w then Some (Inr (w, None, cache))
      else
        let w1 = w\<lparr>w_was_finalized := True\<rparr>
        in if duration_in_milliseconds (now - w_query_start_time w) < w_min_query_runtime w then Some (Inr (w1, None, cache))
           else (case cache_getWithKey (qrc_policy C now) (w_key w) cache of
                   Inl e \<Rightarrow> Some (Inl e)
                 | Inr (found, cache') \<Rightarrow>
                     if found_live now found then Some (Inr (w1, None, cache'))
                     else (case shape_chunks C w of
                             None \<Rightarrow> None
                           | Some (Inl e) \<Rightarrow> Some (Inl e)
                           | Some (Inr chunks) \<Rightarrow>
                               let r = (w_query_result w)\<lparr>entry_chunks := chunks\<rparr>
                               in if EntryWeight C r > w_max_entry_size_in_bytes w \<or> count_rows_in_chunks r > w_max_entry_size_in_rows w
                                  then Some (Inr (w1\<lparr>w_query_result := r\<rparr>, None, cache'))
                                  else Some (Inr (w1\<lparr>w_query_result := r\<rparr>, Some r, cache')))))"

definition finalize_store :: "'c column_ops \<Rightarrow> int \<Rightarrow> ('h, 'u) qkey \<Rightarrow> 'c entry \<Rightarrow> ('h, 'u, 'c) result_cache \<Rightarrow> ('h, 'u, 'c) result_cache result" where
  "finalize_store C now key e cache = cache_set (qrc_policy C now) key (Some e) cache"

section \<open>Readers\<close>

record ('h, 'c) reader =
  r_source :: "('h \<times> 'c chunk list) option"
  r_source_totals :: "('h \<times> 'c chunk list) option"
  r_source_extremes :: "('h \<times> 'c chunk list) option"
  r_created_at :: int
  r_expires_at :: int

definition no_source :: "('h, 'c) reader" where
  "no_source = \<lparr>r_source = None, r_source_totals = None, r_source_extremes = None, r_created_at = 0, r_expires_at = 0\<rparr>"

definition source_of_optional :: "'c column_ops \<Rightarrow> 'h \<Rightarrow> 'c chunk option \<Rightarrow> ('h \<times> 'c chunk list) option result" where
  "source_of_optional C header chunk_opt =
     (case chunk_opt of None \<Rightarrow> Inr None | Some ch \<Rightarrow> res_map (\<lambda>ch'. Some (header, [ch'])) (chunk_clone C ch))"

definition buildSourceFromChunks :: "'c column_ops \<Rightarrow> 'h \<Rightarrow> 'c chunk list \<Rightarrow> 'c chunk option \<Rightarrow> 'c chunk option \<Rightarrow> ('h, 'c) reader result" where
  "buildSourceFromChunks C header chunks totals extremes =
     res_bind (source_of_optional C header totals) (\<lambda>t.
     res_map (\<lambda>e. no_source\<lparr>r_source := Some (header, chunks), r_source_totals := t, r_source_extremes := e\<rparr>)
       (source_of_optional C header extremes))"

fun clone_chunks :: "'c column_ops \<Rightarrow> 'c chunk list \<Rightarrow> 'c chunk list result" where
  "clone_chunks C [] = Inr []"
| "clone_chunks C (ch # chs) = res_bind (chunk_clone C ch) (\<lambda>ch'. res_map (Cons ch') (clone_chunks C chs))"

definition is_same_user_id :: "('h, 'u) qkey \<Rightarrow> ('h, 'u) qkey \<Rightarrow> bool" where
  "is_same_user_id entry_key key \<longleftrightarrow>
     (user_id entry_key = None \<and> user_id key = None)
     \<or> (user_id entry_key \<noteq> None \<and> user_id key \<noteq> None \<and> the (user_id entry_key) = the (user_id key))"

definition new_QueryResultCacheReader :: "'c column_ops \<Rightarrow> int \<Rightarrow> ('h, 'u, 'c) result_cache \<Rightarrow> ('h, 'u) qkey
    \<Rightarrow> (('h, 'c) reader \<times> ('h, 'u, 'c) result_cache) result" where
  "new_QueryResultCacheReader C now cache key =
     res_bind (cache_getWithKey (qrc_policy C now) key cache) (\<lambda>(found, cache').
       case found of
         None \<Rightarrow> Inr (no_source, cache')
       | Some (entry_key, entry_mapped) \<Rightarrow>
           if \<not> is_shared entry_key
              \<and> (\<not> is_same_user_id entry_key key \<or> current_user_roles entry_key \<noteq> current_user_roles key)
           then Inr (no_source, cache')
           else if IsStale now entry_key then Inr (no_source, cache')
           else (case entry_mapped of
                   None \<Rightarrow> Inl OutOfRange
                 | Some e \<Rightarrow>
                     res_bind (if \<not> is_compressed entry_key then clone_chunks C (entry_chunks e)
                               else decompress_chunks C (entry_chunks e)) (\<lambda>chunks.
                     res_map (\<lambda>r. (r\<lparr>r_created_at := created_at entry_key, r_expires_at := expires_at entry_key\<rparr>, cache'))
                       (buildSourceFromChunks C (key_header entry_key) chunks (entry_totals e) (entry_extremes e)))))"

definition hasCacheEntryForKey :: "('h, 'c) reader \<Rightarrow> bool" where
  "hasCacheEntryForKey r \<longleftrightarrow> r_source r \<noteq> None"

text \<open>What a pipeline gets from \<^verbatim>\<open>SourceFromChunks\<close>: a source stops at the first empty chunk.\<close>

fun source_output :: "'c chunk list \<Rightarrow> 'c chunk list" where
  "source_output [] = []"
| "source_output (ch # chs) = (if chunk_empty ch then [] else ch # source_output chs)"

section \<open>The cache\<close>

record ('h, 'u, 'c) qrc =
  qrc_cache :: "('h, 'u, 'c) result_cache"
  times_executed :: "(((64 word \<times> 64 word) \<times> bool) \<times> nat) list"
  max_entry_size_in_bytes :: "64 word"
  max_entry_size_in_rows :: nat

definition updateConfiguration :: "64 word \<Rightarrow> nat \<Rightarrow> 64 word \<Rightarrow> nat \<Rightarrow> ('h, 'u, 'c) qrc \<Rightarrow> ('h, 'u, 'c) qrc" where
  "updateConfiguration max_size max_entries max_entry_bytes max_entry_rows q =
     q\<lparr>qrc_cache := on_state (ttl_setMaxCount max_entries \<circ> ttl_setMaxSizeInBytes max_size) (qrc_cache q),
       max_entry_size_in_bytes := max_entry_bytes, max_entry_size_in_rows := max_entry_rows\<rparr>"

definition new_QueryResultCache :: "64 word \<Rightarrow> nat \<Rightarrow> 64 word \<Rightarrow> nat \<Rightarrow> ('h, 'u, 'c) qrc" where
  "new_QueryResultCache max_size max_entries max_entry_bytes max_entry_rows =
     updateConfiguration max_size max_entries max_entry_bytes max_entry_rows
       \<lparr>qrc_cache = new_CacheBase new_TTLCachePolicy, times_executed = [], max_entry_size_in_bytes = 0, max_entry_size_in_rows = 0\<rparr>"

definition createReader :: "'c column_ops \<Rightarrow> int \<Rightarrow> ('h, 'u) qkey \<Rightarrow> ('h, 'u, 'c) qrc \<Rightarrow> (('h, 'c) reader \<times> ('h, 'u, 'c) qrc) result" where
  "createReader C now key q =
     res_map (\<lambda>(r, cache). (r, q\<lparr>qrc_cache := cache\<rparr>)) (new_QueryResultCacheReader C now (qrc_cache q) key)"

definition createWriter :: "'c column_ops \<Rightarrow> int \<Rightarrow> ('h, 'u) qkey \<Rightarrow> int \<Rightarrow> bool \<Rightarrow> nat \<Rightarrow> 64 word \<Rightarrow> 64 word \<Rightarrow> ('h, 'u, 'c) qrc
    \<Rightarrow> (('h, 'u, 'c) writer \<times> ('h, 'u, 'c) qrc) result" where
  "createWriter C now key min_runtime squash max_block max_size_quota max_entries_quota q =
     (let cache = (case user_id key of None \<Rightarrow> qrc_cache q
                   | Some u \<Rightarrow> cache_setQuotaForUser u max_size_quota max_entries_quota (qrc_cache q))
      in res_map (\<lambda>(w, cache'). (w, q\<lparr>qrc_cache := cache'\<rparr>))
           (new_QueryResultCacheWriter C now cache key (max_entry_size_in_bytes q) (max_entry_size_in_rows q)
              min_runtime squash max_block))"

definition qrc_clear :: "'c column_ops \<Rightarrow> int \<Rightarrow> string option \<Rightarrow> ('h, 'u, 'c) qrc \<Rightarrow> ('h, 'u, 'c) qrc" where
  "qrc_clear C now tag_opt q =
     (let pol = qrc_policy C now
      in q\<lparr>qrc_cache := (case tag_opt of
                           Some t \<Rightarrow> cache_remove_if pol (\<lambda>key _. key_tag key = t) (qrc_cache q)
                         | None \<Rightarrow> cache_clear pol (qrc_cache q)),
           times_executed := []\<rparr>)"

definition recordQueryRun :: "('h, 'u) qkey \<Rightarrow> ('h, 'u, 'c) qrc \<Rightarrow> nat \<times> ('h, 'u, 'c) qrc" where
  "recordQueryRun key q =
     (let times = (case map_of (times_executed q) (qkey_ident key) of None \<Rightarrow> 0 | Some n \<Rightarrow> n) + 1;
          executed = AList.update (qkey_ident key) times (times_executed q)
      in (times, q\<lparr>times_executed := (if length executed > 10000 then [] else executed)\<rparr>))"

definition qrc_maxSizeInBytes :: "'c column_ops \<Rightarrow> int \<Rightarrow> ('h, 'u, 'c) qrc \<Rightarrow> 64 word" where
  "qrc_maxSizeInBytes C now q = cache_maxSizeInBytes (qrc_policy C now) (qrc_cache q)"

definition qrc_sizeInBytes :: "'c column_ops \<Rightarrow> int \<Rightarrow> ('h, 'u, 'c) qrc \<Rightarrow> 64 word" where
  "qrc_sizeInBytes C now q = cache_sizeInBytes (qrc_policy C now) (qrc_cache q)"

definition qrc_count :: "'c column_ops \<Rightarrow> int \<Rightarrow> ('h, 'u, 'c) qrc \<Rightarrow> nat" where
  "qrc_count C now q = cache_count (qrc_policy C now) (qrc_cache q)"

definition qrc_dump :: "'c column_ops \<Rightarrow> int \<Rightarrow> ('h, 'u, 'c) qrc \<Rightarrow> (('h, 'u) qkey \<times> 'c entry option) list" where
  "qrc_dump C now q = cache_dump (qrc_policy C now) (qrc_cache q)"

section \<open>Lookups\<close>

lemma cache_getWithKey_ttl:
  "cache_getWithKey (TTLCachePolicy T stale) key c =
     Inr (map_option (map_prod id Some) (ttl_find T key (cache_policy_state c)),
          count_lookup (ttl_find T key (cache_policy_state c) \<noteq> None) c)"
  by (simp add: cache_getWithKey_def TTLCachePolicy_def ttl_getWithKey_def)

lemma count_lookup_state [simp]: "cache_policy_state (count_lookup found c) = cache_policy_state c"
  by (simp add: count_lookup_def)

text \<open>What a reader with a source has found.\<close>

lemma reader_found:
  assumes "new_QueryResultCacheReader C now cache key = Inr (r, cache')" and "hasCacheEntryForKey r"
  obtains entry_key e chunks where "ttl_find (qrc_types C) key (cache_policy_state cache) = Some (entry_key, e)"
    and "is_shared entry_key \<or> user_id entry_key = user_id key \<and> current_user_roles entry_key = current_user_roles key"
    and "now \<le> expires_at entry_key"
    and "(if is_compressed entry_key then decompress_chunks C (entry_chunks e) else clone_chunks C (entry_chunks e)) = Inr chunks"
    and "r_source r = Some (key_header entry_key, chunks)"
    and "source_of_optional C (key_header entry_key) (entry_totals e) = Inr (r_source_totals r)"
    and "source_of_optional C (key_header entry_key) (entry_extremes e) = Inr (r_source_extremes r)"
    and "r_created_at r = created_at entry_key" and "r_expires_at r = expires_at entry_key"
proof (cases "ttl_find (qrc_types C) key (cache_policy_state cache)")
  case None
  then show thesis
    using assms by (auto simp: new_QueryResultCacheReader_def cache_getWithKey_ttl hasCacheEntryForKey_def no_source_def)
next
  case (Some found)
  obtain entry_key e where found: "found = (entry_key, e)"
    by fastforce
  have same: "is_same_user_id entry_key key \<longleftrightarrow> user_id entry_key = user_id key"
    by (cases "user_id entry_key"; cases "user_id key") (simp_all add: is_same_user_id_def)
  show thesis
    using assms Some found
    by (intro that [of entry_key e "snd (the (r_source r))"])
       (auto simp: new_QueryResultCacheReader_def cache_getWithKey_ttl same IsStale_def hasCacheEntryForKey_def no_source_def
          buildSourceFromChunks_def res_Inr_iff split: if_splits)
qed

section \<open>Properties\<close>

text \<open>C15: Access control of the query result cache: whatever the state of the cache, a reader gets a result only from
  an entry for the same query (hash of the syntax tree, kind of query) that has not expired, and only if
  the entry is shared or was written by the same user with the same roles; otherwise it has no source,
  nor does it tell when an entry was created or expires.\<close>

theorem reader_access_control:
  assumes "createReader C now key q = Inr (r, q')"
  shows "if hasCacheEntryForKey r
    then \<exists>(entry_key, e) \<in> set (ttl_cache (cache_policy_state (qrc_cache q))).
           ast_hash entry_key = ast_hash key \<and> is_subquery entry_key = is_subquery key
           \<and> (is_shared entry_key \<or> user_id entry_key = user_id key \<and> current_user_roles entry_key = current_user_roles key)
           \<and> now \<le> expires_at entry_key \<and> r_expires_at r = expires_at entry_key
    else r = no_source"
proof (cases "hasCacheEntryForKey r")
  case True
  obtain cache' where "new_QueryResultCacheReader C now (qrc_cache q) key = Inr (r, cache')"
    using assms by (auto simp: createReader_def res_Inr_iff)
  then obtain entry_key e where e: "ttl_find (qrc_types C) key (cache_policy_state (qrc_cache q)) = Some (entry_key, e)"
    "is_shared entry_key \<or> user_id entry_key = user_id key \<and> current_user_roles entry_key = current_user_roles key"
    "now \<le> expires_at entry_key" "r_expires_at r = expires_at entry_key"
    using reader_found True by metis
  show ?thesis
    using True e(2-4) ttl_findD [OF e(1)] by (force simp: qrc_types_def qkey_ident_def)
next
  case False
  then show ?thesis
    using assms
    by (auto simp: createReader_def new_QueryResultCacheReader_def cache_getWithKey_ttl hasCacheEntryForKey_def res_Inr_iff
        buildSourceFromChunks_def split: option.splits if_splits)
qed

theorem reader_access_control_witness:
  "let C = vcol_ops 1 \<lparr>LZ4_COMPRESSBOUND = id, LZ4_compress_default = (\<lambda>bs n. None), LZ4_decompress_safe = (\<lambda>bs n. None)\<rparr> (\<lambda>_. 0);
       key = \<lparr>ast_hash = (1, 2), key_header = (), user_id = Some (5 :: nat), current_user_roles = [6], is_shared = False, created_at = 3,
              expires_at = 20, is_compressed = False, query_string = ''q'', query_id = ''i'', key_tag = [], is_subquery = False\<rparr>;
       q = (new_QueryResultCache 100 5 10 10)
             \<lparr>qrc_cache := new_CacheBase (ttl_insert (qrc_types C) key new_Entry new_TTLCachePolicy)\<rparr>
   in \<exists>r q'. createReader C 10 key q = Inr (r, q') \<and> hasCacheEntryForKey r \<and> 10 \<le> r_expires_at r"
proof -
  let ?C = "vcol_ops 1 \<lparr>LZ4_COMPRESSBOUND = id, LZ4_compress_default = (\<lambda>bs n. None), LZ4_decompress_safe = (\<lambda>bs n. None)\<rparr> (\<lambda>_. 0)"
  let ?key = "\<lparr>ast_hash = (1, 2), key_header = (), user_id = Some (5 :: nat), current_user_roles = [6], is_shared = False, created_at = 3,
              expires_at = 20, is_compressed = False, query_string = ''q'', query_id = ''i'', key_tag = [], is_subquery = False\<rparr>"
  let ?q = "(new_QueryResultCache 100 5 10 10)
             \<lparr>qrc_cache := new_CacheBase (ttl_insert (qrc_types ?C) ?key new_Entry new_TTLCachePolicy)\<rparr>"
  obtain r q' where r: "createReader ?C 10 ?key ?q = Inr (r, q')" "hasCacheEntryForKey r"
    by (simp add: createReader_def new_QueryResultCacheReader_def cache_getWithKey_ttl new_CacheBase_def ttl_find_def
        new_TTLCachePolicy_def qrc_types_def qkey_ident_def is_same_user_id_def IsStale_def new_Entry_def
        buildSourceFromChunks_def source_of_optional_def hasCacheEntryForKey_def)
  show ?thesis
    using reader_access_control [OF r(1)] r unfolding Let_def by (intro exI [of _ r] exI [of _ q']) auto
qed

end
