(* ===== verification/QueryCache_History.thy ===== *)
theory QueryCache_History
  imports QueryCache
begin

text \<open>
  Histories of the query result cache: any number of writers and readers, as \<^verbatim>\<open>executeQuery.cpp\<close> uses them, in
  any order, over \<^verbatim>\<open>src/src/Interpreters/Cache/QueryResultCache.cpp\<close>.  An event is one call; the check and
  the insertion of \<^verbatim>\<open>finalizeWrite\<close> are two events, because the lock of the cache is free between them.
  A log beside the program keeps the chunks every writer was given.
\<close>

section \<open>Histories\<close>

record ('h, 'u, 'c) world =
  wo_qrc :: "('h, 'u, 'c) qrc"
  wo_writers :: "('h, 'u, 'c) writer list"
  wo_pending :: "'c entry option list"
  wo_log :: "(ChunkType \<times> 'c chunk) list list"

datatype ('h, 'u, 'c) qevent =
    CreateWriter int "('h, 'u) qkey" int bool nat "64 word" "64 word"
  | BufferChunk nat "'c chunk" ChunkType
  | PrepareWrite nat int
  | StoreEntry nat int
  | ReadKey int "('h, 'u) qkey"
  | ClearEntries int "string option"
  | Configure "64 word" nat "64 word" nat
  | RecordRun "('h, 'u) qkey"

definition new_world :: "64 word \<Rightarrow> nat \<Rightarrow> 64 word \<Rightarrow> nat \<Rightarrow> ('h, 'u, 'c) world" where
  "new_world max_size max_entries max_entry_bytes max_entry_rows =
     \<lparr>wo_qrc = new_QueryResultCache max_size max_entries max_entry_bytes max_entry_rows, wo_writers = [], wo_pending = [], wo_log = []\<rparr>"

definition with_cache :: "('h, 'u, 'c) result_cache \<Rightarrow> ('h, 'u, 'c) world \<Rightarrow> ('h, 'u, 'c) world" where
  "with_cache cache w = w\<lparr>wo_qrc := (wo_qrc w)\<lparr>qrc_cache := cache\<rparr>\<rparr>"

text \<open>
  \<open>None\<close> is an event that cannot happen, a call that throws, or one that does not return.  The writer in
  use is a copy of the one \<^verbatim>\<open>createWriter\<close> returns (\<^verbatim>\<open>std::make_shared\<close> calls the copy constructor).
\<close>

fun world_step :: "'c column_ops \<Rightarrow> ('h, 'u, 'c) qevent \<Rightarrow> ('h, 'u, 'c) world \<Rightarrow> ('h, 'u, 'c) world option" where
  "world_step C (CreateWriter now key min_runtime squash max_block size_quota entries_quota) w =
     (case createWriter C now key min_runtime squash max_block size_quota entries_quota (wo_qrc w) of
        Inl _ \<Rightarrow> None
      | Inr (wr, q) \<Rightarrow> Some (w\<lparr>wo_qrc := q, wo_writers := wo_writers w @ [copy_QueryResultCacheWriter now wr],
                               wo_pending := wo_pending w @ [None], wo_log := wo_log w @ [[]]\<rparr>))"
| "world_step C (BufferChunk i ch ty) w =
     (if i < length (wo_writers w) then
        (case writer_buffer C ch ty (wo_writers w ! i) of
           Inl _ \<Rightarrow> None
         | Inr wr \<Rightarrow> Some (w\<lparr>wo_writers := (wo_writers w)[i := wr], wo_log := (wo_log w)[i := wo_log w ! i @ [(ty, ch)]]\<rparr>))
      else None)"
| "world_step C (PrepareWrite i now) w =
     (if i < length (wo_writers w) then
        (case finalize_prepare C now (wo_writers w ! i) (qrc_cache (wo_qrc w)) of
           Some (Inr (wr, e, cache)) \<Rightarrow>
             Some (with_cache cache (w\<lparr>wo_writers := (wo_writers w)[i := wr],
                     wo_pending := (if e = None then wo_pending w else (wo_pending w)[i := e])\<rparr>))
         | _ \<Rightarrow> None)
      else None)"
| "world_step C (StoreEntry i now) w =
     (if i < length (wo_writers w) then
        (case wo_pending w ! i of
           None \<Rightarrow> None
         | Some e \<Rightarrow>
             (case finalize_store C now (w_key (wo_writers w ! i)) e (qrc_cache (wo_qrc w)) of
                Inl _ \<Rightarrow> None
              | Inr cache \<Rightarrow> Some (with_cache cache (w\<lparr>wo_pending := (wo_pending w)[i := None]\<rparr>))))
      else None)"
| "world_step C (ReadKey now key) w =
     (case createReader C now key (wo_qrc w) of Inl _ \<Rightarrow> None | Inr (_, q) \<Rightarrow> Some (w\<lparr>wo_qrc := q\<rparr>))"
| "world_step C (ClearEntries now tag) w = Some (w\<lparr>wo_qrc := qrc_clear C now tag (wo_qrc w)\<rparr>)"
| "world_step C (Configure a b c d) w = Some (w\<lparr>wo_qrc := updateConfiguration a b c d (wo_qrc w)\<rparr>)"
| "world_step C (RecordRun key) w = Some (w\<lparr>wo_qrc := snd (recordQueryRun key (wo_qrc w))\<rparr>)"

text \<open>
  What the pipeline guarantees: the chunks for a writer have the columns of the header in its key, at
  least one, and none comes after \<^verbatim>\<open>finalizeWrite\<close> (the entry in the cache is the buffer of the writer).
\<close>

fun qevent_ok :: "'c column_ops \<Rightarrow> ('c \<Rightarrow> bool) \<Rightarrow> ('c \<Rightarrow> 't) \<Rightarrow> ('h \<Rightarrow> 't list) \<Rightarrow> ('h, 'u, 'c) world \<Rightarrow> ('h, 'u, 'c) qevent \<Rightarrow> bool" where
  "qevent_ok C P kind kinds w (CreateWriter now key _ _ max_block _ _) \<longleftrightarrow> kinds (key_header key) \<noteq> [] \<and> 0 < max_block"
| "qevent_ok C P kind kinds w (BufferChunk i ch ty) \<longleftrightarrow>
     i < length (wo_writers w) \<and> \<not> w_was_finalized (wo_writers w ! i)
     \<and> chunk_of C P kind (kinds (key_header (w_key (wo_writers w ! i)))) ch"
| "qevent_ok C P kind kinds w _ \<longleftrightarrow> True"

inductive reachable :: "'c column_ops \<Rightarrow> ('c \<Rightarrow> bool) \<Rightarrow> ('c \<Rightarrow> 't) \<Rightarrow> ('h \<Rightarrow> 't list) \<Rightarrow> ('h, 'u, 'c) world \<Rightarrow> bool"
  for C P kind kinds where
  start: "reachable C P kind kinds (new_world a b c d)"
| step: "reachable C P kind kinds w \<Longrightarrow> qevent_ok C P kind kinds w ev \<Longrightarrow> world_step C ev w = Some w' \<Longrightarrow>
    reachable C P kind kinds w'"

fun run_history :: "'c column_ops \<Rightarrow> ('h, 'u, 'c) qevent list \<Rightarrow> ('h, 'u, 'c) world \<Rightarrow> ('h, 'u, 'c) world option" where
  "run_history C [] w = Some w"
| "run_history C (ev # evs) w = Option.bind (world_step C ev w) (run_history C evs)"

fun history_ok :: "'c column_ops \<Rightarrow> ('c \<Rightarrow> bool) \<Rightarrow> ('c \<Rightarrow> 't) \<Rightarrow> ('h \<Rightarrow> 't list) \<Rightarrow> ('h, 'u, 'c) world \<Rightarrow> ('h, 'u, 'c) qevent list \<Rightarrow> bool" where
  "history_ok C P kind kinds w [] \<longleftrightarrow> True"
| "history_ok C P kind kinds w (ev # evs) \<longleftrightarrow>
     qevent_ok C P kind kinds w ev \<and> (case world_step C ev w of None \<Rightarrow> False | Some w' \<Rightarrow> history_ok C P kind kinds w' evs)"

lemma reachable_run:
  assumes "reachable C P kind kinds w" and "history_ok C P kind kinds w evs"
  shows "\<exists>w'. run_history C evs w = Some w' \<and> reachable C P kind kinds w'"
  using assms by (induction evs arbitrary: w) (auto intro: reachable.step split: option.splits)

definition logged :: "ChunkType \<Rightarrow> (ChunkType \<times> 'c chunk) list \<Rightarrow> 'c chunk list" where
  "logged ty l = map snd (filter (\<lambda>(t, ch). t = ty) l)"

lemma logged_append [simp]: "logged ty (l @ [(t, ch)]) = (if t = ty then logged ty l @ [ch] else logged ty l)"
  by (simp add: logged_def)

lemma logged_Nil [simp]: "logged ty [] = []"
  by (simp add: logged_def)

definition source_rows :: "('c \<Rightarrow> 'a list) \<Rightarrow> nat \<Rightarrow> ('h \<times> 'c chunk list) option \<Rightarrow> 'a list" where
  "source_rows vals j src = (case src of None \<Rightarrow> [] | Some (_, chs) \<Rightarrow> column_of vals j (source_output chs))"

text \<open>The reader may read, and reads, a result with the key \<open>wkey\<close> whose chunks the log \<open>l\<close> has.\<close>

definition served_from :: "('c \<Rightarrow> 'a list) \<Rightarrow> ('h \<Rightarrow> 't list) \<Rightarrow> int \<Rightarrow> ('h, 'u) qkey \<Rightarrow> ('h, 'c) reader \<Rightarrow> ('h, 'u) qkey
    \<Rightarrow> (ChunkType \<times> 'c chunk) list \<Rightarrow> bool" where
  "served_from vals kinds now key r wkey l \<longleftrightarrow>
     ast_hash wkey = ast_hash key \<and> is_subquery wkey = is_subquery key
     \<and> (is_shared wkey \<or> user_id wkey = user_id key \<and> current_user_roles wkey = current_user_roles key)
     \<and> now \<le> expires_at wkey \<and> r_created_at r = created_at wkey \<and> r_expires_at r = expires_at wkey
     \<and> map_option fst (r_source r) = Some (key_header wkey)
     \<and> (\<forall>j < length (kinds (key_header wkey)).
          source_rows vals j (r_source r) = column_of vals j (logged Result l)
          \<and> source_rows vals j (r_source_totals r) = column_of vals j (logged Totals l)
          \<and> source_rows vals j (r_source_extremes r) = column_of vals j (logged Extremes l))"

lemma clone_same: "chunk_of C P kind ks ch \<Longrightarrow> chunk_clone C ch = Inr ch"
  by (cases ch) (simp add: chunk_of_def chunk_clone_def chunk_create_def checkNumRows_iff)

lemma clone_chunks_same: "list_all (chunk_of C P kind ks) chs \<Longrightarrow> clone_chunks C chs = Inr chs"
  by (induction chs) (auto dest: clone_same)

lemma source_output_all: "list_all (chunk_of C P kind ks) chs \<Longrightarrow> ks \<noteq> [] \<Longrightarrow> source_output chs = chs"
  by (induction chs) (auto simp: chunk_empty_def chunk_of_def)

section \<open>Invariant\<close>

definition optional_rows :: "('c \<Rightarrow> 'a list) \<Rightarrow> nat \<Rightarrow> 'c chunk option \<Rightarrow> 'a list" where
  "optional_rows vals j chunk_opt = (case chunk_opt of None \<Rightarrow> [] | Some ch \<Rightarrow> column_rows vals j ch)"

text \<open>An entry has the totals and extremes of a log, and its chunks, once restored, the rows of the result.\<close>

definition extras_match :: "'c column_ops \<Rightarrow> ('c \<Rightarrow> bool) \<Rightarrow> ('c \<Rightarrow> 't) \<Rightarrow> ('c \<Rightarrow> 'a list) \<Rightarrow> 't list \<Rightarrow> 'c entry
    \<Rightarrow> (ChunkType \<times> 'c chunk) list \<Rightarrow> bool" where
  "extras_match C P kind vals ks e l \<longleftrightarrow>
     pred_option (chunk_of C P kind ks) (entry_totals e) \<and> pred_option (chunk_of C P kind ks) (entry_extremes e)
     \<and> (\<forall>j < length ks. optional_rows vals j (entry_totals e) = column_of vals j (logged Totals l)
          \<and> optional_rows vals j (entry_extremes e) = column_of vals j (logged Extremes l))"

definition chunks_match :: "'c column_ops \<Rightarrow> ('c \<Rightarrow> bool) \<Rightarrow> ('c \<Rightarrow> 't) \<Rightarrow> ('c \<Rightarrow> 'a list) \<Rightarrow> 't list \<Rightarrow> 'c chunk list
    \<Rightarrow> (ChunkType \<times> 'c chunk) list \<Rightarrow> bool" where
  "chunks_match C P kind vals ks chs l \<longleftrightarrow>
     list_all (chunk_of C P kind ks) chs \<and> (\<forall>j < length ks. column_of vals j chs = column_of vals j (logged Result l))"

definition entry_match :: "'c column_ops \<Rightarrow> ('c \<Rightarrow> bool) \<Rightarrow> ('c \<Rightarrow> bool) \<Rightarrow> ('c \<Rightarrow> 't) \<Rightarrow> ('c \<Rightarrow> 'a list) \<Rightarrow> 't list \<Rightarrow> bool \<Rightarrow> 'c entry
    \<Rightarrow> (ChunkType \<times> 'c chunk) list \<Rightarrow> bool" where
  "entry_match C P Q kind vals ks compressed e l \<longleftrightarrow>
     extras_match C Q kind vals ks e l
     \<and> (\<exists>chs. (if compressed then decompress_chunks C (entry_chunks e) else Inr (entry_chunks e)) = Inr chs
          \<and> chunks_match C P kind vals ks chs l)"

definition writer_match :: "'c column_ops \<Rightarrow> ('c \<Rightarrow> bool) \<Rightarrow> ('c \<Rightarrow> bool) \<Rightarrow> ('c \<Rightarrow> 't) \<Rightarrow> ('c \<Rightarrow> 'a list) \<Rightarrow> ('h \<Rightarrow> 't list)
    \<Rightarrow> ('h, 'u, 'c) writer \<Rightarrow> 'c entry option \<Rightarrow> (ChunkType \<times> 'c chunk) list \<Rightarrow> bool" where
  "writer_match C P Q kind vals kinds wr pending l \<longleftrightarrow>
     kinds (key_header (w_key wr)) \<noteq> [] \<and> 0 < w_max_block_size wr \<and> \<not> w_skip_insert wr
     \<and> (\<not> w_was_finalized wr \<longrightarrow> extras_match C Q kind vals (kinds (key_header (w_key wr))) (w_query_result wr) l
          \<and> chunks_match C P kind vals (kinds (key_header (w_key wr))) (entry_chunks (w_query_result wr)) l)
     \<and> (\<forall>e. pending = Some e \<longrightarrow> w_was_finalized wr
          \<and> entry_match C P Q kind vals (kinds (key_header (w_key wr))) (is_compressed (w_key wr)) e l)"

definition world_inv :: "'c column_ops \<Rightarrow> ('c \<Rightarrow> bool) \<Rightarrow> ('c \<Rightarrow> bool) \<Rightarrow> ('c \<Rightarrow> 't) \<Rightarrow> ('c \<Rightarrow> 'a list) \<Rightarrow> ('h \<Rightarrow> 't list)
    \<Rightarrow> ('h, 'u, 'c) world \<Rightarrow> bool" where
  "world_inv C P Q kind vals kinds w \<longleftrightarrow>
     length (wo_pending w) = length (wo_writers w) \<and> length (wo_log w) = length (wo_writers w)
     \<and> (\<forall>i < length (wo_writers w). writer_match C P Q kind vals kinds (wo_writers w ! i) (wo_pending w ! i) (wo_log w ! i))
     \<and> (\<forall>(k, e) \<in> set (ttl_cache (cache_policy_state (qrc_cache (wo_qrc w)))).
          \<exists>i < length (wo_writers w). w_key (wo_writers w ! i) = k \<and> w_was_finalized (wo_writers w ! i)
            \<and> entry_match C P Q kind vals (kinds (key_header k)) (is_compressed k) e (wo_log w ! i))"

lemma world_invD:
  assumes "world_inv C P Q kind vals kinds w"
  shows "length (wo_pending w) = length (wo_writers w)" "length (wo_log w) = length (wo_writers w)"
    and "i < length (wo_writers w) \<Longrightarrow> writer_match C P Q kind vals kinds (wo_writers w ! i) (wo_pending w ! i) (wo_log w ! i)"
    and "(k, e) \<in> set (ttl_cache (cache_policy_state (qrc_cache (wo_qrc w)))) \<Longrightarrow>
      \<exists>i < length (wo_writers w). w_key (wo_writers w ! i) = k \<and> w_was_finalized (wo_writers w ! i)
        \<and> entry_match C P Q kind vals (kinds (key_header k)) (is_compressed k) e (wo_log w ! i)"
  using assms unfolding world_inv_def by auto

lemma ttl_remove_loop_subset: "set (ttl_cache (ttl_remove_loop T p es s)) \<subseteq> set (ttl_cache s)"
proof (induction es arbitrary: s)
  case (Cons e es)
  have "set (ttl_cache (if p e then ttl_erase T e s else s)) \<subseteq> set (ttl_cache s)"
    by auto
  then show ?case
    using Cons.IH [of "if p e then ttl_erase T e s else s"] by simp
qed simp

lemma ttl_set_subset: "set (ttl_cache (ttl_set T stale key mapped s)) \<subseteq> insert (key, mapped) (set (ttl_cache s))"
  using ttl_remove_loop_subset [of T "\<lambda>e. stale (fst e)" "ttl_cache s" s]
  by (auto simp: ttl_set_def Let_def split: option.split)

lemma cache_set_ttl:
  "cache_set (TTLCachePolicy T stale) key (Some v) c = Inr (c\<lparr>cache_policy_state := ttl_set T stale key v (cache_policy_state c)\<rparr>)"
  by (simp add: cache_set_def TTLCachePolicy_def)

lemma finalize_store_subset:
  assumes "finalize_store C now key e cache = Inr cache'"
  shows "set (ttl_cache (cache_policy_state cache')) \<subseteq> insert (key, e) (set (ttl_cache (cache_policy_state cache)))"
  using assms ttl_set_subset [of "qrc_types C" "IsStale now" key e "cache_policy_state cache"]
  by (auto simp: finalize_store_def cache_set_ttl)

lemma world_inv_same:
  assumes "world_inv C P Q kind vals kinds w" and "wo_writers w' = wo_writers w" and "wo_pending w' = wo_pending w"
    and "wo_log w' = wo_log w"
    and "set (ttl_cache (cache_policy_state (qrc_cache (wo_qrc w')))) \<subseteq> set (ttl_cache (cache_policy_state (qrc_cache (wo_qrc w))))"
  shows "world_inv C P Q kind vals kinds w'"
  using assms(1,5) unfolding world_inv_def assms(2-4) by fast

lemma world_inv_update:
  assumes inv: "world_inv C P Q kind vals kinds w" and i: "i < length (wo_writers w)"
    and w': "wo_writers w' = (wo_writers w)[i := wr]" "wo_pending w' = (wo_pending w)[i := p]" "wo_log w' = (wo_log w)[i := l]"
    and match: "writer_match C P Q kind vals kinds wr p l" and key: "w_key wr = w_key (wo_writers w ! i)"
    and fin: "w_was_finalized (wo_writers w ! i) \<Longrightarrow> w_was_finalized wr \<and> l = wo_log w ! i"
    and cache: "\<And>k e. (k, e) \<in> set (ttl_cache (cache_policy_state (qrc_cache (wo_qrc w')))) \<Longrightarrow>
      (k, e) \<in> set (ttl_cache (cache_policy_state (qrc_cache (wo_qrc w))))
      \<or> k = w_key wr \<and> w_was_finalized wr \<and> entry_match C P Q kind vals (kinds (key_header k)) (is_compressed k) e l"
  shows "world_inv C P Q kind vals kinds w'"
proof -
  note len = world_invD(1,2) [OF inv]
  have "writer_match C P Q kind vals kinds (wo_writers w' ! j) (wo_pending w' ! j) (wo_log w' ! j)" if "j < length (wo_writers w)" for j
    using world_invD(3) [OF inv that] match len that i by (cases "j = i") (simp_all add: w')
  moreover have "\<exists>j < length (wo_writers w). w_key (wo_writers w' ! j) = k \<and> w_was_finalized (wo_writers w' ! j)
      \<and> entry_match C P Q kind vals (kinds (key_header k)) (is_compressed k) e (wo_log w' ! j)"
    if "(k, e) \<in> set (ttl_cache (cache_policy_state (qrc_cache (wo_qrc w'))))" for k e
  proof (cases "(k, e) \<in> set (ttl_cache (cache_policy_state (qrc_cache (wo_qrc w))))")
    case True
    obtain j where j: "j < length (wo_writers w)" "w_key (wo_writers w ! j) = k" "w_was_finalized (wo_writers w ! j)"
      "entry_match C P Q kind vals (kinds (key_header k)) (is_compressed k) e (wo_log w ! j)"
      using world_invD(4) [OF inv True] by blast
    have "w_key (wo_writers w' ! j) = k \<and> w_was_finalized (wo_writers w' ! j) \<and> wo_log w' ! j = wo_log w ! j"
      using j key fin len i by (cases "j = i") (simp_all add: w')
    then show ?thesis
      using j by metis
  next
    case False
    then have "k = w_key wr" "w_was_finalized wr" "entry_match C P Q kind vals (kinds (key_header k)) (is_compressed k) e l"
      using cache [OF that] by blast+
    then show ?thesis
      using i len by (intro exI [of _ i]) (simp add: w')
  qed
  ultimately show ?thesis
    using len unfolding world_inv_def by (auto simp: w')
qed

lemma world_inv_append:
  assumes inv: "world_inv C P Q kind vals kinds w" and match: "writer_match C P Q kind vals kinds wr p l"
    and w': "wo_writers w' = wo_writers w @ [wr]" "wo_pending w' = wo_pending w @ [p]" "wo_log w' = wo_log w @ [l]"
    and cache: "ttl_cache (cache_policy_state (qrc_cache (wo_qrc w'))) = ttl_cache (cache_policy_state (qrc_cache (wo_qrc w)))"
  shows "world_inv C P Q kind vals kinds w'"
proof -
  note len = world_invD(1,2) [OF inv]
  have "writer_match C P Q kind vals kinds (wo_writers w' ! j) (wo_pending w' ! j) (wo_log w' ! j)" if "j < length (wo_writers w')" for j
    using world_invD(3) [OF inv, of j] match len that by (cases "j < length (wo_writers w)") (auto simp: w' nth_append less_Suc_eq)
  moreover have "\<exists>j < length (wo_writers w'). w_key (wo_writers w' ! j) = k \<and> w_was_finalized (wo_writers w' ! j)
      \<and> entry_match C P Q kind vals (kinds (key_header k)) (is_compressed k) e (wo_log w' ! j)"
    if k: "(k, e) \<in> set (ttl_cache (cache_policy_state (qrc_cache (wo_qrc w'))))" for k e
  proof -
    obtain j where "j < length (wo_writers w)" "w_key (wo_writers w ! j) = k" "w_was_finalized (wo_writers w ! j)"
      "entry_match C P Q kind vals (kinds (key_header k)) (is_compressed k) e (wo_log w ! j)"
      using world_invD(4) [OF inv] k unfolding cache by blast
    then show ?thesis
      using len by (intro exI [of _ j]) (simp add: w' nth_append)
  qed
  ultimately show ?thesis
    using len unfolding world_inv_def by (auto simp: w')
qed

context columns
begin

abbreviation "w_match \<equiv> writer_match C good plain kind vals"

lemma buffer_squashed_rows:
  assumes "chunk_of C good kind ks ch" and "pred_option (chunk_of C plain kind ks) buffered" and "ks \<noteq> []"
  shows "\<exists>b. buffer_squashed C ch buffered = Inr (Some b) \<and> chunk_of C plain kind ks b
    \<and> (\<forall>j < length ks. column_rows vals j b = optional_rows vals j buffered @ column_rows vals j ch)"
proof -
  obtain ch' where ch': "materialize C ch = Inr ch'" "chunk_of C plain kind ks ch'"
    "\<forall>j < length ks. column_rows vals j ch' = column_rows vals j ch"
    using materialize_plain [OF assms(1)] by blast
  have len: "length (column_rows vals j ch') = chunk_num_rows ch'" if "j < length ks" for j
    by (rule column_length [OF ch'(2) plain_good that])
  show ?thesis
  proof (cases buffered)
    case None
    then show ?thesis
      using ch' by (simp add: buffer_squashed_def optional_rows_def)
  next
    case (Some b)
    obtain b' where "chunk_append C b ch' = Inr b'" "chunk_of C plain kind ks b'"
      "\<forall>j < length ks. column_rows vals j b' = column_rows vals j b @ take (chunk_num_rows ch') (drop 0 (column_rows vals j ch'))"
      using append_range_rows [OF _ ch'(2) assms(3), of b 0 "chunk_num_rows ch'"] assms(2) Some by (auto simp: chunk_append_def)
    then show ?thesis
      using Some ch' len by (simp add: buffer_squashed_def optional_rows_def)
  qed
qed

lemma buffer_match:
  assumes match: "w_match kinds wr p l" and live: "\<not> w_was_finalized wr"
    and ch: "chunk_of C good kind (kinds (key_header (w_key wr))) ch"
  shows "\<exists>wr'. writer_buffer C ch ty wr = Inr wr' \<and> w_match kinds wr' p (l @ [(ty, ch)])
    \<and> w_key wr' = w_key wr \<and> \<not> w_was_finalized wr'"
proof -
  let ?ks = "kinds (key_header (w_key wr))" and ?r = "w_query_result wr"
  have m: "?ks \<noteq> []" "0 < w_max_block_size wr" "\<not> w_skip_insert wr" "p = None" "extras_match C plain kind vals ?ks ?r l"
    "chunks_match C good kind vals ?ks (entry_chunks ?r) l"
    using match live by (auto simp: writer_match_def)
  have ne: "\<not> chunk_empty ch"
    using chunk_ofD(1) [OF ch] m(1) by (auto simp: chunk_empty_def)
  have x: "pred_option (chunk_of C plain kind ?ks) (entry_totals ?r)" "pred_option (chunk_of C plain kind ?ks) (entry_extremes ?r)"
    using m(5) by (simp_all add: extras_match_def)
  show ?thesis
  proof (cases ty)
    case Result
    then show ?thesis
      using m ne ch live by (simp add: writer_buffer_def Let_def writer_match_def extras_match_def chunks_match_def)
  next
    case Totals
    obtain b where "buffer_squashed C ch (entry_totals ?r) = Inr (Some b)" "chunk_of C plain kind ?ks b"
      "\<forall>j < length ?ks. column_rows vals j b = optional_rows vals j (entry_totals ?r) @ column_rows vals j ch"
      using buffer_squashed_rows [OF ch x(1) m(1)] by blast
    then show ?thesis
      using m ne live Totals
      by (simp add: writer_buffer_def Let_def writer_match_def extras_match_def chunks_match_def optional_rows_def)
  next
    case Extremes
    obtain b where "buffer_squashed C ch (entry_extremes ?r) = Inr (Some b)" "chunk_of C plain kind ?ks b"
      "\<forall>j < length ?ks. column_rows vals j b = optional_rows vals j (entry_extremes ?r) @ column_rows vals j ch"
      using buffer_squashed_rows [OF ch x(2) m(1)] by blast
    then show ?thesis
      using m ne live Extremes
      by (simp add: writer_buffer_def Let_def writer_match_def extras_match_def chunks_match_def optional_rows_def)
  qed
qed

lemma shape_match:
  assumes faithful and m: "0 < w_max_block_size wr" "kinds (key_header (w_key wr)) \<noteq> []"
    "chunks_match C good kind vals (kinds (key_header (w_key wr))) (entry_chunks (w_query_result wr)) l"
    and shape: "shape_chunks C wr = Some (Inr chunks)"
  shows "\<exists>chs. (if is_compressed (w_key wr) then decompress_chunks C chunks else Inr chunks) = Inr chs
    \<and> chunks_match C good kind vals (kinds (key_header (w_key wr))) chs l"
proof -
  let ?ks = "kinds (key_header (w_key wr))" and ?chs = "entry_chunks (w_query_result wr)"
  obtain squashed where sq: "(if w_squash_partial_results wr then squash_chunks C (w_max_block_size wr) ?chs [] 0 else Some (Inr ?chs))
      = Some (Inr squashed)" "chunks_match C good kind vals ?ks squashed l"
  proof (cases "w_squash_partial_results wr")
    case True
    obtain squashed r where "squash_chunks C (w_max_block_size wr) ?chs [] 0 = Some (Inr squashed)"
      "squash_ok C plain kind ?ks (w_max_block_size wr) squashed r"
      "\<forall>j < length ?ks. column_of vals j squashed = column_of vals j ?chs"
      using squash_chunks_returns [of ?ks "w_max_block_size wr" "[]" 0 ?chs] m by (auto simp: squash_ok_def chunks_match_def)
    then show thesis
      using that [of squashed] True m(3) plain_good by (auto simp: chunks_match_def squash_ok_def chunk_of_def list_all_iff)
  next
    case False
    then show thesis
      using that [of ?chs] m(3) by simp
  qed
  show ?thesis
  proof (cases "is_compressed (w_key wr)")
    case True
    then have "compress_chunks C squashed = Inr chunks"
      using shape sq(1) by (simp add: shape_chunks_def)
    then show ?thesis
      using compress_chunks_rows [OF \<open>faithful\<close>, of ?ks squashed chunks] sq(2) True by (auto simp: chunks_match_def)
  next
    case False
    then show ?thesis
      using shape sq by (simp add: shape_chunks_def)
  qed
qed

lemma prepare_match:
  assumes faithful and match: "w_match kinds wr p l" and prep: "finalize_prepare C now wr cache = Some (Inr (wr', e, cache'))"
  shows "w_match kinds wr' (if e = None then p else e) l \<and> w_key wr' = w_key wr \<and> w_was_finalized wr'
    \<and> cache_policy_state cache' = cache_policy_state cache"
proof (cases "w_was_finalized wr")
  case True
  then show ?thesis
    using match prep by (auto simp: finalize_prepare_def writer_match_def)
next
  case False
  let ?ks = "kinds (key_header (w_key wr))"
  have m: "?ks \<noteq> []" "0 < w_max_block_size wr" "\<not> w_skip_insert wr" "p = None"
    "extras_match C plain kind vals ?ks (w_query_result wr) l"
    "chunks_match C good kind vals ?ks (entry_chunks (w_query_result wr)) l"
    using match False by (auto simp: writer_match_def)
  have stored: "entry_match C good plain kind vals ?ks (is_compressed (w_key wr)) ((w_query_result wr)\<lparr>entry_chunks := chunks\<rparr>) l"
    if "shape_chunks C wr = Some (Inr chunks)" for chunks
    using shape_match [where kinds = kinds, OF \<open>faithful\<close> m(2,1,6) that] m(5) by (auto simp: entry_match_def extras_match_def split: if_splits)
  have "cache_policy_state cache' = cache_policy_state cache \<and> w_key wr' = w_key wr \<and> w_was_finalized wr'
      \<and> \<not> w_skip_insert wr' \<and> w_max_block_size wr' = w_max_block_size wr
      \<and> (\<forall>r. e = Some r \<longrightarrow> entry_match C good plain kind vals ?ks (is_compressed (w_key wr)) r l)"
    using prep False m(3) stored
    by (auto simp: finalize_prepare_def Let_def cache_getWithKey_ttl split: if_splits option.splits sum.splits)
  then show ?thesis
    using m by (auto simp: writer_match_def)
qed

lemma new_world_inv: "world_inv C good plain kind vals kinds (new_world a b c d)"
  by (simp add: world_inv_def new_world_def new_QueryResultCache_def updateConfiguration_def on_state_def new_CacheBase_def
      ttl_setMaxCount_def ttl_setMaxSizeInBytes_def new_TTLCachePolicy_def)

lemma create_match:
  assumes "createWriter C now key rt squash m sq eq q = Inr (wr, q')" and "kinds (key_header key) \<noteq> []" and "0 < m"
  shows "w_match kinds (copy_QueryResultCacheWriter now wr) None []"
    and "ttl_cache (cache_policy_state (qrc_cache q')) = ttl_cache (cache_policy_state (qrc_cache q))"
  using assms
  by (auto simp: createWriter_def Let_def res_Inr_iff new_QueryResultCacheWriter_def cache_getWithKey_ttl
      copy_QueryResultCacheWriter_def writer_match_def extras_match_def chunks_match_def new_Entry_def optional_rows_def
      cache_setQuotaForUser_def on_state_def ttl_setQuotaForUser_def split: option.splits)

lemma step_inv:
  assumes faithful and inv: "world_inv C good plain kind vals kinds w" and ok: "qevent_ok C good kind kinds w ev"
    and step: "world_step C ev w = Some w'"
  shows "world_inv C good plain kind vals kinds w'"
proof (cases ev)
  case (CreateWriter now key rt squash m sq eq)
  then obtain wr q where c: "createWriter C now key rt squash m sq eq (wo_qrc w) = Inr (wr, q)"
    "w' = w\<lparr>wo_qrc := q, wo_writers := wo_writers w @ [copy_QueryResultCacheWriter now wr],
            wo_pending := wo_pending w @ [None], wo_log := wo_log w @ [[]]\<rparr>"
    using step by (auto split: sum.splits)
  then show ?thesis
    using create_match [OF c(1), of kinds] ok CreateWriter by (intro world_inv_append [OF inv]) simp_all
next
  case (BufferChunk i ch ty)
  let ?wr = "wo_writers w ! i"
  have i: "i < length (wo_writers w)" "\<not> w_was_finalized ?wr" "chunk_of C good kind (kinds (key_header (w_key ?wr))) ch"
    using ok BufferChunk by simp_all
  then obtain wr' where b: "writer_buffer C ch ty ?wr = Inr wr'"
    "w_match kinds wr' (wo_pending w ! i) (wo_log w ! i @ [(ty, ch)])" "w_key wr' = w_key ?wr"
    using buffer_match [OF world_invD(3) [OF inv i(1)], of ch ty] by blast
  then have "w' = w\<lparr>wo_writers := (wo_writers w)[i := wr'], wo_log := (wo_log w)[i := wo_log w ! i @ [(ty, ch)]]\<rparr>"
    using step BufferChunk i(1) by simp
  then show ?thesis
    using b i by (intro world_inv_update [OF inv i(1), of _ wr' "wo_pending w ! i" "wo_log w ! i @ [(ty, ch)]"]) simp_all
next
  case (PrepareWrite i now)
  then have i: "i < length (wo_writers w)"
    using step by (simp split: if_splits)
  then obtain wr' e cache where p: "finalize_prepare C now (wo_writers w ! i) (qrc_cache (wo_qrc w)) = Some (Inr (wr', e, cache))"
    "w' = with_cache cache (w\<lparr>wo_writers := (wo_writers w)[i := wr'],
            wo_pending := (if e = None then wo_pending w else (wo_pending w)[i := e])\<rparr>)"
    using step PrepareWrite by (auto split: option.splits sum.splits)
  then show ?thesis
    using prepare_match [OF \<open>faithful\<close> world_invD(3) [OF inv i] p(1)]
    by (intro world_inv_update [OF inv i, of _ wr' "if e = None then wo_pending w ! i else e" "wo_log w ! i"])
       (simp_all add: with_cache_def)
next
  case (StoreEntry i now)
  then have i: "i < length (wo_writers w)"
    using step by (simp split: if_splits)
  then obtain e cache where s: "wo_pending w ! i = Some e"
    "finalize_store C now (w_key (wo_writers w ! i)) e (qrc_cache (wo_qrc w)) = Inr cache"
    "w' = with_cache cache (w\<lparr>wo_pending := (wo_pending w)[i := None]\<rparr>)"
    using step StoreEntry by (auto split: option.splits sum.splits)
  note m = world_invD(3) [OF inv i]
  show ?thesis
    using m s finalize_store_subset [OF s(2)]
    by (intro world_inv_update [OF inv i, of _ "wo_writers w ! i" None "wo_log w ! i"])
       (auto simp: with_cache_def writer_match_def)
next
  case (ReadKey now key)
  then obtain r q where "createReader C now key (wo_qrc w) = Inr (r, q)" "w' = w\<lparr>wo_qrc := q\<rparr>"
    using step by (auto split: sum.splits)
  then show ?thesis
    by (intro world_inv_same [OF inv])
       (auto simp: createReader_def res_Inr_iff new_QueryResultCacheReader_def cache_getWithKey_ttl split: option.splits if_splits)
next
  case (ClearEntries now tag)
  then show ?thesis
    using step ttl_remove_loop_subset
    by (intro world_inv_same [OF inv])
       (fastforce simp: qrc_clear_def Let_def cache_remove_if_def cache_clear_def on_state_def TTLCachePolicy_def ttl_clear_def
          ttl_remove_if_def split: option.splits)+
next
  case (Configure a b c d)
  then show ?thesis
    using step by (intro world_inv_same [OF inv])
      (auto simp: updateConfiguration_def on_state_def ttl_setMaxCount_def ttl_setMaxSizeInBytes_def)
next
  case (RecordRun key)
  then show ?thesis
    using step by (intro world_inv_same [OF inv]) (auto simp: recordQueryRun_def Let_def)
qed

lemma reachable_inv:
  assumes "reachable C good kind kinds w" and faithful
  shows "world_inv C good plain kind vals kinds w"
  using assms(1)
  by induction (use new_world_inv step_inv [OF assms(2)] in blast)+

lemma optional_source:
  assumes "pred_option (chunk_of C plain kind ks) chunk_opt" and "ks \<noteq> []"
  shows "\<exists>src. source_of_optional C header chunk_opt = Inr src \<and> (\<forall>j. source_rows vals j src = optional_rows vals j chunk_opt)"
proof (cases chunk_opt)
  case (Some ch)
  then have "chunk_of C plain kind ks ch"
    using assms(1) by simp
  then show ?thesis
    using Some source_output_all [of C plain kind ks "[ch]"] assms(2)
    by (simp add: source_of_optional_def source_rows_def optional_rows_def clone_same column_of_def)
qed (simp add: source_of_optional_def source_rows_def optional_rows_def)

lemma entry_restored:
  assumes "entry_match C good plain kind vals ks compressed e l" and "ks \<noteq> []"
  obtains chs where "(if \<not> compressed then clone_chunks C (entry_chunks e) else decompress_chunks C (entry_chunks e)) = Inr chs"
    and "\<And>j. j < length ks \<Longrightarrow> column_of vals j (source_output chs) = column_of vals j (logged Result l)"
proof -
  obtain chs where chs: "(if compressed then decompress_chunks C (entry_chunks e) else Inr (entry_chunks e)) = Inr chs"
    "chunks_match C good kind vals ks chs l"
    using assms(1) by (auto simp: entry_match_def)
  then have of: "list_all (chunk_of C good kind ks) chs"
    by (simp add: chunks_match_def)
  show thesis
    using that [of chs] chs clone_chunks_same [OF of] source_output_all [OF of assms(2)]
    by (auto simp: chunks_match_def split: if_splits)
qed

lemma reader_serves:
  assumes faithful and "reachable C good kind kinds w"
  shows "\<exists>r q. createReader C now key (wo_qrc w) = Inr (r, q) \<and> (hasCacheEntryForKey r \<longrightarrow>
    (\<exists>i < length (wo_writers w). served_from vals kinds now key r (w_key (wo_writers w ! i)) (wo_log w ! i)))"
proof (cases "ttl_find (qrc_types C) key (cache_policy_state (qrc_cache (wo_qrc w)))")
  case None
  then show ?thesis
    by (simp add: createReader_def new_QueryResultCacheReader_def cache_getWithKey_ttl no_source_def hasCacheEntryForKey_def)
next
  case (Some found)
  obtain ek e where found: "found = (ek, e)"
    by fastforce
  note mem = ttl_findD [OF Some [unfolded found]]
  note inv = reachable_inv [OF assms(2,1)]
  obtain i where i: "i < length (wo_writers w)" "w_key (wo_writers w ! i) = ek"
    "entry_match C good plain kind vals (kinds (key_header ek)) (is_compressed ek) e (wo_log w ! i)"
    using world_invD(4) [OF inv] mem by blast
  have ks: "kinds (key_header ek) \<noteq> []"
    using world_invD(3) [OF inv i(1)] i(2) by (auto simp: writer_match_def)
  obtain chs where chs: "(if \<not> is_compressed ek then clone_chunks C (entry_chunks e) else decompress_chunks C (entry_chunks e)) = Inr chs"
    "\<And>j. j < length (kinds (key_header ek)) \<Longrightarrow> column_of vals j (source_output chs) = column_of vals j (logged Result (wo_log w ! i))"
    using entry_restored [OF i(3) ks] by blast
  have ex: "extras_match C plain kind vals (kinds (key_header ek)) e (wo_log w ! i)"
    using i(3) by (simp add: entry_match_def)
  obtain t x where tx: "source_of_optional C (key_header ek) (entry_totals e) = Inr t"
    "source_of_optional C (key_header ek) (entry_extremes e) = Inr x"
    "\<And>j. source_rows vals j t = optional_rows vals j (entry_totals e)"
    "\<And>j. source_rows vals j x = optional_rows vals j (entry_extremes e)"
    using optional_source [OF _ ks] ex unfolding extras_match_def by meson
  obtain r q where r: "createReader C now key (wo_qrc w) = Inr (r, q)"
    using Some found chs(1) tx(1,2)
    by (fastforce simp: createReader_def new_QueryResultCacheReader_def cache_getWithKey_ttl buildSourceFromChunks_def)
  have "served_from vals kinds now key r ek (wo_log w ! i)" if "hasCacheEntryForKey r"
  proof -
    obtain cache where "new_QueryResultCacheReader C now (qrc_cache (wo_qrc w)) key = Inr (r, cache)"
      using r by (auto simp: createReader_def res_Inr_iff)
    then show ?thesis
      using that Some found chs tx ex mem
      by (elim reader_found) (auto simp: served_from_def source_rows_def extras_match_def qrc_types_def qkey_ident_def split: if_splits)
  qed
  then show ?thesis
    using r i by blast
qed

end

section \<open>Properties\<close>

text \<open>C1: The query result cache from end to end: after any history of writers, readers, clearing and changes of the
  configuration, interleaved in any order and with any mix of squashing, compression, quotas and eviction,
  opening a reader does not throw, and if it has a source, then one writer of the history had a key with
  the same query that the reader may read and that has not expired, and the source gives, column by
  column and in their order, the rows that writer was given for the result, the totals and the extremes.\<close>

theorem cached_result_correct:
  assumes "lz4_lossless Z" and "reachable (vcol_ops k Z reserved) (vcol_good k) (\<lambda>_. ()) kinds w"
  shows "\<exists>r q. createReader (vcol_ops k Z reserved) now key (wo_qrc w) = Inr (r, q) \<and> (hasCacheEntryForKey r \<longrightarrow>
    (\<exists>i < length (wo_writers w). served_from vcol_values kinds now key r (w_key (wo_writers w ! i)) (wo_log w ! i)))"
  by (rule vec.reader_serves [OF assms])

theorem cached_result_correct_witness:
  "\<exists>(w :: (unit, nat, vcol) world) r q. length (wo_writers w) = 1
     \<and> createReader (vcol_ops 1 \<lparr>LZ4_COMPRESSBOUND = id, LZ4_compress_default = (\<lambda>bs n. None), LZ4_decompress_safe = (\<lambda>bs n. None)\<rparr> (\<lambda>_. 0))
         10 \<lparr>ast_hash = (1, 2), key_header = (), user_id = Some 5, current_user_roles = [6], is_shared = False, created_at = 3,
            expires_at = 20, is_compressed = True, query_string = ''q'', query_id = ''i'', key_tag = [], is_subquery = False\<rparr> (wo_qrc w)
         = Inr (r, q)
     \<and> source_rows vcol_values 0 (r_source r) = [1, 7, 7] \<and> source_rows vcol_values 0 (r_source_totals r) = [8]"
proof -
  let ?Z = "\<lparr>LZ4_COMPRESSBOUND = id, LZ4_compress_default = (\<lambda>bs n. None), LZ4_decompress_safe = (\<lambda>bs n. None)\<rparr>"
  define C where "C = vcol_ops 1 ?Z (\<lambda>_. 0)"
  let ?key = "\<lparr>ast_hash = (1, 2), key_header = (), user_id = Some (5 :: nat), current_user_roles = [6], is_shared = False, created_at = 3,
       expires_at = 20, is_compressed = True, query_string = ''q'', query_id = ''i'', key_tag = [], is_subquery = False\<rparr>"
  let ?evs = "[CreateWriter 4 ?key 0 False 2 0 0, BufferChunk 0 \<lparr>chunk_columns = [ColumnVector [1, 7]], chunk_num_rows = 2\<rparr> Result,
       BufferChunk 0 \<lparr>chunk_columns = [ColumnConst 7 1], chunk_num_rows = 1\<rparr> Result,
       BufferChunk 0 \<lparr>chunk_columns = [ColumnConst 8 1], chunk_num_rows = 1\<rparr> Totals, PrepareWrite 0 5, StoreEntry 0 6]"
  let ?w = "the (run_history C ?evs (new_world 100 5 100 100))"
  note defs = vcol_ops_def new_world_def new_QueryResultCache_def updateConfiguration_def on_state_def
    new_CacheBase_def ttl_setMaxCount_def ttl_setMaxSizeInBytes_def new_TTLCachePolicy_def createWriter_def new_QueryResultCacheWriter_def
    cache_getWithKey_ttl ttl_find_def new_Entry_def cache_setQuotaForUser_def ttl_setQuotaForUser_def copy_QueryResultCacheWriter_def
    writer_buffer_def chunk_empty_def buffer_squashed_def materialize_def removeSpecialColumnRepresentations_def convertToFullIfConst_def
    chunk_setColumns_def checkNumRowsIsConsistent_def chunk_of_def chunk_consistent_def finalize_prepare_def duration_in_milliseconds_def
    found_live_def shape_chunks_def setQuotaForUser_def usage_def increaseActual_def approveWrite_def EntryWeight_def count_rows_in_chunks_def chunk_allocatedBytes_def with_cache_def
    finalize_store_def cache_set_ttl ttl_set_def ttl_fits_def ttl_insert_def qrc_types_def qkey_ident_def
    sufficient_space_in_cache_def sufficient_space_in_cache_for_user_def ttl_count_def Let_def new_user_quota_def chunk_create_def
  have ok: "history_ok C (vcol_good 1) (\<lambda>_. ()) (\<lambda>_. [()]) (new_world 100 5 100 100) ?evs"
    by (simp add: C_def defs)
  obtain w where w: "run_history C ?evs (new_world 100 5 100 100) = Some w" "reachable C (vcol_good 1) (\<lambda>_. ()) (\<lambda>_. [()]) w"
    using reachable_run [OF reachable.start ok] by blast
  have has: "length (wo_writers w) = 1" "column_of vcol_values 0 (logged Result (wo_log w ! 0)) = [1, 7, 7]"
    "column_of vcol_values 0 (logged Totals (wo_log w ! 0)) = [8]"
    "\<And>r q. createReader C 10 ?key (wo_qrc w) = Inr (r, q) \<Longrightarrow> hasCacheEntryForKey r"
    using w(1)
    by (auto simp: C_def defs createReader_def new_QueryResultCacheReader_def is_same_user_id_def IsStale_def buildSourceFromChunks_def
        source_of_optional_def chunk_clone_def hasCacheEntryForKey_def logged_def column_rows_def)
  obtain r q where r: "createReader C 10 ?key (wo_qrc w) = Inr (r, q)"
    "hasCacheEntryForKey r \<longrightarrow> served_from vcol_values (\<lambda>_. [()]) 10 ?key r (w_key (wo_writers w ! 0)) (wo_log w ! 0)"
    using cached_result_correct [OF _ w(2) [unfolded C_def], of 10 ?key] has(1) by (auto simp: lz4_lossless_def C_def)
  show ?thesis
    using r has unfolding C_def by (intro exI [of _ w] exI [of _ r] exI [of _ q]) (simp add: served_from_def)
qed

end
