(* ===== verification/Spec2Isabelle.thy ===== *)
theory Spec2Isabelle
  imports
    IO_ReadInt
    IO_Itoa
    IO_VarInt
    IO_Binary
    MergeTree_PartInfo
    MergeTree_Covering
    MergeTree_ActiveParts
    MergeTree_DropRanges
    MergeTree_MarkRanges
    Compression_Codec
    Compression_Delta
    Compression_GCD
    Compression_Multiple
    Cache_Policy
    Cache_LRU
    Cache_SLRU
    Cache_SLRU_Spec
    Cache_Base
    Cache_GetOrSet
    Cache_Loads
    Cache_TTL
    Hash_SipHash
    Columns_Chunk
    Columns_Filter
    Columns_Count
    HashTable_Probing
    HashTable_Resize
    HashTable_Erase
    HashTable
    HashTable_Map
    HashTable_History
    HashTable_Serial
    Distinct_Set
    Distinct_Transform
    QueryCache_Squash
    QueryCache
    QueryCache_History
begin

text \<open>
  \<^bold>\<open>A verification library for chDB.\<close>

  chDB is an in-process build of the ClickHouse engine.  This library models components of the
  engine as HOL functions and proves the properties that make them correct.  Paths are relative to
  the repository root \<^verbatim>\<open>src/\<close>.

  \<^bold>\<open>Text and binary input/output.\<close>
  \<^item> \<^verbatim>\<open>IO_ReadInt\<close>: the integer parser of \<^verbatim>\<open>src/src/IO/readIntText.h\<close> over the checked arithmetic of
    \<^verbatim>\<open>src/base/base/arithmeticOverflow.h\<close>.
  \<^item> \<^verbatim>\<open>IO_Itoa\<close>: the integer printer of \<^verbatim>\<open>src/base/base/itoa.cpp\<close>.
  \<^item> \<^verbatim>\<open>IO_VarInt\<close>: variable-length integers, \<^verbatim>\<open>src/src/IO/VarInt.h\<close>.
  \<^item> \<^verbatim>\<open>IO_Binary\<close>: fixed-width integers, strings and booleans of \<^verbatim>\<open>src/src/IO/ReadHelpers.h\<close> and
    \<^verbatim>\<open>WriteHelpers.h\<close>.

  \<^bold>\<open>Storage.\<close>
  \<^item> \<^verbatim>\<open>MergeTree_PartInfo\<close>: descriptions, names and relations of data parts,
    \<^verbatim>\<open>src/src/Storages/MergeTree/MergeTreePartInfo.cpp\<close>.
\<close>

end
